(* ===== verification/Prelude.thy ===== *)
theory Prelude
  imports Main "HOL-Library.Word"
begin

text \<open>
  The vocabulary every component shares: the machine integers of the Rust sources, the values
  of \<^verbatim>\<open>std::task::Poll\<close> and of \<^verbatim>\<open>windows::core::Error\<close>, the saturating arithmetic of
  \<^verbatim>\<open>usize\<close>, the little-endian byte images of integers (every Windows target is
  little-endian), and the list lemmas the component proofs rest on.

  A \<^verbatim>\<open>windows::core::Result\<close> is a sum with the error on the left. An error is represented by
  its \<^verbatim>\<open>HRESULT\<close>, the value \<^verbatim>\<open>Error::code\<close> returns, which is all the sources look at.
  The conversion of a Win32 code to an \<^verbatim>\<open>HRESULT\<close> is code of the \<^verbatim>\<open>windows\<close> crate, so the
  definitions that call it take it as an argument, and \<open>hresult_conv\<close> states the
  documented law of \<^verbatim>\<open>HRESULT_FROM_WIN32\<close> for the codes the sources use.
\<close>

unbundle bit_operations_syntax

named_theorems codes_defs
  \<open>numeric values of the Windows error codes\<close>

named_theorems wf_simps
  \<open>unfolding of well-formedness predicates\<close>

type_synonym u8 = "8 word"
type_synonym u16 = "16 word"
type_synonym u32 = "32 word"
type_synonym u64 = "64 word"

type_synonym hresult = u32

datatype 'a poll = Pending | Ready 'a

text \<open>A call that may panic: \<open>None\<close> is the panic.\<close>

type_synonym 'a may_panic = "'a option"

subsection \<open>Sizes\<close>

abbreviation usize_max :: nat where
  "usize_max \<equiv> 2 ^ 64 - 1"

abbreviation u64_max :: nat where
  "u64_max \<equiv> 2 ^ 64 - 1"

abbreviation u32_max :: nat where
  "u32_max \<equiv> 2 ^ 32 - 1"

definition saturating_add :: "nat \<Rightarrow> nat \<Rightarrow> nat" where
  "saturating_add a b = min (a + b) usize_max"

lemma saturating_add_exact [simp]: "a + b \<le> usize_max \<Longrightarrow> saturating_add a b = a + b"
  by (simp add: saturating_add_def)

lemma saturating_add_mono: "a \<le> usize_max \<Longrightarrow> a \<le> saturating_add a b"
  by (simp add: saturating_add_def)

lemma saturating_add_le: "saturating_add a b \<le> a + b"
  by (simp add: saturating_add_def)

subsection \<open>Win32 codes and HRESULTs\<close>

definition hresult_conv :: "(u32 \<Rightarrow> hresult) \<Rightarrow> bool" where
  "hresult_conv hr \<longleftrightarrow> (\<forall>c. 0 < unat c \<and> unat c < 65536 \<longrightarrow> hr c = 0x80070000 OR c)"

definition hr_win32 :: "u32 \<Rightarrow> hresult" where
  "hr_win32 c = (if c = 0 \<or> bit c 31 then c else (c AND 0xFFFF) OR 0x80070000)"

lemma low16_id: "unat (c::u32) < 65536 \<Longrightarrow> c AND 0xFFFF = c"
  using less_mask_eq [of c 16] by (simp add: mask_eq_exp_minus_1 word_less_nat_alt)

lemma small_code_positive: "unat (c::u32) < 65536 \<Longrightarrow> \<not> bit c 31"
proof -
  assume "unat c < 65536"
  then have "bit c 31 = bit (c AND 0xFFFF) 31" by (simp add: low16_id)
  then show ?thesis by (simp add: bit_simps)
qed

lemma hr_win32_conv: "hresult_conv hr_win32"
  unfolding hresult_conv_def hr_win32_def
  using small_code_positive low16_id by (auto simp: or.commute)

subsection \<open>Little-endian images\<close>

definition le_bytes16 :: "u16 \<Rightarrow> u8 list" where
  "le_bytes16 w = [ucast w, ucast (drop_bit 8 w)]"

definition from_le16 :: "u8 list \<Rightarrow> u16" where
  "from_le16 bs = (case bs of [a, b] \<Rightarrow> ucast a OR push_bit 8 (ucast b) | _ \<Rightarrow> 0)"

definition le_bytes32 :: "u32 \<Rightarrow> u8 list" where
  "le_bytes32 w = [ucast w, ucast (drop_bit 8 w), ucast (drop_bit 16 w), ucast (drop_bit 24 w)]"

definition from_le32 :: "u8 list \<Rightarrow> u32" where
  "from_le32 bs = (case bs of [a, b, c, d] \<Rightarrow>
       ucast a OR push_bit 8 (ucast b) OR push_bit 16 (ucast c) OR push_bit 24 (ucast d)
     | _ \<Rightarrow> 0)"

definition to_be16 :: "u16 \<Rightarrow> u16" where
  "to_be16 w = from_le16 (rev (le_bytes16 w))"

definition to_be32 :: "u32 \<Rightarrow> u32" where
  "to_be32 w = from_le32 (rev (le_bytes32 w))"

lemma length_le_bytes [simp]: "length (le_bytes16 w) = 2" "length (le_bytes32 v) = 4"
  by (simp_all add: le_bytes16_def le_bytes32_def)

lemma from_le16_le_bytes16 [simp]: "from_le16 (le_bytes16 w) = w"
  by (rule bit_word_eqI)
    (auto simp: from_le16_def le_bytes16_def bit_simps dest: bit_imp_le_length)

lemma from_le32_le_bytes32 [simp]: "from_le32 (le_bytes32 w) = w"
proof (rule bit_word_eqI)
  fix n
  assume "n < LENGTH(32)"
  then show "bit (from_le32 (le_bytes32 w)) n = bit w n"
    by (cases "n < 8"; cases "n < 16"; cases "n < 24")
      (auto simp: from_le32_def le_bytes32_def bit_simps)
qed

lemma le_bytes16_from_le16:
  "le_bytes16 (from_le16 [a, b]) = [a, b]"
  unfolding from_le16_def le_bytes16_def list.case
  by (intro list.inject [THEN iffD2] conjI bit_word_eqI) (auto simp: bit_simps dest: bit_imp_le_length)

lemma le_bytes32_from_le32:
  "le_bytes32 (from_le32 [a, b, c, d]) = [a, b, c, d]"
  unfolding from_le32_def le_bytes32_def list.case
  by (intro list.inject [THEN iffD2] conjI bit_word_eqI) (auto simp: bit_simps dest: bit_imp_le_length)

lemma to_be16_invol [simp]: "to_be16 (to_be16 w) = w"
proof -
  obtain a b where ab: "le_bytes16 w = [a, b]" by (simp add: le_bytes16_def)
  then have "to_be16 (to_be16 w) = from_le16 (le_bytes16 w)"
    by (simp add: to_be16_def le_bytes16_from_le16)
  then show ?thesis by simp
qed

lemma to_be32_invol [simp]: "to_be32 (to_be32 w) = w"
proof -
  obtain a b c d where abcd: "le_bytes32 w = [a, b, c, d]" by (simp add: le_bytes32_def)
  then have "to_be32 (to_be32 w) = from_le32 (le_bytes32 w)"
    by (simp add: to_be32_def le_bytes32_from_le32)
  then show ?thesis by simp
qed

subsection \<open>Lists\<close>

text \<open>\<open>overwrite xs i ys\<close> is \<open>xs\<close> with \<open>ys\<close> stored from index \<open>i\<close> on: a copy into memory.\<close>

definition overwrite :: "'a list \<Rightarrow> nat \<Rightarrow> 'a list \<Rightarrow> 'a list" where
  "overwrite xs i ys = take i xs @ ys @ drop (i + length ys) xs"

lemma length_overwrite [simp]:
  "i + length ys \<le> length xs \<Longrightarrow> length (overwrite xs i ys) = length xs"
  by (simp add: overwrite_def)

lemma take_overwrite [simp]: "i \<le> length xs \<Longrightarrow> take i (overwrite xs i ys) = take i xs"
  by (simp add: overwrite_def)

lemma overwrite_zero: "overwrite xs 0 ys = ys @ drop (length ys) xs"
  by (simp add: overwrite_def)

lemma take_overwrite_past:
  "i \<le> length xs \<Longrightarrow> take (i + length ys) (overwrite xs i ys) = take i xs @ ys"
  by (simp add: overwrite_def)

lemma take_overwrite_zero [simp]: "n = length ys \<Longrightarrow> take n (overwrite xs 0 ys) = ys"
  by (simp add: overwrite_def)

lemma take_overwrite_le:
  "i \<le> length xs \<Longrightarrow> n \<le> length ys \<Longrightarrow> take (i + n) (overwrite xs i ys) = take i xs @ take n ys"
  by (simp add: overwrite_def)

text \<open>\<^verbatim>\<open>iter().position(p)\<close>: the index of the first element that satisfies \<open>p\<close>.\<close>

fun iter_position :: "('a \<Rightarrow> bool) \<Rightarrow> 'a list \<Rightarrow> nat option" where
  "iter_position p [] = None"
| "iter_position p (x # xs) = (if p x then Some 0 else map_option Suc (iter_position p xs))"

lemma iter_position_None: "iter_position p xs = None \<longleftrightarrow> (\<forall>x \<in> set xs. \<not> p x)"
  by (induction xs) auto

lemma iter_position_Some:
  "iter_position p xs = Some i \<Longrightarrow> i < length xs \<and> p (xs ! i) \<and> (\<forall>j < i. \<not> p (xs ! j))"
proof (induction xs arbitrary: i)
  case Nil
  then show ?case by simp
next
  case (Cons x xs)
  show ?case
  proof (cases "p x")
    case True
    with Cons.prems show ?thesis by simp
  next
    case False
    with Cons.prems obtain j where j: "iter_position p xs = Some j" "i = Suc j" by auto
    with Cons.IH [OF j(1)] False show ?thesis
      by (auto simp: less_Suc_eq_0_disj)
  qed
qed

lemma iter_position_append:
  "(\<forall>x \<in> set xs. \<not> p x) \<Longrightarrow> iter_position p (xs @ ys) = map_option (\<lambda>i. length xs + i) (iter_position p ys)"
  by (induction xs; cases "iter_position p ys") auto

lemma iter_position_replicate: "p x \<Longrightarrow> iter_position p (replicate n x) = (if n = 0 then None else Some 0)"
  by (cases n) auto

end
