(* ===== verification/Net_Addr.thy ===== *)
theory Net_Addr
  imports Prelude
begin

text \<open>
  Socket addresses: \<^verbatim>\<open>net/unix_addr.rs\<close> (the validated \<^verbatim>\<open>AF_UNIX\<close> address and its four
  entry points) and \<^verbatim>\<open>net/addr.rs\<close> (the \<^verbatim>\<open>SOCKADDR_STORAGE\<close> images Winsock reads and
  writes, for IPv4, IPv6 and \<^verbatim>\<open>AF_UNIX\<close>). A \<^verbatim>\<open>SOCKADDR_STORAGE\<close> is a list of 128 bytes; a
  structure written into it is its byte image in the order the C declaration gives its
  fields. The theorems show that what the encoders write is what the decoders read, that a
  foreign family is refused, and that the kernel's lengths are clamped.
\<close>

section \<open>Unix addresses\<close>

definition UNIX_PATH_MAX :: nat where
  "UNIX_PATH_MAX = 108"

datatype UnixSocketAddrError =
    PathTooLong nat nat
  | NotUtf8
  | InteriorNul nat

record UnixSocketAddr =
  path :: "u8 list"
  ulen :: nat

definition unnamed :: UnixSocketAddr where
  "unnamed = \<lparr>path = replicate UNIX_PATH_MAX 0, ulen = 0\<rparr>"

definition as_bytes :: "UnixSocketAddr \<Rightarrow> u8 list" where
  "as_bytes a = take (ulen a) (path a)"

definition is_unnamed :: "UnixSocketAddr \<Rightarrow> bool" where
  "is_unnamed a \<longleftrightarrow> ulen a = 0"

definition from_bytes :: "u8 list \<Rightarrow> UnixSocketAddrError + UnixSocketAddr" where
  "from_bytes bytes =
     (if length bytes > UNIX_PATH_MAX then Inl (PathTooLong (length bytes) UNIX_PATH_MAX)
      else case iter_position (\<lambda>b. b = 0) bytes of
          Some i \<Rightarrow> Inl (InteriorNul i)
        | None \<Rightarrow> Inr \<lparr>path = overwrite (replicate UNIX_PATH_MAX 0) 0 bytes, ulen = length bytes\<rparr>)"

text \<open>
  \<^verbatim>\<open>from_pathname\<close> first asks the path for its UTF-8 form. A \<^verbatim>\<open>Path\<close> is platform data; what
  \<^verbatim>\<open>Path::to_str\<close> returns for it, the text's bytes or nothing, is the argument.
\<close>

definition from_pathname :: "u8 list option \<Rightarrow> UnixSocketAddrError + UnixSocketAddr" where
  "from_pathname to_str = (case to_str of None \<Rightarrow> Inl NotUtf8 | Some bytes \<Rightarrow> from_bytes bytes)"

definition from_sun_path :: "u8 list \<Rightarrow> nat \<Rightarrow> UnixSocketAddr" where
  "from_sun_path slot available =
     (let bound = min available UNIX_PATH_MAX;
          len = (case iter_position (\<lambda>b. b = 0) (take bound slot) of Some i \<Rightarrow> i | None \<Rightarrow> bound)
      in \<lparr>path = slot, ulen = len\<rparr>)"

text \<open>\<^verbatim>\<open>std::str::from_utf8\<close> is passed in as \<open>utf8\<close>: the text of a valid byte sequence.\<close>

definition as_pathname :: "(u8 list \<Rightarrow> 'str option) \<Rightarrow> UnixSocketAddr \<Rightarrow> 'str option" where
  "as_pathname utf8 a = (if is_unnamed a then None else utf8 (as_bytes a))"

definition unix_eq :: "UnixSocketAddr \<Rightarrow> UnixSocketAddr \<Rightarrow> bool" where
  "unix_eq a b \<longleftrightarrow> as_bytes a = as_bytes b"

definition wf_unix :: "UnixSocketAddr \<Rightarrow> bool" where
  "wf_unix a \<longleftrightarrow> length (path a) = UNIX_PATH_MAX \<and> ulen a \<le> UNIX_PATH_MAX \<and> 0 \<notin> set (as_bytes a)"

section \<open>Sockaddr images\<close>

datatype SocketAddr =
    V4 "u8 list" u16
  | V6 "u8 list" u16 u32 u32

definition AF_INET :: u16 where "AF_INET = 2"
definition AF_INET6 :: u16 where "AF_INET6 = 23"
definition AF_UNIX_FAMILY :: u16 where "AF_UNIX_FAMILY = 1"

text \<open>Sizes of \<^verbatim>\<open>SOCKADDR_STORAGE\<close>, \<^verbatim>\<open>SOCKADDR\<close>, \<^verbatim>\<open>SOCKADDR_IN\<close>, \<^verbatim>\<open>SOCKADDR_IN6\<close> and \<^verbatim>\<open>SOCKADDR_UN\<close>.\<close>

abbreviation sizeof_storage :: nat where "sizeof_storage \<equiv> 128"
abbreviation sizeof_sockaddr :: nat where "sizeof_sockaddr \<equiv> 16"
abbreviation sizeof_in :: nat where "sizeof_in \<equiv> 16"
abbreviation sizeof_in6 :: nat where "sizeof_in6 \<equiv> 28"
abbreviation sizeof_un :: nat where "sizeof_un \<equiv> 110"

record SockAddrBytes =
  storage :: "u8 list"
  salen :: int

definition zeroed :: SockAddrBytes where
  "zeroed = \<lparr>storage = replicate sizeof_storage 0, salen = int sizeof_storage\<rparr>"

definition sockaddr_in :: "u8 list \<Rightarrow> u16 \<Rightarrow> u8 list" where
  "sockaddr_in ip port = le_bytes16 AF_INET @ le_bytes16 (to_be16 port) @ ip @ replicate 8 0"

definition sockaddr_in6 :: "u8 list \<Rightarrow> u16 \<Rightarrow> u32 \<Rightarrow> u32 \<Rightarrow> u8 list" where
  "sockaddr_in6 ip port flowinfo scope_id =
     le_bytes16 AF_INET6 @ le_bytes16 (to_be16 port) @ le_bytes32 (to_be32 flowinfo) @ ip
       @ le_bytes32 scope_id"

definition from_socket_addr :: "SocketAddr \<Rightarrow> SockAddrBytes" where
  "from_socket_addr addr =
     (let zero = replicate sizeof_storage 0 in
      case addr of
        V4 ip port \<Rightarrow>
          \<lparr>storage = overwrite zero 0 (sockaddr_in ip port), salen = int sizeof_in\<rparr>
      | V6 ip port flowinfo scope_id \<Rightarrow>
          \<lparr>storage = overwrite zero 0 (sockaddr_in6 ip port flowinfo scope_id),
           salen = int sizeof_in6\<rparr>)"

definition family :: "SockAddrBytes \<Rightarrow> u16" where
  "family s = from_le16 (take 2 (storage s))"

definition decode :: "u8 list \<Rightarrow> u16 \<Rightarrow> SocketAddr option" where
  "decode st fam =
     (if fam = AF_INET then
        Some (V4 (take 4 (drop 4 st)) (to_be16 (from_le16 (take 2 (drop 2 st)))))
      else if fam = AF_INET6 then
        Some (V6 (take 16 (drop 8 st)) (to_be16 (from_le16 (take 2 (drop 2 st))))
                 (to_be32 (from_le32 (take 4 (drop 4 st)))) (from_le32 (take 4 (drop 24 st))))
      else None)"

definition to_socket_addr :: "SockAddrBytes \<Rightarrow> SocketAddr option" where
  "to_socket_addr s = decode (storage s) (from_le16 (take 2 (storage s)))"

definition from_unix_addr :: "UnixSocketAddr \<Rightarrow> SockAddrBytes" where
  "from_unix_addr a =
     (let sun_path = overwrite (replicate UNIX_PATH_MAX 0) 0 (take UNIX_PATH_MAX (as_bytes a))
      in \<lparr>storage = overwrite (replicate sizeof_storage 0) 0 (le_bytes16 AF_UNIX_FAMILY @ sun_path),
          salen = int sizeof_un\<rparr>)"

definition decode_unix :: "u8 list \<Rightarrow> int \<Rightarrow> UnixSocketAddr" where
  "decode_unix st reported =
     (let slot = take UNIX_PATH_MAX (drop 2 st);
          available = nat (max reported 0) - 2
      in from_sun_path slot available)"

definition to_unix_addr :: "SockAddrBytes \<Rightarrow> UnixSocketAddr option" where
  "to_unix_addr s =
     (if family s \<noteq> AF_UNIX_FAMILY then None else Some (decode_unix (storage s) (salen s)))"

text \<open>
  \<^verbatim>\<open>copy_from_raw\<close> reads \<open>len\<close> bytes at a pointer the kernel filled: \<open>None\<close> is the null pointer,
  \<open>Some mem\<close> the bytes that follow a valid one.
\<close>

definition copy_from_raw :: "u8 list option \<Rightarrow> int \<Rightarrow> SockAddrBytes option" where
  "copy_from_raw ptr len =
     (case ptr of
        None \<Rightarrow> None
      | Some mem \<Rightarrow>
          if len < int sizeof_sockaddr then None
          else let copy = min (nat len) sizeof_storage
               in Some \<lparr>storage = overwrite (replicate sizeof_storage 0) 0 (take copy mem),
                        salen = int copy\<rparr>)"

definition family_of :: "SocketAddr \<Rightarrow> u16" where
  "family_of addr = (case addr of V4 _ _ \<Rightarrow> AF_INET | V6 _ _ _ _ \<Rightarrow> AF_INET6)"

definition wildcard_for :: "SocketAddr \<Rightarrow> SocketAddr" where
  "wildcard_for addr =
     (case addr of V4 _ _ \<Rightarrow> V4 [0, 0, 0, 0] 0 | V6 _ _ _ _ \<Rightarrow> V6 (replicate 16 0) 0 0 0)"

definition wf_addr :: "SocketAddr \<Rightarrow> bool" where
  "wf_addr addr = (case addr of V4 ip _ \<Rightarrow> length ip = 4 | V6 ip _ _ _ \<Rightarrow> length ip = 16)"

definition wf_storage :: "SockAddrBytes \<Rightarrow> bool" where
  "wf_storage s \<longleftrightarrow> length (storage s) = sizeof_storage"

lemmas addr_wf [wf_simps] = wf_unix_def wf_addr_def wf_storage_def

section \<open>Laws of the Unix address\<close>

lemma from_bytes_Inr:
  "from_bytes bs = Inr a \<longleftrightarrow>
     length bs \<le> UNIX_PATH_MAX \<and> 0 \<notin> set bs \<and>
     a = \<lparr>path = bs @ replicate (UNIX_PATH_MAX - length bs) 0, ulen = length bs\<rparr>"
  using iter_position_None [of "\<lambda>b. b = 0" bs]
  by (cases "iter_position (\<lambda>b. b = 0) bs") (auto simp: from_bytes_def overwrite_zero split: if_splits)

lemma from_bytes_wf: "from_bytes bs = Inr a \<Longrightarrow> wf_unix a \<and> as_bytes a = bs"
  by (auto simp: from_bytes_Inr wf_unix_def as_bytes_def)

lemma as_bytes_from_sun_path:
  assumes "length slot = UNIX_PATH_MAX"
  shows "as_bytes (from_sun_path slot n) = takeWhile (\<lambda>b. b \<noteq> 0) (take n slot)"
proof (cases "iter_position (\<lambda>b. b = 0) (take (min n UNIX_PATH_MAX) slot)")
  case None
  then have "\<forall>x \<in> set (take n slot). x \<noteq> 0"
    using assms by (auto simp: iter_position_None min_def split: if_splits)
  then have "takeWhile (\<lambda>b. b \<noteq> 0) (take n slot) = take n slot"
    by (simp add: takeWhile_eq_all_conv)
  then have "take n slot = takeWhile (\<lambda>b. b \<noteq> 0) (take n slot)"
    by (rule sym)
  moreover have "take (min n UNIX_PATH_MAX) slot = take n slot"
    using assms by (simp add: min_def)
  ultimately show ?thesis
    using None by (simp only: from_sun_path_def as_bytes_def Let_def option.case
        UnixSocketAddr.select_convs)
next
  case (Some i)
  have "take (min n UNIX_PATH_MAX) slot = take n slot" using assms by (simp add: min_def)
  with Some have i: "i < length (take n slot)" "take n slot ! i = 0"
    "\<forall>j < i. take n slot ! j \<noteq> 0"
    by (auto dest: iter_position_Some)
  then have "takeWhile (\<lambda>b. b \<noteq> 0) (take n slot) = take i (take n slot)"
    by (intro takeWhile_eq_take_P_nth) auto
  moreover from i(1) have "take i (take n slot) = take i slot" by simp
  ultimately show ?thesis
    using Some by (simp add: from_sun_path_def as_bytes_def)
qed

lemma from_sun_path_wf:
  assumes "length slot = UNIX_PATH_MAX"
  shows "wf_unix (from_sun_path slot n)"
proof -
  have "0 \<notin> set (as_bytes (from_sun_path slot n))"
    by (auto simp: as_bytes_from_sun_path [OF assms] dest: set_takeWhileD)
  moreover have "ulen (from_sun_path slot n) \<le> UNIX_PATH_MAX"
    by (auto simp: from_sun_path_def Let_def split: option.splits dest!: iter_position_Some)
  ultimately show ?thesis
    using assms by (simp add: wf_unix_def from_sun_path_def Let_def)
qed

lemma takeWhile_padded:
  "0 \<notin> set bs \<Longrightarrow> takeWhile (\<lambda>b. b \<noteq> 0) (bs @ replicate n (0::u8)) = bs"
  by (cases n) (auto simp: takeWhile_tail)

section \<open>Laws of the images\<close>

lemma wf_as_bytes [simp]: "wf_unix a \<Longrightarrow> length (as_bytes a) = ulen a"
  by (auto simp: wf_unix_def as_bytes_def)

lemma storage_from_unix_addr:
  "wf_unix a \<Longrightarrow> storage (from_unix_addr a) =
     le_bytes16 AF_UNIX_FAMILY @ as_bytes a @ replicate (sizeof_storage - 2 - ulen a) 0"
  by (auto simp: from_unix_addr_def Let_def overwrite_zero wf_unix_def UNIX_PATH_MAX_def
      simp flip: replicate_add)

lemma families_distinct [simp]:
  "AF_INET \<noteq> AF_INET6" "AF_INET \<noteq> AF_UNIX_FAMILY" "AF_INET6 \<noteq> AF_UNIX_FAMILY"
  "AF_INET6 \<noteq> AF_INET" "AF_UNIX_FAMILY \<noteq> AF_INET" "AF_UNIX_FAMILY \<noteq> AF_INET6"
  by (simp_all add: AF_INET_def AF_INET6_def AF_UNIX_FAMILY_def)

lemma family_from_unix_addr: "wf_unix a \<Longrightarrow> family (from_unix_addr a) = AF_UNIX_FAMILY"
  by (simp add: family_def storage_from_unix_addr)

lemma family_from_socket_addr: "family (from_socket_addr a) = family_of a"
  by (cases a) (simp_all add: family_def from_socket_addr_def family_of_def overwrite_zero
      sockaddr_in_def sockaddr_in6_def)

lemma unix_image_decodes:
  assumes "wf_unix a"
  shows "\<exists>b. to_unix_addr (from_unix_addr a) = Some b \<and> unix_eq a b"
proof -
  let ?pad = "replicate (UNIX_PATH_MAX - ulen a) (0::u8)"
  have slot: "take UNIX_PATH_MAX (drop 2 (storage (from_unix_addr a))) = as_bytes a @ ?pad"
    using assms by (simp add: storage_from_unix_addr wf_unix_def UNIX_PATH_MAX_def)
  have len: "salen (from_unix_addr a) = int sizeof_un"
    by (simp add: from_unix_addr_def Let_def)
  have bnd: "ulen a \<le> UNIX_PATH_MAX" "0 \<notin> set (as_bytes a)"
    using assms by (auto simp: wf_unix_def)
  have "decode_unix (storage (from_unix_addr a)) (salen (from_unix_addr a)) =
      from_sun_path (as_bytes a @ ?pad) UNIX_PATH_MAX"
    by (simp add: decode_unix_def slot len) (simp add: UNIX_PATH_MAX_def)
  then have "as_bytes (decode_unix (storage (from_unix_addr a)) (salen (from_unix_addr a))) = as_bytes a"
    using assms bnd by (simp add: as_bytes_from_sun_path takeWhile_padded)
  then show ?thesis
    by (simp add: to_unix_addr_def family_from_unix_addr [OF assms] unix_eq_def)
qed

lemma inet_image_decodes: "wf_addr a \<Longrightarrow> to_socket_addr (from_socket_addr a) = Some a"
  by (cases a) (simp_all add: to_socket_addr_def from_socket_addr_def decode_def overwrite_zero
      sockaddr_in_def sockaddr_in6_def wf_addr_def)

text \<open>
  What the two codecs promise their callers. \<open>same\<close> is the equality the Rust type implements:
  plain equality for \<^verbatim>\<open>SocketAddr\<close>, equality of the written bytes for \<^verbatim>\<open>UnixSocketAddr\<close>.
\<close>

locale sockaddr_codec =
  fixes enc :: "'a \<Rightarrow> SockAddrBytes"
    and dec :: "SockAddrBytes \<Rightarrow> 'a option"
    and wf :: "'a \<Rightarrow> bool"
    and same :: "'a \<Rightarrow> 'a \<Rightarrow> bool"
  assumes round_trip: "wf a \<Longrightarrow> \<exists>b. dec (enc a) = Some b \<and> same a b"
    and image_length: "wf a \<Longrightarrow> length (storage (enc a)) = sizeof_storage"
    and reported_length: "wf a \<Longrightarrow> int sizeof_sockaddr \<le> salen (enc a) \<and> salen (enc a) \<le> int sizeof_storage"
    and zero_tail: "wf a \<Longrightarrow> drop (nat (salen (enc a))) (storage (enc a)) =
                      replicate (sizeof_storage - nat (salen (enc a))) 0"
begin

text \<open>
  An address the kernel hands back as a pointer and a length, with unrelated bytes after it,
  is copied into the very image the encoder built.
\<close>

lemma copied_image:
  assumes "wf a"
  shows "copy_from_raw (Some (take (nat (salen (enc a))) (storage (enc a)) @ junk)) (salen (enc a))
           = Some (enc a)"
proof -
  let ?n = "nat (salen (enc a))"
  have n: "16 \<le> ?n" "?n \<le> sizeof_storage" "salen (enc a) = int ?n"
    using reported_length [OF assms] by auto
  have "take ?n (storage (enc a)) @ replicate (sizeof_storage - ?n) 0 = storage (enc a)"
    using append_take_drop_id [of ?n "storage (enc a)"] by (simp add: zero_tail [OF assms])
  then show ?thesis
    using n image_length [OF assms]
    by (auto simp: copy_from_raw_def overwrite_zero Let_def min_def)
qed

lemma copied_round_trip:
  "wf a \<Longrightarrow> \<exists>s b. copy_from_raw (Some (take (nat (salen (enc a))) (storage (enc a)) @ junk))
       (salen (enc a)) = Some s \<and> dec s = Some b \<and> same a b"
  using copied_image round_trip by blast

end

interpretation inet: sockaddr_codec from_socket_addr to_socket_addr wf_addr "(=)"
proof unfold_locales
  fix a :: SocketAddr
  assume "wf_addr a"
  then show "\<exists>b. to_socket_addr (from_socket_addr a) = Some b \<and> a = b"
    by (simp add: inet_image_decodes)
next
  fix a
  assume a: "wf_addr a"
  then show "length (storage (from_socket_addr a)) = sizeof_storage"
    by (cases a) (simp_all add: from_socket_addr_def wf_addr_def overwrite_zero sockaddr_in_def
        sockaddr_in6_def)
  show "int sizeof_sockaddr \<le> salen (from_socket_addr a) \<and> salen (from_socket_addr a) \<le> int sizeof_storage"
    by (cases a) (simp_all add: from_socket_addr_def)
  from a show "drop (nat (salen (from_socket_addr a))) (storage (from_socket_addr a)) =
      replicate (sizeof_storage - nat (salen (from_socket_addr a))) 0"
    by (cases a) (simp_all add: from_socket_addr_def wf_addr_def overwrite_zero sockaddr_in_def
        sockaddr_in6_def)
qed

interpretation unix: sockaddr_codec from_unix_addr to_unix_addr wf_unix unix_eq
proof unfold_locales
  fix a
  assume "wf_unix a"
  then show "\<exists>b. to_unix_addr (from_unix_addr a) = Some b \<and> unix_eq a b"
    by (rule unix_image_decodes)
next
  fix a
  assume a: "wf_unix a"
  then show "length (storage (from_unix_addr a)) = sizeof_storage"
    by (simp add: storage_from_unix_addr wf_unix_def UNIX_PATH_MAX_def)
  show "int sizeof_sockaddr \<le> salen (from_unix_addr a) \<and> salen (from_unix_addr a) \<le> int sizeof_storage"
    by (simp add: from_unix_addr_def Let_def)
  from a show "drop (nat (salen (from_unix_addr a))) (storage (from_unix_addr a)) =
      replicate (sizeof_storage - nat (salen (from_unix_addr a))) 0"
    by (simp add: storage_from_unix_addr) (simp add: from_unix_addr_def Let_def wf_unix_def
        UNIX_PATH_MAX_def)
qed

section \<open>Properties\<close>

text \<open>
  \<^verbatim>\<open>UnixSocketAddr::from_bytes\<close> accepts exactly the byte strings of at most 108
  bytes without a NUL; what it accepts is well formed and gives its bytes back; a longer string
  is \<^verbatim>\<open>PathTooLong\<close> with the actual and the maximal length, and otherwise the error is
  \<^verbatim>\<open>InteriorNul\<close> at the first NUL.
\<close>

theorem from_bytes_validates:
  "case from_bytes bs of
     Inr a \<Rightarrow> length bs \<le> 108 \<and> 0 \<notin> set bs \<and> wf_unix a \<and> as_bytes a = bs
   | Inl (PathTooLong len mx) \<Rightarrow> length bs > 108 \<and> len = length bs \<and> mx = 108
   | Inl (InteriorNul i) \<Rightarrow> length bs \<le> 108 \<and> i < length bs \<and> bs ! i = 0 \<and> 0 \<notin> set (take i bs)
   | Inl NotUtf8 \<Rightarrow> False"
proof (cases "length bs > 108")
  case True
  then show ?thesis by (simp add: from_bytes_def UNIX_PATH_MAX_def)
next
  case len: False
  show ?thesis
  proof (cases "iter_position (\<lambda>b. b = 0) bs")
    case None
    with len obtain a where a: "from_bytes bs = Inr a"
      by (simp add: from_bytes_def UNIX_PATH_MAX_def)
    moreover from a have "0 \<notin> set bs" by (simp add: from_bytes_Inr)
    ultimately show ?thesis
      using len from_bytes_wf [OF a] by simp
  next
    case (Some i)
    then have "i < length bs" "bs ! i = 0" "0 \<notin> set (take i bs)"
      using iter_position_Some [OF Some] by (auto simp: in_set_conv_nth)
    with len Some show ?thesis
      by (simp add: from_bytes_def UNIX_PATH_MAX_def)
  qed
qed

text \<open>
  An \<^verbatim>\<open>AF_UNIX\<close> address survives Winsock: the \<^verbatim>\<open>SOCKADDR_UN\<close> image of a
  well-formed address decodes to an address with the same bytes, also after the kernel has
  handed it back by pointer and length with unrelated bytes behind it.
\<close>

theorem unix_addr_round_trip:
  assumes "wf_unix a"
  shows "\<exists>b. to_unix_addr (from_unix_addr a) = Some b \<and> unix_eq a b \<and> wf_unix b \<and>
           copy_from_raw (Some (take sizeof_un (storage (from_unix_addr a)) @ junk)) (int sizeof_un)
             = Some (from_unix_addr a)"
proof -
  have len: "salen (from_unix_addr a) = int sizeof_un"
    by (simp add: from_unix_addr_def Let_def)
  obtain b where b: "to_unix_addr (from_unix_addr a) = Some b" "unix_eq a b"
    using unix.round_trip [OF assms] by blast
  then have "b = decode_unix (storage (from_unix_addr a)) (salen (from_unix_addr a))"
    by (simp add: to_unix_addr_def split: if_splits)
  then have "wf_unix b"
    using unix.image_length [OF assms] from_sun_path_wf
    by (simp add: decode_unix_def Let_def UNIX_PATH_MAX_def)
  with b unix.copied_image [OF assms, of junk] show ?thesis by (simp add: len)
qed

theorem unix_addr_round_trip_witness:
  "\<exists>a b. from_bytes [0x43, 0x3A] = Inr a \<and> wf_unix a \<and>
         to_unix_addr (from_unix_addr a) = Some b \<and> unix_eq a b"
proof -
  let ?a = "\<lparr>path = [0x43, 0x3A] @ replicate 106 0, ulen = 2\<rparr> :: UnixSocketAddr"
  have a: "from_bytes [0x43, 0x3A] = Inr ?a"
    by (simp add: from_bytes_Inr UNIX_PATH_MAX_def)
  then have "wf_unix ?a" using from_bytes_wf by blast
  with a unix_addr_round_trip [of ?a "[]"] show ?thesis by blast
qed

text \<open>
  Property C19. Whatever bytes the kernel leaves in the storage and whatever length it reports,
  decoding an \<^verbatim>\<open>AF_UNIX\<close> image yields a well-formed address whose bytes are those of
  \<^verbatim>\<open>sun_path\<close> up to the first NUL and never past the reported length, so re-validating them
  succeeds with an equal address.
\<close>

theorem to_unix_addr_validates:
  assumes "wf_storage s" and "family s = AF_UNIX_FAMILY"
  shows "\<exists>a b. to_unix_addr s = Some a \<and> wf_unix a \<and>
      as_bytes a = takeWhile (\<lambda>c. c \<noteq> 0) (take (nat (salen s) - 2) (take 108 (drop 2 (storage s)))) \<and>
      from_bytes (as_bytes a) = Inr b \<and> unix_eq a b"
proof -
  let ?slot = "take UNIX_PATH_MAX (drop 2 (storage s))"
  let ?a = "from_sun_path ?slot (nat (max (salen s) 0) - 2)"
  have slot: "length ?slot = UNIX_PATH_MAX"
    using assms(1) by (simp add: wf_storage_def UNIX_PATH_MAX_def)
  have wf: "wf_unix ?a" using from_sun_path_wf [OF slot] .
  have "nat (max (salen s) 0) = nat (salen s)" by simp
  then have bytes: "as_bytes ?a = takeWhile (\<lambda>c. c \<noteq> 0) (take (nat (salen s) - 2) ?slot)"
    using as_bytes_from_sun_path [OF slot] by simp
  obtain b where b: "from_bytes (as_bytes ?a) = Inr b"
    using wf by (auto simp: from_bytes_Inr wf_unix_def)
  then have "unix_eq ?a b" by (simp add: unix_eq_def from_bytes_wf)
  with b wf bytes assms(2) show ?thesis
    by (auto simp: to_unix_addr_def decode_unix_def UNIX_PATH_MAX_def)
qed

theorem to_unix_addr_validates_witness:
  "\<exists>a. to_unix_addr \<lparr>storage = [1, 0, 0x61, 0x62] @ replicate 124 0x63, salen = 4\<rparr> = Some a \<and>
       as_bytes a = [0x61, 0x62]"
proof -
  let ?s = "\<lparr>storage = [1, 0, 0x61, 0x62] @ replicate 124 0x63, salen = 4\<rparr> :: SockAddrBytes"
  have h: "wf_storage ?s" "family ?s = AF_UNIX_FAMILY"
    by (simp_all add: wf_storage_def family_def AF_UNIX_FAMILY_def from_le16_def)
  have "take (nat (salen ?s) - 2) (take 108 (drop 2 (storage ?s))) = [0x61, 0x62]"
    by (simp add: numeral_eq_Suc)
  with to_unix_addr_validates [OF h] show ?thesis by auto
qed

text \<open>
  An IPv4 or IPv6 address survives the \<^verbatim>\<open>SOCKADDR\<close> image: port and flow label
  are stored in network order and read back, and a copy of the image by pointer and reported
  length is the image itself.
\<close>

theorem socket_addr_round_trip:
  assumes "wf_addr a"
  shows "to_socket_addr (from_socket_addr a) = Some a \<and>
     copy_from_raw (Some (take (nat (salen (from_socket_addr a))) (storage (from_socket_addr a)) @ junk))
       (salen (from_socket_addr a)) = Some (from_socket_addr a)"
  using inet_image_decodes [OF assms] inet.copied_image [OF assms] by simp

theorem socket_addr_round_trip_witness:
  "wf_addr (V4 [127, 0, 0, 1] 8080) \<and>
   to_socket_addr (from_socket_addr (V4 [127, 0, 0, 1] 8080)) = Some (V4 [127, 0, 0, 1] 8080)"
proof -
  have h: "wf_addr (V4 [127, 0, 0, 1] 8080)" by (simp add: wf_addr_def)
  show ?thesis using h socket_addr_round_trip [OF h] by simp
qed

text \<open>
  The families cannot be confused: an internet address never decodes as a Unix
  one, a Unix address never decodes as an internet one, and the wildcard an internet socket is
  bound to before connecting has the family of its target.
\<close>

theorem families_not_confused:
  assumes "wf_unix u"
  shows "to_unix_addr (from_socket_addr a) = None \<and> to_socket_addr (from_unix_addr u) = None \<and>
         family_of (wildcard_for a) = family_of a \<and> family (from_socket_addr a) = family_of a"
proof -
  have "to_unix_addr (from_socket_addr a) = None"
    by (cases a) (simp_all add: to_unix_addr_def family_from_socket_addr family_of_def)
  moreover have "to_socket_addr (from_unix_addr u) = None"
    using family_from_unix_addr [OF assms]
    by (simp add: to_socket_addr_def decode_def family_def)
  ultimately show ?thesis
    by (cases a) (simp_all add: family_from_socket_addr family_of_def wildcard_for_def)
qed

theorem families_not_confused_witness:
  "wf_unix unnamed \<and> to_socket_addr (from_unix_addr unnamed) = None \<and>
   to_unix_addr (from_socket_addr (V6 (replicate 16 0) 80 0 0)) = None"
proof -
  have h: "wf_unix unnamed" by (simp add: wf_unix_def unnamed_def as_bytes_def)
  show ?thesis using h families_not_confused [OF h] by simp
qed

end
