(* ===== verification/Buf.thy ===== *)
theory Buf
  imports Prelude
begin

text \<open>
  Owned I/O buffers: \<^verbatim>\<open>iocp/buf.rs\<close> and the \<^verbatim>\<open>TailBuf\<close> adapter of \<^verbatim>\<open>io.rs\<close>.
  Memory is one map from addresses to bytes; \<open>None\<close> is an uninitialised byte. A buffer value
  holds an address and sizes only, so that moving it moves no byte, and Windows writes to the
  map. The traits \<^verbatim>\<open>IoBuf\<close> and \<^verbatim>\<open>IoBufMut\<close> are records of their methods, passed to the generic code as
  Rust passes an implementation; their safety contracts are the locale \<open>io_buf_mut\<close>, which is
  discharged for \<^verbatim>\<open>Vec<u8>\<close>, \<^verbatim>\<open>Box<[u8]>\<close> and, for every buffer that satisfies it, for
  \<^verbatim>\<open>TailBuf\<close>.
\<close>

section \<open>Memory\<close>

type_synonym mem = "nat \<Rightarrow> u8 option"

definition mem_write :: "mem \<Rightarrow> nat \<Rightarrow> u8 list \<Rightarrow> mem" where
  "mem_write m p bs = (\<lambda>a. if p \<le> a \<and> a < p + length bs then Some (bs ! (a - p)) else m a)"

definition mem_load :: "mem \<Rightarrow> nat \<Rightarrow> nat \<Rightarrow> u8 option list" where
  "mem_load m p n = map m [p..<p + n]"

definition init_range :: "mem \<Rightarrow> nat \<Rightarrow> nat \<Rightarrow> bool" where
  "init_range m p n \<longleftrightarrow> list_all (\<lambda>a. m a \<noteq> None) [p..<p + n]"

lemma mem_write_Nil: "mem_write m p [] = m"
  by (rule ext) (auto simp: mem_write_def)

lemma init_range_iff: "init_range m p n \<longleftrightarrow> (\<forall>i < n. m (p + i) \<noteq> None)"
proof
  assume "init_range m p n"
  then show "\<forall>i < n. m (p + i) \<noteq> None" by (auto simp: init_range_def list_all_iff)
next
  assume h: "\<forall>i < n. m (p + i) \<noteq> None"
  show "init_range m p n"
    unfolding init_range_def list_all_iff
  proof
    fix a assume "a \<in> set [p..<p + n]"
    then have "a = p + (a - p)" "a - p < n" by auto
    with h show "m a \<noteq> None" by metis
  qed
qed

lemma init_range_0 [simp]: "init_range m p 0"
  by (simp add: init_range_def)

lemma length_mem_load [simp]: "length (mem_load m p n) = n"
  by (simp add: mem_load_def)

lemma nth_mem_load [simp]: "i < n \<Longrightarrow> mem_load m p n ! i = m (p + i)"
  by (simp add: mem_load_def)

lemma mem_load_split: "mem_load m p (a + b) = mem_load m p a @ mem_load m (p + a) b"
  using upt_add_eq_append [of p "p + a" b] by (simp add: mem_load_def add.assoc)

lemma mem_load_zero [simp]: "mem_load m p 0 = []"
  by (simp add: mem_load_def)

lemma mem_load_write_same: "mem_load (mem_write m p bs) p (length bs) = map Some bs"
  by (rule nth_equalityI) (simp_all add: mem_write_def)

lemma mem_load_write_below: "p + n \<le> q \<Longrightarrow> mem_load (mem_write m q bs) p n = mem_load m p n"
  by (rule nth_equalityI) (simp_all add: mem_write_def)

lemma mem_load_write_append:
  "mem_load (mem_write m (p + k) bs) p (k + length bs) = mem_load m p k @ map Some bs"
  by (simp add: mem_load_split mem_load_write_below mem_load_write_same)

lemma init_range_write: "init_range m p n \<Longrightarrow> init_range (mem_write m q bs) p n"
  by (simp add: init_range_iff mem_write_def)

lemma init_range_written: "n \<le> length bs \<Longrightarrow> init_range (mem_write m p bs) p n"
  by (simp add: init_range_iff mem_write_def)

lemma init_range_le: "init_range m p n \<Longrightarrow> k \<le> n \<Longrightarrow> init_range m p k"
  by (simp add: init_range_iff)

lemma init_range_add: "init_range m p (a + b) \<longleftrightarrow> init_range m p a \<and> init_range m (p + a) b"
proof
  assume "init_range m p (a + b)"
  then show "init_range m p a \<and> init_range m (p + a) b"
    by (auto simp: init_range_iff add.assoc)
next
  assume h: "init_range m p a \<and> init_range m (p + a) b"
  show "init_range m p (a + b)"
    unfolding init_range_iff
  proof (intro allI impI)
    fix i assume "i < a + b"
    show "m (p + i) \<noteq> None"
    proof (cases "i < a")
      case True
      with h show ?thesis by (simp add: init_range_iff)
    next
      case False
      then have "p + i = (p + a) + (i - a)" "i - a < b" using \<open>i < a + b\<close> by auto
      with h show ?thesis by (metis init_range_iff)
    qed
  qed
qed

section \<open>Regions\<close>

record UninitSlice =
  us_ptr :: nat
  us_len :: nat

definition is_empty :: "UninitSlice \<Rightarrow> bool" where
  "is_empty u \<longleftrightarrow> us_len u = 0"

text \<open>\<^verbatim>\<open>slice_mut\<close> panics like \<^verbatim>\<open>&mut self.0[start..end]\<close>.\<close>

definition slice_mut :: "UninitSlice \<Rightarrow> nat \<Rightarrow> nat \<Rightarrow> UninitSlice may_panic" where
  "slice_mut u start fin =
     (if start \<le> fin \<and> fin \<le> us_len u then Some \<lparr>us_ptr = us_ptr u + start, us_len = fin - start\<rparr>
      else None)"

section \<open>The buffer traits and their implementations\<close>

record 'b IoBuf =
  stable_ptr :: "'b \<Rightarrow> nat"
  bytes_init :: "'b \<Rightarrow> nat"

record 'b IoBufMut = "'b IoBuf" +
  as_uninit :: "'b \<Rightarrow> UninitSlice may_panic"
  set_init :: "'b \<Rightarrow> nat \<Rightarrow> 'b may_panic"

definition bytes_total :: "'b IoBufMut \<Rightarrow> 'b \<Rightarrow> nat may_panic" where
  "bytes_total D b = map_option us_len (as_uninit D b)"

record vec =
  vptr :: nat
  vcap :: nat
  vlen :: nat

definition vec_IoBufMut :: "vec IoBufMut" where
  "vec_IoBufMut =
     \<lparr>stable_ptr = vptr,
      bytes_init = vlen,
      as_uninit = (\<lambda>v. Some \<lparr>us_ptr = vptr v, us_len = vcap v\<rparr>),
      set_init = (\<lambda>v len. if len \<le> vcap v then Some (v\<lparr>vlen := len\<rparr>) else None)\<rparr>"

record boxed =
  bptr :: nat
  blen :: nat

definition boxed_IoBufMut :: "boxed IoBufMut" where
  "boxed_IoBufMut =
     \<lparr>stable_ptr = bptr,
      bytes_init = blen,
      as_uninit = (\<lambda>b. Some \<lparr>us_ptr = bptr b, us_len = blen b\<rparr>),
      set_init = (\<lambda>b len. Some b)\<rparr>"

text \<open>A \<^verbatim>\<open>&'static [u8]\<close> is an \<^verbatim>\<open>IoBuf\<close> only.\<close>

record static_slice =
  sptr :: nat
  slen :: nat

definition static_IoBuf :: "static_slice IoBuf" where
  "static_IoBuf = \<lparr>stable_ptr = sptr, bytes_init = slen\<rparr>"

record 'b TailBuf =
  inner :: 'b
  offset :: nat
  limit :: nat

definition tail_new :: "'b \<Rightarrow> nat \<Rightarrow> nat \<Rightarrow> 'b TailBuf" where
  "tail_new b off lim = \<lparr>inner = b, offset = off, limit = lim\<rparr>"

definition tail_stable_ptr :: "('b, 'z) IoBuf_scheme \<Rightarrow> 'b TailBuf \<Rightarrow> nat" where
  "tail_stable_ptr D t = (stable_ptr D (inner t) + offset t) mod 2 ^ 64"

definition tail_bytes_init :: "('b, 'z) IoBuf_scheme \<Rightarrow> 'b TailBuf \<Rightarrow> nat" where
  "tail_bytes_init D t = min (bytes_init D (inner t) - offset t) (limit t)"

definition tail_as_uninit :: "'b IoBufMut \<Rightarrow> 'b TailBuf \<Rightarrow> UninitSlice may_panic" where
  "tail_as_uninit D t =
     (case as_uninit D (inner t) of
        None \<Rightarrow> None
      | Some whole \<Rightarrow>
          let start = min (offset t) (us_len whole);
              fin = min (saturating_add start (limit t)) (us_len whole)
          in slice_mut whole start fin)"

text \<open>
  \<^verbatim>\<open>self.offset + len\<close> is the one unchecked addition: it panics in a debug build when it passes
  \<^verbatim>\<open>usize::MAX\<close>.
\<close>

definition tail_set_init :: "'b IoBufMut \<Rightarrow> 'b TailBuf \<Rightarrow> nat \<Rightarrow> 'b TailBuf may_panic" where
  "tail_set_init D t len =
     (case tail_as_uninit D t of
        None \<Rightarrow> None
      | Some u \<Rightarrow>
          let n = min len (us_len u)
          in if offset t + n > usize_max then None
             else map_option (\<lambda>b. t\<lparr>inner := b\<rparr>) (set_init D (inner t) (offset t + n)))"

definition tail_IoBuf :: "('b, 'z) IoBuf_scheme \<Rightarrow> 'b TailBuf IoBuf" where
  "tail_IoBuf D = \<lparr>stable_ptr = tail_stable_ptr D, bytes_init = tail_bytes_init D\<rparr>"

definition tail_IoBufMut :: "'b IoBufMut \<Rightarrow> 'b TailBuf IoBufMut" where
  "tail_IoBufMut D =
     \<lparr>stable_ptr = tail_stable_ptr D, bytes_init = tail_bytes_init D,
      as_uninit = tail_as_uninit D, set_init = tail_set_init D\<rparr>"

section \<open>The contract\<close>

text \<open>
  The safety sections of the two traits. \<open>valid\<close> says which values of the type occur: an
  allocation never passes the end of the address space.
\<close>

locale io_buf_mut =
  fixes D :: "'b IoBufMut"
    and valid :: "'b \<Rightarrow> bool"
  assumes region: "valid b \<Longrightarrow> \<exists>u. as_uninit D b = Some u \<and> us_ptr u = stable_ptr D b \<and>
                     us_ptr u + us_len u \<le> usize_max \<and> bytes_init D b \<le> us_len u"
    and publish: "valid b \<Longrightarrow> as_uninit D b = Some u \<Longrightarrow> n \<le> us_len u \<Longrightarrow>
                    \<exists>b'. set_init D b n = Some b' \<and> valid b' \<and> as_uninit D b' = Some u \<and>
                         n \<le> bytes_init D b' \<and> bytes_init D b' \<le> max n (bytes_init D b)"
begin

lemma stable: "valid b \<Longrightarrow> as_uninit D b = Some u \<Longrightarrow> n \<le> us_len u \<Longrightarrow>
    set_init D b n = Some b' \<Longrightarrow> stable_ptr D b' = stable_ptr D b"
  using region publish by (metis option.inject)

text \<open>
  Publishing a prefix that has been written keeps every readable byte initialised: the
  invariant the whole crate's use of \<^verbatim>\<open>set_init\<close> rests on.
\<close>

lemma publish_initialised:
  assumes "valid b" "as_uninit D b = Some u" "n \<le> us_len u" "set_init D b n = Some b'"
    and "init_range m (us_ptr u) (bytes_init D b)" "init_range m (us_ptr u) n"
  shows "init_range m (stable_ptr D b') (bytes_init D b')"
proof -
  have b': "bytes_init D b' \<le> max n (bytes_init D b)"
    using publish [OF assms(1-3)] assms(4) by auto
  have "init_range m (us_ptr u) (max n (bytes_init D b))"
    using assms(5,6) by (simp add: max_def)
  then have "init_range m (us_ptr u) (bytes_init D b')"
    using b' by (rule init_range_le)
  moreover have "us_ptr u = stable_ptr D b'"
    using stable [OF assms(1-4)] region [OF assms(1)] assms(2) by auto
  ultimately show ?thesis by simp
qed

definition valid_tail :: "'b TailBuf \<Rightarrow> bool" where
  "valid_tail t \<longleftrightarrow> valid (inner t) \<and> limit t \<le> usize_max \<and>
     (\<exists>u. as_uninit D (inner t) = Some u \<and> offset t \<le> us_len u)"

lemma tail_region:
  assumes "valid (inner t)" "as_uninit D (inner t) = Some u" "offset t \<le> us_len u"
    and "limit t \<le> usize_max"
  shows "tail_as_uninit D t =
     Some \<lparr>us_ptr = us_ptr u + offset t, us_len = min (limit t) (us_len u - offset t)\<rparr>"
proof -
  have "us_len u \<le> usize_max" using region [OF assms(1)] assms(2) by auto
  with assms show ?thesis
    by (auto simp: tail_as_uninit_def slice_mut_def saturating_add_def Let_def min_def)
qed

lemma tail_contract: "io_buf_mut (tail_IoBufMut D) valid_tail"
proof
  fix t
  assume t: "valid_tail t"
  then obtain u where u: "as_uninit D (inner t) = Some u" "offset t \<le> us_len u"
    "us_ptr u = stable_ptr D (inner t)" "us_ptr u + us_len u \<le> usize_max"
    "bytes_init D (inner t) \<le> us_len u"
    using region by (fastforce simp: valid_tail_def)
  let ?r = "\<lparr>us_ptr = us_ptr u + offset t, us_len = min (limit t) (us_len u - offset t)\<rparr>"
  have r: "tail_as_uninit D t = Some ?r"
    using tail_region t u by (simp add: valid_tail_def)
  have ptr: "tail_stable_ptr D t = us_ptr u + offset t"
    using u by (simp add: tail_stable_ptr_def)
  show "\<exists>v. as_uninit (tail_IoBufMut D) t = Some v \<and> us_ptr v = stable_ptr (tail_IoBufMut D) t \<and>
      us_ptr v + us_len v \<le> usize_max \<and> bytes_init (tail_IoBufMut D) t \<le> us_len v"
    using r u ptr by (auto simp: tail_IoBufMut_def tail_bytes_init_def)
  fix v n
  assume v: "as_uninit (tail_IoBufMut D) t = Some v" and n: "n \<le> us_len v"
  have vr: "v = ?r" using v r by (simp add: tail_IoBufMut_def)
  have on: "offset t + n \<le> us_len u" using n u by (auto simp: vr)
  obtain b' where b': "set_init D (inner t) (offset t + n) = Some b'" "valid b'"
    "as_uninit D b' = Some u" "offset t + n \<le> bytes_init D b'"
    "bytes_init D b' \<le> max (offset t + n) (bytes_init D (inner t))"
    using publish [OF _ u(1) on] t by (auto simp: valid_tail_def)
  let ?t = "t\<lparr>inner := b'\<rparr>"
  have "set_init (tail_IoBufMut D) t n = Some ?t"
    using b' r n on u by (auto simp: tail_IoBufMut_def tail_set_init_def vr)
  moreover have "valid_tail ?t" using t b' u by (auto simp: valid_tail_def)
  moreover have "as_uninit (tail_IoBufMut D) ?t = Some v"
    using tail_region [of ?t u] b' u t by (simp add: tail_IoBufMut_def valid_tail_def vr)
  moreover have "n \<le> bytes_init (tail_IoBufMut D) ?t"
    using b' n by (auto simp: tail_IoBufMut_def tail_bytes_init_def vr)
  moreover have "bytes_init (tail_IoBufMut D) ?t \<le> max n (bytes_init (tail_IoBufMut D) t)"
    using b' n by (auto simp: tail_IoBufMut_def tail_bytes_init_def vr max_def min_def split: if_splits)
  ultimately show "\<exists>t'. set_init (tail_IoBufMut D) t n = Some t' \<and> valid_tail t' \<and>
      as_uninit (tail_IoBufMut D) t' = Some v \<and> n \<le> bytes_init (tail_IoBufMut D) t' \<and>
      bytes_init (tail_IoBufMut D) t' \<le> max n (bytes_init (tail_IoBufMut D) t)"
    by blast
qed

end

definition valid_vec :: "vec \<Rightarrow> bool" where
  "valid_vec v \<longleftrightarrow> vlen v \<le> vcap v \<and> vptr v + vcap v \<le> usize_max"

definition valid_boxed :: "boxed \<Rightarrow> bool" where
  "valid_boxed b \<longleftrightarrow> bptr b + blen b \<le> usize_max"

interpretation vec: io_buf_mut vec_IoBufMut valid_vec
  by unfold_locales (auto simp: vec_IoBufMut_def valid_vec_def)

interpretation boxed: io_buf_mut boxed_IoBufMut valid_boxed
  by unfold_locales (auto simp: boxed_IoBufMut_def valid_boxed_def)

interpretation vec_tail: io_buf_mut "tail_IoBufMut vec_IoBufMut" vec.valid_tail
  by (rule vec.tail_contract)

interpretation boxed_tail: io_buf_mut "tail_IoBufMut boxed_IoBufMut" boxed.valid_tail
  by (rule boxed.tail_contract)

end
