(* ===== verification/Errors.thy ===== *)
theory Errors
  imports Prelude
begin

text \<open>
  Error vocabularies and the classifiers between them: \<^verbatim>\<open>fs/error.rs\<close>, \<^verbatim>\<open>fs/outcome.rs\<close>,
  \<^verbatim>\<open>net/error.rs\<close>, \<^verbatim>\<open>net/outcome.rs\<close>, \<^verbatim>\<open>winhttp/error.rs\<close>, \<^verbatim>\<open>httpsys/error.rs\<close>, the
  registration errors of \<^verbatim>\<open>iocp/port.rs\<close> and the transfer errors of \<^verbatim>\<open>io.rs\<close>. The numeric
  codes are those of \<^verbatim>\<open>winerror.h\<close>, \<^verbatim>\<open>winsock2.h\<close> and \<^verbatim>\<open>winhttp.h\<close>.
\<close>

section \<open>Codes\<close>

abbreviation (input) ERROR_FILE_NOT_FOUND :: u32 where "ERROR_FILE_NOT_FOUND \<equiv> 2"
abbreviation (input) ERROR_PATH_NOT_FOUND :: u32 where "ERROR_PATH_NOT_FOUND \<equiv> 3"
abbreviation (input) ERROR_ACCESS_DENIED :: u32 where "ERROR_ACCESS_DENIED \<equiv> 5"
abbreviation (input) ERROR_HANDLE_EOF :: u32 where "ERROR_HANDLE_EOF \<equiv> 38"
abbreviation (input) ERROR_UNEXP_NET_ERR :: u32 where "ERROR_UNEXP_NET_ERR \<equiv> 59"
abbreviation (input) ERROR_NETNAME_DELETED :: u32 where "ERROR_NETNAME_DELETED \<equiv> 64"
abbreviation (input) ERROR_INVALID_PARAMETER :: u32 where "ERROR_INVALID_PARAMETER \<equiv> 87"
abbreviation (input) ERROR_BROKEN_PIPE :: u32 where "ERROR_BROKEN_PIPE \<equiv> 109"
abbreviation (input) ERROR_SEM_TIMEOUT :: u32 where "ERROR_SEM_TIMEOUT \<equiv> 121"
abbreviation (input) ERROR_INVALID_NAME :: u32 where "ERROR_INVALID_NAME \<equiv> 123"
abbreviation (input) ERROR_BUSY :: u32 where "ERROR_BUSY \<equiv> 170"
abbreviation (input) ERROR_FILENAME_EXCED_RANGE :: u32 where "ERROR_FILENAME_EXCED_RANGE \<equiv> 206"
abbreviation (input) ERROR_PIPE_BUSY :: u32 where "ERROR_PIPE_BUSY \<equiv> 231"
abbreviation (input) ERROR_NO_DATA :: u32 where "ERROR_NO_DATA \<equiv> 232"
abbreviation (input) ERROR_PIPE_NOT_CONNECTED :: u32 where "ERROR_PIPE_NOT_CONNECTED \<equiv> 233"
abbreviation (input) ERROR_MORE_DATA :: u32 where "ERROR_MORE_DATA \<equiv> 234"
abbreviation (input) WAIT_TIMEOUT_CODE :: u32 where "WAIT_TIMEOUT_CODE \<equiv> 258"
abbreviation (input) ERROR_PIPE_CONNECTED :: u32 where "ERROR_PIPE_CONNECTED \<equiv> 535"
abbreviation (input) ERROR_OPERATION_ABORTED :: u32 where "ERROR_OPERATION_ABORTED \<equiv> 995"
abbreviation (input) ERROR_IO_PENDING :: u32 where "ERROR_IO_PENDING \<equiv> 997"
abbreviation (input) ERROR_CONNECTION_REFUSED :: u32 where "ERROR_CONNECTION_REFUSED \<equiv> 1225"
abbreviation (input) ERROR_NETWORK_UNREACHABLE :: u32 where "ERROR_NETWORK_UNREACHABLE \<equiv> 1231"
abbreviation (input) ERROR_HOST_UNREACHABLE :: u32 where "ERROR_HOST_UNREACHABLE \<equiv> 1232"
abbreviation (input) ERROR_CONNECTION_ABORTED :: u32 where "ERROR_CONNECTION_ABORTED \<equiv> 1236"
abbreviation (input) WSAEACCES :: u32 where "WSAEACCES \<equiv> 10013"
abbreviation (input) WSAEADDRINUSE :: u32 where "WSAEADDRINUSE \<equiv> 10048"
abbreviation (input) WSAEADDRNOTAVAIL :: u32 where "WSAEADDRNOTAVAIL \<equiv> 10049"
abbreviation (input) WSAENETUNREACH :: u32 where "WSAENETUNREACH \<equiv> 10051"
abbreviation (input) WSAENETRESET :: u32 where "WSAENETRESET \<equiv> 10052"
abbreviation (input) WSAECONNABORTED :: u32 where "WSAECONNABORTED \<equiv> 10053"
abbreviation (input) WSAECONNRESET :: u32 where "WSAECONNRESET \<equiv> 10054"
abbreviation (input) WSAESHUTDOWN :: u32 where "WSAESHUTDOWN \<equiv> 10058"
abbreviation (input) WSAETIMEDOUT :: u32 where "WSAETIMEDOUT \<equiv> 10060"
abbreviation (input) WSAECONNREFUSED :: u32 where "WSAECONNREFUSED \<equiv> 10061"
abbreviation (input) WSAEHOSTUNREACH :: u32 where "WSAEHOSTUNREACH \<equiv> 10065"
abbreviation (input) WSAEDISCON :: u32 where "WSAEDISCON \<equiv> 10101"
abbreviation (input) ERROR_WINHTTP_TIMEOUT :: u32 where "ERROR_WINHTTP_TIMEOUT \<equiv> 12002"
abbreviation (input) ERROR_WINHTTP_NAME_NOT_RESOLVED :: u32 where "ERROR_WINHTTP_NAME_NOT_RESOLVED \<equiv> 12007"
abbreviation (input) ERROR_WINHTTP_OPERATION_CANCELLED :: u32 where "ERROR_WINHTTP_OPERATION_CANCELLED \<equiv> 12017"
abbreviation (input) ERROR_WINHTTP_INCORRECT_HANDLE_STATE :: u32 where "ERROR_WINHTTP_INCORRECT_HANDLE_STATE \<equiv> 12019"
abbreviation (input) ERROR_WINHTTP_CANNOT_CONNECT :: u32 where "ERROR_WINHTTP_CANNOT_CONNECT \<equiv> 12029"
abbreviation (input) ERROR_WINHTTP_CONNECTION_ERROR :: u32 where "ERROR_WINHTTP_CONNECTION_ERROR \<equiv> 12030"
abbreviation (input) ERROR_WINHTTP_HEADER_NOT_FOUND :: u32 where "ERROR_WINHTTP_HEADER_NOT_FOUND \<equiv> 12150"
abbreviation (input) ERROR_WINHTTP_INVALID_SERVER_RESPONSE :: u32 where "ERROR_WINHTTP_INVALID_SERVER_RESPONSE \<equiv> 12152"
abbreviation (input) ERROR_WINHTTP_SECURE_FAILURE :: u32 where "ERROR_WINHTTP_SECURE_FAILURE \<equiv> 12175"

text \<open>The three copies of \<^verbatim>\<open>win32_code\<close> in the crate are the same function.\<close>

definition win32_code :: "hresult \<Rightarrow> u32 option" where
  "win32_code raw = (if drop_bit 16 raw = 0x8007 then Some (raw AND 0xFFFF) else None)"

text \<open>\<^verbatim>\<open>httpsys/error.rs\<close>: \<open>check\<close> turns the code an HTTP Server API call returns into a result.\<close>

definition check :: "(u32 \<Rightarrow> hresult) \<Rightarrow> u32 \<Rightarrow> hresult + unit" where
  "check hr code = (if code = 0 then Inr () else Inl (hr code))"

lemma win32_code_image:
  assumes "hresult_conv hr" and "0 < unat c" and "unat c < 65536"
  shows "win32_code (hr c) = Some c"
proof -
  have c: "c AND 0xFFFF = c" using assms(3) by (rule low16_id)
  have "drop_bit 16 c = drop_bit 16 (c AND 0xFFFF)" by (simp only: c)
  also have "\<dots> = 0" by (rule bit_word_eqI) (simp add: bit_simps)
  finally have "drop_bit 16 c = 0" .
  moreover have "(0x80070000 OR c) AND 0xFFFF = c"
    by (simp add: word_ao_dist c)
  ultimately show ?thesis
    using assms by (simp add: win32_code_def hresult_conv_def)
qed

lemma win32_code_inverse:
  assumes "win32_code e = Some c"
  shows "e = 0x80070000 OR c"
proof (rule bit_word_eqI)
  fix n
  assume n: "n < LENGTH(32)"
  from assms have d: "drop_bit 16 e = 0x8007" and c: "c = e AND 0xFFFF"
    by (auto simp: win32_code_def split: if_splits)
  show "bit e n = bit (0x80070000 OR c) n"
  proof (cases "n < 16")
    case True
    have "bit (0xFFFF :: u32) n" using True bit_mask_iff [of 16 n, where 'a = "32 word"]
      by (simp add: mask_eq_exp_minus_1)
    moreover have "\<not> bit (0x80070000 :: u32) n"
      using True by (simp add: less_Suc_eq numeral_eq_Suc) (auto simp: bit_simps)
    ultimately show ?thesis by (simp add: c bit_simps)
  next
    case False
    then have shift: "bit (drop_bit 16 w) (n - 16) = bit w n" for w :: u32
      by (simp add: bit_simps)
    have "drop_bit 16 e = drop_bit 16 (0x80070000 :: u32)" by (simp add: d)
    then have "bit e n = bit (0x80070000 :: u32) n" using shift by metis
    moreover have "\<not> bit (0xFFFF :: u32) n"
      using False bit_mask_iff [of 16 n, where 'a = "32 word"] by (simp add: mask_eq_exp_minus_1)
    ultimately show ?thesis by (auto simp: c bit_simps)
  qed
qed

lemma win32_code_iff:
  assumes "hresult_conv hr" and "0 < unat c" and "unat c < 65536"
  shows "win32_code e = Some c \<longleftrightarrow> e = hr c"
  using win32_code_inverse [of e c] win32_code_image [OF assms] assms
  by (auto simp: hresult_conv_def)

lemma hresult_conv_inj:
  assumes "hresult_conv hr" "0 < unat c" "unat c < 65536" "0 < unat d" "unat d < 65536"
  shows "hr c = hr d \<longleftrightarrow> c = d"
  using win32_code_image [OF assms(1-3)] win32_code_image [OF assms(1,4,5)] by (metis option.inject)

section \<open>Registration\<close>

datatype RegistrationError =
    AlreadyRegistered hresult
  | SkipModeUnsupported hresult
  | Os hresult

definition from_association :: "(u32 \<Rightarrow> hresult) \<Rightarrow> hresult \<Rightarrow> RegistrationError" where
  "from_association hr err = (if err = hr ERROR_INVALID_PARAMETER then AlreadyRegistered err else Os err)"

definition as_error :: "RegistrationError \<Rightarrow> hresult" where
  "as_error r = (case r of AlreadyRegistered e \<Rightarrow> e | SkipModeUnsupported e \<Rightarrow> e | Os e \<Rightarrow> e)"

section \<open>Files and pipes\<close>

datatype SetupError =
    SetupNotFound | SetupBusy | SetupAccessDenied | SetupInvalidName | SetupAlreadyRegistered
  | SetupWin32 hresult

definition setup_from_windows :: "hresult \<Rightarrow> SetupError" where
  "setup_from_windows err =
     (case win32_code err of
        Some code \<Rightarrow>
          if code = ERROR_FILE_NOT_FOUND \<or> code = ERROR_PATH_NOT_FOUND then SetupNotFound
          else if code = ERROR_PIPE_BUSY then SetupBusy
          else if code = ERROR_ACCESS_DENIED then SetupAccessDenied
          else if code = ERROR_INVALID_NAME \<or> code = ERROR_FILENAME_EXCED_RANGE then SetupInvalidName
          else SetupWin32 err
      | None \<Rightarrow> SetupWin32 err)"

definition setup_from_registration :: "RegistrationError \<Rightarrow> SetupError" where
  "setup_from_registration value =
     (case value of AlreadyRegistered _ \<Rightarrow> SetupAlreadyRegistered
      | SkipModeUnsupported e \<Rightarrow> SetupWin32 e | Os e \<Rightarrow> setup_from_windows e)"

datatype ReadOutcome = Bytes nat | Eof | ClosedPeer | MoreData nat

definition classify_read :: "hresult + nat \<Rightarrow> nat \<Rightarrow> ReadOutcome option" where
  "classify_read result transferred =
     (case result of
        Inr n \<Rightarrow> Some (Bytes n)
      | Inl e \<Rightarrow>
          (case win32_code e of
             Some code \<Rightarrow>
               if code = ERROR_HANDLE_EOF then Some Eof
               else if code = ERROR_BROKEN_PIPE \<or> code = ERROR_PIPE_NOT_CONNECTED
                     \<or> code = ERROR_NETNAME_DELETED then Some ClosedPeer
               else if code = ERROR_MORE_DATA then Some (MoreData transferred)
               else None
           | None \<Rightarrow> None))"

definition classify_socket_read :: "hresult + nat \<Rightarrow> nat \<Rightarrow> ReadOutcome option" where
  "classify_socket_read result requested =
     (case result of
        Inr n \<Rightarrow> if n = 0 \<and> requested > 0 then Some ClosedPeer else Some (Bytes n)
      | Inl _ \<Rightarrow> None)"

section \<open>Sockets\<close>

datatype SocketError =
    ConnectionRefused | Unreachable | TimedOut | ConnectionAborted | AddressInUse
  | AddressNotAvailable | AccessDenied | Cancelled | SockAlreadyRegistered
  | SockSkipModeUnsupported hresult | SockWin32 hresult

definition socket_from_win32 :: "hresult \<Rightarrow> SocketError" where
  "socket_from_win32 err =
     (case win32_code err of
        None \<Rightarrow> SockWin32 err
      | Some c \<Rightarrow>
          if c = WSAECONNREFUSED then ConnectionRefused
          else if c = ERROR_CONNECTION_REFUSED then ConnectionRefused
          else if c = WSAENETUNREACH \<or> c = WSAEHOSTUNREACH then Unreachable
          else if c = ERROR_NETWORK_UNREACHABLE \<or> c = ERROR_HOST_UNREACHABLE then Unreachable
          else if c = WSAETIMEDOUT then TimedOut
          else if c = ERROR_SEM_TIMEOUT then TimedOut
          else if c = WSAECONNRESET \<or> c = WSAECONNABORTED \<or> c = WSAENETRESET \<or> c = WSAESHUTDOWN
                \<or> c = WSAEDISCON then ConnectionAborted
          else if c = ERROR_NETNAME_DELETED \<or> c = ERROR_CONNECTION_ABORTED
                \<or> c = ERROR_UNEXP_NET_ERR then ConnectionAborted
          else if c = WSAEADDRINUSE then AddressInUse
          else if c = WSAEADDRNOTAVAIL then AddressNotAvailable
          else if c = WSAEACCES then AccessDenied
          else if c = ERROR_ACCESS_DENIED then AccessDenied
          else if c = ERROR_OPERATION_ABORTED then Cancelled
          else SockWin32 err)"

definition socket_from_registration :: "RegistrationError \<Rightarrow> SocketError" where
  "socket_from_registration value =
     (case value of AlreadyRegistered _ \<Rightarrow> SockAlreadyRegistered
      | SkipModeUnsupported e \<Rightarrow> SockSkipModeUnsupported e | Os e \<Rightarrow> socket_from_win32 e)"

section \<open>Whole-payload transfers\<close>

datatype TransferError = UnexpectedEof | TransferClosedPeer | TransferWin32 hresult

definition CLOSED :: "u32 list" where
  "CLOSED = [ERROR_BROKEN_PIPE, ERROR_NO_DATA, ERROR_PIPE_NOT_CONNECTED, ERROR_NETNAME_DELETED,
     ERROR_CONNECTION_ABORTED, ERROR_UNEXP_NET_ERR, WSAECONNRESET, WSAECONNABORTED, WSAENETRESET,
     WSAESHUTDOWN, WSAEDISCON]"

definition classify_platform_error :: "(u32 \<Rightarrow> hresult) \<Rightarrow> hresult \<Rightarrow> TransferError" where
  "classify_platform_error hr error =
     (if list_ex (\<lambda>code. error = hr code) CLOSED then TransferClosedPeer else TransferWin32 error)"

section \<open>WinHTTP\<close>

datatype WinHttpError =
    WCancelled | WTimeout | WCannotConnect | WConnectionError | WSecureFailure | WNameNotResolved
  | WInvalidServerResponse | WHeaderNotFound | WIncorrectHandleState | WOperationInProgress
  | WOther u32

definition winhttp_from_win32 :: "u32 \<Rightarrow> WinHttpError" where
  "winhttp_from_win32 code =
     (if code = ERROR_WINHTTP_TIMEOUT then WTimeout
      else if code = ERROR_WINHTTP_NAME_NOT_RESOLVED then WNameNotResolved
      else if code = ERROR_WINHTTP_OPERATION_CANCELLED then WCancelled
      else if code = ERROR_WINHTTP_INCORRECT_HANDLE_STATE then WIncorrectHandleState
      else if code = ERROR_WINHTTP_CANNOT_CONNECT then WCannotConnect
      else if code = ERROR_WINHTTP_CONNECTION_ERROR then WConnectionError
      else if code = ERROR_WINHTTP_HEADER_NOT_FOUND then WHeaderNotFound
      else if code = ERROR_WINHTTP_INVALID_SERVER_RESPONSE then WInvalidServerResponse
      else if code = ERROR_WINHTTP_SECURE_FAILURE then WSecureFailure
      else if code = ERROR_BUSY then WOperationInProgress
      else WOther code)"

definition winhttp_from_error :: "hresult \<Rightarrow> WinHttpError" where
  "winhttp_from_error hres =
     (if hres AND 0xFFFF0000 = 0x80070000 then winhttp_from_win32 (hres AND 0xFFFF) else WOther hres)"

definition winhttp_code :: "WinHttpError \<Rightarrow> u32" where
  "winhttp_code e =
     (case e of WTimeout \<Rightarrow> ERROR_WINHTTP_TIMEOUT
      | WNameNotResolved \<Rightarrow> ERROR_WINHTTP_NAME_NOT_RESOLVED
      | WCancelled \<Rightarrow> ERROR_WINHTTP_OPERATION_CANCELLED
      | WIncorrectHandleState \<Rightarrow> ERROR_WINHTTP_INCORRECT_HANDLE_STATE
      | WCannotConnect \<Rightarrow> ERROR_WINHTTP_CANNOT_CONNECT
      | WConnectionError \<Rightarrow> ERROR_WINHTTP_CONNECTION_ERROR
      | WHeaderNotFound \<Rightarrow> ERROR_WINHTTP_HEADER_NOT_FOUND
      | WInvalidServerResponse \<Rightarrow> ERROR_WINHTTP_INVALID_SERVER_RESPONSE
      | WSecureFailure \<Rightarrow> ERROR_WINHTTP_SECURE_FAILURE
      | WOther code \<Rightarrow> code
      | WOperationInProgress \<Rightarrow> ERROR_BUSY)"

definition winhttp_into_error :: "(u32 \<Rightarrow> hresult) \<Rightarrow> WinHttpError \<Rightarrow> hresult" where
  "winhttp_into_error hr error = hr (winhttp_code error)"

lemma winhttp_code_from_win32: "winhttp_code (winhttp_from_win32 c) = c"
  by (simp add: winhttp_from_win32_def winhttp_code_def)

lemma winhttp_from_error_image:
  assumes "hresult_conv hr" and "0 < unat c" and "unat c < 65536"
  shows "winhttp_from_error (hr c) = winhttp_from_win32 c"
proof -
  have c: "c AND 0xFFFF = c" using assms(3) by (rule low16_id)
  have "c AND 0xFFFF0000 = (c AND 0xFFFF) AND 0xFFFF0000" by (simp only: c)
  also have "\<dots> = 0" by (simp add: and.assoc)
  finally have "(0x80070000 OR c) AND 0xFFFF0000 = 0x80070000" by (simp add: word_ao_dist)
  moreover have "(0x80070000 OR c) AND 0xFFFF = c" by (simp add: word_ao_dist c)
  ultimately show ?thesis
    using assms by (simp add: winhttp_from_error_def hresult_conv_def)
qed

section \<open>Properties\<close>

lemma closed_codes_small: "list_all (\<lambda>c. 0 < unat c \<and> unat c < 65536) CLOSED"
  by (simp add: CLOSED_def)

lemma classify_platform_error_closed:
  assumes "hresult_conv hr" and "0 < unat c" and "unat c < 65536"
  shows "classify_platform_error hr (hr c) = TransferClosedPeer \<longleftrightarrow> c \<in> set CLOSED"
proof -
  have "list_ex (\<lambda>d. hr c = hr d) CLOSED \<longleftrightarrow> (\<exists>d \<in> set CLOSED. c = d)"
    using closed_codes_small hresult_conv_inj [OF assms]
    by (auto simp: list_ex_iff list_all_iff)
  then show ?thesis by (simp add: classify_platform_error_def)
qed

text \<open>
  The transfer helpers and the socket errors agree on what a vanished peer is:
  a code is a closed peer for a whole-payload transfer exactly when it is one of the three pipe
  spellings or one that \<^verbatim>\<open>SocketError::from_win32\<close> calls \<^verbatim>\<open>ConnectionAborted\<close>, inline or
  through a completion packet; cancellation is neither.
\<close>

theorem closed_peer_agrees:
  assumes "hresult_conv hr" and "0 < unat c" and "unat c < 65536"
  shows "(classify_platform_error hr (hr c) = TransferClosedPeer \<longleftrightarrow>
            c \<in> {ERROR_BROKEN_PIPE, ERROR_NO_DATA, ERROR_PIPE_NOT_CONNECTED} \<or>
            socket_from_win32 (hr c) = ConnectionAborted) \<and>
         classify_platform_error hr (hr ERROR_OPERATION_ABORTED)
           = TransferWin32 (hr ERROR_OPERATION_ABORTED) \<and>
         socket_from_win32 (hr ERROR_OPERATION_ABORTED) = Cancelled"
proof -
  have cancelled: "win32_code (hr ERROR_OPERATION_ABORTED) = Some ERROR_OPERATION_ABORTED"
    using assms(1) by (rule win32_code_image) simp_all
  have "classify_platform_error hr (hr ERROR_OPERATION_ABORTED) \<noteq> TransferClosedPeer"
    using classify_platform_error_closed [OF assms(1), of ERROR_OPERATION_ABORTED]
    by (simp add: CLOSED_def)
  then have "classify_platform_error hr (hr ERROR_OPERATION_ABORTED)
      = TransferWin32 (hr ERROR_OPERATION_ABORTED)"
    by (simp add: classify_platform_error_def split: if_splits)
  moreover have "c \<in> set CLOSED \<longleftrightarrow>
      c \<in> {ERROR_BROKEN_PIPE, ERROR_NO_DATA, ERROR_PIPE_NOT_CONNECTED} \<or>
      socket_from_win32 (hr c) = ConnectionAborted"
    using win32_code_image [OF assms] by (auto simp: socket_from_win32_def CLOSED_def)
  ultimately show ?thesis
    using classify_platform_error_closed [OF assms] cancelled by (simp add: socket_from_win32_def)
qed

theorem closed_peer_agrees_witness:
  "hresult_conv hr_win32 \<and> classify_platform_error hr_win32 (hr_win32 10054) = TransferClosedPeer"
proof -
  have h: "0 < unat (10054 :: u32)" "unat (10054 :: u32) < 65536" by simp_all
  have w: "win32_code (hr_win32 10054) = Some 10054"
    using hr_win32_conv h by (rule win32_code_image)
  show ?thesis
    using closed_peer_agrees [OF hr_win32_conv h] hr_win32_conv
    by (simp add: socket_from_win32_def w)
qed

text \<open>
  \<^verbatim>\<open>WinHttpError\<close> loses no code: the code of a classified Win32 code is that
  code, and an error built from any classified 16-bit code is classified as the same variant
  again when it comes back through \<^verbatim>\<open>windows::core::Error\<close>.
\<close>

theorem winhttp_error_round_trip:
  assumes "hresult_conv hr" and "0 < unat c" and "unat c < 65536"
  shows "winhttp_code (winhttp_from_win32 c) = c \<and>
         winhttp_from_error (winhttp_into_error hr (winhttp_from_win32 c)) = winhttp_from_win32 c"
  using winhttp_from_error_image [OF assms] winhttp_code_from_win32
  by (simp add: winhttp_into_error_def)

theorem winhttp_error_round_trip_witness:
  "winhttp_from_error (winhttp_into_error hr_win32 WTimeout) = WTimeout"
proof -
  have h: "0 < unat (12002 :: u32)" "unat (12002 :: u32) < 65536" by simp_all
  have "winhttp_from_win32 12002 = WTimeout" by (simp add: winhttp_from_win32_def)
  then show ?thesis using winhttp_error_round_trip [OF hr_win32_conv h] by simp
qed

end
