(* ===== verification/Stream_Ops.thy ===== *)
theory Stream_Ops
  imports Buf Errors
begin

text \<open>
  The byte-transfer operations: \<^verbatim>\<open>iocp/op.rs\<close> (\<^verbatim>\<open>win32_result\<close>), \<^verbatim>\<open>iocp/ops/sys.rs\<close>,
  \<^verbatim>\<open>iocp/ops/stream.rs\<close>, \<^verbatim>\<open>iocp/ops/file.rs\<close> and \<^verbatim>\<open>net/ops/io.rs\<close>. Windows is an argument: a
  call is what it leaves behind, its return value, \<^verbatim>\<open>InternalHigh\<close> of the \<^verbatim>\<open>OVERLAPPED\<close>, the thread's
  last error and memory; a call that pended also has the packet its completion will deliver.
  \<open>submit_read\<close> and its siblings are the path both backends take through an operation, from
  \<^verbatim>\<open>operate\<close> to the resolved future; \<open>None\<close> is a panic.
\<close>

section \<open>The OVERLAPPED and the start of an operation\<close>

record OVERLAPPED =
  Offset :: u32
  OffsetHigh :: u32

definition set_offset :: "OVERLAPPED \<Rightarrow> u64 \<Rightarrow> OVERLAPPED" where
  "set_offset ov off = ov\<lparr>Offset := ucast off, OffsetHigh := ucast (drop_bit 32 off)\<rparr>"

definition checked_u32_len :: "(u32 \<Rightarrow> hresult) \<Rightarrow> nat \<Rightarrow> hresult + u32" where
  "checked_u32_len hr len = (if len \<le> u32_max then Inr (of_nat len) else Inl (hr ERROR_INVALID_PARAMETER))"

record kcall =
  k_ok :: bool
  k_high :: nat
  k_err :: hresult
  k_mem :: mem
  k_result :: "hresult + nat"
  k_transferred :: nat
  k_done_mem :: mem

definition win32_result :: "(u32 \<Rightarrow> hresult) \<Rightarrow> bool \<Rightarrow> kcall \<Rightarrow> (hresult + nat) poll" where
  "win32_result hr started_ok k =
     (if started_ok then Ready (Inr (k_high k))
      else if k_err k = hr ERROR_IO_PENDING then Pending
      else Ready (Inl (k_err k)))"

definition inline_transferred_count :: "(u32 \<Rightarrow> hresult) \<Rightarrow> hresult + nat \<Rightarrow> kcall \<Rightarrow> nat" where
  "inline_transferred_count hr result k =
     (case result of
        Inr transferred \<Rightarrow> transferred
      | Inl err \<Rightarrow> if err = hr ERROR_MORE_DATA then k_high k else 0)"

section \<open>Reads from a handle\<close>

record 'b ReadHandleAt =
  rh_handle :: nat
  rh_offset :: u64
  rh_buffer :: 'b
  rh_outcome :: "ReadOutcome option"

definition read_handle_at_new :: "nat \<Rightarrow> u64 \<Rightarrow> 'b \<Rightarrow> 'b ReadHandleAt" where
  "read_handle_at_new handle off buffer =
     \<lparr>rh_handle = handle, rh_offset = off, rh_buffer = buffer, rh_outcome = None\<rparr>"

definition record_completion ::
  "'b IoBufMut \<Rightarrow> 'b ReadHandleAt \<Rightarrow> hresult + nat \<Rightarrow> nat \<Rightarrow> 'b ReadHandleAt may_panic" where
  "record_completion D op result transferred =
     (let outcome = classify_read result transferred;
          op1 = op\<lparr>rh_outcome := outcome\<rparr>
      in if \<not> isl result \<or> (case outcome of Some (MoreData _) \<Rightarrow> True | _ \<Rightarrow> False) then
           case bytes_total D (rh_buffer op1) of
             None \<Rightarrow> None
           | Some tot \<Rightarrow>
               map_option (\<lambda>b. op1\<lparr>rh_buffer := b\<rparr>)
                 (set_init D (rh_buffer op1) (min transferred tot))
         else Some op1)"

definition finish :: "'b ReadHandleAt \<Rightarrow> hresult + nat \<Rightarrow> (hresult + ReadOutcome) \<times> 'b" where
  "finish op result =
     (case (result, rh_outcome op) of
        (_, Some outcome) \<Rightarrow> Inr outcome
      | (Inr n, None) \<Rightarrow> Inr (Bytes n)
      | (Inl e, None) \<Rightarrow> Inl e,
      rh_buffer op)"

text \<open>\<^verbatim>\<open>ReadFile\<close> is the platform: it sees the handle, the address, the length and the offset.\<close>

type_synonym read_call = "nat \<Rightarrow> nat \<Rightarrow> u32 \<Rightarrow> OVERLAPPED \<Rightarrow> mem \<Rightarrow> kcall"

definition read_operate ::
  "(u32 \<Rightarrow> hresult) \<Rightarrow> 'b IoBufMut \<Rightarrow> read_call \<Rightarrow> 'b ReadHandleAt \<Rightarrow> OVERLAPPED \<Rightarrow> mem \<Rightarrow>
   ((hresult + nat) poll \<times> 'b ReadHandleAt \<times> kcall option) may_panic" where
  "read_operate hr D ReadFile op ov m =
     (let ov1 = set_offset ov (rh_offset op) in
      case as_uninit D (rh_buffer op) of
        None \<Rightarrow> None
      | Some buffer \<Rightarrow>
          (case checked_u32_len hr (us_len buffer) of
             Inl e \<Rightarrow> Some (Ready (Inl e), op, None)
           | Inr len \<Rightarrow>
               let k = ReadFile (rh_handle op) (us_ptr buffer) len ov1 m;
                   result = win32_result hr (k_ok k) k
               in (case result of
                     Pending \<Rightarrow> Some (Pending, op, Some k)
                   | Ready ready \<Rightarrow>
                       map_option (\<lambda>op'. (result, op', Some k))
                         (record_completion D op ready (inline_transferred_count hr ready k)))))"

text \<open>\<^verbatim>\<open>ReadHandle\<close> wraps a \<^verbatim>\<open>ReadHandleAt\<close> and always submits offset zero.\<close>

record 'b ReadHandle =
  rd_inner :: "'b ReadHandleAt"

definition read_handle_new :: "nat \<Rightarrow> 'b \<Rightarrow> 'b ReadHandle" where
  "read_handle_new handle buffer = \<lparr>rd_inner = read_handle_at_new handle 0 buffer\<rparr>"

definition read_handle_operate ::
  "(u32 \<Rightarrow> hresult) \<Rightarrow> 'b IoBufMut \<Rightarrow> read_call \<Rightarrow> 'b ReadHandle \<Rightarrow> OVERLAPPED \<Rightarrow> mem \<Rightarrow>
   ((hresult + nat) poll \<times> 'b ReadHandle \<times> kcall option) may_panic" where
  "read_handle_operate hr D ReadFile rd ov m =
     (let ov1 = set_offset ov 0; op = rd_inner rd in
      case as_uninit D (rh_buffer op) of
        None \<Rightarrow> None
      | Some buffer \<Rightarrow>
          (case checked_u32_len hr (us_len buffer) of
             Inl e \<Rightarrow> Some (Ready (Inl e), rd, None)
           | Inr len \<Rightarrow>
               let k = ReadFile (rh_handle op) (us_ptr buffer) len ov1 m;
                   result = win32_result hr (k_ok k) k
               in (case result of
                     Pending \<Rightarrow> Some (Pending, rd, Some k)
                   | Ready ready \<Rightarrow>
                       map_option (\<lambda>op'. (result, rd\<lparr>rd_inner := op'\<rparr>, Some k))
                         (record_completion D op ready (inline_transferred_count hr ready k)))))"

section \<open>Reads from a socket\<close>

record 'b RecvSocket =
  rs_socket :: nat
  rs_buffer :: 'b
  rs_wsabuf :: "u32 \<times> nat"
  rs_requested :: nat
  rs_flags :: u32
  rs_outcome :: "ReadOutcome option"

definition recv_new :: "nat \<Rightarrow> 'b \<Rightarrow> 'b RecvSocket" where
  "recv_new socket buffer =
     \<lparr>rs_socket = socket, rs_buffer = buffer, rs_wsabuf = (0, 0), rs_requested = 0, rs_flags = 0,
      rs_outcome = None\<rparr>"

definition recv_record_completion ::
  "'b IoBufMut \<Rightarrow> 'b RecvSocket \<Rightarrow> hresult + nat \<Rightarrow> 'b RecvSocket may_panic" where
  "recv_record_completion D op result =
     (let op1 = op\<lparr>rs_outcome := classify_socket_read result (rs_requested op)\<rparr> in
      case result of
        Inl _ \<Rightarrow> Some op1
      | Inr n \<Rightarrow>
          (case bytes_total D (rs_buffer op1) of
             None \<Rightarrow> None
           | Some tot \<Rightarrow>
               map_option (\<lambda>b. op1\<lparr>rs_buffer := b\<rparr>) (set_init D (rs_buffer op1) (min n tot))))"

definition recv_finish :: "'b RecvSocket \<Rightarrow> hresult + nat \<Rightarrow> (hresult + ReadOutcome) \<times> 'b" where
  "recv_finish op result =
     (case (result, rs_outcome op) of
        (_, Some outcome) \<Rightarrow> Inr outcome
      | (Inr n, None) \<Rightarrow> Inr (Bytes n)
      | (Inl e, None) \<Rightarrow> Inl e,
      rs_buffer op)"

type_synonym recv_call = "nat \<Rightarrow> u32 \<times> nat \<Rightarrow> u32 \<Rightarrow> mem \<Rightarrow> kcall"

definition recv_operate ::
  "(u32 \<Rightarrow> hresult) \<Rightarrow> 'b IoBufMut \<Rightarrow> recv_call \<Rightarrow> 'b RecvSocket \<Rightarrow> mem \<Rightarrow>
   ((hresult + nat) poll \<times> 'b RecvSocket \<times> kcall option) may_panic" where
  "recv_operate hr D WSARecv op m =
     (case as_uninit D (rs_buffer op) of
        None \<Rightarrow> None
      | Some region \<Rightarrow>
          (case checked_u32_len hr (us_len region) of
             Inl e \<Rightarrow> Some (Ready (Inl e), op, None)
           | Inr len \<Rightarrow>
               let op1 = op\<lparr>rs_requested := us_len region, rs_wsabuf := (len, us_ptr region), rs_flags := 0\<rparr>;
                   k = WSARecv (rs_socket op1) (rs_wsabuf op1) (rs_flags op1) m;
                   result = win32_result hr (k_ok k) k
               in (case result of
                     Pending \<Rightarrow> Some (Pending, op1, Some k)
                   | Ready ready \<Rightarrow>
                       map_option (\<lambda>op'. (result, op', Some k)) (recv_record_completion D op1 ready))))"

section \<open>Writes\<close>

record 'b WriteHandleAt =
  wh_handle :: nat
  wh_offset :: u64
  wh_buffer :: 'b

definition write_handle_at_new :: "nat \<Rightarrow> u64 \<Rightarrow> 'b \<Rightarrow> 'b WriteHandleAt" where
  "write_handle_at_new handle off buffer = \<lparr>wh_handle = handle, wh_offset = off, wh_buffer = buffer\<rparr>"

type_synonym write_call = "nat \<Rightarrow> nat \<Rightarrow> u32 \<Rightarrow> OVERLAPPED \<Rightarrow> mem \<Rightarrow> kcall"

definition write_operate ::
  "(u32 \<Rightarrow> hresult) \<Rightarrow> ('b, 'z) IoBuf_scheme \<Rightarrow> write_call \<Rightarrow> 'b WriteHandleAt \<Rightarrow> OVERLAPPED \<Rightarrow> mem \<Rightarrow>
   (hresult + nat) poll \<times> kcall option" where
  "write_operate hr D WriteFile op ov m =
     (let ov1 = set_offset ov (wh_offset op) in
      case checked_u32_len hr (bytes_init D (wh_buffer op)) of
        Inl e \<Rightarrow> (Ready (Inl e), None)
      | Inr len \<Rightarrow>
          let k = WriteFile (wh_handle op) (stable_ptr D (wh_buffer op)) len ov1 m
          in (win32_result hr (k_ok k) k, Some k))"

record 'b SendSocket =
  ss_socket :: nat
  ss_buffer :: 'b
  ss_wsabuf :: "u32 \<times> nat"

definition send_new :: "nat \<Rightarrow> 'b \<Rightarrow> 'b SendSocket" where
  "send_new socket buffer = \<lparr>ss_socket = socket, ss_buffer = buffer, ss_wsabuf = (0, 0)\<rparr>"

type_synonym send_call = "nat \<Rightarrow> u32 \<times> nat \<Rightarrow> mem \<Rightarrow> kcall"

definition send_operate ::
  "(u32 \<Rightarrow> hresult) \<Rightarrow> ('b, 'z) IoBuf_scheme \<Rightarrow> send_call \<Rightarrow> 'b SendSocket \<Rightarrow> mem \<Rightarrow>
   (hresult + nat) poll \<times> 'b SendSocket \<times> kcall option" where
  "send_operate hr D WSASend op m =
     (case checked_u32_len hr (bytes_init D (ss_buffer op)) of
        Inl e \<Rightarrow> (Ready (Inl e), op, None)
      | Inr len \<Rightarrow>
          let op1 = op\<lparr>ss_wsabuf := (len, stable_ptr D (ss_buffer op))\<rparr>;
              k = WSASend (ss_socket op1) (ss_wsabuf op1) m
          in (win32_result hr (k_ok k) k, op1, Some k))"

section \<open>ReadAt and WriteAt\<close>

record 'b ReadAt =
  ra_handle :: nat
  ra_offset :: u64
  ra_buffer :: 'b

definition read_at_operate ::
  "(u32 \<Rightarrow> hresult) \<Rightarrow> 'b IoBufMut \<Rightarrow> read_call \<Rightarrow> 'b ReadAt \<Rightarrow> OVERLAPPED \<Rightarrow> mem \<Rightarrow>
   ((hresult + nat) poll \<times> kcall option) may_panic" where
  "read_at_operate hr D ReadFile op ov m =
     (let ov1 = set_offset ov (ra_offset op) in
      case as_uninit D (ra_buffer op) of
        None \<Rightarrow> None
      | Some buffer \<Rightarrow>
          (case checked_u32_len hr (us_len buffer) of
             Inl e \<Rightarrow> Some (Ready (Inl e), None)
           | Inr len \<Rightarrow>
               let k = ReadFile (ra_handle op) (us_ptr buffer) len ov1 m
               in Some (win32_result hr (k_ok k) k, Some k)))"

definition read_at_on_complete :: "'b IoBufMut \<Rightarrow> 'b ReadAt \<Rightarrow> hresult + nat \<Rightarrow> 'b ReadAt may_panic" where
  "read_at_on_complete D op result =
     (case result of
        Inl _ \<Rightarrow> Some op
      | Inr transferred \<Rightarrow>
          (case bytes_total D (ra_buffer op) of
             None \<Rightarrow> None
           | Some tot \<Rightarrow>
               map_option (\<lambda>b. op\<lparr>ra_buffer := b\<rparr>) (set_init D (ra_buffer op) (min transferred tot))))"

record 'b WriteAt =
  wa_handle :: nat
  wa_offset :: u64
  wa_buffer :: 'b

definition write_at_operate ::
  "(u32 \<Rightarrow> hresult) \<Rightarrow> ('b, 'z) IoBuf_scheme \<Rightarrow> write_call \<Rightarrow> 'b WriteAt \<Rightarrow> OVERLAPPED \<Rightarrow> mem \<Rightarrow>
   (hresult + nat) poll \<times> kcall option" where
  "write_at_operate hr D WriteFile op ov m =
     (let ov1 = set_offset ov (wa_offset op) in
      case checked_u32_len hr (bytes_init D (wa_buffer op)) of
        Inl e \<Rightarrow> (Ready (Inl e), None)
      | Inr len \<Rightarrow>
          let k = WriteFile (wa_handle op) (stable_ptr D (wa_buffer op)) len ov1 m
          in (win32_result hr (k_ok k) k, Some k))"

text \<open>\<^verbatim>\<open>WriteHandle\<close>, the write of a pipe, submits offset zero.\<close>

record 'b WriteHandle =
  wd_inner :: "'b WriteHandleAt"

definition write_handle_new :: "nat \<Rightarrow> 'b \<Rightarrow> 'b WriteHandle" where
  "write_handle_new handle buffer = \<lparr>wd_inner = write_handle_at_new handle 0 buffer\<rparr>"

definition write_handle_operate ::
  "(u32 \<Rightarrow> hresult) \<Rightarrow> ('b, 'z) IoBuf_scheme \<Rightarrow> write_call \<Rightarrow> 'b WriteHandle \<Rightarrow> OVERLAPPED \<Rightarrow> mem \<Rightarrow>
   (hresult + nat) poll \<times> kcall option" where
  "write_handle_operate hr D WriteFile wd ov m =
     (let ov1 = set_offset ov 0; op = wd_inner wd in
      case checked_u32_len hr (bytes_init D (wh_buffer op)) of
        Inl e \<Rightarrow> (Ready (Inl e), None)
      | Inr len \<Rightarrow>
          let k = WriteFile (wh_handle op) (stable_ptr D (wh_buffer op)) len ov1 m
          in (win32_result hr (k_ok k) k, Some k))"

section \<open>Through a backend\<close>

text \<open>
  \<^verbatim>\<open>submit\<close> of either backend, then the await and \<^verbatim>\<open>finish\<close>. An inline success runs the completion
  hook a second time (\<^verbatim>\<open>on_complete_inline\<close>); an inline failure does not; a pended operation runs it
  once, with the packet's result and count.
\<close>

definition submit_read ::
  "(u32 \<Rightarrow> hresult) \<Rightarrow> 'b IoBufMut \<Rightarrow> read_call \<Rightarrow> 'b ReadHandleAt \<Rightarrow> mem \<Rightarrow>
   ((hresult + ReadOutcome) \<times> 'b \<times> mem) may_panic" where
  "submit_read hr D ReadFile op m =
     (case read_operate hr D ReadFile op \<lparr>Offset = 0, OffsetHigh = 0\<rparr> m of
        None \<Rightarrow> None
      | Some (Ready (Inl e), op', k) \<Rightarrow>
          Some (fst (finish op' (Inl e)), snd (finish op' (Inl e)),
                case k of None \<Rightarrow> m | Some kc \<Rightarrow> k_mem kc)
      | Some (Ready (Inr n), op', k) \<Rightarrow>
          map_option (\<lambda>op2. (fst (finish op2 (Inr n)), snd (finish op2 (Inr n)),
                             case k of None \<Rightarrow> m | Some kc \<Rightarrow> k_mem kc))
            (record_completion D op' (Inr n) n)
      | Some (Pending, op', None) \<Rightarrow> None
      | Some (Pending, op', Some kc) \<Rightarrow>
          map_option (\<lambda>op2. (fst (finish op2 (k_result kc)), snd (finish op2 (k_result kc)), k_done_mem kc))
            (record_completion D op' (k_result kc) (k_transferred kc)))"

definition submit_recv ::
  "(u32 \<Rightarrow> hresult) \<Rightarrow> 'b IoBufMut \<Rightarrow> recv_call \<Rightarrow> 'b RecvSocket \<Rightarrow> mem \<Rightarrow>
   ((hresult + ReadOutcome) \<times> 'b \<times> mem) may_panic" where
  "submit_recv hr D WSARecv op m =
     (case recv_operate hr D WSARecv op m of
        None \<Rightarrow> None
      | Some (Ready (Inl e), op', k) \<Rightarrow>
          Some (fst (recv_finish op' (Inl e)), snd (recv_finish op' (Inl e)),
                case k of None \<Rightarrow> m | Some kc \<Rightarrow> k_mem kc)
      | Some (Ready (Inr n), op', k) \<Rightarrow>
          map_option (\<lambda>op2. (fst (recv_finish op2 (Inr n)), snd (recv_finish op2 (Inr n)),
                             case k of None \<Rightarrow> m | Some kc \<Rightarrow> k_mem kc))
            (recv_record_completion D op' (Inr n))
      | Some (Pending, op', None) \<Rightarrow> None
      | Some (Pending, op', Some kc) \<Rightarrow>
          map_option (\<lambda>op2. (fst (recv_finish op2 (k_result kc)), snd (recv_finish op2 (k_result kc)), k_done_mem kc))
            (recv_record_completion D op' (k_result kc)))"

definition await_write :: "(hresult + nat) poll \<times> kcall option \<Rightarrow> hresult + nat" where
  "await_write started =
     (case started of
        (Ready r, _) \<Rightarrow> r
      | (Pending, Some k) \<Rightarrow> k_result k
      | (Pending, None) \<Rightarrow> Inr 0)"

definition submit_write ::
  "(u32 \<Rightarrow> hresult) \<Rightarrow> ('b, 'z) IoBuf_scheme \<Rightarrow> write_call \<Rightarrow> 'b WriteHandleAt \<Rightarrow> mem \<Rightarrow>
   (hresult + nat) \<times> 'b" where
  "submit_write hr D WriteFile op m =
     (await_write (write_operate hr D WriteFile op \<lparr>Offset = 0, OffsetHigh = 0\<rparr> m), wh_buffer op)"

definition submit_send ::
  "(u32 \<Rightarrow> hresult) \<Rightarrow> ('b, 'z) IoBuf_scheme \<Rightarrow> send_call \<Rightarrow> 'b SendSocket \<Rightarrow> mem \<Rightarrow>
   (hresult + nat) \<times> 'b" where
  "submit_send hr D WSASend op m =
     (case send_operate hr D WSASend op m of
        (started, op', k) \<Rightarrow> (await_write (started, k), ss_buffer op'))"

section \<open>What Windows promises\<close>

text \<open>
  A transfer writes only inside the region it was given, and the count it reports, where it
  reports one, is the number of bytes it wrote: with success, and with \<^verbatim>\<open>ERROR_MORE_DATA\<close>, whose
  count is carried beside the status. On any other failure the region's bytes are unspecified.
\<close>

definition honest_read :: "(u32 \<Rightarrow> hresult) \<Rightarrow> mem \<Rightarrow> nat \<Rightarrow> nat \<Rightarrow> kcall \<Rightarrow> bool" where
  "honest_read hr m ptr len k \<longleftrightarrow>
     (k_ok k \<or> k_err k \<noteq> hr ERROR_IO_PENDING \<longrightarrow>
        (\<exists>data. length data \<le> len \<and> k_mem k = mem_write m ptr data \<and>
           (k_ok k \<or> k_err k = hr ERROR_MORE_DATA \<longrightarrow> k_high k = length data))) \<and>
     (\<not> k_ok k \<and> k_err k = hr ERROR_IO_PENDING \<longrightarrow>
        (\<exists>data. length data \<le> len \<and> k_done_mem k = mem_write m ptr data \<and>
           (case k_result k of
              Inr n \<Rightarrow> n = length data \<and> k_transferred k = n
            | Inl e \<Rightarrow> e = hr ERROR_MORE_DATA \<longrightarrow> k_transferred k = length data)))"

definition honest_write :: "(u32 \<Rightarrow> hresult) \<Rightarrow> nat \<Rightarrow> kcall \<Rightarrow> bool" where
  "honest_write hr len k \<longleftrightarrow>
     (k_ok k \<longrightarrow> k_high k \<le> len) \<and>
     (\<not> k_ok k \<and> k_err k = hr ERROR_IO_PENDING \<longrightarrow> (\<forall>n. k_result k = Inr n \<longrightarrow> n \<le> len))"

section \<open>What the operations promise\<close>

text \<open>\<^verbatim>\<open>set_init\<close> with the same length, once or twice.\<close>

definition publishes :: "'b IoBufMut \<Rightarrow> 'b \<Rightarrow> nat \<Rightarrow> 'b \<Rightarrow> bool" where
  "publishes D b n b' \<longleftrightarrow> (\<exists>b1. set_init D b n = Some b1 \<and> (b' = b1 \<or> set_init D b1 n = Some b'))"

definition read_result ::
  "'b IoBufMut \<Rightarrow> 'b \<Rightarrow> hresult + ReadOutcome \<Rightarrow> 'b \<Rightarrow> u8 list \<Rightarrow> bool" where
  "read_result D b r b' data \<longleftrightarrow>
     (case r of
        Inl _ \<Rightarrow> b' = b
      | Inr (Bytes n) \<Rightarrow> n = length data \<and> publishes D b n b'
      | Inr (MoreData n) \<Rightarrow> n = length data \<and> publishes D b n b'
      | Inr Eof \<Rightarrow> b' = b
      | Inr ClosedPeer \<Rightarrow> b' = b \<or> (data = [] \<and> publishes D b 0 b'))"

lemma publishes_once: "set_init D b n = Some b' \<Longrightarrow> publishes D b n b'"
  by (auto simp: publishes_def)

lemma publishes_twice:
  "set_init D b n = Some b1 \<Longrightarrow> set_init D b1 n = Some b2 \<Longrightarrow> publishes D b n b2"
  by (auto simp: publishes_def)

context io_buf_mut
begin

lemma publishes_ok:
  assumes "valid b" "as_uninit D b = Some u" "n \<le> us_len u" "publishes D b n b'"
  shows "valid b' \<and> as_uninit D b' = Some u \<and> n \<le> bytes_init D b' \<and>
         bytes_init D b' \<le> max n (bytes_init D b)"
proof -
  from assms(4) obtain b1 where b1: "set_init D b n = Some b1"
    and b': "b' = b1 \<or> set_init D b1 n = Some b'"
    by (auto simp: publishes_def)
  have one: "valid b1 \<and> as_uninit D b1 = Some u \<and> n \<le> bytes_init D b1 \<and>
      bytes_init D b1 \<le> max n (bytes_init D b)"
    using publish [OF assms(1-3)] b1 by auto
  show ?thesis
  proof (cases "b' = b1")
    case True
    with one show ?thesis by simp
  next
    case False
    with b' have "set_init D b1 n = Some b'" by simp
    with publish [of b1 u n] one assms(3) show ?thesis by fastforce
  qed
qed

lemma bytes_total_region: "as_uninit D b = Some u \<Longrightarrow> bytes_total D b = Some (us_len u)"
  by (simp add: bytes_total_def)

lemma record_completion_counted:
  assumes "valid (rh_buffer op)" "as_uninit D (rh_buffer op) = Some u" "t \<le> us_len u"
    and "classify_read r t = Some oc" "oc = Bytes t \<or> oc = MoreData t"
    and "\<not> isl r \<or> oc = MoreData t"
  shows "\<exists>b. set_init D (rh_buffer op) t = Some b \<and>
           record_completion D op r t = Some (op\<lparr>rh_outcome := Some oc, rh_buffer := b\<rparr>)"
proof -
  obtain b where "set_init D (rh_buffer op) t = Some b"
    using publish [OF assms(1-3)] by blast
  with assms(2-) show ?thesis
    by (auto simp: record_completion_def bytes_total_region min_absorb1 Let_def)
qed

lemma record_completion_plain:
  assumes "isl r" "\<And>n. classify_read r t \<noteq> Some (MoreData n)"
  shows "record_completion D op r t = Some (op\<lparr>rh_outcome := classify_read r t\<rparr>)"
  using assms by (auto simp: record_completion_def Let_def split: option.splits ReadOutcome.splits)

end

lemma more_data_code:
  assumes "hresult_conv hr"
  shows "classify_read (Inl e) t = Some (MoreData n) \<longleftrightarrow> e = hr ERROR_MORE_DATA \<and> n = t"
proof -
  have "win32_code e = Some ERROR_MORE_DATA \<longleftrightarrow> e = hr ERROR_MORE_DATA"
    using assms by (rule win32_code_iff) simp_all
  then show ?thesis by (auto simp: classify_read_def split: option.splits if_splits)
qed

lemma io_pending_not_more_data:
  assumes "hresult_conv hr"
  shows "hr ERROR_IO_PENDING \<noteq> hr ERROR_MORE_DATA"
  using hresult_conv_inj [OF assms, of ERROR_IO_PENDING ERROR_MORE_DATA] by simp

lemma classify_read_not_bytes: "classify_read (Inl e) t \<noteq> Some (Bytes n)"
  by (auto simp: classify_read_def split: option.splits)

lemma classify_read_Inr: "classify_read (Inr n) t = Some (Bytes n)"
  by (simp add: classify_read_def)

context io_buf_mut
begin

lemma completion_result:
  assumes "hresult_conv hr" "valid (rh_buffer op)" "as_uninit D (rh_buffer op) = Some u"
    and "length data \<le> us_len u"
    and "case r of Inr n \<Rightarrow> n = length data \<and> t = n | Inl e \<Rightarrow> e = hr ERROR_MORE_DATA \<longrightarrow> t = length data"
  shows "\<exists>op'. record_completion D op r t = Some op' \<and>
           read_result D (rh_buffer op) (fst (finish op' r)) (snd (finish op' r)) data"
proof (cases r)
  case (Inr n)
  with assms(5) have n: "n = length data" "t = length data" by auto
  obtain b where "set_init D (rh_buffer op) t = Some b"
      "record_completion D op r t = Some (op\<lparr>rh_outcome := Some (Bytes t), rh_buffer := b\<rparr>)"
    using record_completion_counted [OF assms(2,3), of t r "Bytes t"] assms(4) n Inr
    by (auto simp: classify_read_Inr)
  with Inr n show ?thesis
    by (auto simp: read_result_def finish_def intro: publishes_once)
next
  case (Inl e)
  show ?thesis
  proof (cases "e = hr ERROR_MORE_DATA")
    case True
    with Inl assms(5) have t: "t = length data" by simp
    have oc: "classify_read r t = Some (MoreData t)"
      using more_data_code [OF assms(1)] True Inl by simp
    obtain b where "set_init D (rh_buffer op) t = Some b"
        "record_completion D op r t = Some (op\<lparr>rh_outcome := Some (MoreData t), rh_buffer := b\<rparr>)"
      using record_completion_counted [OF assms(2,3) _ oc] assms(4) t by auto
    with Inl t show ?thesis
      by (auto simp: read_result_def finish_def intro: publishes_once)
  next
    case False
    then have nm: "\<And>n. classify_read r t \<noteq> Some (MoreData n)"
      using more_data_code [OF assms(1)] Inl by simp
    then have rc: "record_completion D op r t = Some (op\<lparr>rh_outcome := classify_read r t\<rparr>)"
      using Inl by (intro record_completion_plain) auto
    have "\<And>n. classify_read r t \<noteq> Some (Bytes n)" using Inl classify_read_not_bytes by simp
    with nm rc Inl show ?thesis
      by (auto simp: read_result_def finish_def split: option.splits ReadOutcome.splits)
  qed
qed

text \<open>
  A read submitted on a handle: whatever path it takes, the future resolves to the buffer with
  exactly the delivered bytes published.
\<close>

lemma submit_read_result:
  assumes "hresult_conv hr" "valid b" "as_uninit D b = Some u" "us_len u \<le> u32_max"
    and "honest_read hr m (us_ptr u) (us_len u)
           (RF h (us_ptr u) (of_nat (us_len u)) (set_offset \<lparr>Offset = 0, OffsetHigh = 0\<rparr> off) m)"
  shows "\<exists>r b' data. submit_read hr D RF (read_handle_at_new h off b) m =
             Some (r, b', mem_write m (us_ptr u) data) \<and>
           length data \<le> us_len u \<and> read_result D b r b' data"
proof -
  let ?k = "RF h (us_ptr u) (of_nat (us_len u)) (set_offset \<lparr>Offset = 0, OffsetHigh = 0\<rparr> off) m"
  let ?op = "read_handle_at_new h off b"
  have buf [simp]: "rh_buffer ?op = b" "rh_handle ?op = h" "rh_offset ?op = off"
    by (simp_all add: read_handle_at_new_def)
  have len: "checked_u32_len hr (us_len u) = Inr (of_nat (us_len u))"
    using assms(4) by (simp add: checked_u32_len_def)
  note op_simps = submit_read_def read_operate_def assms(3) len Let_def win32_result_def
    inline_transferred_count_def
  consider (ok) "k_ok ?k" | (failed) "\<not> k_ok ?k" "k_err ?k \<noteq> hr ERROR_IO_PENDING"
    | (pended) "\<not> k_ok ?k" "k_err ?k = hr ERROR_IO_PENDING"
    by blast
  then show ?thesis
  proof cases
    case ok
    then obtain data where d: "length data \<le> us_len u" "k_mem ?k = mem_write m (us_ptr u) data"
      "k_high ?k = length data"
      using assms(5) by (auto simp: honest_read_def)
    obtain b1 where b1: "set_init D b (length data) = Some b1"
      "record_completion D ?op (Inr (length data)) (length data) =
         Some (?op\<lparr>rh_outcome := Some (Bytes (length data)), rh_buffer := b1\<rparr>)"
      using record_completion_counted [of ?op u "length data" "Inr (length data)" "Bytes (length data)"]
        assms(2,3) d by (auto simp: classify_read_Inr)
    have v1: "valid b1" "as_uninit D b1 = Some u"
      using publish [OF assms(2,3) d(1)] b1 by auto
    obtain b2 where b2: "set_init D b1 (length data) = Some b2"
      "record_completion D (?op\<lparr>rh_outcome := Some (Bytes (length data)), rh_buffer := b1\<rparr>)
         (Inr (length data)) (length data) =
         Some (?op\<lparr>rh_outcome := Some (Bytes (length data)), rh_buffer := b2\<rparr>)"
      using record_completion_counted [of "?op\<lparr>rh_outcome := Some (Bytes (length data)), rh_buffer := b1\<rparr>"
          u "length data" "Inr (length data)" "Bytes (length data)"] v1 d
      by (auto simp: classify_read_Inr)
    show ?thesis
      using ok d b1 b2
      by (auto simp: op_simps finish_def read_result_def intro: publishes_twice)
  next
    case failed
    then obtain data where d: "length data \<le> us_len u" "k_mem ?k = mem_write m (us_ptr u) data"
      "k_err ?k = hr ERROR_MORE_DATA \<longrightarrow> k_high ?k = length data"
      using assms(5) by (auto simp: honest_read_def)
    then obtain op' where
      "record_completion D ?op (Inl (k_err ?k)) (inline_transferred_count hr (Inl (k_err ?k)) ?k) = Some op'"
      "read_result D b (fst (finish op' (Inl (k_err ?k)))) (snd (finish op' (Inl (k_err ?k)))) data"
      using completion_result [OF assms(1), where op = ?op and u = u and data = data and r = "Inl (k_err ?k)"
          and t = "inline_transferred_count hr (Inl (k_err ?k)) ?k"] assms(2,3)
      by (auto simp: inline_transferred_count_def split: if_splits)
    with failed d show ?thesis
      by (auto simp: op_simps)
  next
    case pended
    then obtain data where d: "length data \<le> us_len u" "k_done_mem ?k = mem_write m (us_ptr u) data"
      "case k_result ?k of Inr n \<Rightarrow> n = length data \<and> k_transferred ?k = n
       | Inl e \<Rightarrow> e = hr ERROR_MORE_DATA \<longrightarrow> k_transferred ?k = length data"
      using assms(5) by (auto simp: honest_read_def)
    then obtain op' where
      "record_completion D ?op (k_result ?k) (k_transferred ?k) = Some op'"
      "read_result D b (fst (finish op' (k_result ?k))) (snd (finish op' (k_result ?k))) data"
      using completion_result [OF assms(1), where op = ?op and u = u and data = data and r = "k_result ?k"
          and t = "k_transferred ?k"] assms(2,3)
      by auto
    with pended d show ?thesis
      by (auto simp: op_simps)
  qed
qed

end

context io_buf_mut
begin

lemma recv_completion:
  assumes "valid (rs_buffer op)" "as_uninit D (rs_buffer op) = Some u" "n \<le> us_len u"
  shows "\<exists>b. set_init D (rs_buffer op) n = Some b \<and> recv_record_completion D op (Inr n) =
     Some (op\<lparr>rs_outcome := classify_socket_read (Inr n) (rs_requested op), rs_buffer := b\<rparr>)"
  using publish [OF assms] assms(2,3)
  by (auto simp: recv_record_completion_def bytes_total_region min_absorb1)

lemma submit_recv_result:
  assumes "hresult_conv hr" "valid b" "as_uninit D b = Some u" "us_len u \<le> u32_max"
    and "honest_read hr m (us_ptr u) (us_len u) (WR sock (of_nat (us_len u), us_ptr u) 0 m)"
  shows "\<exists>r b' data. submit_recv hr D WR (recv_new sock b) m =
             Some (r, b', mem_write m (us_ptr u) data) \<and>
           length data \<le> us_len u \<and> read_result D b r b' data"
proof -
  let ?k = "WR sock (of_nat (us_len u), us_ptr u) 0 m"
  let ?op = "(recv_new sock b)\<lparr>rs_requested := us_len u, rs_wsabuf := (of_nat (us_len u), us_ptr u), rs_flags := 0\<rparr>"
  have buf [simp]: "rs_buffer ?op = b" "rs_socket ?op = sock" "rs_requested ?op = us_len u"
    "rs_buffer (recv_new sock b) = b" "rs_socket (recv_new sock b) = sock"
    by (simp_all add: recv_new_def)
  have len: "checked_u32_len hr (us_len u) = Inr (of_nat (us_len u))"
    using assms(4) by (simp add: checked_u32_len_def)
  note op_simps = submit_recv_def recv_operate_def assms(3) len Let_def win32_result_def
  note out_simps = recv_finish_def read_result_def classify_socket_read_def
  consider (ok) "k_ok ?k" | (failed) "\<not> k_ok ?k" "k_err ?k \<noteq> hr ERROR_IO_PENDING"
    | (pended) "\<not> k_ok ?k" "k_err ?k = hr ERROR_IO_PENDING"
    by blast
  then show ?thesis
  proof cases
    case ok
    then obtain data where d: "length data \<le> us_len u" "k_mem ?k = mem_write m (us_ptr u) data"
      "k_high ?k = length data"
      using assms(5) by (auto simp: honest_read_def)
    let ?oc = "classify_socket_read (Inr (length data)) (us_len u)"
    obtain b1 where b1: "set_init D b (length data) = Some b1"
      "recv_record_completion D ?op (Inr (length data)) = Some (?op\<lparr>rs_outcome := ?oc, rs_buffer := b1\<rparr>)"
      using recv_completion [of ?op u "length data"] assms(2,3) d by auto
    have v1: "valid b1" "as_uninit D b1 = Some u"
      using publish [OF assms(2,3) d(1)] b1 by auto
    obtain b2 where b2: "set_init D b1 (length data) = Some b2"
      "recv_record_completion D (?op\<lparr>rs_outcome := ?oc, rs_buffer := b1\<rparr>) (Inr (length data)) =
         Some (?op\<lparr>rs_outcome := ?oc, rs_buffer := b2\<rparr>)"
      using recv_completion [of "?op\<lparr>rs_outcome := ?oc, rs_buffer := b1\<rparr>" u "length data"] v1 d by auto
    show ?thesis
      using ok d b1 b2
      by (auto simp: op_simps out_simps intro!: exI [of _ data] intro: publishes_twice)
  next
    case failed
    then obtain data where d: "length data \<le> us_len u" "k_mem ?k = mem_write m (us_ptr u) data"
      using assms(5) by (auto simp: honest_read_def)
    with failed show ?thesis
      by (auto simp: op_simps out_simps recv_record_completion_def)
  next
    case pended
    then obtain data where d: "length data \<le> us_len u" "k_done_mem ?k = mem_write m (us_ptr u) data"
      "case k_result ?k of Inr n \<Rightarrow> n = length data \<and> k_transferred ?k = n
       | Inl e \<Rightarrow> e = hr ERROR_MORE_DATA \<longrightarrow> k_transferred ?k = length data"
      using assms(5) by (auto simp: honest_read_def)
    show ?thesis
    proof (cases "k_result ?k")
      case (Inl e)
      with pended d show ?thesis
        by (auto simp: op_simps out_simps recv_record_completion_def)
    next
      case (Inr n)
      with d obtain b1 where "set_init D b n = Some b1"
        "recv_record_completion D ?op (Inr n) =
           Some (?op\<lparr>rs_outcome := classify_socket_read (Inr n) (us_len u), rs_buffer := b1\<rparr>)"
        using recv_completion [of ?op u n] assms(2,3) by auto
      with pended d Inr show ?thesis
        by (auto simp: op_simps out_simps intro!: exI [of _ data] intro: publishes_once)
    qed
  qed
qed

end

lemma submit_write_bound:
  assumes "bytes_init D b \<le> u32_max"
    and "honest_write hr (bytes_init D b) (WF h (stable_ptr D b) (of_nat (bytes_init D b))
           (set_offset \<lparr>Offset = 0, OffsetHigh = 0\<rparr> off) m)"
    and "fst (submit_write hr D WF (write_handle_at_new h off b) m) = Inr n"
  shows "n \<le> bytes_init D b"
  using assms
  by (auto simp: submit_write_def write_operate_def await_write_def win32_result_def honest_write_def
      checked_u32_len_def write_handle_at_new_def Let_def split: if_splits)

lemma submit_write_buffer: "snd (submit_write hr D WF (write_handle_at_new h off b) m) = b"
  by (simp add: submit_write_def write_handle_at_new_def)

lemma submit_send_bound:
  assumes "bytes_init D b \<le> u32_max"
    and "honest_write hr (bytes_init D b) (WS sock (of_nat (bytes_init D b), stable_ptr D b) m)"
    and "fst (submit_send hr D WS (send_new sock b) m) = Inr n"
  shows "n \<le> bytes_init D b"
  using assms
  by (auto simp: submit_send_def send_operate_def await_write_def win32_result_def honest_write_def
      checked_u32_len_def send_new_def Let_def split: if_splits)

lemma submit_send_buffer: "snd (submit_send hr D WS (send_new sock b) m) = b"
  by (auto simp: submit_send_def send_operate_def send_new_def Let_def split: sum.splits)

section \<open>Properties\<close>

text \<open>
  A read submitted on a handle with a \<^verbatim>\<open>Vec\<close>, completed inline or by a packet,
  never panics, and resolves to the vector with exactly the bytes Windows delivered published:
  on \<^verbatim>\<open>Bytes\<close> and on \<^verbatim>\<open>MoreData\<close> the vector's length is the delivered count and its
  contents are the delivered bytes; on every other outcome the vector is returned as it was.
\<close>

theorem vec_read_publishes_delivered:
  assumes "hresult_conv hr" "valid_vec v" "vcap v \<le> u32_max"
    and "honest_read hr m (vptr v) (vcap v)
           (RF h (vptr v) (of_nat (vcap v)) (set_offset \<lparr>Offset = 0, OffsetHigh = 0\<rparr> off) m)"
  shows "\<exists>r v' data. submit_read hr vec_IoBufMut RF (read_handle_at_new h off v) m =
             Some (r, v', mem_write m (vptr v) data) \<and> length data \<le> vcap v \<and>
           (case r of
              Inr (Bytes n) \<Rightarrow> n = length data \<and> v' = v\<lparr>vlen := n\<rparr> \<and>
                mem_load (mem_write m (vptr v) data) (vptr v') (vlen v') = map Some data
            | Inr (MoreData n) \<Rightarrow> n = length data \<and> v' = v\<lparr>vlen := n\<rparr> \<and>
                mem_load (mem_write m (vptr v) data) (vptr v') (vlen v') = map Some data
            | _ \<Rightarrow> v' = v \<or> data = [] \<and> v' = v\<lparr>vlen := 0\<rparr>)"
proof -
  have u: "as_uninit vec_IoBufMut v = Some \<lparr>us_ptr = vptr v, us_len = vcap v\<rparr>"
    by (simp add: vec_IoBufMut_def)
  have pub: "publishes vec_IoBufMut v n v' \<Longrightarrow> n \<le> vcap v \<Longrightarrow> v' = v\<lparr>vlen := n\<rparr>" for n v'
    by (auto simp: publishes_def vec_IoBufMut_def)
  obtain r v' data where "submit_read hr vec_IoBufMut RF (read_handle_at_new h off v) m =
      Some (r, v', mem_write m (vptr v) data)" "length data \<le> vcap v"
      "read_result vec_IoBufMut v r v' data"
    using vec.submit_read_result [OF assms(1,2) u, where RF = RF and h = h and off = off and m = m]
      assms(3,4) by auto
  then show ?thesis
    by (auto simp: read_result_def mem_load_write_same dest!: pub
        split: sum.splits ReadOutcome.splits intro!: exI)
qed

theorem vec_read_publishes_delivered_witness:
  "\<exists>v' m'. submit_read hr_win32 vec_IoBufMut
       (\<lambda>h p n ov m. \<lparr>k_ok = True, k_high = 2, k_err = 0, k_mem = mem_write m p [7, 8],
                      k_result = Inr 0, k_transferred = 0, k_done_mem = m\<rparr>)
       (read_handle_at_new 1 0 \<lparr>vptr = 100, vcap = 4, vlen = 0\<rparr>) (\<lambda>_. None) = Some (Inr (Bytes 2), v', m') \<and>
     mem_load m' (vptr v') (vlen v') = [Some 7, Some 8]"
proof -
  let ?RF = "\<lambda>(h::nat) p (n::u32) (ov::OVERLAPPED) m. \<lparr>k_ok = True, k_high = 2, k_err = 0,
      k_mem = mem_write m p [7, 8], k_result = Inr 0, k_transferred = 0, k_done_mem = m\<rparr>"
  let ?v = "\<lparr>vptr = 100, vcap = 4, vlen = 0\<rparr> :: vec"
  have v: "valid_vec ?v" "vcap ?v \<le> u32_max" by (simp_all add: valid_vec_def)
  have k: "honest_read hr_win32 (\<lambda>_. None) (vptr ?v) (vcap ?v)
      (?RF 1 (vptr ?v) (of_nat (vcap ?v)) (set_offset \<lparr>Offset = 0, OffsetHigh = 0\<rparr> 0) (\<lambda>_. None))"
    by (auto simp: honest_read_def intro!: exI [of _ "[7, 8]"])
  have run: "submit_read hr_win32 vec_IoBufMut ?RF (read_handle_at_new 1 0 ?v) (\<lambda>_. None) =
      Some (Inr (Bytes 2), \<lparr>vptr = 100, vcap = 4, vlen = 2\<rparr>, mem_write (\<lambda>_. None) 100 [7, 8])"
    by (simp add: submit_read_def read_operate_def vec_IoBufMut_def read_handle_at_new_def
        checked_u32_len_def win32_result_def inline_transferred_count_def record_completion_def
        classify_read_def bytes_total_def finish_def)
  obtain data where "mem_write (\<lambda>_. None) 100 [7, 8] = mem_write (\<lambda>_. None) 100 data"
      "2 = length data" "mem_load (mem_write (\<lambda>_. None) 100 data) 100 2 = map Some data"
    using vec_read_publishes_delivered [where RF = ?RF and h = 1 and off = 0 and m = "\<lambda>_. None",
        OF hr_win32_conv v k] run by auto
  moreover have "mem_load (mem_write (\<lambda>_. None) 100 [7, 8]) 100 2 = [Some 7, Some (8::u8)]"
    using mem_load_write_same [of "\<lambda>_. None" 100 "[7, 8]"] by (simp add: numeral_2_eq_2)
  ultimately show ?thesis using run by auto
qed

text \<open>
  \<^verbatim>\<open>ReadHandle\<close>, the position-less operation pipes use, starts exactly the transfer
  a \<^verbatim>\<open>ReadHandleAt\<close> at offset zero starts, with the same result and the same final state.
\<close>

theorem read_handle_is_read_handle_at_zero:
  "read_handle_operate hr D RF (read_handle_new h b) ov m =
     map_option (\<lambda>(r, op, k). (r, \<lparr>rd_inner = op\<rparr>, k))
       (read_operate hr D RF (read_handle_at_new h 0 b) ov m)"
  by (auto simp: read_handle_operate_def read_operate_def read_handle_new_def read_handle_at_new_def
      Let_def option.map_comp comp_def split: option.splits sum.splits poll.splits)

lemma writes_agree:
  "write_handle_operate hr D WF (write_handle_new h b) ov m = write_operate hr D WF (write_handle_at_new h 0 b) ov m"
  "write_at_operate hr D WF \<lparr>wa_handle = h, wa_offset = off, wa_buffer = b\<rparr> ov m =
     write_operate hr D WF (write_handle_at_new h off b) ov m"
  by (simp_all add: write_handle_operate_def write_at_operate_def write_operate_def write_handle_new_def
      write_handle_at_new_def Let_def split: sum.splits)

text \<open>
  The two halves \<^verbatim>\<open>set_offset\<close> stores are the low and the high word of the 64-bit
  offset, so no offset is truncated; and a length is passed to Windows unchanged or refused with
  \<^verbatim>\<open>ERROR_INVALID_PARAMETER\<close>, never shortened.
\<close>

theorem offset_and_length_exact:
  "(ucast (Offset (set_offset ov off)) :: u64) OR push_bit 32 (ucast (OffsetHigh (set_offset ov off))) = off \<and>
   checked_u32_len hr n = (if n < 2 ^ 32 then Inr (of_nat n) else Inl (hr ERROR_INVALID_PARAMETER)) \<and>
   (\<forall>w. checked_u32_len hr n = Inr w \<longrightarrow> unat w = n)"
proof -
  have "(ucast (ucast off :: u32) :: u64) OR push_bit 32 (ucast (ucast (drop_bit 32 off) :: u32)) = off"
    by (rule bit_word_eqI) (auto simp: bit_simps)
  then show ?thesis
    by (auto simp: set_offset_def checked_u32_len_def unat_of_nat)
qed

theorem offset_and_length_exact_witness:
  "checked_u32_len hr_win32 4096 = Inr 4096 \<and> unat (4096 :: u32) = 4096"
  using offset_and_length_exact [of "\<lparr>Offset = 0, OffsetHigh = 0\<rparr>" 0 hr_win32 4096] by simp

end
