(* ===== verification/Payload.thy ===== *)
theory Payload
  imports Stream_Ops
begin

text \<open>
  Whole-payload transfers: \<^verbatim>\<open>io.rs\<close>. The private trait \<^verbatim>\<open>WholePayloadIo\<close> is a record of its three
  methods; its instances for files, pipes and sockets are built from the operations of
  \<open>Stream_Ops\<close> over a platform that answers the \<open>i\<close>-th call of a run. The state a run threads
  through is the number of calls made and the log of what moved: for each transfer the position and
  the bytes.

  \<open>write_all\<close> always ends, because a zero-length write is a failure. \<open>read_exact\<close> and
  \<open>read_to_end\<close> may await empty messages for ever, so they run on fuel: one unit per submitted
  read, and \<open>Running\<close> is a helper still awaiting. A panic is \<open>Panicked\<close>.
\<close>

section \<open>Types\<close>

datatype 'a exec = Returned 'a | Panicked | Running

definition HELPER_CHUNK :: nat where
  "HELPER_CHUNK = 4096"

record 'b TransferResult =
  tr_result :: "TransferError + unit"
  tr_buffer :: 'b
  tr_transferred :: nat

definition success :: "'b \<Rightarrow> nat \<Rightarrow> 'b TransferResult" where
  "success buffer transferred = \<lparr>tr_result = Inr (), tr_buffer = buffer, tr_transferred = transferred\<rparr>"

definition failure :: "'b \<Rightarrow> nat \<Rightarrow> TransferError \<Rightarrow> 'b TransferResult" where
  "failure buffer transferred e = \<lparr>tr_result = Inl e, tr_buffer = buffer, tr_transferred = transferred\<rparr>"

record ('s, 'b) WholePayloadIo =
  read_once :: "'s \<Rightarrow> mem \<Rightarrow> nat \<Rightarrow> 'b TailBuf \<Rightarrow> ((hresult + ReadOutcome) \<times> 'b TailBuf \<times> mem \<times> 's) may_panic"
  write_once :: "'s \<Rightarrow> mem \<Rightarrow> nat \<Rightarrow> 'b TailBuf \<Rightarrow> (hresult + nat) \<times> 'b TailBuf \<times> 's"
  advance_position :: "nat \<Rightarrow> nat \<Rightarrow> nat"

section \<open>The helpers\<close>

function write_all_loop ::
  "(u32 \<Rightarrow> hresult) \<Rightarrow> ('s, 'b) WholePayloadIo \<Rightarrow> mem \<Rightarrow> nat \<Rightarrow> nat \<Rightarrow> 's \<Rightarrow> nat \<Rightarrow> 'b \<Rightarrow>
   ('b TransferResult \<times> 's) exec" where
  "write_all_loop hr io m target transferred s position buffer =
     (if transferred < target then
        (case write_once io s m position (tail_new buffer transferred HELPER_CHUNK) of
           (result, tail, s') \<Rightarrow>
             (case result of
                Inr n \<Rightarrow>
                  if n = 0 then Returned (failure (inner tail) transferred TransferClosedPeer, s')
                  else if transferred + n > usize_max then Panicked
                  else write_all_loop hr io m target (transferred + n) s'
                         (advance_position io position n) (inner tail)
              | Inl e \<Rightarrow> Returned (failure (inner tail) transferred (classify_platform_error hr e), s')))
      else Returned (success buffer transferred, s))"
  by pat_completeness auto
termination
  by (relation "measure (\<lambda>(hr, io, m, target, transferred, s, position, buffer). target - transferred)") auto

declare write_all_loop.simps [simp del]

definition write_all ::
  "(u32 \<Rightarrow> hresult) \<Rightarrow> ('b, 'z) IoBuf_scheme \<Rightarrow> ('s, 'b) WholePayloadIo \<Rightarrow> mem \<Rightarrow> 's \<Rightarrow> nat \<Rightarrow> 'b \<Rightarrow>
   ('b TransferResult \<times> 's) exec" where
  "write_all hr D io m s position buffer =
     write_all_loop hr io m (bytes_init D buffer) 0 s position buffer"

fun read_exact_loop ::
  "nat \<Rightarrow> (u32 \<Rightarrow> hresult) \<Rightarrow> ('s, 'b) WholePayloadIo \<Rightarrow> nat \<Rightarrow> nat \<Rightarrow> 's \<Rightarrow> mem \<Rightarrow> nat \<Rightarrow> 'b \<Rightarrow>
   ('b TransferResult \<times> mem \<times> 's) exec" where
  "read_exact_loop 0 hr io target transferred s m position buffer =
     (if transferred < target then Running else Returned (success buffer transferred, m, s))"
| "read_exact_loop (Suc fuel) hr io target transferred s m position buffer =
     (if transferred < target then
        (case read_once io s m position (tail_new buffer transferred HELPER_CHUNK) of
           None \<Rightarrow> Panicked
         | Some (result, tail, m', s') \<Rightarrow>
             (case result of
                Inr Eof \<Rightarrow> Returned (failure (inner tail) transferred UnexpectedEof, m', s')
              | Inr ClosedPeer \<Rightarrow> Returned (failure (inner tail) transferred TransferClosedPeer, m', s')
              | Inr (Bytes n) \<Rightarrow>
                  if n = 0 then
                    read_exact_loop fuel hr io target transferred s' m' position (inner tail)
                  else
                    let n' = min n (target - transferred)
                    in read_exact_loop fuel hr io target (transferred + n') s' m'
                         (advance_position io position n') (inner tail)
              | Inr (MoreData n) \<Rightarrow>
                  let n' = min n (target - transferred)
                  in read_exact_loop fuel hr io target (transferred + n') s' m'
                       (advance_position io position n') (inner tail)
              | Inl e \<Rightarrow> Returned (failure (inner tail) transferred (classify_platform_error hr e), m', s')))
      else Returned (success buffer transferred, m, s))"

definition read_exact ::
  "nat \<Rightarrow> (u32 \<Rightarrow> hresult) \<Rightarrow> 'b IoBufMut \<Rightarrow> ('s, 'b) WholePayloadIo \<Rightarrow> 's \<Rightarrow> mem \<Rightarrow> nat \<Rightarrow> 'b \<Rightarrow>
   ('b TransferResult \<times> mem \<times> 's) exec" where
  "read_exact fuel hr D io s m position buffer =
     (case bytes_total D buffer of
        None \<Rightarrow> Panicked
      | Some target \<Rightarrow> read_exact_loop fuel hr io target 0 s m position buffer)"

text \<open>
  \<^verbatim>\<open>Vec::reserve\<close>: the allocator, an argument, names the new block (\<open>None\<close>: capacity overflow or
  no memory) when the spare capacity is too small; the initialised bytes move, the rest is
  uninitialised.
\<close>

type_synonym allocator = "vec \<Rightarrow> nat \<Rightarrow> (nat \<times> nat) option"

definition vec_reserve :: "allocator \<Rightarrow> vec \<Rightarrow> mem \<Rightarrow> nat \<Rightarrow> (vec \<times> mem) may_panic" where
  "vec_reserve al v m additional =
     (if additional \<le> vcap v - vlen v then Some (v, m)
      else case al v additional of
          None \<Rightarrow> None
        | Some (p, c) \<Rightarrow>
            Some (v\<lparr>vptr := p, vcap := c\<rparr>,
                  \<lambda>a. if p \<le> a \<and> a < p + c
                      then (if a - p < vlen v then m (vptr v + (a - p)) else None)
                      else m a))"

fun read_to_end_loop ::
  "nat \<Rightarrow> (u32 \<Rightarrow> hresult) \<Rightarrow> allocator \<Rightarrow> ('s, vec) WholePayloadIo \<Rightarrow> nat \<Rightarrow> 's \<Rightarrow> mem \<Rightarrow> nat \<Rightarrow> vec \<Rightarrow>
   (vec TransferResult \<times> mem \<times> 's) exec" where
  "read_to_end_loop 0 hr al io transferred s m position buffer = Running"
| "read_to_end_loop (Suc fuel) hr al io transferred s m position buffer =
     (case (if vlen buffer = vcap buffer then vec_reserve al buffer m HELPER_CHUNK else Some (buffer, m)) of
        None \<Rightarrow> Panicked
      | Some (buffer1, m1) \<Rightarrow>
          (case read_once io s m1 position (tail_new buffer1 (vlen buffer1) HELPER_CHUNK) of
             None \<Rightarrow> Panicked
           | Some (result, tail, m', s') \<Rightarrow>
               (case result of
                  Inr Eof \<Rightarrow> Returned (success (inner tail) transferred, m', s')
                | Inr ClosedPeer \<Rightarrow> Returned (success (inner tail) transferred, m', s')
                | Inr (Bytes n) \<Rightarrow>
                    if n = 0 then read_to_end_loop fuel hr al io transferred s' m' position (inner tail)
                    else if transferred + n > usize_max then Panicked
                    else read_to_end_loop fuel hr al io (transferred + n) s' m'
                           (advance_position io position n) (inner tail)
                | Inr (MoreData n) \<Rightarrow>
                    if transferred + n > usize_max then Panicked
                    else read_to_end_loop fuel hr al io (transferred + n) s' m'
                           (advance_position io position n) (inner tail)
                | Inl e \<Rightarrow>
                    Returned (failure (inner tail) transferred (classify_platform_error hr e), m', s'))))"

definition read_to_end ::
  "nat \<Rightarrow> (u32 \<Rightarrow> hresult) \<Rightarrow> allocator \<Rightarrow> ('s, vec) WholePayloadIo \<Rightarrow> 's \<Rightarrow> mem \<Rightarrow> nat \<Rightarrow> vec \<Rightarrow>
   (vec TransferResult \<times> mem \<times> 's) exec" where
  "read_to_end fuel hr al io s m position buffer = read_to_end_loop fuel hr al io 0 s m position buffer"

section \<open>Instances\<close>

type_synonym run_log = "nat \<times> (nat \<times> u8 option list) list"

record platform =
  p_read :: "nat \<Rightarrow> read_call"
  p_write :: "nat \<Rightarrow> write_call"
  p_recv :: "nat \<Rightarrow> recv_call"
  p_send :: "nat \<Rightarrow> send_call"

definition log_read ::
  "run_log \<Rightarrow> nat \<Rightarrow> nat \<Rightarrow> ((hresult + ReadOutcome) \<times> 'b \<times> mem) option \<Rightarrow>
   ((hresult + ReadOutcome) \<times> 'b \<times> mem \<times> run_log) option" where
  "log_read s position ptr result =
     map_option (\<lambda>(r, b, m').
       (r, b, m', (Suc (fst s),
          case r of Inr (Bytes n) \<Rightarrow> snd s @ [(position, mem_load m' ptr n)]
                  | Inr (MoreData n) \<Rightarrow> snd s @ [(position, mem_load m' ptr n)]
                  | _ \<Rightarrow> snd s))) result"

definition log_write ::
  "run_log \<Rightarrow> mem \<Rightarrow> nat \<Rightarrow> nat \<Rightarrow> (hresult + nat) \<times> 'b \<Rightarrow> (hresult + nat) \<times> 'b \<times> run_log" where
  "log_write s m position ptr result =
     (fst result, snd result, (Suc (fst s),
        case fst result of Inr n \<Rightarrow> snd s @ [(position, mem_load m ptr n)] | Inl _ \<Rightarrow> snd s))"

definition file_io ::
  "(u32 \<Rightarrow> hresult) \<Rightarrow> 'b IoBufMut \<Rightarrow> platform \<Rightarrow> nat \<Rightarrow> (run_log, 'b) WholePayloadIo" where
  "file_io hr D p h =
     \<lparr>read_once = (\<lambda>s m position t.
        log_read s position (tail_stable_ptr D t)
          (submit_read hr (tail_IoBufMut D) (p_read p (fst s)) (read_handle_at_new h (of_nat position) t) m)),
      write_once = (\<lambda>s m position t.
        log_write s m position (tail_stable_ptr D t)
          (submit_write hr (tail_IoBuf D) (p_write p (fst s)) (write_handle_at_new h (of_nat position) t) m)),
      advance_position = (\<lambda>position transferred. min (position + transferred) u64_max)\<rparr>"

text \<open>A named pipe submits \<^verbatim>\<open>ReadHandle\<close> and \<^verbatim>\<open>WriteHandle\<close>, which are the positional operations at zero.\<close>

definition pipe_io ::
  "(u32 \<Rightarrow> hresult) \<Rightarrow> 'b IoBufMut \<Rightarrow> platform \<Rightarrow> nat \<Rightarrow> (run_log, 'b) WholePayloadIo" where
  "pipe_io hr D p h =
     \<lparr>read_once = (\<lambda>s m position t.
        log_read s position (tail_stable_ptr D t)
          (submit_read hr (tail_IoBufMut D) (p_read p (fst s)) (read_handle_at_new h 0 t) m)),
      write_once = (\<lambda>s m position t.
        log_write s m position (tail_stable_ptr D t)
          (submit_write hr (tail_IoBuf D) (p_write p (fst s)) (write_handle_at_new h 0 t) m)),
      advance_position = (\<lambda>position transferred. position)\<rparr>"

definition socket_io ::
  "(u32 \<Rightarrow> hresult) \<Rightarrow> 'b IoBufMut \<Rightarrow> platform \<Rightarrow> nat \<Rightarrow> (run_log, 'b) WholePayloadIo" where
  "socket_io hr D p sock =
     \<lparr>read_once = (\<lambda>s m position t.
        log_read s position (tail_stable_ptr D t)
          (submit_recv hr (tail_IoBufMut D) (p_recv p (fst s)) (recv_new sock t) m)),
      write_once = (\<lambda>s m position t.
        log_write s m position (tail_stable_ptr D t)
          (submit_send hr (tail_IoBuf D) (p_send p (fst s)) (send_new sock t) m)),
      advance_position = (\<lambda>position transferred. position)\<rparr>"

section \<open>Writing\<close>

definition honest_platform :: "(u32 \<Rightarrow> hresult) \<Rightarrow> platform \<Rightarrow> bool" where
  "honest_platform hr p \<longleftrightarrow>
     (\<forall>i h ptr len ov m. honest_read hr m ptr (unat len) (p_read p i h ptr len ov m)) \<and>
     (\<forall>i h ptr len ov m. honest_write hr (unat len) (p_write p i h ptr len ov m)) \<and>
     (\<forall>i h ptr len fl m. honest_read hr m ptr (unat len) (p_recv p i h (len, ptr) fl m)) \<and>
     (\<forall>i h ptr len m. honest_write hr (unat len) (p_send p i h (len, ptr) m))"

definition writes_law :: "('b, 'z) IoBuf_scheme \<Rightarrow> (run_log, 'b) WholePayloadIo \<Rightarrow> bool" where
  "writes_law D io \<longleftrightarrow>
     (\<forall>s m pos t. limit t = HELPER_CHUNK \<longrightarrow>
        (case write_once io s m pos t of (r, t', s') \<Rightarrow>
           t' = t \<and>
           (case r of
              Inl _ \<Rightarrow> snd s' = snd s
            | Inr n \<Rightarrow> n \<le> tail_bytes_init D t \<and>
                snd s' = snd s @ [(pos, mem_load m (tail_stable_ptr D t) n)])))"

fun contiguous :: "nat \<Rightarrow> (nat \<times> 'a list) list \<Rightarrow> bool" where
  "contiguous p [] = True"
| "contiguous p ((q, bs) # cs) = (q = p \<and> contiguous (p + length bs) cs)"

lemma tail_chunk_small: "limit t = HELPER_CHUNK \<Longrightarrow> tail_bytes_init D t \<le> u32_max"
  by (simp add: tail_bytes_init_def HELPER_CHUNK_def)

lemma small_len: "n \<le> HELPER_CHUNK \<Longrightarrow> unat (of_nat n :: u32) = n"
  by (simp add: HELPER_CHUNK_def unat_of_nat)

lemma tail_bytes_le: "limit t = HELPER_CHUNK \<Longrightarrow> tail_bytes_init D t \<le> HELPER_CHUNK"
  by (simp add: tail_bytes_init_def)

lemma handle_writes_law:
  assumes "honest_platform hr p" "limit t = HELPER_CHUNK"
    and "submit_write hr (tail_IoBuf D) (p_write p i) (write_handle_at_new h off t) m = (r, t')"
  shows "t' = t \<and> (\<forall>n. r = Inr n \<longrightarrow> n \<le> tail_bytes_init D t)"
proof -
  have b: "bytes_init (tail_IoBuf D) t = tail_bytes_init D t" by (simp add: tail_IoBuf_def)
  have "honest_write hr (tail_bytes_init D t)
      (p_write p i h q (of_nat (tail_bytes_init D t)) ov m)" for q ov
    using assms(1) small_len [OF tail_bytes_le [OF assms(2), of D]]
    unfolding honest_platform_def by metis
  then have "n \<le> tail_bytes_init D t" if "r = Inr n" for n
    using submit_write_bound [of "tail_IoBuf D" t hr "p_write p i" h off m n] assms(3) that
      tail_chunk_small [OF assms(2), of D] by (simp add: b)
  moreover have "t' = t" using submit_write_buffer assms(3) by (metis snd_conv)
  ultimately show ?thesis by simp
qed

lemma socket_writes_law:
  assumes "honest_platform hr p" "limit t = HELPER_CHUNK"
    and "submit_send hr (tail_IoBuf D) (p_send p i) (send_new h t) m = (r, t')"
  shows "t' = t \<and> (\<forall>n. r = Inr n \<longrightarrow> n \<le> tail_bytes_init D t)"
proof -
  have b: "bytes_init (tail_IoBuf D) t = tail_bytes_init D t" by (simp add: tail_IoBuf_def)
  have "honest_write hr (tail_bytes_init D t) (p_send p i h (of_nat (tail_bytes_init D t), q) m)" for q
    using assms(1) small_len [OF tail_bytes_le [OF assms(2), of D]]
    unfolding honest_platform_def by metis
  then have "n \<le> tail_bytes_init D t" if "r = Inr n" for n
    using submit_send_bound [of "tail_IoBuf D" t hr "p_send p i" h m n] assms(3) that
      tail_chunk_small [OF assms(2), of D] by (simp add: b)
  moreover have "t' = t" using submit_send_buffer assms(3) by (metis snd_conv)
  ultimately show ?thesis by simp
qed

lemma file_io_writes_law:
  assumes "honest_platform hr p"
  shows "writes_law D (file_io hr D p h)"
  unfolding writes_law_def
proof (intro allI impI)
  fix s :: run_log and m pos and t :: "'a TailBuf"
  assume lim: "limit t = HELPER_CHUNK"
  obtain r t' where sub: "submit_write hr (tail_IoBuf D) (p_write p (fst s)) (write_handle_at_new h (of_nat pos) t) m = (r, t')"
    by (metis prod.exhaust)
  from handle_writes_law [OF assms lim sub] sub
  show "case write_once (file_io hr D p h) s m pos t of (r, t', s') \<Rightarrow>
      t' = t \<and> (case r of Inl _ \<Rightarrow> snd s' = snd s
        | Inr n \<Rightarrow> n \<le> tail_bytes_init D t \<and>
            snd s' = snd s @ [(pos, mem_load m (tail_stable_ptr D t) n)])"
    by (simp add: file_io_def log_write_def split: sum.split)
qed

lemma pipe_io_writes_law:
  assumes "honest_platform hr p"
  shows "writes_law D (pipe_io hr D p h)"
  unfolding writes_law_def
proof (intro allI impI)
  fix s :: run_log and m pos and t :: "'a TailBuf"
  assume lim: "limit t = HELPER_CHUNK"
  obtain r t' where sub: "submit_write hr (tail_IoBuf D) (p_write p (fst s)) (write_handle_at_new h 0 t) m = (r, t')"
    by (metis prod.exhaust)
  from handle_writes_law [OF assms lim sub] sub
  show "case write_once (pipe_io hr D p h) s m pos t of (r, t', s') \<Rightarrow>
      t' = t \<and> (case r of Inl _ \<Rightarrow> snd s' = snd s
        | Inr n \<Rightarrow> n \<le> tail_bytes_init D t \<and>
            snd s' = snd s @ [(pos, mem_load m (tail_stable_ptr D t) n)])"
    by (simp add: pipe_io_def log_write_def split: sum.split)
qed

lemma socket_io_writes_law:
  assumes "honest_platform hr p"
  shows "writes_law D (socket_io hr D p h)"
  unfolding writes_law_def
proof (intro allI impI)
  fix s :: run_log and m pos and t :: "'a TailBuf"
  assume lim: "limit t = HELPER_CHUNK"
  obtain r t' where sub: "submit_send hr (tail_IoBuf D) (p_send p (fst s)) (send_new h t) m = (r, t')"
    by (metis prod.exhaust)
  from socket_writes_law [OF assms lim sub] sub
  show "case write_once (socket_io hr D p h) s m pos t of (r, t', s') \<Rightarrow>
      t' = t \<and> (case r of Inl _ \<Rightarrow> snd s' = snd s
        | Inr n \<Rightarrow> n \<le> tail_bytes_init D t \<and>
            snd s' = snd s @ [(pos, mem_load m (tail_stable_ptr D t) n)])"
    by (simp add: socket_io_def log_write_def split: sum.split)
qed

lemmas io_writes_law = file_io_writes_law pipe_io_writes_law socket_io_writes_law

lemma write_all_loop_correct:
  assumes "writes_law D io" "transferred \<le> target" "target = bytes_init D b"
    and "stable_ptr D b + target \<le> usize_max"
  shows "\<exists>tr s' chunks. write_all_loop hr io m target transferred s pos b = Returned (tr, s') \<and>
     tr_buffer tr = b \<and> snd s' = snd s @ chunks \<and>
     transferred \<le> tr_transferred tr \<and> tr_transferred tr \<le> target \<and>
     (tr_result tr = Inr () \<longleftrightarrow> tr_transferred tr = target) \<and>
     concat (map snd chunks) = mem_load m (stable_ptr D b + transferred) (tr_transferred tr - transferred) \<and>
     ((\<forall>q n. q + n \<le> u64_max \<longrightarrow> advance_position io q n = q + n) \<longrightarrow>
        pos + (target - transferred) \<le> u64_max \<longrightarrow> contiguous pos chunks)"
  using assms
proof (induction hr io m target transferred s pos b rule: write_all_loop.induct)
  case (1 hr io m target transferred s pos b)
  show ?case
  proof (cases "transferred < target")
    case False
    then have "write_all_loop hr io m target transferred s pos b = Returned (success b transferred, s)"
      by (simp add: write_all_loop.simps [of hr io m target transferred])
    with "1.prems" False show ?thesis
      by (intro exI [of _ "success b transferred"] exI [of _ s] exI [of _ "[]"]) (simp add: success_def)
  next
    case True
    let ?t = "tail_new b transferred HELPER_CHUNK"
    obtain r t' s' where w: "write_once io s m pos ?t = (r, t', s')" by (metis prod_cases3)
    have lim: "limit ?t = HELPER_CHUNK" by (simp add: tail_new_def)
    have law0: "t' = ?t \<and> (case r of Inl _ \<Rightarrow> snd s' = snd s
        | Inr n \<Rightarrow> n \<le> tail_bytes_init D ?t \<and> snd s' = snd s @ [(pos, mem_load m (tail_stable_ptr D ?t) n)])"
      using "1.prems"(1) [unfolded writes_law_def, rule_format, OF lim, where s = s and m = m and pos = pos] w by simp
    have law: "t' = ?t" "\<And>e. r = Inl e \<Longrightarrow> snd s' = snd s"
      "\<And>n. r = Inr n \<Longrightarrow> n \<le> tail_bytes_init D ?t \<and>
          snd s' = snd s @ [(pos, mem_load m (tail_stable_ptr D ?t) n)]"
      using law0 by (auto split: sum.splits)
    have ptr: "tail_stable_ptr D ?t = stable_ptr D b + transferred"
      using "1.prems" True by (simp add: tail_stable_ptr_def tail_new_def)
    have b: "inner t' = b" by (simp add: law tail_new_def)
    note loop = write_all_loop.simps [of hr io m target transferred s pos b]
    show ?thesis
    proof (cases r)
      case (Inl e)
      with True w law b show ?thesis
        by (intro exI [of _ "failure b transferred (classify_platform_error hr e)"] exI [of _ s'] exI [of _ "[]"])
          (simp add: loop failure_def)
    next
      case (Inr n)
      have n: "n \<le> target - transferred" "snd s' = snd s @ [(pos, mem_load m (stable_ptr D b + transferred) n)]"
        using law(3) [OF Inr] "1.prems"(3) ptr by (auto simp: tail_bytes_init_def tail_new_def)
      show ?thesis
      proof (cases "n = 0")
        case zero: True
        with True w Inr b n show ?thesis
          by (intro exI [of _ "failure b transferred TransferClosedPeer"] exI [of _ s'] exI [of _ "[(pos, [])]"])
            (simp add: loop failure_def)
      next
        case False
        have le: "transferred + n \<le> target" using n True by simp
        have max: "\<not> transferred + n > usize_max" using le "1.prems"(4) by simp
        have red: "write_all_loop hr io m target transferred s pos b =
            write_all_loop hr io m target (transferred + n) s' (advance_position io pos n) b"
          using True w Inr False max b by (simp add: loop)
        note IH0 = "1.IH" [OF True w [symmetric] refl Inr False max "1.prems"(1) le,
            unfolded b, OF "1.prems"(3,4)]
        obtain tr s2 chunks where IH:
          "write_all_loop hr io m target (transferred + n) s' (advance_position io pos n) b = Returned (tr, s2)"
          "tr_buffer tr = b" "snd s2 = snd s' @ chunks" "transferred + n \<le> tr_transferred tr"
          "tr_transferred tr \<le> target" "tr_result tr = Inr () \<longleftrightarrow> tr_transferred tr = target"
          "concat (map snd chunks) =
             mem_load m (stable_ptr D b + (transferred + n)) (tr_transferred tr - (transferred + n))"
          "(\<forall>q n. q + n \<le> u64_max \<longrightarrow> advance_position io q n = q + n) \<longrightarrow>
             advance_position io pos n + (target - (transferred + n)) \<le> u64_max \<longrightarrow>
             contiguous (advance_position io pos n) chunks"
          using IH0 by blast
        have split: "tr_transferred tr - transferred = n + (tr_transferred tr - (transferred + n))"
          using IH(4) by simp
        have data: "mem_load m (stable_ptr D b + transferred) (tr_transferred tr - transferred) =
            mem_load m (stable_ptr D b + transferred) n @ concat (map snd chunks)"
          unfolding split IH(7) by (simp only: mem_load_split add.assoc)
        have "contiguous pos ((pos, mem_load m (stable_ptr D b + transferred) n) # chunks)"
          if "\<forall>q n. q + n \<le> u64_max \<longrightarrow> advance_position io q n = q + n"
            and "pos + (target - transferred) \<le> u64_max"
        proof -
          have "pos + n \<le> u64_max" using that(2) n True by linarith
          with that(1) have a: "advance_position io pos n = pos + n" by blast
          moreover have "pos + n + (target - (transferred + n)) \<le> u64_max"
            using that(2) le by linarith
          ultimately show ?thesis using IH(8) that(1) by simp
        qed
        with red IH n data show ?thesis
          by (intro exI [of _ tr] exI [of _ s2]
              exI [of _ "(pos, mem_load m (stable_ptr D b + transferred) n) # chunks"]) simp
      qed
    qed
  qed
qed

section \<open>Reading\<close>

definition read_chunk :: "nat \<Rightarrow> hresult + ReadOutcome \<Rightarrow> u8 list \<Rightarrow> (nat \<times> u8 option list) list" where
  "read_chunk pos r data =
     (case r of Inr (Bytes _) \<Rightarrow> [(pos, map Some data)] | Inr (MoreData _) \<Rightarrow> [(pos, map Some data)]
      | _ \<Rightarrow> [])"

definition empty_read :: "hresult + ReadOutcome \<Rightarrow> bool" where
  "empty_read r \<longleftrightarrow> r = Inr (Bytes 0) \<or> r = Inr (MoreData 0)"

context io_buf_mut
begin

definition reads_law :: "(run_log, 'b) WholePayloadIo \<Rightarrow> bool" where
  "reads_law io \<longleftrightarrow>
     (\<forall>s m pos t u. valid_tail t \<and> tail_as_uninit D t = Some u \<and> us_len u \<le> HELPER_CHUNK \<longrightarrow>
        (\<exists>r t' data. read_once io s m pos t =
             Some (r, t', mem_write m (us_ptr u) data, (Suc (fst s), snd s @ read_chunk pos r data)) \<and>
           length data \<le> us_len u \<and> read_result (tail_IoBufMut D) t r t' data))"

lemma tail_publishes:
  assumes "valid (inner t)" "as_uninit D (inner t) = Some u" "offset t \<le> us_len u"
    and "limit t \<le> usize_max" "n \<le> min (limit t) (us_len u - offset t)"
    and "publishes (tail_IoBufMut D) t n t'"
  shows "publishes D (inner t) (offset t + n) (inner t')"
proof -
  have fits: "offset t + n \<le> us_len u" "us_len u \<le> usize_max"
    using assms(3,5) region [OF assms(1)] assms(2) by auto
  have step: "set_init (tail_IoBufMut D) x n =
      map_option (\<lambda>b. x\<lparr>inner := b\<rparr>) (set_init D (inner x) (offset t + n))"
    if "valid (inner x)" "as_uninit D (inner x) = Some u" "offset x = offset t" "limit x = limit t" for x
    using tail_region [of x u] that assms(3-5) fits
    by (simp add: tail_IoBufMut_def tail_set_init_def min_absorb1)
  from assms(6) obtain t1 where t1: "set_init (tail_IoBufMut D) t n = Some t1"
    "t' = t1 \<or> set_init (tail_IoBufMut D) t1 n = Some t'"
    by (auto simp: publishes_def)
  then obtain b1 where b1: "set_init D (inner t) (offset t + n) = Some b1" "t1 = t\<lparr>inner := b1\<rparr>"
    using step [OF assms(1,2)] by auto
  have "valid b1 \<and> as_uninit D b1 = Some u"
    using publish [OF assms(1,2) fits(1)] b1 by auto
  then have "set_init (tail_IoBufMut D) t1 n =
      map_option (\<lambda>b. t1\<lparr>inner := b\<rparr>) (set_init D b1 (offset t + n))"
    using step [of t1] b1(2) by simp
  with t1(2) b1 show ?thesis by (auto simp: publishes_def)
qed

text \<open>One iteration of either read helper.\<close>

lemma read_step:
  assumes "reads_law io" "valid b" "as_uninit D b = Some u" "off \<le> us_len u"
    and "init_range m (us_ptr u) (bytes_init D b)" "init_range m (us_ptr u) off"
  shows "\<exists>r t' data. read_once io s m pos (tail_new b off HELPER_CHUNK) =
       Some (r, t', mem_write m (us_ptr u + off) data, (Suc (fst s), snd s @ read_chunk pos r data)) \<and>
     length data \<le> us_len u - off \<and> valid (inner t') \<and> as_uninit D (inner t') = Some u \<and>
     init_range (mem_write m (us_ptr u + off) data) (us_ptr u) (bytes_init D (inner t')) \<and>
     (\<forall>n. r = Inr (Bytes n) \<or> r = Inr (MoreData n) \<longrightarrow>
        n = length data \<and> off + n \<le> bytes_init D (inner t') \<and>
        bytes_init D (inner t') \<le> max (off + n) (bytes_init D b) \<and> publishes D b (off + n) (inner t')) \<and>
     (read_chunk pos r data = [] \<longrightarrow> inner t' = b \<or> data = [] \<and> publishes D b off (inner t'))"
proof -
  let ?t = "tail_new b off HELPER_CHUNK"
  let ?v = "\<lparr>us_ptr = us_ptr u + off, us_len = min HELPER_CHUNK (us_len u - off)\<rparr> :: UninitSlice"
  have t: "inner ?t = b" "offset ?t = off" "limit ?t = HELPER_CHUNK" "HELPER_CHUNK \<le> usize_max"
    by (simp_all add: tail_new_def HELPER_CHUNK_def)
  have vt: "valid_tail ?t" using assms t by (auto simp: valid_tail_def)
  have v: "tail_as_uninit D ?t = Some ?v" using tail_region [of ?t u] assms t by simp
  then obtain r t' data where rd: "read_once io s m pos ?t =
      Some (r, t', mem_write m (us_ptr u + off) data, (Suc (fst s), snd s @ read_chunk pos r data))"
      "length data \<le> min HELPER_CHUNK (us_len u - off)" "read_result (tail_IoBufMut D) ?t r t' data"
    using assms(1) vt unfolding reads_law_def by (metis UninitSlice.select_convs min.cobounded1)
  let ?m = "mem_write m (us_ptr u + off) data"
  have keep: "init_range ?m (us_ptr u) (bytes_init D b)" "init_range ?m (us_ptr u) (off + length data)"
    using assms(5,6) by (auto simp: init_range_add intro: init_range_write init_range_written)
  have pub: "publishes D b (off + n) (inner t') \<and> valid (inner t') \<and> as_uninit D (inner t') = Some u \<and>
      off + n \<le> bytes_init D (inner t') \<and> bytes_init D (inner t') \<le> max (off + n) (bytes_init D b) \<and>
      init_range ?m (us_ptr u) (bytes_init D (inner t'))"
    if "publishes (tail_IoBufMut D) ?t n t'" "n = length data" for n
  proof -
    have p: "publishes D b (off + n) (inner t')"
      using tail_publishes [of ?t u n t'] assms t rd(2) that by simp
    have "off + n \<le> us_len u" using rd(2) that(2) assms(4) by auto
    from publishes_ok [OF assms(2,3) this p]
    have ok: "valid (inner t')" "as_uninit D (inner t') = Some u" "off + n \<le> bytes_init D (inner t')"
      "bytes_init D (inner t') \<le> max (off + n) (bytes_init D b)" by auto
    have "init_range ?m (us_ptr u) (max (off + n) (bytes_init D b))"
      using keep that(2) by (simp add: max_def)
    with ok p show ?thesis by (blast intro: init_range_le)
  qed
  have same: "valid (inner ?t) \<and> as_uninit D (inner ?t) = Some u \<and>
      init_range ?m (us_ptr u) (bytes_init D (inner ?t))"
    using assms(2,3) keep(1) t by simp
  have res: "valid (inner t') \<and> as_uninit D (inner t') = Some u \<and>
      init_range ?m (us_ptr u) (bytes_init D (inner t'))"
    using rd(3) same pub
    by (auto simp: read_result_def split: sum.splits ReadOutcome.splits)
  have cnt: "\<forall>n. r = Inr (Bytes n) \<or> r = Inr (MoreData n) \<longrightarrow>
      n = length data \<and> off + n \<le> bytes_init D (inner t') \<and>
      bytes_init D (inner t') \<le> max (off + n) (bytes_init D b) \<and> publishes D b (off + n) (inner t')"
    using rd(3) pub by (auto simp: read_result_def)
  have rest: "read_chunk pos r data = [] \<longrightarrow> inner t' = b \<or> data = [] \<and> publishes D b off (inner t')"
    using rd(3) pub [of 0] t
    by (auto simp: read_result_def read_chunk_def split: sum.splits ReadOutcome.splits)
  show ?thesis using rd(1,2) res cnt rest by auto
qed

end

lemma log_read_chunk:
  assumes "read_result D b r b' data"
  shows "log_read s pos ptr (Some (r, b', mem_write m ptr data)) =
     Some (r, b', mem_write m ptr data, (Suc (fst s), snd s @ read_chunk pos r data))"
  using assms
  by (auto simp: log_read_def read_chunk_def read_result_def mem_load_write_same
      split: sum.splits ReadOutcome.splits)

context io_buf_mut
begin

lemma tail_facts:
  assumes "valid_tail t" "tail_as_uninit D t = Some u" "us_len u \<le> HELPER_CHUNK"
  shows "as_uninit (tail_IoBufMut D) t = Some u" "us_len u \<le> u32_max"
    "tail_stable_ptr D t = us_ptr u" "unat (of_nat (us_len u) :: u32) = us_len u"
proof -
  show "as_uninit (tail_IoBufMut D) t = Some u" using assms(2) by (simp add: tail_IoBufMut_def)
  then show "tail_stable_ptr D t = us_ptr u"
    using io_buf_mut.region [OF tail_contract assms(1)] by (auto simp: tail_IoBufMut_def)
  show "us_len u \<le> u32_max" using assms(3) by (simp add: HELPER_CHUNK_def)
  show "unat (of_nat (us_len u) :: u32) = us_len u" using assms(3) by (rule small_len)
qed

lemma handle_reads:
  assumes "hresult_conv hr" "honest_platform hr p"
    and "valid_tail t" "tail_as_uninit D t = Some u" "us_len u \<le> HELPER_CHUNK"
  shows "\<exists>r t' data. log_read s pos (tail_stable_ptr D t)
        (submit_read hr (tail_IoBufMut D) (p_read p (fst s)) (read_handle_at_new h off t) m) =
       Some (r, t', mem_write m (us_ptr u) data, (Suc (fst s), snd s @ read_chunk pos r data)) \<and>
     length data \<le> us_len u \<and> read_result (tail_IoBufMut D) t r t' data"
proof -
  note f = tail_facts [OF assms(3-5)]
  have "honest_read hr m (us_ptr u) (us_len u) (p_read p (fst s) h (us_ptr u) (of_nat (us_len u))
      (set_offset \<lparr>Offset = 0, OffsetHigh = 0\<rparr> off) m)"
    using assms(2) f(4) unfolding honest_platform_def by metis
  from io_buf_mut.submit_read_result [where RF = "p_read p (fst s)" and h = h and off = off and m = m,
      OF tail_contract assms(1,3) f(1,2) this]
  obtain r t' data where rd: "submit_read hr (tail_IoBufMut D) (p_read p (fst s)) (read_handle_at_new h off t) m =
      Some (r, t', mem_write m (us_ptr u) data)" "length data \<le> us_len u"
      "read_result (tail_IoBufMut D) t r t' data"
    by blast
  show ?thesis
    unfolding rd(1) f(3) log_read_chunk [OF rd(3)] using rd(2,3) by blast
qed

lemma socket_reads:
  assumes "hresult_conv hr" "honest_platform hr p"
    and "valid_tail t" "tail_as_uninit D t = Some u" "us_len u \<le> HELPER_CHUNK"
  shows "\<exists>r t' data. log_read s pos (tail_stable_ptr D t)
        (submit_recv hr (tail_IoBufMut D) (p_recv p (fst s)) (recv_new sock t) m) =
       Some (r, t', mem_write m (us_ptr u) data, (Suc (fst s), snd s @ read_chunk pos r data)) \<and>
     length data \<le> us_len u \<and> read_result (tail_IoBufMut D) t r t' data"
proof -
  note f = tail_facts [OF assms(3-5)]
  have "honest_read hr m (us_ptr u) (us_len u) (p_recv p (fst s) sock (of_nat (us_len u), us_ptr u) 0 m)"
    using assms(2) f(4) unfolding honest_platform_def by metis
  from io_buf_mut.submit_recv_result [where WR = "p_recv p (fst s)" and sock = sock and m = m,
      OF tail_contract assms(1,3) f(1,2) this]
  obtain r t' data where rd: "submit_recv hr (tail_IoBufMut D) (p_recv p (fst s)) (recv_new sock t) m =
      Some (r, t', mem_write m (us_ptr u) data)" "length data \<le> us_len u"
      "read_result (tail_IoBufMut D) t r t' data"
    by blast
  show ?thesis
    unfolding rd(1) f(3) log_read_chunk [OF rd(3)] using rd(2,3) by blast
qed

lemma io_reads_law:
  assumes "hresult_conv hr" "honest_platform hr p"
  shows "reads_law (file_io hr D p h)" "reads_law (pipe_io hr D p h)" "reads_law (socket_io hr D p h)"
  unfolding reads_law_def file_io_def pipe_io_def socket_io_def WholePayloadIo.select_convs
  using handle_reads [OF assms] socket_reads [OF assms] by blast+

text \<open>\<open>read_exact\<close> never panics, and whatever it returns is consistent with what was delivered.\<close>

definition exact_post ::
  "UninitSlice \<Rightarrow> nat \<Rightarrow> mem \<Rightarrow> run_log \<Rightarrow> 'b TransferResult \<Rightarrow> mem \<Rightarrow> run_log \<Rightarrow> bool" where
  "exact_post u transferred m s tr m' s' \<longleftrightarrow>
     valid (tr_buffer tr) \<and> as_uninit D (tr_buffer tr) = Some u \<and>
     init_range m' (us_ptr u) (bytes_init D (tr_buffer tr)) \<and>
     transferred \<le> tr_transferred tr \<and> tr_transferred tr \<le> us_len u \<and>
     (tr_result tr = Inr () \<longleftrightarrow> tr_transferred tr = us_len u) \<and>
     (tr_result tr = Inr () \<longrightarrow> bytes_init D (tr_buffer tr) = us_len u) \<and>
     (\<exists>chunks. snd s' = snd s @ chunks \<and>
        mem_load m' (us_ptr u) (tr_transferred tr) =
          mem_load m (us_ptr u) transferred @ concat (map snd chunks))"

lemma exact_post_step:
  assumes "exact_post u (transferred + n) m1 s1 tr m' s'"
    and "snd s1 = snd s @ chunk" "mem_load m1 (us_ptr u) (transferred + n) =
      mem_load m (us_ptr u) transferred @ concat (map snd chunk)"
  shows "exact_post u transferred m s tr m' s'"
proof -
  from assms(1) obtain chunks where "snd s' = snd s1 @ chunks"
    "mem_load m' (us_ptr u) (tr_transferred tr) =
      mem_load m1 (us_ptr u) (transferred + n) @ concat (map snd chunks)"
    by (auto simp: exact_post_def)
  with assms show ?thesis
    by (auto simp: exact_post_def intro: exI [of _ "chunk @ chunks"])
qed

lemma read_exact_loop_correct:
  assumes "reads_law io" "valid b" "as_uninit D b = Some u" "transferred \<le> us_len u"
    and "init_range m (us_ptr u) (bytes_init D b)" "init_range m (us_ptr u) transferred"
    and "transferred = us_len u \<Longrightarrow> us_len u \<le> bytes_init D b"
  shows "case read_exact_loop fuel hr io (us_len u) transferred s m pos b of
           Running \<Rightarrow> True
         | Panicked \<Rightarrow> False
         | Returned (tr, m', s') \<Rightarrow> exact_post u transferred m s tr m' s'"
  using assms
proof (induction fuel arbitrary: transferred s m pos b)
  case 0
  have "bytes_init D b \<le> us_len u" using region [OF "0.prems"(2)] "0.prems"(3) by auto
  with "0.prems" show ?case by (auto simp: success_def exact_post_def)
next
  case (Suc fuel)
  have cap: "bytes_init D b \<le> us_len u" using region [OF Suc.prems(2)] Suc.prems(3) by auto
  show ?case
  proof (cases "transferred < us_len u")
    case False
    with Suc.prems cap show ?thesis by (auto simp: success_def exact_post_def)
  next
    case True
    obtain r t' data where rd: "read_once io s m pos (tail_new b transferred HELPER_CHUNK) =
        Some (r, t', mem_write m (us_ptr u + transferred) data, (Suc (fst s), snd s @ read_chunk pos r data))"
      "length data \<le> us_len u - transferred" "valid (inner t')" "as_uninit D (inner t') = Some u"
      "init_range (mem_write m (us_ptr u + transferred) data) (us_ptr u) (bytes_init D (inner t'))"
      "\<forall>n. r = Inr (Bytes n) \<or> r = Inr (MoreData n) \<longrightarrow>
        n = length data \<and> transferred + n \<le> bytes_init D (inner t') \<and>
        bytes_init D (inner t') \<le> max (transferred + n) (bytes_init D b) \<and>
        publishes D b (transferred + n) (inner t')"
      using read_step [OF Suc.prems(1-6), of s pos] by blast
    let ?m = "mem_write m (us_ptr u + transferred) data"
    let ?s = "(Suc (fst s), snd s @ read_chunk pos r data)"
    have below: "mem_load ?m (us_ptr u) transferred = mem_load m (us_ptr u) transferred"
      by (simp add: mem_load_write_below)
    have init: "init_range ?m (us_ptr u) (transferred + length data)"
      using Suc.prems(6) by (simp add: init_range_add init_range_write init_range_written)
    have stop: "exact_post u transferred m s (failure (inner t') transferred e) ?m ?s"
      if "read_chunk pos r data = []" for e
      using that rd True below by (simp add: exact_post_def failure_def)
    have go: "case read_exact_loop fuel hr io (us_len u) (transferred + n) ?s ?m pos' (inner t') of
        Running \<Rightarrow> True | Panicked \<Rightarrow> False
      | Returned (tr, m', s') \<Rightarrow> exact_post u transferred m s tr m' s'"
      if "r = Inr (Bytes n) \<or> r = Inr (MoreData n)" for n pos'
    proof -
      have n: "n = length data" "transferred + n \<le> bytes_init D (inner t')" using rd(6) that by auto
      have ch: "read_chunk pos r data = [(pos, map Some data)]"
        using that by (auto simp: read_chunk_def)
      have "mem_load ?m (us_ptr u) (transferred + n) = mem_load m (us_ptr u) transferred @ map Some data"
        unfolding n(1) by (rule mem_load_write_append)
      then have "exact_post u transferred m s tr m' s'"
        if "exact_post u (transferred + n) ?m ?s tr m' s'" for tr m' s'
        using exact_post_step [OF that, where chunk = "[(pos, map Some data)]"] ch by simp
      moreover have "case read_exact_loop fuel hr io (us_len u) (transferred + n) ?s ?m pos' (inner t') of
          Running \<Rightarrow> True | Panicked \<Rightarrow> False
        | Returned (tr, m', s') \<Rightarrow> exact_post u (transferred + n) ?m ?s tr m' s'"
      proof (rule Suc.IH [OF Suc.prems(1) rd(3,4) _ rd(5)])
        show "transferred + n \<le> us_len u" using rd(2) n True by simp
        show "init_range ?m (us_ptr u) (transferred + n)" using init n by simp
        show "us_len u \<le> bytes_init D (inner t')" if "transferred + n = us_len u" using that n by simp
      qed
      ultimately show ?thesis by (auto split: exec.splits)
    qed
    show ?thesis
    proof (cases r)
      case (Inl e)
      with True rd(1) stop show ?thesis by (simp add: read_chunk_def)
    next
      case (Inr oc)
      have clamp: "min (length data) (us_len u - transferred) = length data" using rd(2) by simp
      show ?thesis
      proof (cases oc)
        case (Bytes n)
        have "n = length data" using rd(6) Inr Bytes by simp
        with True rd(1) Inr Bytes go [of n pos] go [of n "advance_position io pos n"] clamp show ?thesis
          by (cases "data = []") (simp_all add: Let_def)
      next
        case (MoreData n)
        have "n = length data" using rd(6) Inr MoreData by simp
        with True rd(1) Inr MoreData go [of n "advance_position io pos n"] clamp show ?thesis
          by (simp add: Let_def)
      next
        case Eof
        with True rd(1) Inr stop show ?thesis by (simp add: read_chunk_def)
      next
        case ClosedPeer
        with True rd(1) Inr stop show ?thesis by (simp add: read_chunk_def)
      qed
    qed
  qed
qed

text \<open>
  Enough fuel. \<open>z\<close> bounds the empty messages still to come; every other completed read makes
  progress, so \<open>target + z\<close> reads are enough.
\<close>

lemma read_exact_loop_returns:
  assumes "reads_law io" "valid b" "as_uninit D b = Some u" "transferred \<le> us_len u"
    and "init_range m (us_ptr u) (bytes_init D b)" "init_range m (us_ptr u) transferred"
    and "\<And>s m pos t r t' m' s'. read_once io s m pos t = Some (r, t', m', s') \<Longrightarrow>
           limit t = HELPER_CHUNK \<Longrightarrow> valid_tail t \<Longrightarrow> tail_as_uninit D t \<noteq> Some \<lparr>us_ptr = tail_stable_ptr D t, us_len = 0\<rparr> \<Longrightarrow>
           (z s' :: nat) \<le> z s \<and> (empty_read r \<longrightarrow> z s' < z s)"
    and "us_len u - transferred + z s \<le> fuel"
  shows "\<exists>tr m' s'. read_exact_loop fuel hr io (us_len u) transferred s m pos b = Returned (tr, m', s')"
  using assms(1-6,8)
proof (induction fuel arbitrary: transferred s m pos b)
  case 0
  then show ?case by simp
next
  case (Suc fuel)
  show ?case
  proof (cases "transferred < us_len u")
    case False
    then show ?thesis by simp
  next
    case True
    let ?t = "tail_new b transferred HELPER_CHUNK"
    obtain r t' data where rd: "read_once io s m pos ?t =
        Some (r, t', mem_write m (us_ptr u + transferred) data, (Suc (fst s), snd s @ read_chunk pos r data))"
      "length data \<le> us_len u - transferred" "valid (inner t')" "as_uninit D (inner t') = Some u"
      "init_range (mem_write m (us_ptr u + transferred) data) (us_ptr u) (bytes_init D (inner t'))"
      "\<forall>n. r = Inr (Bytes n) \<or> r = Inr (MoreData n) \<longrightarrow>
        n = length data \<and> transferred + n \<le> bytes_init D (inner t') \<and>
        bytes_init D (inner t') \<le> max (transferred + n) (bytes_init D b) \<and>
        publishes D b (transferred + n) (inner t')"
      using read_step [OF Suc.prems(1-6), of s pos] by blast
    let ?m = "mem_write m (us_ptr u + transferred) data"
    let ?s = "(Suc (fst s), snd s @ read_chunk pos r data)"
    have t: "inner ?t = b" "offset ?t = transferred" "limit ?t = HELPER_CHUNK" "HELPER_CHUNK \<le> usize_max"
      by (simp_all add: tail_new_def HELPER_CHUNK_def)
    have vt: "valid_tail ?t" using Suc.prems t by (auto simp: valid_tail_def)
    have "tail_as_uninit D ?t = Some \<lparr>us_ptr = us_ptr u + transferred, us_len = min HELPER_CHUNK (us_len u - transferred)\<rparr>"
      using tail_region [of ?t u] Suc.prems t by simp
    then have ne: "tail_as_uninit D ?t \<noteq> Some \<lparr>us_ptr = tail_stable_ptr D ?t, us_len = 0\<rparr>"
      using True by (simp add: HELPER_CHUNK_def)
    have z: "z ?s \<le> z s" "empty_read r \<Longrightarrow> z ?s < z s"
      using assms(7) [OF rd(1) t(3) vt ne] by auto
    have init: "init_range ?m (us_ptr u) (transferred + length data)"
      using Suc.prems(6) by (simp add: init_range_add init_range_write init_range_written)
    have go: "\<exists>tr m' s'. read_exact_loop fuel hr io (us_len u) (transferred + n) ?s ?m pos' (inner t')
        = Returned (tr, m', s')"
      if "r = Inr (Bytes n) \<or> r = Inr (MoreData n)" for n pos'
    proof (rule Suc.IH [OF Suc.prems(1) rd(3,4) _ rd(5)])
      have n: "n = length data" using rd(6) that by auto
      show "transferred + n \<le> us_len u" using rd(2) n True by simp
      show "init_range ?m (us_ptr u) (transferred + n)" using init n by simp
      show "us_len u - (transferred + n) + z ?s \<le> fuel"
        using Suc.prems(7) z that True by (cases "n = 0") (auto simp: empty_read_def)
    qed
    have clamp: "min (length data) (us_len u - transferred) = length data" using rd(2) by simp
    show ?thesis
    proof (cases "\<exists>n. r = Inr (Bytes n) \<or> r = Inr (MoreData n)")
      case False
      with True rd(1) show ?thesis by (auto split: sum.splits ReadOutcome.splits)
    next
      case counted: True
      then obtain n where n: "r = Inr (Bytes n) \<or> r = Inr (MoreData n)" by blast
      then have "n = length data" using rd(6) by auto
      with True rd(1) n go [OF n] clamp show ?thesis
        by (cases "data = []") (auto simp: Let_def)
    qed
  qed
qed

end

section \<open>Reading to the end\<close>

definition alloc_ok :: "allocator \<Rightarrow> bool" where
  "alloc_ok al \<longleftrightarrow> (\<forall>v n p c. al v n = Some (p, c) \<longrightarrow> vlen v + n \<le> c \<and> p + c \<le> usize_max)"

definition end_post :: "nat \<Rightarrow> vec \<Rightarrow> mem \<Rightarrow> run_log \<Rightarrow> vec TransferResult \<Rightarrow> mem \<Rightarrow> run_log \<Rightarrow> bool" where
  "end_post transferred v m s tr m' s' \<longleftrightarrow>
     valid_vec (tr_buffer tr) \<and> init_range m' (vptr (tr_buffer tr)) (vlen (tr_buffer tr)) \<and>
     (\<exists>chunks. snd s' = snd s @ chunks \<and>
        tr_transferred tr = transferred + length (concat (map snd chunks)) \<and>
        mem_load m' (vptr (tr_buffer tr)) (vlen (tr_buffer tr)) =
          mem_load m (vptr v) (vlen v) @ concat (map snd chunks))"

lemma end_post_trans:
  assumes "end_post (transferred + length (concat (map snd chunk))) v1 m1 s1 tr m' s'"
    and "snd s1 = snd s @ chunk"
    and "mem_load m1 (vptr v1) (vlen v1) = mem_load m (vptr v) (vlen v) @ concat (map snd chunk)"
  shows "end_post transferred v m s tr m' s'"
proof -
  from assms(1) obtain chunks where "snd s' = snd s1 @ chunks"
    "tr_transferred tr = transferred + length (concat (map snd chunk)) + length (concat (map snd chunks))"
    "mem_load m' (vptr (tr_buffer tr)) (vlen (tr_buffer tr)) =
      mem_load m1 (vptr v1) (vlen v1) @ concat (map snd chunks)"
    by (auto simp: end_post_def)
  with assms show ?thesis
    by (auto simp: end_post_def intro: exI [of _ "chunk @ chunks"])
qed

lemma vec_publishes: "publishes vec_IoBufMut v n v' \<Longrightarrow> n \<le> vcap v \<Longrightarrow> v' = v\<lparr>vlen := n\<rparr>"
  by (auto simp: publishes_def vec_IoBufMut_def)

lemma reserve_ok:
  assumes "alloc_ok al" "valid_vec v" "init_range m (vptr v) (vlen v)"
    and "(if vlen v = vcap v then vec_reserve al v m HELPER_CHUNK else Some (v, m)) = Some (v1, m1)"
  shows "valid_vec v1 \<and> vlen v1 = vlen v \<and> vlen v1 < vcap v1 \<and> init_range m1 (vptr v1) (vlen v1) \<and>
         mem_load m1 (vptr v1) (vlen v1) = mem_load m (vptr v) (vlen v)"
proof (cases "vlen v = vcap v")
  case False
  with assms show ?thesis by (auto simp: valid_vec_def)
next
  case True
  then obtain p c where al: "al v HELPER_CHUNK = Some (p, c)" "v1 = v\<lparr>vptr := p, vcap := c\<rparr>"
    and m1: "m1 = (\<lambda>a. if p \<le> a \<and> a < p + c
        then (if a - p < vlen v then m (vptr v + (a - p)) else None) else m a)"
    using assms(4) by (auto simp: vec_reserve_def HELPER_CHUNK_def split: option.splits)
  have c: "vlen v + HELPER_CHUNK \<le> c" "p + c \<le> usize_max" using assms(1) al(1) by (auto simp: alloc_ok_def)
  have moved: "m1 (p + i) = m (vptr v + i)" if "i < vlen v" for i
    using that c by (simp add: m1)
  then have "mem_load m1 p (vlen v) = mem_load m (vptr v) (vlen v)"
    by (intro nth_equalityI) simp_all
  moreover have "init_range m1 p (vlen v)" using assms(3) moved by (simp add: init_range_iff)
  ultimately show ?thesis using al(2) c by (simp add: valid_vec_def HELPER_CHUNK_def)
qed

lemma read_to_end_loop_correct:
  assumes "vec.reads_law io" "alloc_ok al" "valid_vec v" "init_range m (vptr v) (vlen v)"
    and "transferred \<le> vlen v"
  shows "case read_to_end_loop fuel hr al io transferred s m pos v of
           Running \<Rightarrow> True
         | Panicked \<Rightarrow> (\<exists>w. al w HELPER_CHUNK = None)
         | Returned (tr, m', s') \<Rightarrow> end_post transferred v m s tr m' s'"
  using assms
proof (induction fuel arbitrary: transferred s m pos v)
  case 0
  then show ?case by simp
next
  case (Suc fuel)
  let ?res = "if vlen v = vcap v then vec_reserve al v m HELPER_CHUNK else Some (v, m)"
  show ?case
  proof (cases ?res)
    case None
    then show ?thesis
      by (auto simp: vec_reserve_def split: if_splits option.splits)
  next
    case (Some vm)
    obtain v1 m1 where vm: "?res = Some (v1, m1)" using Some by (cases vm) auto
    note r = reserve_ok [OF Suc.prems(2-4) vm]
    have ld: "mem_load m1 (vptr v1) (vlen v) = mem_load m (vptr v) (vlen v)" using r by metis
    have u: "as_uninit vec_IoBufMut v1 = Some \<lparr>us_ptr = vptr v1, us_len = vcap v1\<rparr>"
      by (simp add: vec_IoBufMut_def)
    have bi: "bytes_init vec_IoBufMut x = vlen x" for x by (simp add: vec_IoBufMut_def)
    obtain oc t' data where rd: "read_once io s m1 pos (tail_new v1 (vlen v1) HELPER_CHUNK) =
        Some (oc, t', mem_write m1 (vptr v1 + vlen v1) data, (Suc (fst s), snd s @ read_chunk pos oc data))"
      "length data \<le> vcap v1 - vlen v1" "valid_vec (inner t')"
      "init_range (mem_write m1 (vptr v1 + vlen v1) data) (vptr v1) (vlen (inner t'))"
      "\<forall>n. oc = Inr (Bytes n) \<or> oc = Inr (MoreData n) \<longrightarrow>
        n = length data \<and> publishes vec_IoBufMut v1 (vlen v1 + n) (inner t')"
      "read_chunk pos oc data = [] \<longrightarrow> inner t' = v1 \<or> data = [] \<and> publishes vec_IoBufMut v1 (vlen v1) (inner t')"
      using vec.read_step [OF Suc.prems(1) _ u, of "vlen v1" m1 s pos] r by (auto simp: bi)
    let ?m = "mem_write m1 (vptr v1 + vlen v1) data"
    let ?s = "(Suc (fst s), snd s @ read_chunk pos oc data)"
    have stop: "end_post transferred v m s \<lparr>tr_result = x, tr_buffer = inner t', tr_transferred = transferred\<rparr> ?m ?s"
      if "read_chunk pos oc data = []" for x
    proof -
      have "inner t' = v1"
        using rd(6) that vec_publishes [of v1 "vlen v1" "inner t'"] r by auto
      with rd(4) r that ld show ?thesis by (simp add: end_post_def mem_load_write_below)
    qed
    have go: "case read_to_end_loop fuel hr al io (transferred + n) ?s ?m pos' (inner t') of
        Running \<Rightarrow> True | Panicked \<Rightarrow> (\<exists>w. al w HELPER_CHUNK = None)
      | Returned (tr, m', s') \<Rightarrow> end_post transferred v m s tr m' s'"
      and fits: "\<not> transferred + n > usize_max"
      if "oc = Inr (Bytes n) \<or> oc = Inr (MoreData n)" for n pos'
    proof -
      have n: "n = length data" and p: "publishes vec_IoBufMut v1 (vlen v1 + n) (inner t')"
        using rd(5) that by blast+
      have "vlen v1 + n \<le> vcap v1" using rd(2) r n by linarith
      with p have v': "inner t' = v1\<lparr>vlen := vlen v1 + n\<rparr>" by (rule vec_publishes)
      show "\<not> transferred + n > usize_max"
        using Suc.prems(5) r rd(2) n by (auto simp: valid_vec_def)
      have ch: "read_chunk pos oc data = [(pos, map Some data)]"
        using that by (auto simp: read_chunk_def)
      have load: "mem_load ?m (vptr (inner t')) (vlen (inner t')) =
          mem_load m (vptr v) (vlen v) @ map Some data"
        using r ld mem_load_write_append [of m1 "vptr v1" "vlen v1" data] by (simp add: v' n)
      have step: "end_post transferred v m s tr m' s'"
        if "end_post (transferred + n) (inner t') ?m ?s tr m' s'" for tr m' s'
        using end_post_trans [where chunk = "[(pos, map Some data)]", of transferred "inner t'" ?m ?s tr m' s' s m v]
          that ch load n by simp
      have "case read_to_end_loop fuel hr al io (transferred + n) ?s ?m pos' (inner t') of
          Running \<Rightarrow> True | Panicked \<Rightarrow> (\<exists>w. al w HELPER_CHUNK = None)
        | Returned (tr, m', s') \<Rightarrow> end_post (transferred + n) (inner t') ?m ?s tr m' s'"
        by (rule Suc.IH [OF Suc.prems(1,2) rd(3)]) (use rd(4) Suc.prems(5) r v' in auto)
      with step show "case read_to_end_loop fuel hr al io (transferred + n) ?s ?m pos' (inner t') of
          Running \<Rightarrow> True | Panicked \<Rightarrow> (\<exists>w. al w HELPER_CHUNK = None)
        | Returned (tr, m', s') \<Rightarrow> end_post transferred v m s tr m' s'"
        by (auto split: exec.splits)
    qed
    show ?thesis
    proof (cases "\<exists>n. oc = Inr (Bytes n) \<or> oc = Inr (MoreData n)")
      case False
      then have "read_chunk pos oc data = []"
        by (auto simp: read_chunk_def split: sum.splits ReadOutcome.splits)
      with False vm rd(1) stop show ?thesis
        by (auto simp: success_def failure_def split: sum.splits ReadOutcome.splits)
    next
      case True
      then obtain n where n: "oc = Inr (Bytes n) \<or> oc = Inr (MoreData n)" by blast
      show ?thesis
        using vm rd(1) n go [OF n, of pos] go [OF n, of "advance_position io pos n"] fits [OF n]
        by (cases "n = 0") auto
    qed
  qed
qed


text \<open>Reads of a platform that ends the stream at call \<open>k\<close> at the latest: one unit of fuel per call is enough.\<close>

definition ends_by :: "nat \<Rightarrow> (run_log, vec) WholePayloadIo \<Rightarrow> bool" where
  "ends_by k io \<longleftrightarrow>
     (\<forall>s m pos t r t' m' s'. k \<le> fst s \<longrightarrow> read_once io s m pos t = Some (r, t', m', s') \<longrightarrow>
        (\<nexists>n. r = Inr (Bytes n) \<or> r = Inr (MoreData n)))"

lemma read_to_end_loop_returns:
  assumes "vec.reads_law io" "alloc_ok al" "valid_vec v" "init_range m (vptr v) (vlen v)"
    and "ends_by k io" "k - fst s < fuel"
  shows "read_to_end_loop fuel hr al io transferred s m pos v \<noteq> Running"
  using assms(1-4,6)
proof (induction fuel arbitrary: transferred s m pos v)
  case 0
  then show ?case by simp
next
  case (Suc fuel)
  let ?res = "if vlen v = vcap v then vec_reserve al v m HELPER_CHUNK else Some (v, m)"
  show ?case
  proof (cases ?res)
    case None
    then show ?thesis by auto
  next
    case (Some vm)
    obtain v1 m1 where vm: "?res = Some (v1, m1)" using Some by (cases vm) auto
    note r = reserve_ok [OF Suc.prems(2-4) vm]
    have u: "as_uninit vec_IoBufMut v1 = Some \<lparr>us_ptr = vptr v1, us_len = vcap v1\<rparr>"
      by (simp add: vec_IoBufMut_def)
    have bi: "bytes_init vec_IoBufMut x = vlen x" for x by (simp add: vec_IoBufMut_def)
    obtain oc t' data where rd: "read_once io s m1 pos (tail_new v1 (vlen v1) HELPER_CHUNK) =
        Some (oc, t', mem_write m1 (vptr v1 + vlen v1) data, (Suc (fst s), snd s @ read_chunk pos oc data))"
      "valid_vec (inner t')" "as_uninit vec_IoBufMut (inner t') = Some \<lparr>us_ptr = vptr v1, us_len = vcap v1\<rparr>"
      "init_range (mem_write m1 (vptr v1 + vlen v1) data) (vptr v1) (vlen (inner t'))"
      using vec.read_step [OF Suc.prems(1) _ u, of "vlen v1" m1 s pos] r by (auto simp: bi)
    let ?m = "mem_write m1 (vptr v1 + vlen v1) data"
    let ?s = "(Suc (fst s), snd s @ read_chunk pos oc data)"
    have ptr: "vptr (inner t') = vptr v1" using rd(3) by (simp add: vec_IoBufMut_def)
    show ?thesis
    proof (cases "k \<le> fst s")
      case True
      with assms(5) rd(1) have "\<nexists>n. oc = Inr (Bytes n) \<or> oc = Inr (MoreData n)"
        unfolding ends_by_def by metis
      with vm rd(1) show ?thesis by (auto split: sum.splits ReadOutcome.splits)
    next
      case False
      then have "k - fst ?s < fuel" using Suc.prems(5) by simp
      with Suc.IH [OF Suc.prems(1,2) rd(2), of ?m ?s] rd(4) ptr
      have "read_to_end_loop fuel hr al io tr ?s ?m pos' (inner t') \<noteq> Running" for tr pos' by simp
      with vm rd(1) show ?thesis by (auto split: sum.splits ReadOutcome.splits)
    qed
  qed
qed

lemma submit_recv_nonempty:
  assumes "as_uninit D b = Some u" "0 < us_len u"
    and "submit_recv hr D WR (recv_new sock b) m = Some (r, b', m')"
  shows "\<not> empty_read r"
  using assms
  by (auto simp: submit_recv_def recv_operate_def recv_new_def recv_record_completion_def recv_finish_def
      classify_socket_read_def empty_read_def win32_result_def Let_def
      split: sum.splits option.splits poll.splits if_splits)


section \<open>Properties\<close>

text \<open>The three transports, over one platform and one kind of buffer.\<close>

definition transport ::
  "(u32 \<Rightarrow> hresult) \<Rightarrow> 'b IoBufMut \<Rightarrow> platform \<Rightarrow> nat \<Rightarrow> (run_log, 'b) WholePayloadIo \<Rightarrow> bool" where
  "transport hr D p h io \<longleftrightarrow> io = file_io hr D p h \<or> io = pipe_io hr D p h \<or> io = socket_io hr D p h"

lemma transport_writes: "transport hr D p h io \<Longrightarrow> honest_platform hr p \<Longrightarrow> writes_law D io"
  unfolding transport_def using io_writes_law by metis

lemma transport_reads:
  "transport hr vec_IoBufMut p h io \<Longrightarrow> hresult_conv hr \<Longrightarrow> honest_platform hr p \<Longrightarrow> vec.reads_law io"
  unfolding transport_def using vec.io_reads_law by metis

text \<open>A platform that moves every byte asked for, at once.\<close>

definition prompt :: "(nat \<Rightarrow> mem \<Rightarrow> mem) \<Rightarrow> nat \<Rightarrow> mem \<Rightarrow> kcall" where
  "prompt w n m = \<lparr>k_ok = True, k_high = n, k_err = 0, k_mem = w n m,
     k_result = Inr 0, k_transferred = 0, k_done_mem = m\<rparr>"

definition prompt_platform :: platform where
  "prompt_platform =
     \<lparr>p_read = (\<lambda>i h ptr len ov m. prompt (\<lambda>n m. mem_write m ptr (replicate n 7)) (unat len) m),
      p_write = (\<lambda>i h ptr len ov m. prompt (\<lambda>n m. m) (unat len) m),
      p_recv = (\<lambda>i h (len, ptr) fl m. prompt (\<lambda>n m. mem_write m ptr (replicate n 7)) (unat len) m),
      p_send = (\<lambda>i h (len, ptr) m. prompt (\<lambda>n m. m) (unat len) m)\<rparr>"

lemma prompt_reads: "honest_read hr m ptr n (prompt (\<lambda>n m. mem_write m ptr (replicate n 7)) n m)"
  by (auto simp: honest_read_def prompt_def intro!: exI [of _ "replicate n 7"])

lemma prompt_honest: "honest_platform hr prompt_platform"
  by (simp add: honest_platform_def prompt_platform_def prompt_reads)
    (simp add: honest_write_def prompt_def)

definition closing_platform :: platform where
  "closing_platform = prompt_platform\<lparr>p_read := (\<lambda>i h ptr len ov m.
     if i = 0 then p_read prompt_platform i h ptr len ov m
     else \<lparr>k_ok = False, k_high = 0, k_err = hr_win32 ERROR_BROKEN_PIPE, k_mem = m,
           k_result = Inr 0, k_transferred = 0, k_done_mem = m\<rparr>)\<rparr>"

lemma closing_fails:
  "honest_read hr_win32 m ptr n \<lparr>k_ok = False, k_high = 0, k_err = hr_win32 ERROR_BROKEN_PIPE, k_mem = m,
     k_result = Inr 0, k_transferred = 0, k_done_mem = m\<rparr>"
  by (auto simp: honest_read_def hr_win32_def mem_write_Nil intro!: exI [of _ "[]"])

lemma closing_honest: "honest_platform hr_win32 closing_platform"
  using prompt_honest [of hr_win32] closing_fails
  by (simp add: honest_platform_def closing_platform_def)

lemma closing_read:
  "classify_read (Inl (hr_win32 ERROR_BROKEN_PIPE)) n = Some ClosedPeer"
  "hr_win32 ERROR_BROKEN_PIPE \<noteq> hr_win32 ERROR_IO_PENDING"
  by (simp_all add: classify_read_def win32_code_image [OF hr_win32_conv]) (simp add: hr_win32_def)

lemma closing_ends: "ends_by 1 (pipe_io hr_win32 vec_IoBufMut closing_platform 3)"
  by (auto simp: ends_by_def pipe_io_def log_read_def closing_platform_def submit_read_def read_operate_def
      win32_result_def checked_u32_len_def inline_transferred_count_def record_completion_def finish_def
      closing_read Let_def read_handle_at_new_def
      split: sum.splits option.splits poll.splits if_splits)

text \<open>
  Property C9. \<^verbatim>\<open>write_all\<close> over a file, a pipe or a socket always returns, gives the buffer back
  unchanged, and reports success exactly when every initialised byte was accepted. The bytes the
  platform accepted, in order, are the first \<open>tr_transferred\<close> bytes of the buffer: none skipped, none
  sent twice, whatever short writes happened on the way.
\<close>

theorem write_all_sends_prefix:
  assumes "honest_platform hr p" "transport hr D p h io"
    and "stable_ptr D b + bytes_init D b \<le> usize_max"
  shows "\<exists>tr s' chunks. write_all hr D io m s pos b = Returned (tr, s') \<and>
     tr_buffer tr = b \<and> snd s' = snd s @ chunks \<and> tr_transferred tr \<le> bytes_init D b \<and>
     (tr_result tr = Inr () \<longleftrightarrow> tr_transferred tr = bytes_init D b) \<and>
     concat (map snd chunks) = mem_load m (stable_ptr D b) (tr_transferred tr)"
  using write_all_loop_correct [OF transport_writes [OF assms(2,1)] _ refl assms(3), of 0 hr m s pos]
  unfolding write_all_def by fastforce

theorem write_all_sends_prefix_witness:
  "\<exists>tr s' chunks. write_all hr_win32 vec_IoBufMut (pipe_io hr_win32 vec_IoBufMut prompt_platform 3)
       [100 \<mapsto> 1, 101 \<mapsto> 2] (0, []) 0 \<lparr>vptr = 100, vcap = 4, vlen = 2\<rparr> = Returned (tr, s') \<and>
     snd s' = chunks \<and> concat (map snd chunks) = mem_load [100 \<mapsto> 1, 101 \<mapsto> 2] 100 (tr_transferred tr)"
proof -
  let ?v = "\<lparr>vptr = 100, vcap = 4, vlen = 2\<rparr> :: vec"
  have v: "stable_ptr vec_IoBufMut ?v = 100" "stable_ptr vec_IoBufMut ?v + bytes_init vec_IoBufMut ?v \<le> usize_max"
    by (simp_all add: vec_IoBufMut_def)
  from write_all_sends_prefix [where io = "pipe_io hr_win32 vec_IoBufMut prompt_platform 3",
      OF prompt_honest _ v(2), of hr_win32 3 "[100 \<mapsto> 1, 101 \<mapsto> 2]" "(0, [])" 0]
  show ?thesis unfolding v(1) by (fastforce simp: transport_def)
qed

text \<open>
  On a file \<^verbatim>\<open>write_all\<close> places its chunks back to back from the starting position, as
  long as the file's end stays within a \<^verbatim>\<open>u64\<close>: each accepted chunk is written where the one before it
  ended.
\<close>

theorem write_all_positions_contiguous:
  assumes "honest_platform hr p" "stable_ptr D b + bytes_init D b \<le> usize_max"
    and "pos + bytes_init D b \<le> u64_max"
  shows "\<exists>tr s' chunks. write_all hr D (file_io hr D p h) m s pos b = Returned (tr, s') \<and>
     snd s' = snd s @ chunks \<and> contiguous pos chunks"
  using write_all_loop_correct [OF file_io_writes_law [OF assms(1), of D h] _ refl assms(2), of 0 hr m s pos]
    assms(3)
  unfolding write_all_def by (auto simp: file_io_def)

theorem write_all_positions_contiguous_witness:
  "\<exists>tr s' chunks. write_all hr_win32 vec_IoBufMut (file_io hr_win32 vec_IoBufMut prompt_platform 3)
       (\<lambda>a. Some 9) (0, []) 40 \<lparr>vptr = 100, vcap = 5000, vlen = 5000\<rparr> = Returned (tr, s') \<and>
     snd s' = chunks \<and> contiguous 40 chunks"
  using write_all_positions_contiguous [OF prompt_honest, of vec_IoBufMut "\<lparr>vptr = 100, vcap = 5000, vlen = 5000\<rparr>" 40
      hr_win32 3 "\<lambda>a. Some 9" "(0, [])"]
  by (simp add: vec_IoBufMut_def)

text \<open>
  Property C8. \<^verbatim>\<open>read_exact\<close> into a vector never panics over any of the transports. When it returns, the
  vector still owns the same storage, all bytes up to its length are initialised, its first
  \<open>tr_transferred\<close> bytes are the delivered bytes in order, and it reports success exactly when the whole
  capacity was filled.
\<close>

theorem read_exact_fills_vec:
  assumes "hresult_conv hr" "honest_platform hr p" "transport hr vec_IoBufMut p h io"
    and "valid_vec v" "init_range m (vptr v) (vlen v)"
  shows "case read_exact fuel hr vec_IoBufMut io s m pos v of
      Running \<Rightarrow> True
    | Panicked \<Rightarrow> False
    | Returned (tr, m', s') \<Rightarrow>
        vptr (tr_buffer tr) = vptr v \<and> vcap (tr_buffer tr) = vcap v \<and>
        init_range m' (vptr v) (vlen (tr_buffer tr)) \<and>
        (tr_result tr = Inr () \<longleftrightarrow> tr_transferred tr = vcap v) \<and>
        (tr_result tr = Inr () \<longrightarrow> vlen (tr_buffer tr) = vcap v) \<and>
        (\<exists>chunks. snd s' = snd s @ chunks \<and>
           mem_load m' (vptr v) (tr_transferred tr) = concat (map snd chunks))"
proof -
  let ?u = "\<lparr>us_ptr = vptr v, us_len = vcap v\<rparr> :: UninitSlice"
  have u: "as_uninit vec_IoBufMut v = Some ?u" "bytes_init vec_IoBufMut v = vlen v"
    by (simp_all add: vec_IoBufMut_def)
  have "case read_exact_loop fuel hr io (us_len ?u) 0 s m pos v of
      Running \<Rightarrow> True | Panicked \<Rightarrow> False
    | Returned (tr, m', s') \<Rightarrow> vec.exact_post ?u 0 m s tr m' s'"
    by (rule vec.read_exact_loop_correct [OF transport_reads [OF assms(3,1,2)] assms(4) u(1)])
      (use assms(5) u(2) in simp_all)
  then show ?thesis
    by (auto simp: read_exact_def bytes_total_def u vec.exact_post_def split: exec.splits)
      (auto simp: vec_IoBufMut_def)
qed

theorem read_exact_fills_vec_witness:
  "read_exact 2 hr_win32 vec_IoBufMut (pipe_io hr_win32 vec_IoBufMut prompt_platform 3) (0, [])
       (\<lambda>_. None) 0 \<lparr>vptr = 100, vcap = 4, vlen = 0\<rparr> \<noteq> Panicked"
  using read_exact_fills_vec [OF hr_win32_conv prompt_honest, where v = "\<lparr>vptr = 100, vcap = 4, vlen = 0\<rparr>"
      and fuel = 2 and m = "\<lambda>_. None" and s = "(0, [])" and pos = 0 and h = 3
      and io = "pipe_io hr_win32 vec_IoBufMut prompt_platform 3"]
  by (auto simp: transport_def valid_vec_def)

text \<open>
  On a socket \<^verbatim>\<open>read_exact\<close> returns: a completed receive into a non-empty window is never
  empty, so one receive per missing byte is enough, and the vector it returns is either full or came
  with an error.
\<close>

theorem socket_read_exact_returns:
  assumes "hresult_conv hr" "honest_platform hr p" "valid_vec v" "init_range m (vptr v) (vlen v)"
    and "vcap v \<le> fuel"
  shows "\<exists>tr m' s'. read_exact fuel hr vec_IoBufMut (socket_io hr vec_IoBufMut p h) s m pos v =
           Returned (tr, m', s')"
proof -
  let ?u = "\<lparr>us_ptr = vptr v, us_len = vcap v\<rparr> :: UninitSlice"
  let ?io = "socket_io hr vec_IoBufMut p h"
  have u: "as_uninit vec_IoBufMut v = Some ?u" "bytes_init vec_IoBufMut v = vlen v"
    by (simp_all add: vec_IoBufMut_def)
  have "\<exists>tr m' s'. read_exact_loop fuel hr ?io (us_len ?u) 0 s m pos v = Returned (tr, m', s')"
  proof (rule vec.read_exact_loop_returns [where z = "\<lambda>_. 0", OF vec.io_reads_law(3) [OF assms(1,2)] assms(3) u(1)])
    fix s :: run_log and m pos t r t' m' and s' :: run_log
    assume rd: "read_once ?io s m pos t = Some (r, t', m', s')"
      and t: "limit t = HELPER_CHUNK" "vec.valid_tail t"
        "tail_as_uninit vec_IoBufMut t \<noteq> Some \<lparr>us_ptr = tail_stable_ptr vec_IoBufMut t, us_len = 0\<rparr>"
    obtain w where w: "as_uninit (tail_IoBufMut vec_IoBufMut) t = Some w"
      "us_ptr w = tail_stable_ptr vec_IoBufMut t"
      using io_buf_mut.region [OF vec.tail_contract t(2)] by (auto simp: tail_IoBufMut_def)
    then have "0 < us_len w" using t(3) by (cases w) (auto simp: tail_IoBufMut_def)
    then have "\<not> empty_read r"
      using rd submit_recv_nonempty [OF w(1)] by (auto simp: socket_io_def log_read_def)
    then show "0 \<le> (0::nat) \<and> (empty_read r \<longrightarrow> 0 < (0::nat))" by simp
  qed (use assms u(2) in simp_all)
  then show ?thesis by (simp add: read_exact_def bytes_total_def u)
qed

theorem socket_read_exact_returns_witness:
  "\<exists>tr m' s'. read_exact 4 hr_win32 vec_IoBufMut (socket_io hr_win32 vec_IoBufMut prompt_platform 3) (0, [])
       (\<lambda>_. None) 0 \<lparr>vptr = 100, vcap = 4, vlen = 0\<rparr> = Returned (tr, m', s')"
  by (rule socket_read_exact_returns [OF hr_win32_conv prompt_honest]) (simp_all add: valid_vec_def)

text \<open>
  \<^verbatim>\<open>read_to_end\<close> appends: over any transport, and whatever blocks the allocator hands out
  as the vector grows, the returned vector holds the bytes it started with followed by the delivered
  bytes in order, all initialised, and \<open>tr_transferred\<close> counts the delivered ones. It panics only when
  the allocator fails, and it returns once the stream has ended.
\<close>

theorem read_to_end_appends:
  assumes "hresult_conv hr" "honest_platform hr p" "transport hr vec_IoBufMut p h io"
    and "alloc_ok al" "valid_vec v" "init_range m (vptr v) (vlen v)"
    and "ends_by k io" "k < fuel"
  shows "case read_to_end fuel hr al io (0, []) m pos v of
      Running \<Rightarrow> False
    | Panicked \<Rightarrow> (\<exists>w. al w HELPER_CHUNK = None)
    | Returned (tr, m', s') \<Rightarrow>
        init_range m' (vptr (tr_buffer tr)) (vlen (tr_buffer tr)) \<and>
        mem_load m' (vptr (tr_buffer tr)) (vlen (tr_buffer tr)) =
          mem_load m (vptr v) (vlen v) @ concat (map snd (snd s')) \<and>
        tr_transferred tr = length (concat (map snd (snd s')))"
proof -
  note law = transport_reads [OF assms(3,1,2)]
  have "read_to_end_loop fuel hr al io 0 (0, []) m pos v \<noteq> Running"
    by (rule read_to_end_loop_returns [OF law assms(4-7)]) (use assms(8) in simp)
  with read_to_end_loop_correct [OF law assms(4-6) le0, where fuel = fuel and s = "(0, [])" and hr = hr and pos = pos]
  show ?thesis by (auto simp: read_to_end_def end_post_def split: exec.splits)
qed

theorem read_to_end_appends_witness:
  "read_to_end 2 hr_win32 (\<lambda>v n. if vlen v + n \<le> 9000 then Some (5000, vlen v + n) else None)
       (pipe_io hr_win32 vec_IoBufMut closing_platform 3)
       (0, []) (\<lambda>_. None) 0 \<lparr>vptr = 100, vcap = 0, vlen = 0\<rparr> \<noteq> Running"
proof -
  let ?al = "\<lambda>v n. if vlen v + n \<le> 9000 then Some (5000, vlen v + n) else None"
  let ?v = "\<lparr>vptr = 100, vcap = 0, vlen = 0\<rparr> :: vec"
  have "alloc_ok ?al" "valid_vec ?v" "init_range (\<lambda>_. None) (vptr ?v) (vlen ?v)"
    by (auto simp: alloc_ok_def valid_vec_def split: if_splits)
  from read_to_end_appends [OF hr_win32_conv closing_honest _ this closing_ends, where fuel = 2 and pos = 0 and h = 3]
  show ?thesis by (auto simp: transport_def)
qed


section \<open>The clamp of a count that is too large\<close>

text \<open>
  \<^verbatim>\<open>read_exact\<close> clamps a reported count to what the whole buffer still misses, not to the window it
  asked for. A platform that reports 5000 bytes for a 4096-byte window therefore moves the next window
  past 904 bytes nobody wrote, and the vector is published with them inside. (Windows never reports
  more than it was asked for; the guard is there for the case that it does.)
\<close>

definition over_reporting :: platform where
  "over_reporting = prompt_platform\<lparr>p_read := (\<lambda>i h ptr len ov m.
     prompt (\<lambda>_ m a. if ptr \<le> a \<and> a < ptr + unat len then Some 7 else m a) 5000 m)\<rparr>"

definition spill :: "nat \<Rightarrow> mem \<Rightarrow> mem" where
  "spill off m = (\<lambda>a. if off \<le> a \<and> a < off + min 4096 (6000 - off) then Some 7 else m a)"

lemma over_reported_read:
  assumes "off < 6000"
  shows "\<exists>s'. read_once (pipe_io hr_win32 vec_IoBufMut over_reporting 3) s m pos
       (tail_new \<lparr>vptr = 0, vcap = 6000, vlen = l\<rparr> off HELPER_CHUNK) =
     Some (Inr (Bytes 5000),
       tail_new \<lparr>vptr = 0, vcap = 6000, vlen = off + min 4096 (6000 - off)\<rparr> off HELPER_CHUNK, spill off m, s')"
proof -
  let ?b = "\<lparr>vptr = 0, vcap = 6000, vlen = l\<rparr> :: vec"
  let ?w = "min 4096 (6000 - off)"
  have u: "tail_as_uninit vec_IoBufMut (tail_new x off HELPER_CHUNK) = Some \<lparr>us_ptr = off, us_len = ?w\<rparr>"
    if "vptr x = 0" "vcap x = 6000" for x
    using assms that by (auto simp: tail_as_uninit_def tail_new_def vec_IoBufMut_def slice_mut_def
        saturating_add_def HELPER_CHUNK_def)
  have s: "tail_set_init vec_IoBufMut (tail_new x off HELPER_CHUNK) ?w =
      Some (tail_new (x\<lparr>vlen := off + ?w\<rparr>) off HELPER_CHUNK)"
    if "vptr x = 0" "vcap x = 6000" for x
    using assms u [OF that] that
    by (simp add: tail_set_init_def Let_def) (simp add: tail_new_def vec_IoBufMut_def min_def, arith)
  have len: "unat (of_nat ?w :: u32) = ?w" by (rule small_len) (simp add: HELPER_CHUNK_def)
  have "?w \<le> u32_max" by simp
  with len u [of ?b] s [of ?b] s [of "?b\<lparr>vlen := off + ?w\<rparr>"] u [of "?b\<lparr>vlen := off + ?w\<rparr>"] show ?thesis
    by (simp add: pipe_io_def log_read_def submit_read_def read_operate_def read_handle_at_new_def
        tail_IoBufMut_def checked_u32_len_def win32_result_def inline_transferred_count_def
        record_completion_def classify_read_def finish_def bytes_total_def over_reporting_def prompt_def
        spill_def min.absorb2)
qed

text \<open>
  The clamp in \<^verbatim>\<open>read_exact\<close> does not contain an over-report: on a platform that reports
  5000 bytes for a 4096-byte window, \<^verbatim>\<open>read_exact\<close> into a vector of 6000 bytes succeeds with a vector whose
  byte 4500 was never written.
\<close>

theorem read_exact_over_report:
  "\<exists>tr m' s'. read_exact 2 hr_win32 vec_IoBufMut (pipe_io hr_win32 vec_IoBufMut over_reporting 3) (0, [])
       (\<lambda>_. None) 0 \<lparr>vptr = 0, vcap = 6000, vlen = 0\<rparr> = Returned (tr, m', s') \<and>
     tr_result tr = Inr () \<and> vlen (tr_buffer tr) = 6000 \<and> m' 4500 = None"
proof -
  let ?io = "pipe_io hr_win32 vec_IoBufMut over_reporting 3"
  obtain s1 where r1: "read_once ?io (0, []) (\<lambda>_. None) 0
      (tail_new \<lparr>vptr = 0, vcap = 6000, vlen = 0\<rparr> 0 HELPER_CHUNK) = Some (Inr (Bytes 5000),
       tail_new \<lparr>vptr = 0, vcap = 6000, vlen = 4096\<rparr> 0 HELPER_CHUNK, spill 0 (\<lambda>_. None), s1)"
    using over_reported_read [of 0 "(0, [])" "\<lambda>_. None" 0 0] by auto
  obtain s2 where r2: "read_once ?io s1 (spill 0 (\<lambda>_. None)) 0
      (tail_new \<lparr>vptr = 0, vcap = 6000, vlen = 4096\<rparr> 5000 HELPER_CHUNK) = Some (Inr (Bytes 5000),
       tail_new \<lparr>vptr = 0, vcap = 6000, vlen = 6000\<rparr> 5000 HELPER_CHUNK, spill 5000 (spill 0 (\<lambda>_. None)), s2)"
    using over_reported_read [of 5000 s1 "spill 0 (\<lambda>_. None)" 0 4096] by auto
  have tot: "bytes_total vec_IoBufMut \<lparr>vptr = 0, vcap = 6000, vlen = 0\<rparr> = Some 6000"
    by (simp add: bytes_total_def vec_IoBufMut_def)
  have io: "advance_position ?io q n = q" for q n by (simp add: pipe_io_def)
  have t: "inner (tail_new b n k) = b" for b :: vec and n k by (simp add: tail_new_def)
  have "read_exact 2 hr_win32 vec_IoBufMut ?io (0, []) (\<lambda>_. None) 0 \<lparr>vptr = 0, vcap = 6000, vlen = 0\<rparr> =
      Returned (success \<lparr>vptr = 0, vcap = 6000, vlen = 6000\<rparr> 6000, spill 5000 (spill 0 (\<lambda>_. None)), s2)"
    using r1 r2 by (simp add: read_exact_def tot numeral_2_eq_2 io t)
  then show ?thesis by (simp add: success_def spill_def)
qed

end
