(* ===== verification/Raw_Op.thy ===== *)
theory Raw_Op
  imports Stream_Ops
begin

text \<open>
  The per-operation allocation of the completion core: \<^verbatim>\<open>iocp/raw.rs\<close> and \<^verbatim>\<open>iocp/future.rs\<close>.

  One allocation is shared by the future that awaits it, the kernel (through the leaked reference
  recorded in the live set), the thread that dispatches the completion, and the proactor's record of
  what is outstanding. This theory holds the functions of the source, each run to its end;
  \<open>Raw_Op_Steps\<close> cuts them at their atomic accesses and interleaves them.

  Freed memory is an allocation whose strong count is zero. An access to it, a second free, a read of
  a result nobody wrote, and a failed \<^verbatim>\<open>expect\<close> are the value \<open>None\<close>.
\<close>

section \<open>The allocation\<close>

definition OP_MAGIC :: u32 where
  "OP_MAGIC = 0x57415349"

datatype OpState = Submitted | Abandoned | Completed | Terminal

fun op_state_as_u32 :: "OpState \<Rightarrow> u32" where
  "op_state_as_u32 Submitted = 0"
| "op_state_as_u32 Abandoned = 1"
| "op_state_as_u32 Completed = 2"
| "op_state_as_u32 Terminal = 3"

definition op_state_from_u32 :: "u32 \<Rightarrow> OpState" where
  "op_state_from_u32 v =
     (if v = 0 then Submitted else if v = 1 then Abandoned else if v = 2 then Completed else Terminal)"

lemma op_state_u32 [simp]: "op_state_from_u32 (op_state_as_u32 s) = s"
  by (cases s) (simp_all add: op_state_from_u32_def)

type_synonym io_result = "hresult + nat"

record ('t, 'w) RawOp =
  overlapped :: OVERLAPPED
  magic :: u32
  state :: OpState
  result :: "io_result option"
  waker :: "'w option"
  op :: "'t option"
  strong :: nat

text \<open>The methods of the trait \<^verbatim>\<open>OpCode\<close>; \<open>oc_cancel\<close> and \<open>oc_operate\<close> may change the operation.\<close>

record 't OpCode =
  oc_operate :: "'t \<Rightarrow> io_result poll \<times> 't"
  oc_cancel :: "'t \<Rightarrow> (hresult + unit) \<times> 't"
  oc_on_complete_with :: "'t \<Rightarrow> io_result \<Rightarrow> nat \<Rightarrow> 't"

text \<open>The live set: the addresses whose leaked reference is outstanding.\<close>

definition live_insert :: "nat \<Rightarrow> nat set \<Rightarrow> nat set" where
  "live_insert addr live = insert addr live"

definition live_claim :: "nat \<Rightarrow> nat set \<Rightarrow> bool \<times> nat set" where
  "live_claim addr live = (addr \<in> live, live - {addr})"

section \<open>The functions of the source\<close>

definition key_new :: "'t \<Rightarrow> ('t, 'w) RawOp" where
  "key_new t =
     \<lparr>overlapped = \<lparr>Offset = 0, OffsetHigh = 0\<rparr>, magic = OP_MAGIC, state = Submitted, result = None,
      waker = None, op = Some t, strong = 1\<rparr>"

text \<open>Every access goes through a reference; with none left the memory is gone.\<close>

definition access :: "('t, 'w) RawOp \<Rightarrow> 'a \<Rightarrow> 'a may_panic" where
  "access k x = (if strong k = 0 then None else Some x)"

definition arc_clone :: "('t, 'w) RawOp \<Rightarrow> ('t, 'w) RawOp may_panic" where
  "arc_clone k = access k (k\<lparr>strong := Suc (strong k)\<rparr>)"

text \<open>The body of \<^verbatim>\<open>Drop for RawOp\<close>, run when the last reference goes.\<close>

definition raw_op_drop :: "('t, 'w) RawOp \<Rightarrow> ('t, 'w) RawOp may_panic" where
  "raw_op_drop k =
     (if state k = Completed then
        (case result k of None \<Rightarrow> None | Some _ \<Rightarrow> Some (k\<lparr>result := None\<rparr>))
      else Some k)"

definition arc_drop :: "('t, 'w) RawOp \<Rightarrow> ('t, 'w) RawOp may_panic" where
  "arc_drop k =
     (if strong k = 0 then None
      else if strong k = 1 then raw_op_drop (k\<lparr>strong := 0\<rparr>)
      else Some (k\<lparr>strong := strong k - 1\<rparr>))"

definition leak :: "nat \<Rightarrow> ('t, 'w) RawOp \<Rightarrow> nat set \<Rightarrow> (('t, 'w) RawOp \<times> nat set) may_panic" where
  "leak a k live = map_option (\<lambda>k'. (k', live_insert a live)) (arc_clone k)"

definition unleak :: "nat \<Rightarrow> ('t, 'w) RawOp \<Rightarrow> nat set \<Rightarrow> (('t, 'w) RawOp \<times> nat set) may_panic" where
  "unleak a k live =
     (case live_claim a live of
        (claimed, live') \<Rightarrow>
          if claimed then map_option (\<lambda>k'. (k', live')) (arc_drop k) else Some (k, live'))"

definition erased_cancel :: "('t, 'w) RawOp \<Rightarrow> ('t, 'w) RawOp may_panic" where
  "erased_cancel k = arc_clone k"

definition key_operate :: "'t OpCode \<Rightarrow> ('t, 'w) RawOp \<Rightarrow> (io_result poll \<times> ('t, 'w) RawOp) may_panic" where
  "key_operate C k =
     (if strong k = 0 then None
      else case op k of
          None \<Rightarrow> None
        | Some t \<Rightarrow> (case oc_operate C t of (r, t') \<Rightarrow> Some (r, k\<lparr>op := Some t'\<rparr>)))"

text \<open>\<^verbatim>\<open>Key::cancel\<close> and \<^verbatim>\<open>cancel_erased\<close> have the same body.\<close>

definition key_cancel :: "'t OpCode \<Rightarrow> ('t, 'w) RawOp \<Rightarrow> ((hresult + unit) \<times> ('t, 'w) RawOp) may_panic" where
  "key_cancel C k =
     access k (case op k of
        Some t \<Rightarrow> (case oc_cancel C t of (r, t') \<Rightarrow> (r, k\<lparr>op := Some t'\<rparr>))
      | None \<Rightarrow> (Inr (), k))"

definition on_complete_inline_with ::
  "'t OpCode \<Rightarrow> ('t, 'w) RawOp \<Rightarrow> io_result \<Rightarrow> nat \<Rightarrow> ('t, 'w) RawOp may_panic" where
  "on_complete_inline_with C k r transferred =
     access k (case op k of
        Some t \<Rightarrow> k\<lparr>op := Some (oc_on_complete_with C t r transferred)\<rparr>
      | None \<Rightarrow> k)"

definition on_complete_inline :: "'t OpCode \<Rightarrow> ('t, 'w) RawOp \<Rightarrow> io_result \<Rightarrow> ('t, 'w) RawOp may_panic" where
  "on_complete_inline C k r =
     on_complete_inline_with C k r (case r of Inr n \<Rightarrow> n | Inl _ \<Rightarrow> 0)"

text \<open>Two wakers that would wake the same task are equal.\<close>

definition set_waker :: "'w \<Rightarrow> ('t, 'w) RawOp \<Rightarrow> ('t, 'w) RawOp may_panic" where
  "set_waker w k =
     access k (case waker k of
        Some existing \<Rightarrow> if existing = w then k else k\<lparr>waker := Some w\<rparr>
      | None \<Rightarrow> k\<lparr>waker := Some w\<rparr>)"

definition compare_exchange ::
  "OpState \<Rightarrow> OpState \<Rightarrow> ('t, 'w) RawOp \<Rightarrow> (OpState + unit) \<times> ('t, 'w) RawOp" where
  "compare_exchange current new k =
     (if state k = current then (Inr (), k\<lparr>state := new\<rparr>) else (Inl (state k), k))"

definition assume_init_read :: "('t, 'w) RawOp \<Rightarrow> (io_result \<times> ('t, 'w) RawOp) may_panic" where
  "assume_init_read k = map_option (\<lambda>r. (r, k\<lparr>result := None\<rparr>)) (result k)"

definition op_take :: "('t, 'w) RawOp \<Rightarrow> ('t \<times> ('t, 'w) RawOp) may_panic" where
  "op_take k = map_option (\<lambda>t. (t, k\<lparr>op := None\<rparr>)) (op k)"

text \<open>\<^verbatim>\<open>take_completion\<close>: the exchange, then reading the result and taking the operation.\<close>

definition take_result ::
  "('t, 'w) RawOp \<Rightarrow> ((io_result \<times> 't) \<times> ('t, 'w) RawOp) may_panic" where
  "take_result k =
     (if strong k = 0 then None
      else case assume_init_read k of
          None \<Rightarrow> None
        | Some (r, k1) \<Rightarrow> map_option (\<lambda>(t, k2). ((r, t), k2)) (op_take k1))"

definition take_completion ::
  "('t, 'w) RawOp \<Rightarrow> ((io_result \<times> 't) option \<times> ('t, 'w) RawOp) may_panic" where
  "take_completion k =
     (if strong k = 0 then None
      else case compare_exchange Completed Terminal k of
          (Inl _, k1) \<Rightarrow> Some (None, k1)
        | (Inr _, k1) \<Rightarrow> map_option (\<lambda>(x, k2). (Some x, k2)) (take_result k1))"

definition take_op_inline :: "('t, 'w) RawOp \<Rightarrow> ('t \<times> ('t, 'w) RawOp) may_panic" where
  "take_op_inline k = (if strong k = 0 then None else op_take k)"

definition abandon :: "('t, 'w) RawOp \<Rightarrow> (bool \<times> ('t, 'w) RawOp) may_panic" where
  "abandon k =
     access k (case compare_exchange Submitted Abandoned k of (r, k') \<Rightarrow> (\<not> isl r, k'))"

text \<open>
  \<^verbatim>\<open>complete_erased\<close>, with the wakers it wakes. A failed exchange that did not find an abandoned
  operation is the source's debug assertion.
\<close>

definition complete_erased ::
  "'t OpCode \<Rightarrow> io_result \<Rightarrow> nat \<Rightarrow> ('t, 'w) RawOp \<Rightarrow> (('t, 'w) RawOp \<times> 'w list) may_panic" where
  "complete_erased C r transferred k =
     (case on_complete_inline_with C k r transferred of
        None \<Rightarrow> None
      | Some k1 \<Rightarrow>
          (case compare_exchange Submitted Completed (k1\<lparr>result := Some r\<rparr>) of
             (Inr _, k2) \<Rightarrow>
               map_option (\<lambda>k3. (k3, case waker k2 of Some w \<Rightarrow> [w] | None \<Rightarrow> []))
                 (arc_drop (k2\<lparr>waker := None\<rparr>))
           | (Inl previous, k2) \<Rightarrow>
               if previous = Abandoned then
                 (case assume_init_read k2 of
                    None \<Rightarrow> None
                  | Some (_, k3) \<Rightarrow> map_option (\<lambda>k4. (k4, [])) (arc_drop (k3\<lparr>state := Terminal\<rparr>)))
               else None))"

text \<open>\<^verbatim>\<open>dispatch_completion_with\<close> of one allocation at address \<open>a\<close>, for a packet that names \<open>optr\<close>.\<close>

definition dispatch_completion_with ::
  "'t OpCode \<Rightarrow> nat \<Rightarrow> io_result \<Rightarrow> nat \<Rightarrow> ('t, 'w) RawOp \<Rightarrow> nat set \<Rightarrow>
   (bool \<times> ('t, 'w) RawOp \<times> nat set \<times> 'w list) may_panic" where
  "dispatch_completion_with C optr r transferred k live =
     (if optr = 0 then Some (False, k, live, [])
      else case live_claim optr live of
          (claimed, live') \<Rightarrow>
            if \<not> claimed then Some (False, k, live', [])
            else if strong k = 0 then None
            else if magic k \<noteq> OP_MAGIC then Some (False, k, live', [])
            else map_option (\<lambda>(k', ws). (True, k', live', ws)) (complete_erased C r transferred k))"

subsection \<open>The future\<close>

text \<open>\<open>sub_key\<close> is whether the future still holds its key.\<close>

record Submit =
  sub_key :: bool
  sub_inline :: "io_result option"

definition submit_pending :: Submit where
  "submit_pending = \<lparr>sub_key = True, sub_inline = None\<rparr>"

definition submit_ready :: "io_result \<Rightarrow> Submit" where
  "submit_ready r = \<lparr>sub_key = True, sub_inline = Some r\<rparr>"

definition is_ready :: "Submit \<Rightarrow> bool" where
  "is_ready s = (sub_inline s \<noteq> None)"

definition submit_poll ::
  "'w \<Rightarrow> Submit \<Rightarrow> ('t, 'w) RawOp \<Rightarrow> ((io_result \<times> 't) poll \<times> Submit \<times> ('t, 'w) RawOp) may_panic" where
  "submit_poll w s k =
     (case sub_inline s of
        Some r \<Rightarrow>
          if \<not> sub_key s then None
          else (case take_op_inline k of
                  None \<Rightarrow> None
                | Some (t, k1) \<Rightarrow>
                    map_option (\<lambda>k2. (Ready (r, t), \<lparr>sub_key = False, sub_inline = None\<rparr>, k2)) (arc_drop k1))
      | None \<Rightarrow>
          if \<not> sub_key s then None
          else (case set_waker w k of
                  None \<Rightarrow> None
                | Some k1 \<Rightarrow>
                    (case take_completion k1 of
                       None \<Rightarrow> None
                     | Some (Some x, k2) \<Rightarrow>
                         map_option (\<lambda>k3. (Ready x, s\<lparr>sub_key := False\<rparr>, k3)) (arc_drop k2)
                     | Some (None, k2) \<Rightarrow> Some (Pending, s, k2))))"

definition submit_drop :: "'t OpCode \<Rightarrow> Submit \<Rightarrow> ('t, 'w) RawOp \<Rightarrow> (Submit \<times> ('t, 'w) RawOp) may_panic" where
  "submit_drop C s k =
     (if \<not> sub_key s then Some (s, k)
      else let s' = s\<lparr>sub_key := False\<rparr> in
        if sub_inline s \<noteq> None then map_option (Pair s') (arc_drop k)
        else case abandon k of
            None \<Rightarrow> None
          | Some (True, k1) \<Rightarrow>
              (case key_cancel C k1 of
                 None \<Rightarrow> None
               | Some (_, k2) \<Rightarrow> map_option (Pair s') (arc_drop k2))
          | Some (False, k1) \<Rightarrow> map_option (Pair s') (arc_drop k1))"


text \<open>Dropping a reference to an allocation that is alive and consistent never faults.\<close>

lemma arc_drop_ok:
  assumes "strong k \<noteq> 0" "state k = Completed \<longrightarrow> result k \<noteq> None"
  shows "\<exists>k'. arc_drop k = Some k' \<and> magic k' = magic k \<and> state k' = state k \<and> op k' = op k \<and>
    waker k' = waker k \<and> strong k = Suc (strong k') \<and>
    (result k' = result k \<or> strong k' = 0 \<and> result k' = None)"
  using assms by (auto simp: arc_drop_def raw_op_drop_def split: option.splits)


lemma set_waker_alive: "strong k \<noteq> 0 \<Longrightarrow> set_waker w k = Some (k\<lparr>waker := Some w\<rparr>)"
  by (cases k) (auto simp: set_waker_def access_def split: option.splits)

end
