(* ===== verification/Raw_Op_Steps.thy ===== *)
theory Raw_Op_Steps
  imports Raw_Op
begin

text \<open>
  The functions of \<open>Raw_Op\<close> cut at their atomic accesses, as a step relation in which the completion
  thread, the future and the proactor's cancellation record interleave freely and in which any number
  of completion packets may arrive, also for an operation that is long gone. Atomics are sequentially
  consistent. The invariant \<open>sys_inv\<close> gives the properties of every reachable state: memory safety, the
  buffer pinned until the completion is claimed, one delivery, no lost wake-up; the count is that of the
  parties that hold the allocation, so it is freed when the last of them is done.
\<close>

section \<open>Interleaving\<close>

text \<open>
  Where the dispatching thread stands in \<^verbatim>\<open>dispatch_completion_with\<close> after its claim. Each constructor
  is the point before one shared access of \<open>complete_erased\<close>.
\<close>

datatype 'w comp =
    Claimed io_result nat | Recording io_result nat | Writing io_result | Exchanging
  | TakingWaker | Dropping "'w option" | Waking "'w option"
  | Discarding | Storing | DroppingLast
  | Finished

fun comp_step ::
  "'t OpCode \<Rightarrow> 'w comp \<Rightarrow> ('t, 'w) RawOp \<Rightarrow> ('w comp \<times> ('t, 'w) RawOp \<times> 'w list) may_panic" where
  "comp_step C (Claimed r n) k =
     (if strong k = 0 then None
      else if magic k \<noteq> OP_MAGIC then Some (Finished, k, []) else Some (Recording r n, k, []))"
| "comp_step C (Recording r n) k = map_option (\<lambda>k'. (Writing r, k', [])) (on_complete_inline_with C k r n)"
| "comp_step C (Writing r) k = access k (Exchanging, k\<lparr>result := Some r\<rparr>, [])"
| "comp_step C Exchanging k =
     (if strong k = 0 then None
      else case compare_exchange Submitted Completed k of
          (Inr _, k') \<Rightarrow> Some (TakingWaker, k', [])
        | (Inl previous, k') \<Rightarrow> if previous = Abandoned then Some (Discarding, k', []) else None)"
| "comp_step C TakingWaker k = access k (Dropping (waker k), k\<lparr>waker := None\<rparr>, [])"
| "comp_step C (Dropping w) k = map_option (\<lambda>k'. (Waking w, k', [])) (arc_drop k)"
| "comp_step C (Waking w) k = Some (Finished, k, case w of Some w \<Rightarrow> [w] | None \<Rightarrow> [])"
| "comp_step C Discarding k =
     (if strong k = 0 then None else map_option (\<lambda>(r, k'). (Storing, k', [])) (assume_init_read k))"
| "comp_step C Storing k = access k (DroppingLast, k\<lparr>state := Terminal\<rparr>, [])"
| "comp_step C DroppingLast k = map_option (\<lambda>k'. (Finished, k', [])) (arc_drop k)"
| "comp_step C Finished k = Some (Finished, k, [])"

text \<open>The thread run alone, from its claim to its end.\<close>

fun comp_run ::
  "nat \<Rightarrow> 't OpCode \<Rightarrow> 'w comp \<Rightarrow> ('t, 'w) RawOp \<Rightarrow> (('t, 'w) RawOp \<times> 'w list) may_panic" where
  "comp_run 0 C c k = (if c = Finished then Some (k, []) else None)"
| "comp_run (Suc n) C c k =
     (case comp_step C c k of
        None \<Rightarrow> None
      | Some (c', k', ws) \<Rightarrow> map_option (\<lambda>(k'', ws'). (k'', ws @ ws')) (comp_run n C c' k'))"

text \<open>
  The future side, from the submission: \<open>Idle\<close> is a pending future between polls, with the waker of its
  last poll and the number of wakes seen until then.
\<close>

datatype 'w fut =
    Fresh | Leaked | RecordingInline io_result | Unleaking io_result | Inline io_result
  | Idle "('w \<times> nat) option" | Polling 'w | Taking | DroppingFuture | Cancelling | DroppingKey | Gone

datatype 'w act = Advance | PollWith 'w | DropFuture

fun fut_step ::
  "'t OpCode \<Rightarrow> nat \<Rightarrow> nat \<Rightarrow> 'w act \<Rightarrow> 'w fut \<Rightarrow> ('t, 'w) RawOp \<Rightarrow> nat set \<Rightarrow>
   ('w fut \<times> ('t, 'w) RawOp \<times> nat set \<times> (io_result \<times> 't) list) may_panic" where
  "fut_step C a wakes act Fresh k live = map_option (\<lambda>(k', live'). (Leaked, k', live', [])) (leak a k live)"
| "fut_step C a wakes act Leaked k live =
     map_option (\<lambda>(r, k').
       (case r of
          Pending \<Rightarrow> Idle None
        | Ready (Inl e) \<Rightarrow> Unleaking (Inl e)
        | Ready (Inr n) \<Rightarrow> RecordingInline (Inr n), k', live, [])) (key_operate C k)"
| "fut_step C a wakes act (RecordingInline r) k live =
     map_option (\<lambda>k'. (Unleaking r, k', live, [])) (on_complete_inline C k r)"
| "fut_step C a wakes act (Unleaking r) k live =
     map_option (\<lambda>(k', live'). (Inline r, k', live', [])) (unleak a k live)"
| "fut_step C a wakes act (Inline r) k live =
     (case act of
        PollWith w \<Rightarrow> map_option (\<lambda>(t, k'). (DroppingKey, k', live, [(r, t)])) (take_op_inline k)
      | DropFuture \<Rightarrow> Some (DroppingKey, k, live, [])
      | Advance \<Rightarrow> Some (Inline r, k, live, []))"
| "fut_step C a wakes act (Idle p) k live =
     (case act of
        PollWith w \<Rightarrow> map_option (\<lambda>k'. (Polling w, k', live, [])) (set_waker w k)
      | DropFuture \<Rightarrow> Some (DroppingFuture, k, live, [])
      | Advance \<Rightarrow> Some (Idle p, k, live, []))"
| "fut_step C a wakes act (Polling w) k live =
     (if strong k = 0 then None
      else case compare_exchange Completed Terminal k of
          (Inl _, k') \<Rightarrow> Some (Idle (Some (w, wakes)), k', live, [])
        | (Inr _, k') \<Rightarrow> Some (Taking, k', live, []))"
| "fut_step C a wakes act Taking k live =
     map_option (\<lambda>(x, k'). (DroppingKey, k', live, [x])) (take_result k)"
| "fut_step C a wakes act DroppingFuture k live =
     map_option (\<lambda>(b, k'). (if b then Cancelling else DroppingKey, k', live, [])) (abandon k)"
| "fut_step C a wakes act Cancelling k live =
     map_option (\<lambda>(r, k'). (DroppingKey, k', live, [])) (key_cancel C k)"
| "fut_step C a wakes act DroppingKey k live = map_option (\<lambda>k'. (Gone, k', live, [])) (arc_drop k)"
| "fut_step C a wakes act Gone k live = Some (Gone, k, live, [])"

text \<open>
  The whole system around one allocation. The last four fields record history: the packet that was
  claimed, the inline result, how often the operation was told of its completion by the dispatcher,
  and what the future returned.
\<close>

record ('t, 'w) sys =
  cell :: "('t, 'w) RawOp"
  live :: "nat set"
  comps :: "'w comp list"
  fut :: "'w fut"
  tracked :: bool
  fault :: bool
  wakes :: "'w list"
  packet :: "(io_result \<times> nat) option"
  inlined :: "io_result option"
  told :: nat
  outputs :: "(io_result \<times> 't) list"

definition sys_init :: "'t \<Rightarrow> nat set \<Rightarrow> ('t, 'w) sys" where
  "sys_init t L = \<lparr>cell = key_new t, live = L, comps = [], fut = Fresh, tracked = False, fault = False,
     wakes = [], packet = None, inlined = None, told = 0, outputs = []\<rparr>"

definition inline_of :: "'w fut \<Rightarrow> io_result option" where
  "inline_of f = (case f of Unleaking r \<Rightarrow> Some r | RecordingInline r \<Rightarrow> Some r | _ \<Rightarrow> None)"

definition is_recording :: "'w comp \<Rightarrow> bool" where
  "is_recording c = (case c of Recording _ _ \<Rightarrow> True | _ \<Rightarrow> False)"

inductive step :: "'t OpCode \<Rightarrow> nat \<Rightarrow> ('t, 'w) sys \<Rightarrow> ('t, 'w) sys \<Rightarrow> bool" for C a where
  claim: "live_claim a (live s) = (True, L) \<Longrightarrow>
    step C a s (s\<lparr>live := L, comps := comps s @ [Claimed r n], packet := Some (r, n)\<rparr>)"
| unclaimed: "live_claim a (live s) = (False, L) \<Longrightarrow> step C a s (s\<lparr>live := L\<rparr>)"
| comp: "comps s = xs @ c # ys \<Longrightarrow> comp_step C c (cell s) = Some (c', k', ws) \<Longrightarrow>
    step C a s (s\<lparr>comps := xs @ c' # ys, cell := k', wakes := wakes s @ ws,
      told := told s + (if is_recording c then 1 else 0)\<rparr>)"
| comp_fault: "comps s = xs @ c # ys \<Longrightarrow> comp_step C c (cell s) = None \<Longrightarrow> step C a s (s\<lparr>fault := True\<rparr>)"
| fut: "fut_step C a (length (wakes s)) act (fut s) (cell s) (live s) = Some (f', k', L, out) \<Longrightarrow>
    step C a s (s\<lparr>fut := f', cell := k', live := L, outputs := outputs s @ out,
      inlined := (case inline_of f' of Some r \<Rightarrow> Some r | None \<Rightarrow> inlined s)\<rparr>)"
| fut_fault: "fut_step C a (length (wakes s)) act (fut s) (cell s) (live s) = None \<Longrightarrow>
    step C a s (s\<lparr>fault := True\<rparr>)"
| track: "fut s = Idle p \<Longrightarrow> \<not> tracked s \<Longrightarrow> erased_cancel (cell s) = Some k' \<Longrightarrow>
    step C a s (s\<lparr>tracked := True, cell := k'\<rparr>)"
| tracked_cancel: "tracked s \<Longrightarrow> key_cancel C (cell s) = Some (r, k') \<Longrightarrow> step C a s (s\<lparr>cell := k'\<rparr>)"
| tracked_cancel_fault: "tracked s \<Longrightarrow> key_cancel C (cell s) = None \<Longrightarrow> step C a s (s\<lparr>fault := True\<rparr>)"
| tracked_drop: "tracked s \<Longrightarrow> arc_drop (cell s) = Some k' \<Longrightarrow>
    step C a s (s\<lparr>tracked := False, cell := k'\<rparr>)"
| tracked_drop_fault: "tracked s \<Longrightarrow> arc_drop (cell s) = None \<Longrightarrow> step C a s (s\<lparr>fault := True\<rparr>)"
| others: "a \<in> L \<longleftrightarrow> a \<in> live s \<Longrightarrow> step C a s (s\<lparr>live := L\<rparr>)"

inductive reachable :: "'t OpCode \<Rightarrow> nat \<Rightarrow> 't \<Rightarrow> ('t, 'w) sys \<Rightarrow> bool" for C a t where
  start: "a \<notin> L \<Longrightarrow> reachable C a t (sys_init t L)"
| step: "reachable C a t s \<Longrightarrow> step C a s s' \<Longrightarrow> reachable C a t s'"

section \<open>The code cut into steps is the code\<close>

lemma comp_run_complete:
  assumes "strong k \<noteq> 0" "magic k = OP_MAGIC" "state k = Submitted \<or> state k = Abandoned"
  shows "comp_run 8 C (Claimed r n) k = complete_erased C r n k"
  using assms
  by (auto simp: eval_nat_numeral complete_erased_def on_complete_inline_with_def access_def
      compare_exchange_def assume_init_read_def arc_drop_def raw_op_drop_def
      split: option.splits if_splits)


section \<open>The invariant\<close>

fun comp_ref :: "'w comp \<Rightarrow> nat" where
  "comp_ref (Waking _) = 0"
| "comp_ref Finished = 0"
| "comp_ref _ = 1"

definition fut_ref :: "'w fut \<Rightarrow> nat" where
  "fut_ref f = (if f = Gone then 0 else 1)"

text \<open>What the dispatcher's position says of the cell; \<open>early\<close> is before its exchange.\<close>

definition early :: "('t, 'w) sys \<Rightarrow> bool" where
  "early s \<longleftrightarrow> state (cell s) = Submitted \<or> state (cell s) = Abandoned"

definition late :: "('t, 'w) sys \<Rightarrow> bool" where
  "late s \<longleftrightarrow> (state (cell s) = Completed \<or> state (cell s) = Terminal) \<and> told s = 1"

fun comp_ok :: "'w comp \<Rightarrow> ('t, 'w) sys \<Rightarrow> bool" where
  "comp_ok (Claimed r n) s \<longleftrightarrow> early s \<and> result (cell s) = None \<and> packet s = Some (r, n) \<and> told s = 0"
| "comp_ok (Recording r n) s \<longleftrightarrow> early s \<and> result (cell s) = None \<and> packet s = Some (r, n) \<and> told s = 0"
| "comp_ok (Writing r) s \<longleftrightarrow> early s \<and> result (cell s) = None \<and> (\<exists>n. packet s = Some (r, n)) \<and> told s = 1"
| "comp_ok Exchanging s \<longleftrightarrow> early s \<and> result (cell s) \<noteq> None \<and> told s = 1"
| "comp_ok Discarding s \<longleftrightarrow> state (cell s) = Abandoned \<and> result (cell s) \<noteq> None"
| "comp_ok Storing s \<longleftrightarrow> state (cell s) = Abandoned \<and> result (cell s) = None"
| "comp_ok DroppingLast s \<longleftrightarrow> state (cell s) = Terminal \<and> result (cell s) = None"
| "comp_ok Finished s \<longleftrightarrow> state (cell s) = Completed \<and> told s = 1 \<or> state (cell s) = Terminal"
| "comp_ok _ s \<longleftrightarrow> late s"

fun fut_ok :: "'w fut \<Rightarrow> ('t, 'w) sys \<Rightarrow> bool" where
  "fut_ok (Unleaking r) s \<longleftrightarrow> state (cell s) \<in> {Submitted, Completed} \<and> inlined s = Some r"
| "fut_ok (RecordingInline r) s \<longleftrightarrow> state (cell s) \<in> {Submitted, Completed} \<and> inlined s = Some r"
| "fut_ok (Inline r) s \<longleftrightarrow> state (cell s) \<in> {Submitted, Completed} \<and> inlined s = Some r"
| "fut_ok Taking s \<longleftrightarrow> state (cell s) = Terminal \<and> result (cell s) \<noteq> None \<and> told s = 1 \<and> inlined s = None"
| "fut_ok Cancelling s \<longleftrightarrow> state (cell s) \<in> {Abandoned, Terminal}"
| "fut_ok DroppingKey s \<longleftrightarrow> True"
| "fut_ok Gone s \<longleftrightarrow> True"
| "fut_ok _ s \<longleftrightarrow> state (cell s) \<in> {Submitted, Completed} \<and> inlined s = None"

fun wait_ok :: "'w fut \<Rightarrow> ('t, 'w) sys \<Rightarrow> bool" where
  "wait_ok (Polling w) s \<longleftrightarrow> (state (cell s) = Submitted \<longrightarrow> waker (cell s) = Some w)"
| "wait_ok (Idle (Some (w, n))) s \<longleftrightarrow> n \<le> length (wakes s) \<and>
     (case comps s of
        [Dropping x] \<Rightarrow> x = Some w
      | [Waking x] \<Rightarrow> x = Some w
      | [Finished] \<Rightarrow> w \<in> set (drop n (wakes s))
      | _ \<Rightarrow> waker (cell s) = Some w)"
| "wait_ok _ s \<longleftrightarrow> True"

definition refs_ok :: "nat \<Rightarrow> ('t, 'w) sys \<Rightarrow> bool" where
  "refs_ok a s \<longleftrightarrow>
     strong (cell s) = fut_ref (fut s) + (if a \<in> live s then 1 else 0) +
       sum_list (map comp_ref (comps s)) + (if tracked s then 1 else 0)"

definition out_ok :: "('t, 'w) sys \<Rightarrow> bool" where
  "out_ok s \<longleftrightarrow>
     (op (cell s) = None \<or> outputs s \<noteq> [] \<longrightarrow> fut s = DroppingKey \<or> fut s = Gone) \<and>
     (op (cell s) = None \<longrightarrow> outputs s \<noteq> []) \<and>
     (outputs s = [] \<or> (\<exists>r t. outputs s = [(r, t)] \<and>
        (inlined s = Some r \<or> inlined s = None \<and> told s = 1 \<and> (\<exists>n. packet s = Some (r, n)))))"

definition sys_inv :: "nat \<Rightarrow> ('t, 'w) sys \<Rightarrow> bool" where
  "sys_inv a s \<longleftrightarrow>
     \<not> fault s \<and> magic (cell s) = OP_MAGIC \<and> refs_ok a s \<and>
     (comps s = [] \<and> early s \<and> result (cell s) = None \<and> told s = 0 \<or>
      (\<exists>c. comps s = [c] \<and> a \<notin> live s \<and> comp_ok c s)) \<and>
     (fut s = Fresh \<longrightarrow> a \<notin> live s \<and> comps s = [] \<and> \<not> tracked s) \<and>
     (state (cell s) = Completed \<and> strong (cell s) \<noteq> 0 \<longrightarrow> result (cell s) \<noteq> None) \<and>
     (\<forall>r. result (cell s) = Some r \<longrightarrow> (\<exists>n. packet s = Some (r, n))) \<and>
     fut_ok (fut s) s \<and> wait_ok (fut s) s \<and> out_ok s"

lemma sys_inv_init: "a \<notin> L \<Longrightarrow> sys_inv a (sys_init t L)"
  by (simp add: sys_inv_def sys_init_def key_new_def refs_ok_def fut_ref_def early_def out_ok_def)

lemmas piece_defs = access_def arc_clone_def arc_drop_def raw_op_drop_def leak_def unleak_def
  erased_cancel_def key_operate_def key_cancel_def on_complete_inline_with_def on_complete_inline_def
  set_waker_def compare_exchange_def assume_init_read_def op_take_def take_result_def take_op_inline_def
  abandon_def live_claim_def live_insert_def

lemmas ok_defs = sys_inv_def refs_ok_def fut_ref_def early_def late_def out_ok_def

lemma inv_comp:
  assumes "sys_inv a s" "comps s = xs @ c # ys"
  shows "xs = [] \<and> ys = [] \<and> comps s = [c] \<and> a \<notin> live s \<and> comp_ok c s"
proof -
  from assms obtain d where "xs @ c # ys = [d]" "a \<notin> live s" "comp_ok d s"
    unfolding sys_inv_def by auto
  with assms(2) show ?thesis by (simp add: append_eq_Cons_conv)
qed


lemma fut_exhaust [case_names Fresh Leaked RecordingInline Unleaking Inline Unpolled Idle Polling Taking
    DroppingFuture Cancelling DroppingKey Gone]:
  obtains "f = Fresh" | "f = Leaked" | r where "f = RecordingInline r" | r where "f = Unleaking r"
  | r where "f = Inline r" | "f = Idle None" | w n where "f = Idle (Some (w, n))" | w where "f = Polling w"
  | "f = Taking" | "f = DroppingFuture" | "f = Cancelling" | "f = DroppingKey" | "f = Gone"
  by (cases f; (metis option.exhaust surj_pair | auto))

text \<open>What a step of the dispatcher has to keep.\<close>

lemma sys_inv_compI:
  assumes inv: "sys_inv a s" and c: "comps s = [c]"
    and k: "magic k' = magic (cell s)" "strong k' + comp_ref c = strong (cell s) + comp_ref c'"
      "op k' = None \<longleftrightarrow> op (cell s) = None"
    and s': "s' = s\<lparr>comps := [c'], cell := k', wakes := wakes s @ ws, told := t'\<rparr>"
    and t: "told s = 1 \<Longrightarrow> t' = 1"
    and ok: "comp_ok c' s'" "fut_ok (fut s) s'" "wait_ok (fut s) s'"
    and r: "state k' = Completed \<and> strong k' \<noteq> 0 \<longrightarrow> result k' \<noteq> None"
      "\<forall>r. result k' = Some r \<longrightarrow> (\<exists>n. packet s = Some (r, n))"
  shows "sys_inv a s'"
proof -
  have "refs_ok a s'" using inv k(2) by (simp add: sys_inv_def refs_ok_def s' c)
  moreover have "out_ok s'" using inv k(3) t by (auto simp: sys_inv_def out_ok_def s')
  moreover have "a \<notin> live s'" using inv c by (auto simp: sys_inv_def s')
  moreover have "fut s \<noteq> Fresh" using inv c by (auto simp: sys_inv_def)
  ultimately show ?thesis
    using inv ok r k(1) unfolding sys_inv_def by (simp add: s')
qed

lemma fut_ok_same:
  assumes "fut_ok f s" "state (cell s') = state (cell s)" "inlined s' = inlined s"
    and "f = Taking \<Longrightarrow> result (cell s') \<noteq> None \<and> told s' = 1"
  shows "fut_ok f s'"
  using assms by (cases f) auto

lemma fut_ok_completed:
  assumes "fut_ok f s" "state (cell s) = Submitted" "state (cell s') = Completed" "inlined s' = inlined s"
  shows "fut_ok f s'"
  using assms by (cases f) auto

lemma fut_ok_discarded:
  assumes "fut_ok f s" "state (cell s) = Abandoned" "state (cell s') = Terminal" "inlined s' = inlined s"
  shows "fut_ok f s'"
  using assms by (cases f) auto

text \<open>A waiting future keeps its promise of a wake-up while the dispatcher moves from \<open>c\<close> to \<open>c'\<close>.\<close>

definition wakes_next :: "'w comp \<Rightarrow> 'w comp \<Rightarrow> bool" where
  "wakes_next c c' \<longleftrightarrow>
     comp_ref c' = 1 \<and> (\<forall>x. c \<noteq> Dropping x) \<and> (\<forall>x. c' \<noteq> Dropping x) \<and> (\<forall>x. c \<noteq> Waking x) \<and> c \<noteq> Finished"

lemma wait_ok_next:
  assumes "wait_ok f s" "comps s = [c]" "comps s' = [c']" "wakes_next c c'"
    and "waker (cell s') = waker (cell s)" "wakes s' = wakes s"
    and "state (cell s') = Submitted \<Longrightarrow> state (cell s) = Submitted"
  shows "wait_ok f s'"
  using assms by (cases f rule: fut_exhaust) (auto simp: wakes_next_def split: comp.splits)


lemma wait_ok_told [simp]: "wait_ok f (s\<lparr>told := t\<rparr>) = wait_ok f s"
  by (cases f rule: fut_exhaust) (simp_all split: list.split comp.split)

lemma inv_step_comp:
  assumes inv: "sys_inv a s" and c: "comps s = [c]"
  shows "\<exists>c' k' ws. comp_step C c (cell s) = Some (c', k', ws) \<and>
    sys_inv a (s\<lparr>comps := [c'], cell := k', wakes := wakes s @ ws,
      told := told s + (if is_recording c then 1 else 0)\<rparr>)"
proof -
  have ok: "comp_ok c s" "a \<notin> live s" using inv_comp [of a s "[]" c "[]"] inv c by auto
  have refs: "comp_ref c \<le> strong (cell s)" and mg: "magic (cell s) = OP_MAGIC"
    and fo: "fut_ok (fut s) s" and wo: "wait_ok (fut s) s"
    and rs: "\<forall>r. result (cell s) = Some r \<longrightarrow> (\<exists>n. packet s = Some (r, n))"
    and cp: "state (cell s) = Completed \<and> strong (cell s) \<noteq> 0 \<longrightarrow> result (cell s) \<noteq> None"
    using inv c by (auto simp: sys_inv_def refs_ok_def)
  note I = sys_inv_compI [OF inv c _ _ _ refl]
  show ?thesis
  proof (cases c)
    case (Claimed r n)
    have "sys_inv a (s\<lparr>comps := [Recording r n], cell := cell s, wakes := wakes s @ [], told := told s + 0\<rparr>)"
      by (rule I)
        (use ok Claimed c refs cp rs fo in \<open>auto simp: early_def wakes_next_def
           intro!: fut_ok_same [OF fo] wait_ok_next [OF wo c, of _ "Recording r n"]\<close>)
    with Claimed refs mg show ?thesis by (simp add: is_recording_def)
  next
    case (Recording r n)
    then obtain k' where k': "on_complete_inline_with C (cell s) r n = Some k'"
      "magic k' = magic (cell s)" "strong k' = strong (cell s)" "op k' = None \<longleftrightarrow> op (cell s) = None"
      "state k' = state (cell s)" "result k' = result (cell s)" "waker k' = waker (cell s)"
      using refs by (auto simp: on_complete_inline_with_def access_def split: option.splits)
    have "sys_inv a (s\<lparr>comps := [Writing r], cell := k', wakes := wakes s @ [], told := told s + 1\<rparr>)"
      by (rule I)
        (use ok Recording c refs cp rs k' fo in \<open>auto simp: early_def wakes_next_def
           intro!: fut_ok_same [OF fo] wait_ok_next [OF wo c, of _ "Writing r"]\<close>)
    with Recording refs k'(1) show ?thesis by (simp add: is_recording_def)
  next
    case (Writing r)
    have "sys_inv a (s\<lparr>comps := [Exchanging], cell := cell s\<lparr>result := Some r\<rparr>, wakes := wakes s @ [], told := told s + 0\<rparr>)"
      by (rule I)
        (use ok Writing c refs cp rs fo in \<open>auto simp: early_def wakes_next_def
           intro!: fut_ok_same [OF fo] wait_ok_next [OF wo c, of _ "Exchanging"]\<close>)
    with Writing refs show ?thesis by (simp add: is_recording_def access_def)
  next
    case Exchanging
    show ?thesis
    proof (cases "state (cell s) = Submitted")
      case True
      have "sys_inv a (s\<lparr>comps := [TakingWaker], cell := cell s\<lparr>state := Completed\<rparr>, wakes := wakes s @ [], told := told s + 0\<rparr>)"
        by (rule I)
          (use True ok Exchanging c refs cp rs fo in \<open>auto simp: late_def wakes_next_def
             intro!: fut_ok_completed [OF fo] wait_ok_next [OF wo c, of _ "TakingWaker"]\<close>)
      with True Exchanging refs show ?thesis by (simp add: is_recording_def compare_exchange_def)
    next
      case False
      then have ab: "state (cell s) = Abandoned" using ok Exchanging by (simp add: early_def)
      have "sys_inv a (s\<lparr>comps := [Discarding], cell := cell s, wakes := wakes s @ [], told := told s + 0\<rparr>)"
        by (rule I)
          (use ab ok Exchanging c refs cp rs fo in \<open>auto simp: early_def wakes_next_def
             intro!: fut_ok_same [OF fo] wait_ok_next [OF wo c, of _ "Discarding"]\<close>)
      with ab Exchanging refs show ?thesis by (simp add: is_recording_def compare_exchange_def)
    qed
  next
    case TakingWaker
    have w: "wait_ok (fut s) (s\<lparr>comps := [Dropping (waker (cell s))], cell := cell s\<lparr>waker := None\<rparr>,
        wakes := wakes s @ [], told := told s + 0\<rparr>)"
      using wo ok c TakingWaker by (cases "fut s" rule: fut_exhaust) (auto simp: late_def)
    have "sys_inv a (s\<lparr>comps := [Dropping (waker (cell s))], cell := cell s\<lparr>waker := None\<rparr>,
        wakes := wakes s @ [], told := told s + 0\<rparr>)"
      by (rule I)
        (use w ok TakingWaker c refs cp rs fo in \<open>auto simp: late_def intro!: fut_ok_same [OF fo]\<close>)
    with TakingWaker refs show ?thesis by (simp add: is_recording_def access_def)
  next
    case (Dropping w)
    then obtain k' where k': "arc_drop (cell s) = Some k'" "magic k' = magic (cell s)"
      "state k' = state (cell s)" "op k' = op (cell s)" "waker k' = waker (cell s)"
      "strong (cell s) = Suc (strong k')" "result k' = result (cell s) \<or> strong k' = 0 \<and> result k' = None"
      using arc_drop_ok [of "cell s"] refs cp by auto
    have two: "fut s = Taking \<Longrightarrow> strong k' \<noteq> 0"
      using inv c k'(6) Dropping by (auto simp: sys_inv_def refs_ok_def fut_ref_def)
    have w: "wait_ok (fut s) (s\<lparr>comps := [Waking w], cell := k', wakes := wakes s @ [], told := told s + 0\<rparr>)"
      using wo k' c Dropping by (cases "fut s" rule: fut_exhaust) auto
    have "sys_inv a (s\<lparr>comps := [Waking w], cell := k', wakes := wakes s @ [], told := told s + 0\<rparr>)"
      by (rule I)
        (use w ok Dropping c k' cp rs fo two in \<open>auto simp: late_def intro!: fut_ok_same [OF fo]\<close>)
    with Dropping k'(1) show ?thesis by (simp add: is_recording_def)
  next
    case (Waking w)
    let ?ws = "case w of Some w \<Rightarrow> [w] | None \<Rightarrow> []"
    have w: "wait_ok (fut s) (s\<lparr>comps := [Finished], cell := cell s, wakes := wakes s @ ?ws, told := told s + 0\<rparr>)"
      using wo c Waking by (cases "fut s" rule: fut_exhaust) auto
    have "sys_inv a (s\<lparr>comps := [Finished], cell := cell s, wakes := wakes s @ ?ws, told := told s + 0\<rparr>)"
      by (rule I)
        (use w ok Waking c cp rs fo in \<open>auto simp: late_def intro!: fut_ok_same [OF fo]\<close>)
    with Waking show ?thesis by (simp add: is_recording_def)
  next
    case Discarding
    then obtain r where r: "result (cell s) = Some r" using ok by auto
    have "sys_inv a (s\<lparr>comps := [Storing], cell := cell s\<lparr>result := None\<rparr>, wakes := wakes s @ [], told := told s + 0\<rparr>)"
      by (rule I)
        (use ok Discarding c refs cp rs fo in \<open>auto simp: wakes_next_def
           intro!: fut_ok_same [OF fo] wait_ok_next [OF wo c, of _ "Storing"]\<close>)
    with Discarding refs r show ?thesis by (simp add: is_recording_def assume_init_read_def)
  next
    case Storing
    have "sys_inv a (s\<lparr>comps := [DroppingLast], cell := cell s\<lparr>state := Terminal\<rparr>, wakes := wakes s @ [], told := told s + 0\<rparr>)"
      by (rule I)
        (use ok Storing c refs cp rs fo in \<open>auto simp: wakes_next_def
           intro!: fut_ok_discarded [OF fo] wait_ok_next [OF wo c, of _ "DroppingLast"]\<close>)
    with Storing refs show ?thesis by (simp add: is_recording_def access_def)
  next
    case DroppingLast
    then obtain k' where k': "arc_drop (cell s) = Some k'" "magic k' = magic (cell s)"
      "state k' = state (cell s)" "op k' = op (cell s)" "waker k' = waker (cell s)"
      "strong (cell s) = Suc (strong k')" "result k' = result (cell s) \<or> strong k' = 0 \<and> result k' = None"
      using arc_drop_ok [of "cell s"] refs cp by auto
    have w: "wait_ok (fut s) (s\<lparr>comps := [Finished], cell := k', wakes := wakes s @ [], told := told s + 0\<rparr>)"
      using ok k' fo DroppingLast by (cases "fut s" rule: fut_exhaust) auto
    have "sys_inv a (s\<lparr>comps := [Finished], cell := k', wakes := wakes s @ [], told := told s + 0\<rparr>)"
      by (rule I)
        (use w ok DroppingLast c k' cp rs fo in \<open>auto intro!: fut_ok_same [OF fo]\<close>)
    with DroppingLast k'(1) show ?thesis by (simp add: is_recording_def)
  next
    case Finished
    moreover from this c have "s\<lparr>comps := [Finished]\<rparr> = s" by (cases s) simp
    ultimately show ?thesis using inv by (simp add: is_recording_def)
  qed
qed


definition comps_ok :: "nat \<Rightarrow> ('t, 'w) sys \<Rightarrow> bool" where
  "comps_ok a s \<longleftrightarrow>
     comps s = [] \<and> early s \<and> result (cell s) = None \<and> told s = 0 \<or>
     (\<exists>c. comps s = [c] \<and> a \<notin> live s \<and> comp_ok c s)"

lemma sys_inv_futI:
  assumes inv: "sys_inv a s"
    and k: "magic k' = magic (cell s)"
      "strong k' + fut_ref (fut s) + (if a \<in> live s then 1 else 0) =
         strong (cell s) + fut_ref f' + (if a \<in> L then 1 else 0)"
    and s': "s' = s\<lparr>fut := f', cell := k', live := L, outputs := outputs s @ out, inlined := i'\<rparr>"
    and ok: "comps_ok a s'" "f' \<noteq> Fresh" "fut_ok f' s'" "wait_ok f' s'" "out_ok s'"
    and r: "state k' = Completed \<and> strong k' \<noteq> 0 \<longrightarrow> result k' \<noteq> None"
      "\<forall>r. result k' = Some r \<longrightarrow> result (cell s) = Some r"
  shows "sys_inv a s'"
proof -
  have "refs_ok a s'" using inv k(2) by (simp add: sys_inv_def refs_ok_def s')
  then show ?thesis
    using inv ok r k(1) unfolding sys_inv_def comps_ok_def by (simp add: s')
qed

lemma comp_ok_same:
  assumes "comp_ok c s" "state (cell s') = state (cell s)" "packet s' = packet s" "told s' = told s"
    and "result (cell s') = result (cell s) \<or> result (cell s') = None \<and> comp_ref c = 0"
  shows "comp_ok c s'"
  using assms by (cases c) (auto simp: early_def late_def)

lemma comps_ok_same:
  assumes "comps_ok a s" "state (cell s') = state (cell s)" "packet s' = packet s" "told s' = told s"
    and "comps s' = comps s" "a \<in> live s' \<longrightarrow> comps s = []"
    and "result (cell s') = result (cell s) \<or> result (cell s') = None \<and> sum_list (map comp_ref (comps s)) = 0"
  shows "comps_ok a s'"
  using assms comp_ok_same [of _ s s'] by (auto simp: comps_ok_def early_def)

lemma comps_ok_abandon:
  assumes "comps_ok a s" "state (cell s) = Submitted" "state (cell s') = Abandoned" "packet s' = packet s"
    and "told s' = told s" "comps s' = comps s" "live s' = live s" "result (cell s') = result (cell s)"
  shows "comps_ok a s'"
  using assms by (auto simp: comps_ok_def early_def late_def elim!: comp_ok.elims)

lemma comps_ok_take:
  assumes "comps_ok a s" "state (cell s) = Completed" "state (cell s') = Terminal" "packet s' = packet s"
    and "told s' = told s" "comps s' = comps s" "live s' = live s"
  shows "comps_ok a s'"
  using assms by (auto simp: comps_ok_def early_def late_def elim!: comp_ok.elims)

lemma comps_ok_taken:
  assumes "comps_ok a s" "state (cell s) = Terminal" "state (cell s') = Terminal" "packet s' = packet s"
    and "told s' = told s" "comps s' = comps s" "live s' = live s" "result (cell s') = None"
  shows "comps_ok a s'"
  using assms by (auto simp: comps_ok_def early_def late_def elim!: comp_ok.elims)

lemma comps_ok_told: "comps_ok a s \<Longrightarrow> state (cell s) = Completed \<Longrightarrow> told s = 1"
  by (auto simp: comps_ok_def early_def late_def elim!: comp_ok.elims)

text \<open>The future's steps, one position at a time.\<close>

definition fut_goal :: "'t OpCode \<Rightarrow> nat \<Rightarrow> 'w act \<Rightarrow> ('t, 'w) sys \<Rightarrow> bool" where
  "fut_goal C a act s \<longleftrightarrow>
     (\<exists>f' k' L out. fut_step C a (length (wakes s)) act (fut s) (cell s) (live s) = Some (f', k', L, out) \<and>
        sys_inv a (s\<lparr>fut := f', cell := k', live := L, outputs := outputs s @ out,
          inlined := (case inline_of f' of Some r \<Rightarrow> Some r | None \<Rightarrow> inlined s)\<rparr>))"

lemma fut_goalI:
  assumes "fut_step C a (length (wakes s)) act (fut s) (cell s) (live s) = Some (f', k', L, out)"
    and "sys_inv a (s\<lparr>fut := f', cell := k', live := L, outputs := outputs s @ out,
          inlined := (case inline_of f' of Some r \<Rightarrow> Some r | None \<Rightarrow> inlined s)\<rparr>)"
  shows "fut_goal C a act s"
  using assms by (auto simp: fut_goal_def)

lemma inv_facts:
  assumes "sys_inv a s"
  shows "comps_ok a s" "magic (cell s) = OP_MAGIC" "fut s \<noteq> Gone \<Longrightarrow> 0 < strong (cell s)"
    "state (cell s) = Completed \<and> strong (cell s) \<noteq> 0 \<longrightarrow> result (cell s) \<noteq> None"
    "fut_ok (fut s) s" "wait_ok (fut s) s" "out_ok s"
    "fut s \<noteq> DroppingKey \<Longrightarrow> fut s \<noteq> Gone \<Longrightarrow> outputs s = [] \<and> op (cell s) \<noteq> None"
    "\<not> fault s"
  using assms by (auto simp: sys_inv_def comps_ok_def refs_ok_def fut_ref_def out_ok_def)


lemma fut_submitting:
  assumes inv: "sys_inv a s"
    and f: "fut s = Fresh \<or> fut s = Leaked \<or> (\<exists>r. fut s = RecordingInline r) \<or> (\<exists>r. fut s = Unleaking r)"
  shows "fut_goal C a act s"
proof -
  note F = inv_facts [OF inv]
  have ne: "fut s \<noteq> Gone" "fut s \<noteq> DroppingKey" using f by auto
  then have st: "0 < strong (cell s)" and out: "outputs s = []" "op (cell s) \<noteq> None" using F by auto
  from out obtain t where t: "op (cell s) = Some t" by auto
  consider "fut s = Fresh" | "fut s = Leaked" | r where "fut s = RecordingInline r" | r where "fut s = Unleaking r"
    using f by auto
  then show ?thesis
  proof cases
    case 1
    then have fr: "a \<notin> live s" "comps s = []" using inv by (auto simp: sys_inv_def)
    show ?thesis
      by (rule fut_goalI [where f' = Leaked and k' = "cell s\<lparr>strong := Suc (strong (cell s))\<rparr>"
            and L = "insert a (live s)" and out = "[]"], simp add: 1 leak_def arc_clone_def access_def st live_insert_def,
          rule sys_inv_futI [OF inv _ _ refl])
        (use 1 F fr out st in \<open>auto simp: fut_ref_def inline_of_def out_ok_def intro!: comps_ok_same [OF F(1)]\<close>)
  next
    case 2
    obtain p t' where o: "oc_operate C t = (p, t')" by (cases "oc_operate C t")
    let ?f = "case p of Pending \<Rightarrow> Idle None | Ready (Inl e) \<Rightarrow> Unleaking (Inl e)
        | Ready (Inr n) \<Rightarrow> RecordingInline (Inr n)"
    have "fut_step C a (length (wakes s)) act (fut s) (cell s) (live s) =
        Some (?f, cell s\<lparr>op := Some t'\<rparr>, live s, [])"
      using 2 st t o by (simp add: key_operate_def)
    moreover have "live s = L \<Longrightarrow> a \<in> live s \<Longrightarrow> comps s = []" for L
      using F(1) by (auto simp: comps_ok_def)
    ultimately show ?thesis
      by (rule_tac fut_goalI, simp, rule_tac sys_inv_futI [OF inv _ _ refl])
        (use 2 F out st in \<open>auto simp: fut_ref_def inline_of_def out_ok_def intro!: comps_ok_same [OF F(1)]
           split: poll.splits sum.splits\<close>)
  next
    case (3 r)
    let ?k = "cell s\<lparr>op := Some (oc_on_complete_with C t r (case r of Inr n \<Rightarrow> n | Inl _ \<Rightarrow> 0))\<rparr>"
    have "fut_step C a (length (wakes s)) act (fut s) (cell s) (live s) = Some (Unleaking r, ?k, live s, [])"
      using 3 st t by (simp add: on_complete_inline_def on_complete_inline_with_def access_def)
    moreover have "a \<in> live s \<Longrightarrow> comps s = []" using F(1) by (auto simp: comps_ok_def)
    ultimately show ?thesis
      by (rule_tac fut_goalI, simp, rule_tac sys_inv_futI [OF inv _ _ refl])
        (use 3 F out st in \<open>auto simp: fut_ref_def inline_of_def out_ok_def intro!: comps_ok_same [OF F(1)]\<close>)
  next
    case (4 r)
    show ?thesis
    proof (cases "a \<in> live s")
      case False
      then have "fut_step C a (length (wakes s)) act (fut s) (cell s) (live s) = Some (Inline r, cell s, live s, [])"
        using 4 by (simp add: unleak_def live_claim_def)
      with False show ?thesis
        by (rule_tac fut_goalI, simp, rule_tac sys_inv_futI [OF inv _ _ refl])
          (use 4 F out st in \<open>auto simp: fut_ref_def inline_of_def out_ok_def intro!: comps_ok_same [OF F(1)]\<close>)
    next
      case True
      then have c: "comps s = []" using F(1) by (auto simp: comps_ok_def)
      have two: "strong (cell s) \<ge> 2" using inv True ne by (auto simp: sys_inv_def refs_ok_def fut_ref_def)
      then have "fut_step C a (length (wakes s)) act (fut s) (cell s) (live s) =
          Some (Inline r, cell s\<lparr>strong := strong (cell s) - 1\<rparr>, live s - {a}, [])"
        using 4 True by (simp add: unleak_def live_claim_def arc_drop_def)
      with True two c show ?thesis
        by (rule_tac fut_goalI, simp, rule_tac sys_inv_futI [OF inv _ _ refl])
          (use 4 F out st in \<open>auto simp: fut_ref_def inline_of_def out_ok_def intro!: comps_ok_same [OF F(1)]\<close>)
    qed
  qed
qed


lemma fut_polling:
  assumes inv: "sys_inv a s"
    and f: "(\<exists>r. fut s = Inline r) \<or> (\<exists>p. fut s = Idle p) \<or> (\<exists>w. fut s = Polling w) \<or> fut s = Taking"
  shows "fut_goal C a act s"
proof -
  note F = inv_facts [OF inv]
  have ne: "fut s \<noteq> Gone" "fut s \<noteq> DroppingKey" using f by auto
  then have st: "0 < strong (cell s)" and out: "outputs s = []" "op (cell s) \<noteq> None" using F by auto
  from out obtain t where t: "op (cell s) = Some t" by auto
  have lv: "a \<in> live s \<Longrightarrow> comps s = []" using F(1) by (auto simp: comps_ok_def)
  have stay: "fut_goal C a act s"
    if "fut_step C a (length (wakes s)) act (fut s) (cell s) (live s) = Some (fut s, cell s, live s, [])"
      "inline_of (fut s) = None"
    by (rule fut_goalI [OF that(1)]) (use inv that(2) in simp)
  consider (Inline) r where "fut s = Inline r" | (Idle) p where "fut s = Idle p"
    | (Polling) w where "fut s = Polling w" | (Taking) "fut s = Taking"
    using f by auto
  then show ?thesis
  proof cases
    case Inline
    show ?thesis
    proof (cases act)
      case Advance
      then show ?thesis using stay Inline by (simp add: inline_of_def)
    next
      case (PollWith w)
      then have "fut_step C a (length (wakes s)) act (fut s) (cell s) (live s) =
          Some (DroppingKey, cell s\<lparr>op := None\<rparr>, live s, [(r, t)])"
        using Inline st t by (simp add: take_op_inline_def op_take_def)
      then show ?thesis
        by (rule_tac fut_goalI, simp, rule_tac sys_inv_futI [OF inv _ _ refl])
          (use Inline F out st lv in \<open>auto simp: fut_ref_def inline_of_def out_ok_def intro!: comps_ok_same [OF F(1)]\<close>)
    next
      case DropFuture
      then have "fut_step C a (length (wakes s)) act (fut s) (cell s) (live s) = Some (DroppingKey, cell s, live s, [])"
        using Inline by simp
      then show ?thesis
        by (rule_tac fut_goalI, simp, rule_tac sys_inv_futI [OF inv _ _ refl])
          (use Inline F out st lv in \<open>auto simp: fut_ref_def inline_of_def out_ok_def intro!: comps_ok_same [OF F(1)]\<close>)
    qed
  next
    case Idle
    show ?thesis
    proof (cases act)
      case Advance
      then show ?thesis using stay Idle by (simp add: inline_of_def)
    next
      case (PollWith w)
      then have "fut_step C a (length (wakes s)) act (fut s) (cell s) (live s) =
          Some (Polling w, cell s\<lparr>waker := Some w\<rparr>, live s, [])"
        using Idle st by (cases "cell s") (auto simp: set_waker_def access_def split: option.splits)
      then show ?thesis
        by (rule_tac fut_goalI, simp, rule_tac sys_inv_futI [OF inv _ _ refl])
          (use Idle F out st lv in \<open>auto simp: fut_ref_def inline_of_def out_ok_def intro!: comps_ok_same [OF F(1)]\<close>)
    next
      case DropFuture
      then have "fut_step C a (length (wakes s)) act (fut s) (cell s) (live s) = Some (DroppingFuture, cell s, live s, [])"
        using Idle by simp
      then show ?thesis
        by (rule_tac fut_goalI, simp, rule_tac sys_inv_futI [OF inv _ _ refl])
          (use Idle F out st lv in \<open>auto simp: fut_ref_def inline_of_def out_ok_def intro!: comps_ok_same [OF F(1)]\<close>)
    qed
  next
    case Polling
    show ?thesis
    proof (cases "state (cell s) = Completed")
      case True
      then have "fut_step C a (length (wakes s)) act (fut s) (cell s) (live s) =
          Some (Taking, cell s\<lparr>state := Terminal\<rparr>, live s, [])"
        using Polling st by (simp add: compare_exchange_def)
      then show ?thesis
        by (rule_tac fut_goalI, simp, rule_tac sys_inv_futI [OF inv _ _ refl])
          (use True Polling F out st comps_ok_told [OF F(1) True] in
            \<open>auto simp: fut_ref_def inline_of_def out_ok_def intro!: comps_ok_take [OF F(1) True]\<close>)
    next
      case False
      then have sub: "state (cell s) = Submitted" and w: "waker (cell s) = Some w" using F(5,6) Polling by auto
      let ?s = "s\<lparr>fut := Idle (Some (w, length (wakes s))), cell := cell s, live := live s,
          outputs := outputs s @ [], inlined := inlined s\<rparr>"
      have wt: "wait_ok (Idle (Some (w, length (wakes s)))) ?s"
        using F(1) w sub by (auto simp: comps_ok_def late_def elim!: comp_ok.elims)
      have "fut_step C a (length (wakes s)) act (fut s) (cell s) (live s) =
          Some (Idle (Some (w, length (wakes s))), cell s, live s, [])"
        using Polling st False by (simp add: compare_exchange_def)
      moreover have "sys_inv a ?s"
        by (rule sys_inv_futI [OF inv _ _ refl _ _ _ wt])
          (use Polling F out st lv in \<open>auto simp: fut_ref_def inline_of_def out_ok_def intro!: comps_ok_same [OF F(1)]\<close>)
      ultimately show ?thesis by (rule_tac fut_goalI, simp, simp add: inline_of_def)
    qed
  next
    case Taking
    then obtain r n where r: "result (cell s) = Some r" "packet s = Some (r, n)"
      using F(5) inv by (auto simp: sys_inv_def)
    then have "fut_step C a (length (wakes s)) act (fut s) (cell s) (live s) =
        Some (DroppingKey, cell s\<lparr>result := None, op := None\<rparr>, live s, [(r, t)])"
      using Taking st t by (simp add: take_result_def assume_init_read_def op_take_def)
    then show ?thesis
      by (rule_tac fut_goalI, simp, rule_tac sys_inv_futI [OF inv _ _ refl])
        (use Taking F out st r in \<open>auto simp: fut_ref_def inline_of_def out_ok_def intro!: comps_ok_taken [OF F(1)]\<close>)
  qed
qed

lemma fut_dropping:
  assumes inv: "sys_inv a s"
    and f: "fut s = DroppingFuture \<or> fut s = Cancelling \<or> fut s = DroppingKey \<or> fut s = Gone"
  shows "fut_goal C a act s"
proof -
  note F = inv_facts [OF inv]
  have lv: "a \<in> live s \<Longrightarrow> comps s = []" using F(1) by (auto simp: comps_ok_def)
  show ?thesis
    using f
  proof (elim disjE)
    assume d: "fut s = DroppingFuture"
    then have st: "0 < strong (cell s)" and out: "outputs s = []" "op (cell s) \<noteq> None" using F by auto
    show ?thesis
    proof (cases "state (cell s) = Submitted")
      case True
      then have "fut_step C a (length (wakes s)) act (fut s) (cell s) (live s) =
          Some (Cancelling, cell s\<lparr>state := Abandoned\<rparr>, live s, [])"
        using d st by (simp add: abandon_def access_def compare_exchange_def)
      then show ?thesis
        by (rule_tac fut_goalI, simp, rule_tac sys_inv_futI [OF inv _ _ refl])
          (use d F out st in \<open>auto simp: fut_ref_def inline_of_def out_ok_def intro!: comps_ok_abandon [OF F(1) True]\<close>)
    next
      case False
      then have "fut_step C a (length (wakes s)) act (fut s) (cell s) (live s) =
          Some (DroppingKey, cell s, live s, [])"
        using d st by (simp add: abandon_def access_def compare_exchange_def)
      then show ?thesis
        by (rule_tac fut_goalI, simp, rule_tac sys_inv_futI [OF inv _ _ refl])
          (use d F out st lv in \<open>auto simp: fut_ref_def inline_of_def out_ok_def intro!: comps_ok_same [OF F(1)]\<close>)
    qed
  next
    assume d: "fut s = Cancelling"
    then have st: "0 < strong (cell s)" and out: "outputs s = []" "op (cell s) \<noteq> None" using F by auto
    from out obtain t where t: "op (cell s) = Some t" by auto
    obtain r t' where c: "oc_cancel C t = (r, t')" by (cases "oc_cancel C t")
    have "fut_step C a (length (wakes s)) act (fut s) (cell s) (live s) =
        Some (DroppingKey, cell s\<lparr>op := Some t'\<rparr>, live s, [])"
      using d st t c by (simp add: key_cancel_def access_def)
    then show ?thesis
      by (rule_tac fut_goalI, simp, rule_tac sys_inv_futI [OF inv _ _ refl])
        (use d F out st lv in \<open>auto simp: fut_ref_def inline_of_def out_ok_def intro!: comps_ok_same [OF F(1)]\<close>)
  next
    assume d: "fut s = DroppingKey"
    then have st: "0 < strong (cell s)" using F by auto
    then obtain k' where k': "arc_drop (cell s) = Some k'" "magic k' = magic (cell s)"
      "state k' = state (cell s)" "op k' = op (cell s)" "waker k' = waker (cell s)"
      "strong (cell s) = Suc (strong k')" "result k' = result (cell s) \<or> strong k' = 0 \<and> result k' = None"
      using arc_drop_ok [of "cell s"] F(4) by auto
    have z: "strong k' = 0 \<Longrightarrow> sum_list (map comp_ref (comps s)) = 0"
      using inv d k'(6) by (simp add: sys_inv_def refs_ok_def fut_ref_def)
    have "fut_step C a (length (wakes s)) act (fut s) (cell s) (live s) = Some (Gone, k', live s, [])"
      using d k'(1) by simp
    then show ?thesis
      by (rule_tac fut_goalI, simp, rule_tac sys_inv_futI [OF inv _ _ refl])
        (use d F k' z lv in \<open>auto simp: fut_ref_def inline_of_def out_ok_def intro!: comps_ok_same [OF F(1)]\<close>)
  next
    assume d: "fut s = Gone"
    then have same: "s\<lparr>fut := Gone\<rparr> = s" by (cases s) simp
    from d inv show ?thesis by (rule_tac fut_goalI, simp, simp add: inline_of_def same)
  qed
qed

lemma inv_step_fut: "sys_inv a s \<Longrightarrow> fut_goal C a act s"
  using fut_submitting [of a s C act] fut_polling [of a s C act] fut_dropping [of a s C act]
  by (cases "fut s") simp_all


section \<open>Every reachable state\<close>

lemma inv_holds: "sys_inv a s \<longleftrightarrow> \<not> fault s \<and> magic (cell s) = OP_MAGIC \<and> refs_ok a s \<and> comps_ok a s \<and>
     (fut s = Fresh \<longrightarrow> a \<notin> live s \<and> comps s = [] \<and> \<not> tracked s) \<and>
     (state (cell s) = Completed \<and> strong (cell s) \<noteq> 0 \<longrightarrow> result (cell s) \<noteq> None) \<and>
     (\<forall>r. result (cell s) = Some r \<longrightarrow> (\<exists>n. packet s = Some (r, n))) \<and>
     fut_ok (fut s) s \<and> wait_ok (fut s) s \<and> out_ok s"
  by (simp add: sys_inv_def comps_ok_def)

lemma fut_ok_frame:
  assumes "fut_ok f s" "state (cell s') = state (cell s)" "inlined s' = inlined s"
    "result (cell s') = result (cell s)" "told s' = told s"
  shows "fut_ok f s'"
  using assms by (cases f) auto

lemma wait_ok_frame:
  assumes "wait_ok f s" "state (cell s') = state (cell s)" "waker (cell s') = waker (cell s)"
    "comps s' = comps s" "wakes s' = wakes s"
  shows "wait_ok f s'"
  using assms by (cases f rule: fut_exhaust) (auto split: list.split comp.split)

lemma inv_claim:
  assumes inv: "sys_inv a s" and c: "a \<in> live s"
  shows "sys_inv a (s\<lparr>live := live s - {a}, comps := comps s @ [Claimed r n], packet := Some (r, n)\<rparr>)"
proof -
  let ?s = "s\<lparr>live := live s - {a}, comps := comps s @ [Claimed r n], packet := Some (r, n)\<rparr>"
  note F = inv_facts [OF inv]
  have e: "comps s = []" "early s" "result (cell s) = None" "told s = 0"
    using F(1) c by (auto simp: comps_ok_def)
  have o: "out_ok ?s" using F(7) e by (auto simp: out_ok_def)
  have f: "fut_ok (fut s) ?s" by (rule fut_ok_frame [OF F(5)]) simp_all
  have w: "wait_ok (fut s) ?s" using F(6) e by (cases "fut s" rule: fut_exhaust) auto
  have "refs_ok a ?s" "fut s \<noteq> Fresh" using inv c e by (auto simp: sys_inv_def refs_ok_def)
  with inv e o f w show ?thesis unfolding sys_inv_def by (simp add: early_def)
qed

lemma inv_tracked:
  assumes inv: "sys_inv a s" and f: "fut s \<noteq> Fresh" and st: "strong (cell s) \<noteq> 0"
    and k: "magic k' = magic (cell s)" "state k' = state (cell s)" "waker k' = waker (cell s)"
      "op k' = None \<longleftrightarrow> op (cell s) = None"
      "strong k' + (if tracked s then 1 else 0) = strong (cell s) + (if b then 1 else 0)"
      "result k' = result (cell s) \<or> strong k' = 0 \<and> result k' = None"
  shows "sys_inv a (s\<lparr>tracked := b, cell := k'\<rparr>)"
proof -
  let ?s = "s\<lparr>tracked := b, cell := k'\<rparr>"
  note F = inv_facts [OF inv]
  have rf: "refs_ok a ?s" using inv k(5) by (simp add: sys_inv_def refs_ok_def split: if_splits)
  have z: "strong k' = 0 \<Longrightarrow> sum_list (map comp_ref (comps s)) = 0 \<and> fut s = Gone \<and> a \<notin> live s"
    using rf by (auto simp: refs_ok_def fut_ref_def split: if_splits)
  have c: "comps_ok a ?s"
    by (rule comps_ok_same [OF F(1)]) (use k z F(1) in \<open>auto simp: comps_ok_def\<close>)
  have fo: "fut_ok (fut s) ?s"
  proof (cases "fut s = Gone")
    case False
    show ?thesis by (rule fut_ok_frame [OF F(5)]) (use k z False in auto)
  qed simp
  have w: "wait_ok (fut s) ?s" by (rule wait_ok_frame [OF F(6)]) (use k in simp_all)
  have o: "out_ok ?s" using F(7) k by (simp add: out_ok_def)
  have rs: "\<forall>r. result k' = Some r \<longrightarrow> (\<exists>n. packet s = Some (r, n))"
    and cp: "state k' = Completed \<and> strong k' \<noteq> 0 \<longrightarrow> result k' \<noteq> None"
    and m: "magic k' = OP_MAGIC"
    using inv k F(4) st by (auto simp: sys_inv_def split: if_splits)
  show ?thesis
    unfolding inv_holds using F(9) rf c fo w o rs cp m f by simp
qed


lemma inv_step:
  assumes "step C a s s'" "sys_inv a s"
  shows "sys_inv a s'"
  using assms
proof (induction rule: step.induct)
  case (claim s L r n)
  then show ?case using inv_claim by (auto simp: live_claim_def)
next
  case (unclaimed s L)
  then have "a \<notin> live s" and L: "L = live s - {a}" by (simp_all add: live_claim_def)
  then have "s\<lparr>live := L\<rparr> = s" by (cases s) simp
  with unclaimed show ?case by simp
next
  case (comp s xs c ys c' k' ws)
  have one: "xs = []" "ys = []" "comps s = [c]" using inv_comp [OF comp.prems comp.hyps(1)] by auto
  from inv_step_comp [OF comp.prems one(3), of C] comp.hyps(2) one show ?case by simp
next
  case (comp_fault s xs c ys)
  have one: "comps s = [c]" using inv_comp [OF comp_fault.prems comp_fault.hyps(1)] by auto
  from inv_step_comp [OF comp_fault.prems one, of C] comp_fault.hyps(2) show ?case by simp
next
  case (fut s act f' k' L out)
  from inv_step_fut [OF fut.prems, of C act] fut.hyps show ?case by (simp add: fut_goal_def)
next
  case (fut_fault s act)
  from inv_step_fut [OF fut_fault.prems, of C act] fut_fault.hyps show ?case by (simp add: fut_goal_def)
next
  case (track s p k')
  then have "strong (cell s) \<noteq> 0" using inv_facts(3) by fastforce
  with track show ?case
    by (intro inv_tracked) (auto simp: erased_cancel_def arc_clone_def access_def split: if_splits)
next
  case (tracked_cancel s r k')
  then have nf: "fut s \<noteq> Fresh" by (auto simp: sys_inv_def)
  have "sys_inv a (s\<lparr>tracked := tracked s, cell := k'\<rparr>)"
    by (rule inv_tracked) (use tracked_cancel nf in \<open>auto simp: key_cancel_def access_def
      split: if_splits option.splits prod.splits\<close>)
  then show ?case by simp
next
  case (tracked_cancel_fault s)
  then show ?case by (auto simp: key_cancel_def access_def sys_inv_def refs_ok_def split: if_splits)
next
  case (tracked_drop s k')
  then have nf: "fut s \<noteq> Fresh" "strong (cell s) \<noteq> 0" by (auto simp: sys_inv_def refs_ok_def)
  from arc_drop_ok [OF nf(2)] inv_facts(4) [OF tracked_drop.prems] nf(2) tracked_drop.hyps
  show ?case by (intro inv_tracked [OF tracked_drop.prems nf]) auto
next
  case (tracked_drop_fault s)
  then have "strong (cell s) \<noteq> 0" by (auto simp: sys_inv_def refs_ok_def)
  with arc_drop_ok [OF this] inv_facts(4) [OF tracked_drop_fault.prems] tracked_drop_fault.hyps
  show ?case by auto
next
  case (others L s)
  note F = inv_facts [OF others.prems]
  have "comps_ok a (s\<lparr>live := L\<rparr>)"
    by (rule comps_ok_same [OF F(1)]) (use F(1) others.hyps in \<open>auto simp: comps_ok_def\<close>)
  moreover have "fut_ok (fut s) (s\<lparr>live := L\<rparr>)" by (rule fut_ok_frame [OF F(5)]) simp_all
  moreover have "wait_ok (fut s) (s\<lparr>live := L\<rparr>)" by (rule wait_ok_frame [OF F(6)]) simp_all
  moreover have "refs_ok a (s\<lparr>live := L\<rparr>)" "out_ok (s\<lparr>live := L\<rparr>)"
    using others by (simp_all add: sys_inv_def refs_ok_def out_ok_def)
  ultimately show ?case using others unfolding inv_holds by simp
qed

lemma reachable_inv: "reachable C a t s \<Longrightarrow> sys_inv a s"
  by (induction rule: reachable.induct) (auto intro: sys_inv_init inv_step)

section \<open>Schedules\<close>

text \<open>An executable run of the system, for evaluating the properties on concrete interleavings.\<close>

datatype 'w choice = Packet io_result nat | DispatchStep | FutureStep "'w act"

fun exec_choice :: "'t OpCode \<Rightarrow> nat \<Rightarrow> 'w choice \<Rightarrow> ('t, 'w) sys \<Rightarrow> ('t, 'w) sys option" where
  "exec_choice C a (Packet r n) s =
     (if a \<in> live s
      then Some (s\<lparr>live := live s - {a}, comps := comps s @ [Claimed r n], packet := Some (r, n)\<rparr>) else None)"
| "exec_choice C a DispatchStep s =
     (case comps s of
        [c] \<Rightarrow> map_option (\<lambda>(c', k', ws). s\<lparr>comps := [c'], cell := k', wakes := wakes s @ ws,
                 told := told s + (if is_recording c then 1 else 0)\<rparr>) (comp_step C c (cell s))
      | _ \<Rightarrow> None)"
| "exec_choice C a (FutureStep act) s =
     map_option (\<lambda>(f', k', L, out). s\<lparr>fut := f', cell := k', live := L, outputs := outputs s @ out,
        inlined := (case inline_of f' of Some r \<Rightarrow> Some r | None \<Rightarrow> inlined s)\<rparr>)
       (fut_step C a (length (wakes s)) act (fut s) (cell s) (live s))"

fun exec_schedule :: "'t OpCode \<Rightarrow> nat \<Rightarrow> 'w choice list \<Rightarrow> ('t, 'w) sys \<Rightarrow> ('t, 'w) sys option" where
  "exec_schedule C a [] s = Some s"
| "exec_schedule C a (c # cs) s = Option.bind (exec_choice C a c s) (exec_schedule C a cs)"

lemma exec_choice_step: "exec_choice C a c s = Some s' \<Longrightarrow> step C a s s'"
proof (induction C a c s rule: exec_choice.induct)
  case (1 C a r n s)
  then show ?case using step.claim [of a s "live s - {a}" C r n] by (auto simp: live_claim_def split: if_splits)
next
  case (2 C a s)
  then show ?case using step.comp [of s "[]" _ "[]" C]
    by (auto split: list.splits simp del: comp_step.simps)
next
  case (3 C a act s)
  then show ?case using step.fut [of C a s act] by auto
qed

lemma exec_schedule_reachable:
  "exec_schedule C a cs s = Some s' \<Longrightarrow> reachable C a t s \<Longrightarrow> reachable C a t s'"
proof (induction cs arbitrary: s)
  case (Cons c cs)
  then obtain s1 where "exec_choice C a c s = Some s1" "exec_schedule C a cs s1 = Some s'"
    by (auto split: bind_splits)
  with Cons show ?case by (blast intro: reachable.step exec_choice_step)
qed simp

text \<open>An operation that pends, and the schedule that submits, polls and completes it.\<close>

definition pending_op :: "nat OpCode" where
  "pending_op = \<lparr>oc_operate = (\<lambda>t. (Pending, t)), oc_cancel = (\<lambda>t. (Inr (), t)),
     oc_on_complete_with = (\<lambda>t r n. t + n)\<rparr>"

definition submit_and_poll :: "nat choice list" where
  "submit_and_poll = [FutureStep Advance, FutureStep Advance, FutureStep (PollWith 9), FutureStep Advance]"

definition dispatch_it :: "nat choice list" where
  "dispatch_it = Packet (Inr 3) 3 # replicate 7 DispatchStep"

definition poll_again :: "nat choice list" where
  "poll_again = [FutureStep (PollWith 9), FutureStep Advance, FutureStep Advance, FutureStep Advance]"

definition state_after :: "nat choice list \<Rightarrow> (nat, nat) sys" where
  "state_after cs = the (exec_schedule pending_op 5 cs (sys_init 0 {}))"

lemma state_after_reachable:
  assumes "exec_schedule pending_op 5 cs (sys_init 0 {}) \<noteq> None"
  shows "reachable pending_op 5 0 (state_after cs)"
  using assms exec_schedule_reachable [of pending_op 5 cs "sys_init 0 {}" _ 0] reachable.start [of 5 "{}" pending_op 0]
  by (auto simp: state_after_def)

lemmas schedule_defs = submit_and_poll_def dispatch_it_def poll_again_def pending_op_def sys_init_def
  key_new_def piece_defs inline_of_def is_recording_def OP_MAGIC_def

lemma submitted_runs: "exec_schedule pending_op 5 submit_and_poll (sys_init 0 {}) =
    Some \<lparr>cell = \<lparr>overlapped = \<lparr>Offset = 0, OffsetHigh = 0\<rparr>, magic = OP_MAGIC, state = Submitted, result = None,
        waker = Some 9, op = Some 0, strong = 2\<rparr>, live = {5}, comps = [], fut = Idle (Some (9, 0)),
      tracked = False, fault = False, wakes = [], packet = None, inlined = None, told = 0, outputs = []\<rparr>"
  by (simp add: schedule_defs)

lemma exec_schedule_append:
  "exec_schedule C a (xs @ ys) s = Option.bind (exec_schedule C a xs s) (exec_schedule C a ys)"
  by (induction xs arbitrary: s) (auto split: bind_splits)

lemma dispatched_runs: "exec_schedule pending_op 5 (submit_and_poll @ dispatch_it) (sys_init 0 {}) =
    Some \<lparr>cell = \<lparr>overlapped = \<lparr>Offset = 0, OffsetHigh = 0\<rparr>, magic = OP_MAGIC, state = Completed,
        result = Some (Inr 3), waker = None, op = Some 3, strong = 1\<rparr>, live = {}, comps = [Finished],
      fut = Idle (Some (9, 0)), tracked = False, fault = False, wakes = [9], packet = Some (Inr 3, 3),
      inlined = None, told = 1, outputs = []\<rparr>"
  unfolding exec_schedule_append submitted_runs
  by (simp add: schedule_defs eval_nat_numeral)

lemma returned_runs: "exec_schedule pending_op 5 (submit_and_poll @ dispatch_it @ poll_again) (sys_init 0 {}) =
    Some \<lparr>cell = \<lparr>overlapped = \<lparr>Offset = 0, OffsetHigh = 0\<rparr>, magic = OP_MAGIC, state = Terminal,
        result = None, waker = Some 9, op = None, strong = 0\<rparr>, live = {}, comps = [Finished],
      fut = Gone, tracked = False, fault = False, wakes = [9], packet = Some (Inr 3, 3),
      inlined = None, told = 1, outputs = [(Inr 3, 3)]\<rparr>"
  unfolding append_assoc [symmetric] exec_schedule_append [of _ _ "submit_and_poll @ dispatch_it"] dispatched_runs
  by (simp add: schedule_defs eval_nat_numeral)

lemmas runs_reachable =
  state_after_reachable [of submit_and_poll, simplified submitted_runs, simplified]
  state_after_reachable [of "submit_and_poll @ dispatch_it", simplified dispatched_runs, simplified]
  state_after_reachable [of "submit_and_poll @ dispatch_it @ poll_again", simplified returned_runs, simplified]

section \<open>Properties\<close>

text \<open>
  Property C1. Memory safety of one operation under every interleaving of its submitter and future, of
  the threads dispatching completions (any number of packets, late and repeated ones included) and of
  the proactor's cancellation record: no step touches the allocation after it was freed, frees it
  twice, reads a result that was not written, or fails an \<^verbatim>\<open>expect\<close> or the debug assertion; the strong
  count is always the number of parties that hold a reference.
\<close>

theorem operation_memory_safe:
  assumes "reachable C a t s"
  shows "\<not> fault s \<and>
    strong (cell s) = fut_ref (fut s) + (if a \<in> live s then 1 else 0) +
      sum_list (map comp_ref (comps s)) + (if tracked s then 1 else 0)"
  using reachable_inv [OF assms] by (simp add: sys_inv_def refs_ok_def)

theorem operation_memory_safe_witness:
  "\<not> fault (state_after (submit_and_poll @ dispatch_it)) \<and>
   strong (cell (state_after (submit_and_poll @ dispatch_it))) = 1"
  using operation_memory_safe [OF runs_reachable(2)]
  by (simp add: state_after_def dispatched_runs fut_ref_def)

text \<open>
  Property C5. The kernel's buffer is pinned: while the leaked reference is outstanding, from before the
  operation starts until its completion is claimed, the allocation is alive and still owns the
  operation and its buffer, also when the future has been dropped.
\<close>

theorem buffer_pinned_until_completion:
  assumes "reachable C a t s" "a \<in> live s" "inlined s = None"
  shows "0 < strong (cell s) \<and> op (cell s) \<noteq> None"
  using reachable_inv [OF assms(1)] assms(2,3) by (auto simp: sys_inv_def refs_ok_def out_ok_def)

theorem buffer_pinned_until_completion_witness:
  "0 < strong (cell (state_after submit_and_poll)) \<and> op (cell (state_after submit_and_poll)) \<noteq> None"
  by (rule buffer_pinned_until_completion [OF runs_reachable(1)]) (simp_all add: state_after_def submitted_runs)

text \<open>
  Property C6. A completion is delivered once and unchanged: at most one dispatcher ever gets past its
  claim, the future returns at most one output, and that output carries either the inline result of
  the submission or the very result of the claimed packet, with an operation that was told of its
  completion exactly once.
\<close>

theorem completion_delivered_once:
  assumes "reachable C a t s"
  shows "length (comps s) \<le> 1 \<and>
    (outputs s = [] \<or>
     (\<exists>r t. outputs s = [(r, t)] \<and>
        (inlined s = Some r \<or> inlined s = None \<and> told s = 1 \<and> (\<exists>n. packet s = Some (r, n)))))"
  using reachable_inv [OF assms] by (auto simp: sys_inv_def out_ok_def)

theorem completion_delivered_once_witness:
  "outputs (state_after (submit_and_poll @ dispatch_it @ poll_again)) = [(Inr 3, 3)] \<and>
   length (comps (state_after (submit_and_poll @ dispatch_it @ poll_again))) \<le> 1"
  using completion_delivered_once [OF runs_reachable(3)] by (simp add: state_after_def returned_runs)

lemma fut_step_live:
  assumes "fut_step C a n act f k L = Some (f', k', L', out)"
  shows "f \<noteq> Fresh \<and> L' = L \<or> f = Fresh \<and> a \<in> L' \<or> (\<exists>r. f = Unleaking r \<and> f' = Inline r)"
  using assms
  by (cases f) (auto simp: leak_def live_insert_def split: option.splits if_splits prod.splits act.splits sum.splits)

lemma live_until_claimed:
  assumes "reachable C a t s" "comps s = []" "fut s \<noteq> Fresh" "inlined s = None"
  shows "a \<in> live s"
  using assms
proof (induction rule: reachable.induct)
  case (start L)
  then show ?case by (simp add: sys_init_def)
next
  case (step s s')
  have inv: "sys_inv a s" using step.hyps(1) by (rule reachable_inv)
  from step.hyps(2) show ?case
  proof (cases rule: step.cases)
    case (fut act f' k' L out)
    have "inlined s = None" using fut(1) step.prems(3) by (auto split: option.splits)
    with inv have "\<not> (\<exists>r. fut s = Unleaking r)" by (auto simp: sys_inv_def)
    moreover have "a \<in> live s" if "fut s \<noteq> Fresh"
      using step.IH that \<open>inlined s = None\<close> step.prems(1) fut(1) by simp
    ultimately show ?thesis using fut_step_live [OF fut(2)] fut(1) by auto
  qed (use step.IH step.prems in \<open>auto simp: live_claim_def\<close>)
qed

text \<open>
  Property C7. No wake-up is lost. A future whose last poll returned \<^verbatim>\<open>Pending\<close> with waker \<open>w\<close> is always in
  one of three situations: its completion can still be claimed, a dispatcher is on its way, or the
  dispatcher has finished, has woken \<open>w\<close> after that poll, and left the result for the next poll to take.
\<close>

theorem no_lost_wakeup:
  assumes "reachable C a t s" "fut s = Idle (Some (w, n))"
  shows "a \<in> live s \<or> (\<exists>c. comps s = [c] \<and> c \<noteq> Finished) \<or>
    comps s = [Finished] \<and> w \<in> set (drop n (wakes s)) \<and> state (cell s) = Completed \<and> result (cell s) \<noteq> None"
proof (cases "comps s = []")
  case True
  then show ?thesis
    using live_until_claimed [OF assms(1)] assms(2) reachable_inv [OF assms(1)] by (simp add: sys_inv_def)
next
  case False
  have inv: "sys_inv a s" by (rule reachable_inv [OF assms(1)])
  then obtain c where c: "comps s = [c]" "comp_ok c s" using False by (auto simp: sys_inv_def)
  have "0 < strong (cell s)" using inv_facts(3) [OF inv] assms(2) by simp
  then show ?thesis
    using inv c assms(2) by (cases "c = Finished") (auto simp: sys_inv_def)
qed

theorem no_lost_wakeup_witness:
  "9 \<in> set (wakes (state_after (submit_and_poll @ dispatch_it)))"
  using no_lost_wakeup [OF runs_reachable(2), of 9 0] by (simp add: state_after_def dispatched_runs)

text \<open>
  The cut into steps is faithful: a dispatcher that runs undisturbed from its claim does
  exactly what \<^verbatim>\<open>complete_erased\<close> does, on the allocation and in the wakers it wakes.
\<close>

theorem dispatcher_alone_is_complete_erased:
  assumes "reachable C a t s" "comps s = [Claimed r n]"
  shows "comp_run 8 C (Claimed r n) (cell s) = complete_erased C r n (cell s)"
proof (rule comp_run_complete)
  have inv: "sys_inv a s" by (rule reachable_inv [OF assms(1)])
  show "strong (cell s) \<noteq> 0" using inv assms(2) by (auto simp: sys_inv_def refs_ok_def)
  show "magic (cell s) = OP_MAGIC" using inv by (simp add: sys_inv_def)
  show "state (cell s) = Submitted \<or> state (cell s) = Abandoned"
    using inv assms(2) by (auto simp: sys_inv_def early_def)
qed

theorem dispatcher_alone_is_complete_erased_witness:
  "comp_run 8 pending_op (Claimed (Inr 3) 3) (cell (state_after (submit_and_poll @ [Packet (Inr 3) 3]))) =
   complete_erased pending_op (Inr 3) 3 (cell (state_after (submit_and_poll @ [Packet (Inr 3) 3])))"
  by (rule dispatcher_alone_is_complete_erased [OF state_after_reachable])
    (simp_all add: state_after_def exec_schedule_append submitted_runs)

end
