(* ===== verification/Proactor.thy ===== *)
theory Proactor
  imports Raw_Op
begin

text \<open>
  The single-threaded reactor and the ports below it: \<^verbatim>\<open>iocp/proactor.rs\<close>, \<^verbatim>\<open>iocp/port.rs\<close>,
  \<^verbatim>\<open>iocp/threadpool.rs\<close> and \<^verbatim>\<open>iocp/ops/event.rs\<close>.

  The heap maps addresses to the operation allocations of \<open>Raw_Op\<close>; the allocator's choice of an
  address, the completion packets a wait returns and the NTSTATUS conversion are arguments. As in
  \<open>Raw_Op\<close>, \<open>None\<close> is a fault.
\<close>

section \<open>The completion port\<close>

definition KEY_OPERATION :: nat where
  "KEY_OPERATION = 0x77617331"

record OVERLAPPED_ENTRY =
  lpCompletionKey :: nat
  lpOverlapped :: nat
  Internal :: nat
  dwNumberOfBytesTransferred :: u32

definition entry_transferred :: "OVERLAPPED_ENTRY \<Rightarrow> nat" where
  "entry_transferred e = unat (dwNumberOfBytesTransferred e)"

text \<open>\<open>rtl\<close> is \<^verbatim>\<open>RtlNtStatusToDosError\<close>. A status is a success when it is not negative as a signed word.\<close>

definition entry_result :: "(u32 \<Rightarrow> hresult) \<Rightarrow> (u32 \<Rightarrow> u32) \<Rightarrow> OVERLAPPED_ENTRY \<Rightarrow> io_result" where
  "entry_result hr rtl e =
     (let status = (of_nat (Internal e) :: u32) in
      if 0 \<le> sint status then Inr (unat (dwNumberOfBytesTransferred e)) else Inl (hr (rtl status)))"

text \<open>The timeout in milliseconds, and what a wait returns.\<close>

definition poll_millis :: "nat option \<Rightarrow> u32" where
  "poll_millis timeout =
     (case timeout of None \<Rightarrow> of_nat u32_max | Some d \<Rightarrow> of_nat (min d (u32_max - 1)))"

definition port_poll ::
  "(u32 \<Rightarrow> hresult) \<Rightarrow> (u32 \<Rightarrow> hresult + OVERLAPPED_ENTRY list) \<Rightarrow> nat option \<Rightarrow> hresult + OVERLAPPED_ENTRY list" where
  "port_poll hr GetQueuedCompletionStatusEx timeout =
     (case GetQueuedCompletionStatusEx (poll_millis timeout) of
        Inr entries \<Rightarrow> Inr entries
      | Inl e \<Rightarrow> if e = hr WAIT_TIMEOUT_CODE then Inr [] else Inl e)"

definition FILE_SKIP_MODES :: "8 word" where
  "FILE_SKIP_MODES = 0x1 OR 0x2"

definition skip_notification_on_inline_success ::
  "(nat \<Rightarrow> 8 word \<Rightarrow> hresult + unit) \<Rightarrow> nat \<Rightarrow> RegistrationError + unit" where
  "skip_notification_on_inline_success SetModes handle =
     (case SetModes handle FILE_SKIP_MODES of Inr _ \<Rightarrow> Inr () | Inl e \<Rightarrow> Inl (SkipModeUnsupported e))"

definition port_attach ::
  "(u32 \<Rightarrow> hresult) \<Rightarrow> (nat \<Rightarrow> nat \<Rightarrow> hresult + unit) \<Rightarrow> (nat \<Rightarrow> 8 word \<Rightarrow> hresult + unit) \<Rightarrow> nat \<Rightarrow>
   RegistrationError + unit" where
  "port_attach hr CreateIoCompletionPort SetModes handle =
     (case CreateIoCompletionPort handle KEY_OPERATION of
        Inl e \<Rightarrow> Inl (from_association hr e)
      | Inr _ \<Rightarrow> skip_notification_on_inline_success SetModes handle)"

section \<open>The reactor\<close>

record ('t, 'w) Proactor =
  heap :: "nat \<Rightarrow> ('t, 'w) RawOp option"
  live_set :: "nat set"
  pending :: "nat set"
  unclaimed :: nat
  woken :: "'w list"

definition proactor_new :: "nat set \<Rightarrow> ('t, 'w) Proactor" where
  "proactor_new L = \<lparr>heap = (\<lambda>_. None), live_set = L, pending = {}, unclaimed = 0, woken = []\<rparr>"

definition on_heap ::
  "nat \<Rightarrow> (('t, 'w) RawOp \<Rightarrow> ('t, 'w) RawOp may_panic) \<Rightarrow> ('t, 'w) Proactor \<Rightarrow> ('t, 'w) Proactor may_panic" where
  "on_heap a f P =
     (case heap P a of
        None \<Rightarrow> None
      | Some k \<Rightarrow> map_option (\<lambda>k'. P\<lparr>heap := (heap P)(a \<mapsto> k')\<rparr>) (f k))"

text \<open>\<^verbatim>\<open>HashMap::insert\<close> drops the value it replaces.\<close>

definition track :: "nat \<Rightarrow> ('t, 'w) Proactor \<Rightarrow> ('t, 'w) Proactor may_panic" where
  "track a P =
     Option.bind (on_heap a erased_cancel P) (\<lambda>P1.
       if a \<in> pending P1 then on_heap a arc_drop P1 else Some (P1\<lparr>pending := insert a (pending P1)\<rparr>))"

definition proactor_submit ::
  "'t OpCode \<Rightarrow> nat \<Rightarrow> 't \<Rightarrow> ('t, 'w) Proactor \<Rightarrow> (Submit \<times> ('t, 'w) Proactor) may_panic" where
  "proactor_submit C a t P =
     Option.bind (leak a (key_new t) (live_set P)) (\<lambda>(k1, live1).
     Option.bind (key_operate C k1) (\<lambda>(started, k2).
       let P1 = P\<lparr>heap := (heap P)(a \<mapsto> k2), live_set := live1\<rparr> in
       case started of
         Pending \<Rightarrow> map_option (\<lambda>P2. (submit_pending, P2)) (track a P1)
       | Ready (Inl e) \<Rightarrow>
           map_option (\<lambda>(k3, live2). (submit_ready (Inl e), P1\<lparr>heap := (heap P1)(a \<mapsto> k3), live_set := live2\<rparr>))
             (unleak a k2 live1)
       | Ready (Inr n) \<Rightarrow>
           Option.bind (on_complete_inline C k2 (Inr n)) (\<lambda>k3.
             map_option (\<lambda>(k4, live2).
               (submit_ready (Inr n), P1\<lparr>heap := (heap P1)(a \<mapsto> k4), live_set := live2\<rparr>))
               (unleak a k3 live1))))"

definition pending_count :: "('t, 'w) Proactor \<Rightarrow> nat" where
  "pending_count P = card (pending P)"

text \<open>The first loop of \<^verbatim>\<open>poll\<close>: forget the packet's cancellation record and queue the packet.\<close>

fun poll_collect ::
  "(OVERLAPPED_ENTRY \<Rightarrow> io_result) \<Rightarrow> OVERLAPPED_ENTRY list \<Rightarrow> ('t, 'w) Proactor \<Rightarrow>
   ((nat \<times> io_result \<times> nat) list \<times> ('t, 'w) Proactor) may_panic" where
  "poll_collect res [] P = Some ([], P)"
| "poll_collect res (e # es) P =
     (if lpCompletionKey e \<noteq> KEY_OPERATION then poll_collect res es P
      else if lpOverlapped e = 0 then poll_collect res es P
      else Option.bind
             (if lpOverlapped e \<in> pending P
              then on_heap (lpOverlapped e) arc_drop (P\<lparr>pending := pending P - {lpOverlapped e}\<rparr>)
              else Some P)
             (\<lambda>P1. map_option (\<lambda>(ready, P2). ((lpOverlapped e, res e, entry_transferred e) # ready, P2))
                     (poll_collect res es P1)))"

text \<open>One dispatch; an unclaimed packet never looks at the heap.\<close>

definition dispatch_one ::
  "'t OpCode \<Rightarrow> nat \<times> io_result \<times> nat \<Rightarrow> ('t, 'w) Proactor \<Rightarrow> (bool \<times> ('t, 'w) Proactor) may_panic" where
  "dispatch_one C x P =
     (case x of (optr, r, n) \<Rightarrow>
        if optr = 0 \<or> optr \<notin> live_set P then Some (False, P)
        else case heap P optr of
            None \<Rightarrow> None
          | Some k \<Rightarrow>
              map_option (\<lambda>(b, k', live', ws).
                  (b, P\<lparr>heap := (heap P)(optr \<mapsto> k'), live_set := live', woken := woken P @ ws\<rparr>))
                (dispatch_completion_with C optr r n k (live_set P)))"

fun poll_deliver ::
  "'t OpCode \<Rightarrow> (nat \<times> io_result \<times> nat) list \<Rightarrow> ('t, 'w) Proactor \<Rightarrow> (nat \<times> ('t, 'w) Proactor) may_panic" where
  "poll_deliver C [] P = Some (0, P)"
| "poll_deliver C (x # xs) P =
     Option.bind (dispatch_one C x P) (\<lambda>(b, P1).
       map_option (\<lambda>(n, P2). (if b then Suc n else n, P2))
         (poll_deliver C xs (if b then P1 else P1\<lparr>unclaimed := unclaimed P1 + 1\<rparr>)))"

definition proactor_poll ::
  "(u32 \<Rightarrow> hresult) \<Rightarrow> (u32 \<Rightarrow> u32) \<Rightarrow> 't OpCode \<Rightarrow> (u32 \<Rightarrow> hresult + OVERLAPPED_ENTRY list) \<Rightarrow> nat option \<Rightarrow>
   ('t, 'w) Proactor \<Rightarrow> ((hresult + nat) \<times> ('t, 'w) Proactor) may_panic" where
  "proactor_poll hr rtl C Gqcs timeout P =
     (case port_poll hr Gqcs timeout of
        Inl e \<Rightarrow> Some (Inl e, P)
      | Inr entries \<Rightarrow>
          Option.bind (poll_collect (entry_result hr rtl) entries P) (\<lambda>(ready, P1).
            map_option (\<lambda>(n, P2). (Inr n, P2)) (poll_deliver C ready P1)))"

text \<open>
  \<^verbatim>\<open>shutdown\<close>: cancel everything outstanding, then drain until as many completions were delivered. The
  cancellation records live until the function returns. The \<open>i\<close>-th wait of the drain is \<open>Gqcs i\<close>.
\<close>

fun cancel_all :: "'t OpCode \<Rightarrow> nat list \<Rightarrow> ('t, 'w) Proactor \<Rightarrow> ('t, 'w) Proactor may_panic" where
  "cancel_all C [] P = Some P"
| "cancel_all C (a # as) P =
     Option.bind (on_heap a (\<lambda>k. map_option snd (key_cancel C k)) P) (cancel_all C as)"

fun drain ::
  "nat \<Rightarrow> (u32 \<Rightarrow> hresult) \<Rightarrow> (u32 \<Rightarrow> u32) \<Rightarrow> 't OpCode \<Rightarrow> (nat \<Rightarrow> u32 \<Rightarrow> hresult + OVERLAPPED_ENTRY list) \<Rightarrow>
   nat \<Rightarrow> nat \<Rightarrow> nat \<Rightarrow> ('t, 'w) Proactor \<Rightarrow> (bool \<times> ('t, 'w) Proactor) may_panic" where
  "drain 0 hr rtl C Gqcs i outstanding drained P = Some (drained \<ge> outstanding, P)"
| "drain (Suc fuel) hr rtl C Gqcs i outstanding drained P =
     (if drained < outstanding then
        Option.bind (proactor_poll hr rtl C (Gqcs i) (Some 50) P) (\<lambda>(r, P1).
          case r of
            Inr n \<Rightarrow> drain fuel hr rtl C Gqcs (Suc i) outstanding (drained + n) P1
          | Inl _ \<Rightarrow> Some (False, P1))
      else Some (True, P))"

fun drop_all :: "nat list \<Rightarrow> ('t, 'w) Proactor \<Rightarrow> ('t, 'w) Proactor may_panic" where
  "drop_all [] P = Some P"
| "drop_all (a # as) P = Option.bind (on_heap a arc_drop P) (drop_all as)"

definition shutdown ::
  "nat \<Rightarrow> (u32 \<Rightarrow> hresult) \<Rightarrow> (u32 \<Rightarrow> u32) \<Rightarrow> 't OpCode \<Rightarrow> (nat \<Rightarrow> u32 \<Rightarrow> hresult + OVERLAPPED_ENTRY list) \<Rightarrow>
   nat list \<Rightarrow> ('t, 'w) Proactor \<Rightarrow> (bool \<times> ('t, 'w) Proactor) may_panic" where
  "shutdown fuel hr rtl C Gqcs order P =
     Option.bind (cancel_all C order (P\<lparr>pending := {}\<rparr>)) (\<lambda>P1.
     Option.bind (drain fuel hr rtl C Gqcs 0 (length order) 0 P1) (\<lambda>(done, P2).
       map_option (Pair done) (drop_all order P2)))"


section \<open>The invariant\<close>

text \<open>
  \<open>ext a\<close> counts the references to the allocation at \<open>a\<close> held outside the reactor (the futures, and
  during a shutdown the drained cancellation records).
\<close>

definition op_ok :: "bool \<Rightarrow> ('t, 'w) RawOp \<Rightarrow> bool" where
  "op_ok alive k \<longleftrightarrow> magic k = OP_MAGIC \<and>
     (if alive then (state k = Submitted \<or> state k = Abandoned) \<and> result k = None
      else state k = Completed \<longrightarrow> result k \<noteq> None)"

definition refs :: "(nat \<Rightarrow> nat) \<Rightarrow> ('t, 'w) Proactor \<Rightarrow> nat \<Rightarrow> nat" where
  "refs ext P a = ext a + (if a \<in> live_set P then 1 else 0) + (if a \<in> pending P then 1 else 0)"

definition cell_ok :: "(nat \<Rightarrow> nat) \<Rightarrow> ('t, 'w) Proactor \<Rightarrow> nat \<Rightarrow> bool" where
  "cell_ok ext P a \<longleftrightarrow>
     (0 < refs ext P a \<longrightarrow> (\<exists>k. heap P a = Some k \<and> strong k = refs ext P a \<and> op_ok (a \<in> live_set P) k))"

definition proactor_ok :: "(nat \<Rightarrow> nat) \<Rightarrow> ('t, 'w) Proactor \<Rightarrow> bool" where
  "proactor_ok ext P \<longleftrightarrow> 0 \<notin> live_set P \<and> pending P \<subseteq> live_set P \<and> (\<forall>a. cell_ok ext P a)"

lemma proactor_okD:
  assumes "proactor_ok ext P" "0 < refs ext P a"
  obtains k where "heap P a = Some k" "strong k = refs ext P a" "op_ok (a \<in> live_set P) k"
  using assms by (auto simp: proactor_ok_def cell_ok_def)

lemma cell_ok_frame:
  assumes "cell_ok ext P b" "heap P' b = heap P b" "refs ext' P' b = refs ext P b"
    and "b \<in> live_set P' \<longleftrightarrow> b \<in> live_set P"
  shows "cell_ok ext' P' b"
  using assms by (simp add: cell_ok_def)

lemma strong_same: "\<exists>n. k = k\<lparr>strong := n\<rparr>"
  by (rule exI [of _ "strong k"]) simp

text \<open>Forgetting a cancellation record.\<close>

lemma forget_pending:
  assumes ok: "proactor_ok ext P" and a: "a \<in> pending P"
  shows "\<exists>P1. on_heap a arc_drop (P\<lparr>pending := pending P - {a}\<rparr>) = Some P1 \<and> proactor_ok ext P1 \<and>
    live_set P1 = live_set P \<and> pending P1 = pending P - {a} \<and> unclaimed P1 = unclaimed P \<and> woken P1 = woken P \<and>
    (\<forall>b. b \<noteq> a \<longrightarrow> heap P1 b = heap P b) \<and>
    (\<exists>k k1. heap P a = Some k \<and> heap P1 a = Some k1 \<and> k1 = k\<lparr>strong := strong k - 1\<rparr>)"
proof -
  have l: "a \<in> live_set P" using ok a by (auto simp: proactor_ok_def)
  have r: "0 < refs ext P a" using a by (simp add: refs_def)
  from ok r obtain k where k: "heap P a = Some k" "strong k = refs ext P a" "op_ok (a \<in> live_set P) k"
    by (rule proactor_okD)
  have two: "2 \<le> strong k" using k(2) l a by (simp add: refs_def)
  then have d: "arc_drop k = Some (k\<lparr>strong := strong k - 1\<rparr>)" by (simp add: arc_drop_def)
  let ?P1 = "P\<lparr>pending := pending P - {a}, heap := (heap P)(a \<mapsto> k\<lparr>strong := strong k - 1\<rparr>)\<rparr>"
  have "cell_ok ext ?P1 b" for b
  proof (cases "b = a")
    case True
    then show ?thesis using k two l a by (simp add: cell_ok_def refs_def op_ok_def)
  next
    case False
    have "cell_ok ext P b" using ok by (simp add: proactor_ok_def)
    then show ?thesis by (rule cell_ok_frame) (use False in \<open>simp_all add: refs_def\<close>)
  qed
  then have "proactor_ok ext ?P1" using ok by (auto simp: proactor_ok_def)
  with k d show ?thesis by (intro exI [of _ ?P1]) (simp add: on_heap_def)
qed

definition op_entries :: "OVERLAPPED_ENTRY list \<Rightarrow> OVERLAPPED_ENTRY list" where
  "op_entries es = filter (\<lambda>e. lpCompletionKey e = KEY_OPERATION \<and> lpOverlapped e \<noteq> 0) es"

lemma poll_collect_ok:
  assumes "proactor_ok ext P"
  shows "\<exists>P1. poll_collect res es P =
      Some (map (\<lambda>e. (lpOverlapped e, res e, entry_transferred e)) (op_entries es), P1) \<and> proactor_ok ext P1 \<and>
    live_set P1 = live_set P \<and> pending P1 = pending P - set (map lpOverlapped (op_entries es)) \<and>
    unclaimed P1 = unclaimed P \<and> woken P1 = woken P \<and>
    (\<forall>a k. heap P a = Some k \<longrightarrow> (\<exists>n. heap P1 a = Some (k\<lparr>strong := n\<rparr>)))"
  using assms
proof (induction es arbitrary: P)
  case Nil
  then show ?case by (simp add: op_entries_def strong_same)
next
  case (Cons e es)
  show ?case
  proof (cases "lpCompletionKey e = KEY_OPERATION \<and> lpOverlapped e \<noteq> 0")
    case False
    then show ?thesis using Cons by (auto simp: op_entries_def)
  next
    case True
    let ?a = "lpOverlapped e"
    obtain P1 where P1: "(if ?a \<in> pending P then on_heap ?a arc_drop (P\<lparr>pending := pending P - {?a}\<rparr>) else Some P) = Some P1"
      "proactor_ok ext P1" "live_set P1 = live_set P" "pending P1 = pending P - {?a}" "unclaimed P1 = unclaimed P"
      "woken P1 = woken P" "\<forall>a k. heap P a = Some k \<longrightarrow> (\<exists>n. heap P1 a = Some (k\<lparr>strong := n\<rparr>))"
    proof (cases "?a \<in> pending P")
      case True
      from forget_pending [OF Cons.prems True] obtain P1 where
        p: "on_heap ?a arc_drop (P\<lparr>pending := pending P - {?a}\<rparr>) = Some P1" "proactor_ok ext P1"
          "live_set P1 = live_set P" "pending P1 = pending P - {?a}" "unclaimed P1 = unclaimed P" "woken P1 = woken P"
          "\<forall>b. b \<noteq> ?a \<longrightarrow> heap P1 b = heap P b"
          "\<exists>k k1. heap P ?a = Some k \<and> heap P1 ?a = Some k1 \<and> k1 = k\<lparr>strong := strong k - 1\<rparr>"
        by blast
      have "\<exists>n. heap P1 a = Some (k\<lparr>strong := n\<rparr>)" if "heap P a = Some k" for a k
      proof (cases "a = ?a")
        case True
        with p(8) that show ?thesis by auto
      next
        case False
        with p(7) that show ?thesis by (simp add: strong_same)
      qed
      with p True show ?thesis by (intro that [of P1]) simp_all
    next
      case False
      then show ?thesis
        using Cons.prems by (intro that [of P]) (simp_all add: strong_same)
    qed
    from Cons.IH [OF P1(2)] obtain P2 where P2: "poll_collect res es P1 =
        Some (map (\<lambda>e. (lpOverlapped e, res e, entry_transferred e)) (op_entries es), P2)" "proactor_ok ext P2"
      "live_set P2 = live_set P1" "pending P2 = pending P1 - set (map lpOverlapped (op_entries es))"
      "unclaimed P2 = unclaimed P1" "woken P2 = woken P1"
      "\<forall>a k. heap P1 a = Some k \<longrightarrow> (\<exists>n. heap P2 a = Some (k\<lparr>strong := n\<rparr>))"
      by blast
    have h: "\<exists>n. heap P2 a = Some (k\<lparr>strong := n\<rparr>)" if k: "heap P a = Some k" for a k
    proof -
      from P1(7) k obtain n where "heap P1 a = Some (k\<lparr>strong := n\<rparr>)" by blast
      with P2(7) obtain n' where "heap P2 a = Some (k\<lparr>strong := n\<rparr>\<lparr>strong := n'\<rparr>)" by blast
      then show ?thesis by (intro exI [of _ n']) simp
    qed
    have "poll_collect res (e # es) P =
        Some ((?a, res e, entry_transferred e) # map (\<lambda>e. (lpOverlapped e, res e, entry_transferred e)) (op_entries es), P2)"
      using True P1(1) P2(1) by simp
    then show ?thesis
      using True P1(3-6) P2(2-6) h by (intro exI [of _ P2]) (auto simp: op_entries_def)
  qed
qed


text \<open>Completing one live operation.\<close>

lemma complete_live:
  assumes "op_ok True k" "strong k \<noteq> 0"
  shows "\<exists>k' ws. complete_erased C r n k = Some (k', ws) \<and> strong k = Suc (strong k') \<and> magic k' = OP_MAGIC \<and>
    (strong k' \<noteq> 0 \<longrightarrow> op_ok False k' \<and> op k' = map_option (\<lambda>t. oc_on_complete_with C t r n) (op k) \<and>
       (state k = Submitted \<longrightarrow> state k' = Completed \<and> result k' = Some r \<and> ws = (case waker k of Some w \<Rightarrow> [w] | None \<Rightarrow> [])))"
proof -
  let ?k1 = "k\<lparr>op := map_option (\<lambda>t. oc_on_complete_with C t r n) (op k)\<rparr>"
  have k1: "on_complete_inline_with C k r n = Some ?k1"
    using assms(2) by (cases "op k") (simp_all add: on_complete_inline_with_def access_def)
  show ?thesis
  proof (cases "state k = Submitted")
    case True
    let ?k2 = "?k1\<lparr>result := Some r, state := Completed, waker := None\<rparr>"
    obtain k' where k': "arc_drop ?k2 = Some k'" "magic k' = magic ?k2" "state k' = state ?k2" "op k' = op ?k2"
      "strong ?k2 = Suc (strong k')" "result k' = result ?k2 \<or> strong k' = 0 \<and> result k' = None"
      using arc_drop_ok [of ?k2] assms(2) by auto
    with True k1 assms show ?thesis
      by (auto simp: complete_erased_def compare_exchange_def op_ok_def)
  next
    case False
    then have ab: "state k = Abandoned" using assms(1) by (simp add: op_ok_def)
    let ?k2 = "?k1\<lparr>result := None, state := Terminal\<rparr>"
    obtain k' where k': "arc_drop ?k2 = Some k'" "magic k' = magic ?k2" "state k' = state ?k2" "op k' = op ?k2"
      "strong ?k2 = Suc (strong k')"
      using arc_drop_ok [of ?k2] assms(2) by auto
    with ab k1 assms show ?thesis
      by (auto simp: complete_erased_def compare_exchange_def assume_init_read_def op_ok_def)
  qed
qed

lemma dispatch_one_ok:
  assumes ok: "proactor_ok ext P" and np: "a \<notin> pending P"
  shows "\<exists>P1. dispatch_one C (a, r, n) P = Some (a \<in> live_set P, P1) \<and> proactor_ok ext P1 \<and>
    live_set P1 = live_set P - {a} \<and> pending P1 = pending P \<and> unclaimed P1 = unclaimed P \<and>
    (\<forall>b. b \<noteq> a \<or> a \<notin> live_set P \<longrightarrow> heap P1 b = heap P b) \<and>
    (\<forall>k. heap P a = Some k \<and> a \<in> live_set P \<and> state k = Submitted \<and> 0 < ext a \<longrightarrow>
       (\<exists>k'. heap P1 a = Some k' \<and> state k' = Completed \<and> result k' = Some r \<and>
          op k' = map_option (\<lambda>t. oc_on_complete_with C t r n) (op k) \<and>
          woken P1 = woken P @ (case waker k of Some w \<Rightarrow> [w] | None \<Rightarrow> [])))"
proof (cases "a \<in> live_set P")
  case False
  then show ?thesis using ok by (auto simp: dispatch_one_def)
next
  case True
  then have nz: "a \<noteq> 0" using ok unfolding proactor_ok_def by metis
  have "0 < refs ext P a" using True by (simp add: refs_def)
  with ok obtain k where k: "heap P a = Some k" "strong k = refs ext P a" "op_ok (a \<in> live_set P) k"
    by (rule proactor_okD)
  have okk: "op_ok True k" "strong k \<noteq> 0" using k True \<open>0 < refs ext P a\<close> by simp_all
  from complete_live [OF okk, of C r n] obtain k' ws where
    c: "complete_erased C r n k = Some (k', ws)" "strong k = Suc (strong k')" "magic k' = OP_MAGIC"
      "strong k' \<noteq> 0 \<Longrightarrow> op_ok False k' \<and> op k' = map_option (\<lambda>t. oc_on_complete_with C t r n) (op k) \<and>
         (state k = Submitted \<longrightarrow> state k' = Completed \<and> result k' = Some r \<and>
            ws = (case waker k of Some w \<Rightarrow> [w] | None \<Rightarrow> []))"
    by blast
  let ?P1 = "P\<lparr>heap := (heap P)(a \<mapsto> k'), live_set := live_set P - {a}, woken := woken P @ ws\<rparr>"
  have run: "dispatch_one C (a, r, n) P = Some (True, ?P1)"
    using True nz k(1) okk c(1)
    by (simp add: dispatch_one_def dispatch_completion_with_def live_claim_def op_ok_def)
  have ext: "strong k' = ext a" using k(2) c(2) True np by (simp add: refs_def)
  have "cell_ok ext ?P1 b" for b
  proof (cases "b = a")
    case True
    then show ?thesis using ext c(4) np by (simp add: cell_ok_def refs_def)
  next
    case False
    have "cell_ok ext P b" using ok by (simp add: proactor_ok_def)
    then show ?thesis by (rule cell_ok_frame) (use False in \<open>simp_all add: refs_def\<close>)
  qed
  then have "proactor_ok ext ?P1" using ok np by (auto simp: proactor_ok_def)
  moreover have "\<exists>k''. heap ?P1 a = Some k'' \<and> state k'' = Completed \<and> result k'' = Some r \<and>
      op k'' = map_option (\<lambda>t. oc_on_complete_with C t r n) (op k) \<and>
      woken ?P1 = woken P @ (case waker k of Some w \<Rightarrow> [w] | None \<Rightarrow> [])"
    if "state k = Submitted" "0 < ext a"
    using that c(4) ext by simp
  ultimately show ?thesis using run True k(1) by (intro exI [of _ ?P1]) simp
qed

lemma unclaimed_ok [simp]: "proactor_ok ext (P\<lparr>unclaimed := u\<rparr>) = proactor_ok ext P"
  by (simp add: proactor_ok_def cell_ok_def refs_def)

lemma poll_deliver_ok:
  assumes "proactor_ok ext P" "set (map fst xs) \<inter> pending P = {}"
  shows "\<exists>n P1. poll_deliver C xs P = Some (n, P1) \<and> proactor_ok ext P1 \<and> pending P1 = pending P \<and>
    live_set P1 = live_set P - set (map fst xs) \<and> n = card (live_set P \<inter> set (map fst xs)) \<and>
    unclaimed P1 + n = unclaimed P + length xs \<and>
    (\<forall>b. b \<notin> set (map fst xs) \<or> b \<notin> live_set P \<longrightarrow> heap P1 b = heap P b)"
  using assms
proof (induction xs arbitrary: P)
  case Nil
  then show ?case by simp
next
  case (Cons x xs)
  obtain a r m where x: "x = (a, r, m)" by (cases x)
  have np: "a \<notin> pending P" using Cons.prems(2) x by simp
  from dispatch_one_ok [OF Cons.prems(1) np, of C r m] obtain P1 where
    P1: "dispatch_one C (a, r, m) P = Some (a \<in> live_set P, P1)" "proactor_ok ext P1"
      "live_set P1 = live_set P - {a}" "pending P1 = pending P" "unclaimed P1 = unclaimed P"
      "\<forall>b. b \<noteq> a \<or> a \<notin> live_set P \<longrightarrow> heap P1 b = heap P b"
    by blast
  let ?Q = "if a \<in> live_set P then P1 else P1\<lparr>unclaimed := unclaimed P1 + 1\<rparr>"
  have Q: "proactor_ok ext ?Q" "set (map fst xs) \<inter> pending ?Q = {}" "live_set ?Q = live_set P - {a}"
    "pending ?Q = pending P" "heap ?Q = heap P1"
    using P1 Cons.prems(2) by (auto split: if_splits)
  from Cons.IH [OF Q(1,2)] obtain n P2 where P2: "poll_deliver C xs ?Q = Some (n, P2)" "proactor_ok ext P2"
    "pending P2 = pending ?Q" "live_set P2 = live_set ?Q - set (map fst xs)"
    "n = card (live_set ?Q \<inter> set (map fst xs))" "unclaimed P2 + n = unclaimed ?Q + length xs"
    "\<forall>b. b \<notin> set (map fst xs) \<or> b \<notin> live_set ?Q \<longrightarrow> heap P2 b = heap ?Q b"
    by blast
  let ?n = "if a \<in> live_set P then Suc n else n"
  have "poll_deliver C (x # xs) P = Some (?n, P2)" using P1(1) P2(1) x by simp
  moreover have "?n = card (live_set P \<inter> set (map fst (x # xs)))"
  proof -
    have "live_set P \<inter> insert a (set (map fst xs)) =
        (if a \<in> live_set P then insert a else id) ((live_set P - {a}) \<inter> set (map fst xs))" by auto
    then show ?thesis using P2(5) Q(3) x by simp
  qed
  moreover have "live_set P2 = live_set P - set (map fst (x # xs))" using P2(4) Q(3) x by auto
  moreover have "unclaimed P2 + ?n = unclaimed P + length (x # xs)" using P2(6) P1(5) by (auto split: if_splits)
  moreover have "heap P2 b = heap P b" if "b \<notin> set (map fst (x # xs)) \<or> b \<notin> live_set P" for b
    using that P2(7) P1(6) Q(3,5) x by auto
  ultimately show ?case using P2(2,3) Q(4) by blast
qed

text \<open>One turn of the reactor.\<close>

lemma proactor_poll_ok:
  assumes "proactor_ok ext P" "port_poll hr Gqcs timeout = Inr es"
  defines "A \<equiv> set (map lpOverlapped (op_entries es))"
  shows "\<exists>n P1. proactor_poll hr rtl C Gqcs timeout P = Some (Inr n, P1) \<and> proactor_ok ext P1 \<and>
    pending P1 = pending P - A \<and> live_set P1 = live_set P - A \<and> n = card (live_set P \<inter> A) \<and>
    unclaimed P1 + n = unclaimed P + length (op_entries es)"
proof -
  let ?rs = "map (\<lambda>e. (lpOverlapped e, entry_result hr rtl e, entry_transferred e)) (op_entries es)"
  have A: "set (map fst ?rs) = A" by (simp add: A_def image_image)
  from poll_collect_ok [OF assms(1)] obtain P1 where
    P1: "poll_collect (entry_result hr rtl) es P = Some (?rs, P1)" "proactor_ok ext P1"
      "live_set P1 = live_set P" "pending P1 = pending P - A" "unclaimed P1 = unclaimed P"
    unfolding A_def by blast
  have "set (map fst ?rs) \<inter> pending P1 = {}" unfolding A P1(4) by blast
  from poll_deliver_ok [OF P1(2) this, of C, unfolded A] obtain n P2 where
    P2: "poll_deliver C ?rs P1 = Some (n, P2)" "proactor_ok ext P2" "pending P2 = pending P1"
      "live_set P2 = live_set P1 - A" "n = card (live_set P1 \<inter> A)"
      "unclaimed P2 + n = unclaimed P1 + length ?rs"
    by blast
  have run: "proactor_poll hr rtl C Gqcs timeout P = Some (Inr n, P2)"
    using assms(2) P1(1) P2(1) by (simp add: proactor_poll_def)
  show ?thesis
    by (rule exI [of _ n], rule exI [of _ P2]) (use run P1(3-5) P2(2-6) in simp)
qed


text \<open>Two states that differ only in what other operations did agree on the cell of this one.\<close>

lemma poll_deliver_completes:
  assumes "proactor_ok ext P" "set (map fst xs) \<inter> pending P = {}" "a \<in> live_set P" "0 < ext a"
    and "heap P a = Some k" "state k = Submitted"
    and "xs = ys @ (a, r, n) # zs" "a \<notin> set (map fst ys)"
  shows "\<exists>m P1 k'. poll_deliver C xs P = Some (m, P1) \<and> heap P1 a = Some k' \<and> a \<notin> live_set P1 \<and>
    state k' = Completed \<and> result k' = Some r \<and> op k' = map_option (\<lambda>t. oc_on_complete_with C t r n) (op k)"
  using assms
proof (induction ys arbitrary: P xs)
  case Nil
  have np: "a \<notin> pending P" using Nil.prems(2,7) by auto
  from dispatch_one_ok [OF Nil.prems(1) np, of C r n] obtain P1 where
    P1: "dispatch_one C (a, r, n) P = Some (a \<in> live_set P, P1)" "proactor_ok ext P1"
      "live_set P1 = live_set P - {a}" "pending P1 = pending P"
      "\<exists>k'. heap P1 a = Some k' \<and> state k' = Completed \<and> result k' = Some r \<and>
          op k' = map_option (\<lambda>t. oc_on_complete_with C t r n) (op k)"
    using Nil.prems(3-6) by blast
  have "set (map fst zs) \<inter> pending P1 = {}" using Nil.prems(2,7) P1(4) by auto
  from poll_deliver_ok [OF P1(2) this, of C] obtain m P2 where
    P2: "poll_deliver C zs P1 = Some (m, P2)" "live_set P2 = live_set P1 - set (map fst zs)"
      "\<forall>b. b \<notin> set (map fst zs) \<or> b \<notin> live_set P1 \<longrightarrow> heap P2 b = heap P1 b"
    by blast
  then have "heap P2 a = heap P1 a" using P1(3) by simp
  then show ?case using P1 P2 Nil.prems(3,7) by auto
next
  case (Cons y ys)
  obtain b r' n' where y: "y = (b, r', n')" by (cases y)
  have ne: "b \<noteq> a" and np: "b \<notin> pending P" using Cons.prems(2,7,8) y by auto
  from dispatch_one_ok [OF Cons.prems(1) np, of C r' n'] obtain P1 where
    P1: "dispatch_one C (b, r', n') P = Some (b \<in> live_set P, P1)" "proactor_ok ext P1"
      "live_set P1 = live_set P - {b}" "pending P1 = pending P"
      "\<forall>c. c \<noteq> b \<or> b \<notin> live_set P \<longrightarrow> heap P1 c = heap P c"
    by blast
  let ?Q = "if b \<in> live_set P then P1 else P1\<lparr>unclaimed := unclaimed P1 + 1\<rparr>"
  have Q: "proactor_ok ext ?Q" "set (map fst (ys @ (a, r, n) # zs)) \<inter> pending ?Q = {}" "a \<in> live_set ?Q"
    "heap ?Q a = Some k"
    using P1 Cons.prems ne by (auto split: if_splits)
  from Cons.IH [OF Q(1-3) Cons.prems(4) Q(4) Cons.prems(6) refl] Cons.prems(8)
  obtain m P2 k' where "poll_deliver C (ys @ (a, r, n) # zs) ?Q = Some (m, P2)" "heap P2 a = Some k'"
    "a \<notin> live_set P2" "state k' = Completed" "result k' = Some r"
    "op k' = map_option (\<lambda>t. oc_on_complete_with C t r n) (op k)"
    by auto
  with P1(1) y Cons.prems(7) show ?case by auto
qed

lemma proactor_submit_ok:
  assumes ok: "proactor_ok ext P" and fresh: "refs ext P a = 0" "a \<noteq> 0"
    and C: "oc_operate C t = (Pending, t')"
  shows "\<exists>P1. proactor_submit C a t P = Some (submit_pending, P1) \<and> proactor_ok (ext(a := 1)) P1 \<and>
    live_set P1 = insert a (live_set P) \<and> pending P1 = insert a (pending P) \<and>
    heap P1 = (heap P)(a \<mapsto> (key_new t)\<lparr>op := Some t', strong := 3\<rparr>)"
proof -
  have na: "a \<notin> live_set P" "a \<notin> pending P" "ext a = 0" using fresh(1) by (auto simp: refs_def split: if_splits)
  let ?k = "(key_new t)\<lparr>op := Some t', strong := 3\<rparr>"
  let ?P1 = "P\<lparr>heap := (heap P)(a \<mapsto> ?k), live_set := insert a (live_set P), pending := insert a (pending P)\<rparr>"
  have run: "proactor_submit C a t P = Some (submit_pending, ?P1)"
    using na C by (simp add: proactor_submit_def leak_def arc_clone_def access_def key_new_def live_insert_def
        key_operate_def Let_def track_def on_heap_def erased_cancel_def numeral_3_eq_3)
  have "cell_ok (ext(a := 1)) ?P1 b" for b
  proof (cases "b = a")
    case True
    then show ?thesis by (simp add: cell_ok_def refs_def op_ok_def key_new_def)
  next
    case False
    have "cell_ok ext P b" using ok by (simp add: proactor_ok_def)
    then show ?thesis by (rule cell_ok_frame) (use False in \<open>simp_all add: refs_def\<close>)
  qed
  then have "proactor_ok (ext(a := 1)) ?P1" using ok fresh(2) by (auto simp: proactor_ok_def)
  with run show ?thesis by (intro exI [of _ ?P1]) simp
qed

text \<open>A reactor with nothing outstanding, an operation that pends, and a wait that returns its packet.\<close>

definition idle_op :: "nat OpCode" where
  "idle_op = \<lparr>oc_operate = (\<lambda>t. (Pending, t)), oc_cancel = (\<lambda>t. (Inr (), t)), oc_on_complete_with = (\<lambda>t r n. t + n)\<rparr>"

definition packet_for :: "nat \<Rightarrow> OVERLAPPED_ENTRY" where
  "packet_for a = \<lparr>lpCompletionKey = KEY_OPERATION, lpOverlapped = a, Internal = 0, dwNumberOfBytesTransferred = 3\<rparr>"

lemma proactor_new_ok: "proactor_ok (\<lambda>_. 0) (proactor_new {})"
  by (simp add: proactor_ok_def proactor_new_def cell_ok_def refs_def)

lemma packet_entries: "a \<noteq> 0 \<Longrightarrow> op_entries [packet_for a] = [packet_for a]" "lpOverlapped (packet_for a) = a"
  by (simp_all add: op_entries_def packet_for_def)

definition one_pending :: "(nat, nat) Proactor" where
  "one_pending = snd (the (proactor_submit idle_op 5 0 (proactor_new {})))"

lemma one_pending_ok:
  "proactor_submit idle_op 5 0 (proactor_new {}) = Some (submit_pending, one_pending)"
  "proactor_ok ((\<lambda>_. 0)(5 := 1)) one_pending" "live_set one_pending = {5}" "pending one_pending = {5}"
proof -
  have "refs (\<lambda>_. 0) (proactor_new {}) 5 = 0" by (simp add: refs_def proactor_new_def)
  moreover have "oc_operate idle_op 0 = (Pending, 0)" by (simp add: idle_op_def)
  ultimately obtain P1 :: "(nat, nat) Proactor" where
    P1: "proactor_submit idle_op 5 0 (proactor_new {}) = Some (submit_pending, P1)"
      "proactor_ok ((\<lambda>_. 0)(5 := 1)) P1" "live_set P1 = insert 5 (live_set (proactor_new {} :: (nat, nat) Proactor))"
      "pending P1 = insert 5 (pending (proactor_new {} :: (nat, nat) Proactor))"
    using proactor_submit_ok [OF proactor_new_ok, of 5 idle_op 0 0] by auto
  moreover from P1(1) have "one_pending = P1" by (simp add: one_pending_def)
  ultimately show "proactor_submit idle_op 5 0 (proactor_new {}) = Some (submit_pending, one_pending)"
    "proactor_ok ((\<lambda>_. 0)(5 := 1)) one_pending" "live_set one_pending = {5}" "pending one_pending = {5}"
    by (simp_all add: proactor_new_def)
qed

section \<open>Properties\<close>

lemma inline_submit_completes:
  assumes "oc_operate C t = (Ready r, t')"
  shows "\<exists>P1 k s k'. proactor_submit C a t P = Some (submit_ready r, P1) \<and> heap P1 a = Some k \<and>
    submit_poll w (submit_ready r) k =
      Some (Ready (r, case r of Inl _ \<Rightarrow> t' | Inr n \<Rightarrow> oc_on_complete_with C t' r n), s, k')"
  using assms
  by (cases r)
     (simp_all add: proactor_submit_def leak_def arc_clone_def access_def key_new_def key_operate_def unleak_def
       live_claim_def live_insert_def arc_drop_def on_complete_inline_def on_complete_inline_with_def
       submit_poll_def submit_ready_def take_op_inline_def op_take_def raw_op_drop_def)

text \<open>An operation that is awaited: its future holds a reference, its packet is still to come.\<close>

definition awaited :: "(nat \<Rightarrow> nat) \<Rightarrow> nat \<Rightarrow> 't \<Rightarrow> ('t, 'w) Proactor \<Rightarrow> bool" where
  "awaited ext a t P \<longleftrightarrow>
     proactor_ok ext P \<and> 0 < ext a \<and> a \<in> live_set P \<and> (\<exists>k. heap P a = Some k \<and> state k = Submitted \<and> op k = Some t)"

text \<open>A turn whose packets do not name it leaves it so.\<close>

lemma awaited_other:
  assumes "awaited ext a t P" "port_poll hr Gqcs timeout = Inr es" "a \<notin> set (map lpOverlapped (op_entries es))"
  shows "\<exists>n P1. proactor_poll hr rtl C Gqcs timeout P = Some (Inr n, P1) \<and> awaited ext a t P1"
proof -
  let ?rs = "map (\<lambda>e. (lpOverlapped e, entry_result hr rtl e, entry_transferred e)) (op_entries es)"
  from assms(1) obtain k where P: "proactor_ok ext P" "0 < ext a" "a \<in> live_set P" "heap P a = Some k" "state k = Submitted" "op k = Some t"
    by (auto simp: awaited_def)
  from poll_collect_ok [OF P(1), of "entry_result hr rtl" es] obtain P1 where
    P1: "poll_collect (entry_result hr rtl) es P = Some (?rs, P1)" "proactor_ok ext P1" "live_set P1 = live_set P"
      "pending P1 = pending P - set (map lpOverlapped (op_entries es))" "\<forall>a k. heap P a = Some k \<longrightarrow> (\<exists>n. heap P1 a = Some (k\<lparr>strong := n\<rparr>))"
    by blast
  from P1(5) P(4) obtain n where h: "heap P1 a = Some (k\<lparr>strong := n\<rparr>)" by blast
  have rs: "set (map fst ?rs) = set (map lpOverlapped (op_entries es))" by (simp add: image_image)
  have "set (map fst ?rs) \<inter> pending P1 = {}" unfolding rs P1(4) by blast
  from poll_deliver_ok [OF P1(2) this, of C, unfolded rs] obtain m P2 where
    P2: "poll_deliver C ?rs P1 = Some (m, P2)" "proactor_ok ext P2" "live_set P2 = live_set P1 - set (map lpOverlapped (op_entries es))"
      "\<forall>b. b \<notin> set (map lpOverlapped (op_entries es)) \<or> b \<notin> live_set P1 \<longrightarrow> heap P2 b = heap P1 b" by blast
  have "awaited ext a t P2" using P P1(3) P2(2-4) h assms(3) by (simp add: awaited_def)
  moreover have "proactor_poll hr rtl C Gqcs timeout P = Some (Inr m, P2)" using assms(2) P1(1) P2(1) by (simp add: proactor_poll_def)
  ultimately show ?thesis by blast
qed

text \<open>The first packet that names it completes it, and the next poll of its future takes the result.\<close>

lemma awaited_packet:
  assumes "awaited ext a t P" "port_poll hr Gqcs timeout = Inr (xs @ e # ys)"
    and "lpOverlapped e = a" "lpCompletionKey e = KEY_OPERATION" "a \<notin> set (map lpOverlapped (op_entries xs))"
  shows "\<exists>n P1 k s k'. proactor_poll hr rtl C Gqcs timeout P = Some (Inr n, P1) \<and> heap P1 a = Some k \<and>
    submit_poll w submit_pending k =
      Some (Ready (entry_result hr rtl e, oc_on_complete_with C t (entry_result hr rtl e) (entry_transferred e)), s, k')"
proof -
  let ?f = "\<lambda>e. (lpOverlapped e, entry_result hr rtl e, entry_transferred e)" let ?es = "xs @ e # ys"
  from assms(1) obtain k0 where P: "proactor_ok ext P" "0 < ext a" "a \<in> live_set P" "heap P a = Some k0" "state k0 = Submitted" "op k0 = Some t"
    by (auto simp: awaited_def)
  have a0: "a \<noteq> 0" using P(1,3) unfolding proactor_ok_def by metis
  from poll_collect_ok [OF P(1)] obtain P2 where
    P2: "poll_collect (entry_result hr rtl) ?es P = Some (map ?f (op_entries ?es), P2)" "proactor_ok ext P2"
      "live_set P2 = live_set P" "pending P2 = pending P - set (map lpOverlapped (op_entries ?es))"
      "\<forall>a k. heap P a = Some k \<longrightarrow> (\<exists>n. heap P2 a = Some (k\<lparr>strong := n\<rparr>))"
    by blast
  from P2(5) P(4) obtain n where h: "heap P2 a = Some (k0\<lparr>strong := n\<rparr>)" by blast
  have split: "map ?f (op_entries ?es) = map ?f (op_entries xs) @ ?f e # map ?f (op_entries ys)"
    using assms(3,4) a0 by (simp add: op_entries_def)
  have np: "set (map fst (map ?f (op_entries ?es))) \<inter> pending P2 = {}" using P2(4) by (auto simp: image_image)
  have al: "a \<in> live_set P2" "state (k0\<lparr>strong := n\<rparr>) = Submitted" using P P2(3) by simp_all
  have fst: "a \<notin> set (map fst (map ?f (op_entries xs)))" using assms(5) by (simp add: image_image)
  from poll_deliver_completes [OF P2(2) np al(1) P(2) h al(2) split [unfolded assms(3)] fst, of C] P(6)
  obtain m P3 k where P3: "poll_deliver C (map ?f (op_entries ?es)) P2 = Some (m, P3)" "heap P3 a = Some k"
    "state k = Completed" "result k = Some (entry_result hr rtl e)"
    "op k = Some (oc_on_complete_with C t (entry_result hr rtl e) (entry_transferred e))" by auto
  from poll_deliver_ok [OF P2(2) np, of C] P3(1) have "proactor_ok ext P3" by auto
  then have "0 < strong k" using P3(2) P(2) by (auto simp: proactor_ok_def cell_ok_def refs_def dest!: spec [of _ a])
  then have "\<exists>s k'. submit_poll w submit_pending k =
      Some (Ready (entry_result hr rtl e, oc_on_complete_with C t (entry_result hr rtl e) (entry_transferred e)), s, k')"
    using P3(3-5) arc_drop_ok [of "k\<lparr>waker := Some w, state := Terminal, result := None, op := None\<rparr>"]
    by (auto simp: submit_poll_def submit_pending_def set_waker_alive take_completion_def
        compare_exchange_def take_result_def assume_init_read_def op_take_def)
  moreover have "proactor_poll hr rtl C Gqcs timeout P = Some (Inr m, P3)"
    using assms(2) P2(1) P3(1) by (simp add: proactor_poll_def)
  ultimately show ?thesis using P3(2) by blast
qed

lemma submit_awaited:
  assumes "proactor_ok ext P" "refs ext P a = 0" "a \<noteq> 0" "oc_operate C t = (Pending, t')"
  shows "\<exists>P1. proactor_submit C a t P = Some (submit_pending, P1) \<and> awaited (ext(a := 1)) a t' P1"
  using proactor_submit_ok [OF assms] by (auto simp: awaited_def key_new_def)

lemma pending_submit_completes:
  assumes "proactor_ok ext P" "refs ext P a = 0" "a \<noteq> 0" "oc_operate C t = (Pending, t')"
    and "port_poll hr Gqcs timeout = Inr (xs @ e # ys)"
    and "lpOverlapped e = a" "lpCompletionKey e = KEY_OPERATION" "a \<notin> set (map lpOverlapped (op_entries xs))"
  shows "\<exists>P1 n P2 k s k'. proactor_submit C a t P = Some (submit_pending, P1) \<and>
    proactor_poll hr rtl C Gqcs timeout P1 = Some (Inr n, P2) \<and> heap P2 a = Some k \<and>
    submit_poll w submit_pending k =
      Some (Ready (entry_result hr rtl e, oc_on_complete_with C t' (entry_result hr rtl e) (entry_transferred e)), s, k')"
  using submit_awaited [OF assms(1-4)] awaited_packet [OF _ assms(5-8), of _ t' _ rtl C w] by blast

text \<open>
  One operation through the whole reactor: an operation submitted at a fresh address and
  left pending by its platform call is completed by the first packet that names it, in whatever batch
  that packet arrives; the next poll of its future then returns exactly the packet's result together
  with the operation as its completion left it.
\<close>

theorem submitted_operation_completes:
  assumes "proactor_ok ext P" "refs ext P a = 0" "a \<noteq> 0" "oc_operate C t = (Pending, t')"
    and "port_poll hr Gqcs timeout = Inr (xs @ e # ys)"
    and "lpOverlapped e = a" "lpCompletionKey e = KEY_OPERATION" "a \<notin> set (map lpOverlapped (op_entries xs))"
  shows "\<exists>P1 n P2 k s k'. proactor_submit C a t P = Some (submit_pending, P1) \<and>
    proactor_poll hr rtl C Gqcs timeout P1 = Some (Inr n, P2) \<and> heap P2 a = Some k \<and>
    submit_poll w submit_pending k =
      Some (Ready (entry_result hr rtl e, oc_on_complete_with C t' (entry_result hr rtl e) (entry_transferred e)), s, k')"
  using assms by (rule pending_submit_completes)

theorem submitted_operation_completes_witness:
  "\<exists>P1 n P2 k s k'. proactor_submit idle_op 5 0 (proactor_new {}) = Some (submit_pending, P1) \<and>
    proactor_poll hr_win32 id idle_op (\<lambda>_. Inr [packet_for 5]) None P1 = Some (Inr n, P2) \<and> heap P2 5 = Some k \<and>
    submit_poll (9::nat) submit_pending k = Some (Ready (Inr 3, 3), s, k')"
proof -
  have "port_poll hr_win32 (\<lambda>_. Inr [packet_for 5]) None = Inr ([] @ packet_for 5 # [])"
    by (simp add: port_poll_def)
  moreover have "entry_result hr_win32 id (packet_for 5) = Inr 3" "entry_transferred (packet_for 5) = 3"
    by (simp_all add: entry_result_def entry_transferred_def packet_for_def)
  ultimately show ?thesis
    using submitted_operation_completes [OF proactor_new_ok, of 5 idle_op 0 0 hr_win32 "\<lambda>_. Inr [packet_for 5]" None
        "[]" "packet_for 5" "[]" id 9]
    by (simp add: refs_def proactor_new_def idle_op_def op_entries_def packet_for_def)
qed

text \<open>
  One turn of the reactor over an arbitrary batch never faults and keeps the reference
  counts exact: it claims every live operation the batch names exactly once, however often it is named,
  counts those as delivered and every other packet as unclaimed, and forgets their cancellation records.
\<close>

theorem poll_claims_each_once:
  assumes "proactor_ok ext P" "port_poll hr Gqcs timeout = Inr es"
  shows "\<exists>n P1. proactor_poll hr rtl C Gqcs timeout P = Some (Inr n, P1) \<and> proactor_ok ext P1 \<and>
    live_set P1 = live_set P - set (map lpOverlapped (op_entries es)) \<and>
    pending P1 = pending P - set (map lpOverlapped (op_entries es)) \<and>
    n = card (live_set P \<inter> set (map lpOverlapped (op_entries es))) \<and>
    unclaimed P1 + n = unclaimed P + length (op_entries es)"
  using proactor_poll_ok [OF assms, of rtl C] by blast


theorem poll_claims_each_once_witness:
  "\<exists>n P1. proactor_poll hr_win32 id idle_op (\<lambda>_. Inr [packet_for 5]) None one_pending = Some (Inr n, P1) \<and>
     n = 1 \<and> live_set P1 = {}"
proof -
  have "port_poll hr_win32 (\<lambda>_. Inr [packet_for 5]) None = Inr [packet_for 5]" by (simp add: port_poll_def)
  from poll_claims_each_once [OF one_pending_ok(2) this, of id idle_op] show ?thesis
    by (auto simp: one_pending_ok packet_entries)
qed

text \<open>The drain of a shutdown.\<close>

lemma cancel_all_ok:
  assumes "proactor_ok ext P" "\<forall>a \<in> set as. 0 < refs ext P a"
  shows "\<exists>P1. cancel_all C as P = Some P1 \<and> proactor_ok ext P1 \<and> live_set P1 = live_set P \<and> pending P1 = pending P"
  using assms
proof (induction as arbitrary: P)
  case Nil
  then show ?case by simp
next
  case (Cons a as)
  have "0 < refs ext P a" using Cons.prems(2) by simp
  with Cons.prems(1) obtain k where k: "heap P a = Some k" "strong k = refs ext P a" "op_ok (a \<in> live_set P) k"
    by (rule proactor_okD)
  have "strong k \<noteq> 0" using k(2) \<open>0 < refs ext P a\<close> by simp
  then obtain k' where k': "map_option snd (key_cancel C k) = Some k'" "strong k' = strong k" "magic k' = magic k"
    "state k' = state k" "result k' = result k"
    by (cases "op k"; cases "oc_cancel C (the (op k))") (auto simp: key_cancel_def access_def)
  let ?P1 = "P\<lparr>heap := (heap P)(a \<mapsto> k')\<rparr>"
  have "cell_ok ext ?P1 b" for b
  proof (cases "b = a")
    case True
    then show ?thesis using k k' by (simp add: cell_ok_def refs_def op_ok_def)
  next
    case False
    have "cell_ok ext P b" using Cons.prems(1) by (simp add: proactor_ok_def)
    then show ?thesis by (rule cell_ok_frame) (use False in \<open>simp_all add: refs_def\<close>)
  qed
  then have ok1: "proactor_ok ext ?P1" using Cons.prems(1) by (simp add: proactor_ok_def)
  have "\<forall>a \<in> set as. 0 < refs ext ?P1 a" using Cons.prems(2) by (simp add: refs_def)
  from Cons.IH [OF ok1 this] k(1) k'(1) show ?case by (auto simp: on_heap_def)
qed

text \<open>
  \<open>delivers Gqcs m A\<close>: the first \<open>m\<close> waits of a drain succeed and between them name every address of \<open>A\<close>;
  no wait names an operation outside \<open>A\<close> that is still live.
\<close>

definition wait_names :: "(u32 \<Rightarrow> hresult) \<Rightarrow> (u32 \<Rightarrow> hresult + OVERLAPPED_ENTRY list) \<Rightarrow> nat set" where
  "wait_names hr G =
     (case port_poll hr G (Some 50) of Inr es \<Rightarrow> set (map lpOverlapped (op_entries es)) | Inl _ \<Rightarrow> {})"

lemma drain_ok:
  assumes "proactor_ok ext P" "finite A" "drained + card (live_set P \<inter> A) = card A"
    and "\<And>j. wait_names hr (Gqcs j) \<inter> live_set P \<subseteq> A"
    and "\<And>j. j < i + fuel \<Longrightarrow> i \<le> j \<Longrightarrow> \<not> isl (port_poll hr (Gqcs j) (Some 50))"
    and "live_set P \<inter> A \<subseteq> (\<Union>j \<in> {i..<i + fuel}. wait_names hr (Gqcs j))"
  shows "\<exists>P1. drain fuel hr rtl C Gqcs i (card A) drained P = Some (True, P1) \<and> proactor_ok ext P1 \<and>
    live_set P1 \<inter> A = {} \<and> pending P1 \<subseteq> pending P"
  using assms
proof (induction fuel arbitrary: i drained P)
  case 0
  then show ?case by simp
next
  case (Suc fuel)
  show ?case
  proof (cases "drained < card A")
    case False
    then have "card (live_set P \<inter> A) = 0" using Suc.prems(3) by simp
    then have "live_set P \<inter> A = {}" using Suc.prems(2) by simp
    with False Suc.prems(1) show ?thesis by simp
  next
    case True
    obtain es where es: "port_poll hr (Gqcs i) (Some 50) = Inr es"
      using Suc.prems(5) [of i] by (cases "port_poll hr (Gqcs i) (Some 50)") auto
    let ?B = "set (map lpOverlapped (op_entries es))"
    have B: "wait_names hr (Gqcs i) = ?B" by (simp add: wait_names_def es)
    from proactor_poll_ok [OF Suc.prems(1) es, of rtl C] obtain n P1 where
      P1: "proactor_poll hr rtl C (Gqcs i) (Some 50) P = Some (Inr n, P1)" "proactor_ok ext P1"
        "pending P1 = pending P - ?B" "live_set P1 = live_set P - ?B" "n = card (live_set P \<inter> ?B)"
      by blast
    have sub: "live_set P \<inter> ?B = live_set P \<inter> A \<inter> ?B" using Suc.prems(4) [of i] B by auto
    have "card (live_set P \<inter> A) = card (live_set P \<inter> A \<inter> ?B) + card (live_set P \<inter> A - ?B)"
      using Suc.prems(2) by (metis card_Int_Diff finite_Int)
    moreover have "live_set P1 \<inter> A = live_set P \<inter> A - ?B" using P1(4) by auto
    ultimately have c: "drained + n + card (live_set P1 \<inter> A) = card A"
      using Suc.prems(3) P1(5) sub by simp
    have w: "wait_names hr (Gqcs j) \<inter> live_set P1 \<subseteq> A" for j using Suc.prems(4) [of j] P1(4) by auto
    have l: "\<not> isl (port_poll hr (Gqcs j) (Some 50))" if "j < Suc i + fuel" "Suc i \<le> j" for j
      using that Suc.prems(5) [of j] by simp
    have "{i..<i + Suc fuel} = insert i {Suc i..<Suc i + fuel}" by auto
    then have "live_set P1 \<inter> A \<subseteq> (\<Union>j \<in> {Suc i..<Suc i + fuel}. wait_names hr (Gqcs j))"
      using Suc.prems(6) P1(4) B by auto
    from Suc.IH [OF P1(2) Suc.prems(2) c w l this] obtain P2 where
      "drain fuel hr rtl C Gqcs (Suc i) (card A) (drained + n) P1 = Some (True, P2)" "proactor_ok ext P2"
      "live_set P2 \<inter> A = {}" "pending P2 \<subseteq> pending P1"
      by auto
    with True P1 show ?thesis by (intro exI [of _ P2]) auto
  qed
qed

lemma drop_all_ok:
  assumes "proactor_ok (\<lambda>a. ext a + (if a \<in> set as then 1 else 0)) P" "distinct as" "set as \<inter> live_set P = {}"
    "set as \<inter> pending P = {}"
  shows "\<exists>P1. drop_all as P = Some P1 \<and> proactor_ok ext P1 \<and> live_set P1 = live_set P"
  using assms
proof (induction as arbitrary: P)
  case Nil
  then show ?case by simp
next
  case (Cons a as)
  let ?e = "\<lambda>b. ext b + (if b \<in> set (a # as) then 1 else 0)"
  let ?e' = "\<lambda>b. ext b + (if b \<in> set as then 1 else 0)"
  have r: "0 < refs ?e P a" by (simp add: refs_def)
  with Cons.prems(1) obtain k where k: "heap P a = Some k" "strong k = refs ?e P a" "op_ok (a \<in> live_set P) k"
    by (rule proactor_okD)
  have al: "a \<notin> live_set P" "a \<notin> pending P" "a \<notin> set as" using Cons.prems by auto
  obtain k' where k': "arc_drop k = Some k'" "magic k' = magic k" "state k' = state k" "strong k = Suc (strong k')"
    "result k' = result k \<or> strong k' = 0 \<and> result k' = None"
    using arc_drop_ok [of k] k al r by (auto simp: op_ok_def)
  let ?P1 = "P\<lparr>heap := (heap P)(a \<mapsto> k')\<rparr>"
  have "cell_ok ?e' ?P1 b" for b
  proof (cases "b = a")
    case True
    then show ?thesis using k k' al by (auto simp: cell_ok_def refs_def op_ok_def)
  next
    case False
    have "cell_ok ?e P b" using Cons.prems(1) by (simp add: proactor_ok_def)
    then show ?thesis by (rule cell_ok_frame) (use False in \<open>simp_all add: refs_def\<close>)
  qed
  then have "proactor_ok ?e' ?P1" using Cons.prems(1) by (simp add: proactor_ok_def)
  from Cons.IH [OF this] Cons.prems obtain P2 where "drop_all as ?P1 = Some P2" "proactor_ok ext P2"
    "live_set P2 = live_set ?P1" by auto
  with k(1) k'(1) show ?case by (simp add: on_heap_def)
qed

text \<open>
  Property C17. Dropping the reactor waits for the kernel: a shutdown cancels every outstanding operation
  and returns only after each of them has completed, so the kernel no longer holds a buffer of any of
  them; it does return as soon as the waits of the drain have named them all, and it leaves every
  reference count exact.
\<close>

theorem shutdown_drains_outstanding:
  assumes "proactor_ok ext P" "set order = pending P" "distinct order"
    and "\<And>j. wait_names hr (Gqcs j) \<inter> live_set P \<subseteq> pending P"
    and "\<And>j. j < fuel \<Longrightarrow> \<not> isl (port_poll hr (Gqcs j) (Some 50))"
    and "pending P \<subseteq> (\<Union>j \<in> {0..<fuel}. wait_names hr (Gqcs j))"
  shows "\<exists>P1. shutdown fuel hr rtl C Gqcs order P = Some (True, P1) \<and> live_set P1 \<inter> pending P = {} \<and> proactor_ok ext P1"
proof -
  let ?e = "\<lambda>a. ext a + (if a \<in> set order then 1 else 0)"
  let ?P0 = "P\<lparr>pending := {}\<rparr>"
  have sub: "pending P \<subseteq> live_set P" using assms(1) by (simp add: proactor_ok_def)
  have "cell_ok ?e ?P0 b" for b
  proof -
    have "cell_ok ext P b" using assms(1) by (simp add: proactor_ok_def)
    then show ?thesis by (rule cell_ok_frame) (simp_all add: refs_def assms(2))
  qed
  then have ok0: "proactor_ok ?e ?P0" using assms(1) by (simp add: proactor_ok_def)
  have "\<forall>a \<in> set order. 0 < refs ?e ?P0 a" by (simp add: refs_def)
  from cancel_all_ok [OF ok0 this, of C] obtain P1 where
    P1: "cancel_all C order ?P0 = Some P1" "proactor_ok ?e P1" "live_set P1 = live_set P" "pending P1 = {}"
    by auto
  have "live_set P1 \<inter> set order = set order" using P1(3) sub assms(2) by auto
  then have cA: "0 + card (live_set P1 \<inter> set order) = card (set order)" by simp
  have len: "card (set order) = length order" using assms(3) by (rule distinct_card)
  have "\<exists>P2. drain fuel hr rtl C Gqcs 0 (card (set order)) 0 P1 = Some (True, P2) \<and> proactor_ok ?e P2 \<and>
      live_set P2 \<inter> set order = {} \<and> pending P2 \<subseteq> pending P1"
    by (rule drain_ok [OF P1(2) finite_set cA]) (use assms(2,4-6) P1(3) in auto)
  then obtain P2 where P2: "drain fuel hr rtl C Gqcs 0 (length order) 0 P1 = Some (True, P2)" "proactor_ok ?e P2"
    "live_set P2 \<inter> set order = {}" "pending P2 = {}" using len P1(4) by auto
  from drop_all_ok [OF P2(2) assms(3)] P2(3,4) obtain P3 where
    P3: "drop_all order P2 = Some P3" "proactor_ok ext P3" "live_set P3 = live_set P2" by auto
  have "shutdown fuel hr rtl C Gqcs order P = Some (True, P3)"
    using P1(1) P2(1) P3(1) by (simp add: shutdown_def)
  with P2(3) P3 assms(2) show ?thesis by auto
qed

theorem shutdown_drains_outstanding_witness:
  "\<exists>P1. shutdown 1 hr_win32 id idle_op (\<lambda>_ _. Inr [packet_for 5]) [5] one_pending = Some (True, P1) \<and>
     5 \<notin> live_set P1"
proof -
  have p: "port_poll hr_win32 (\<lambda>_. Inr [packet_for 5]) (Some 50) = Inr [packet_for 5]" by (simp add: port_poll_def)
  have w: "wait_names hr_win32 (\<lambda>_. Inr [packet_for 5]) = {5}" by (simp add: wait_names_def p packet_entries)
  from shutdown_drains_outstanding [where order = "[5]" and fuel = 1 and Gqcs = "\<lambda>_ _. Inr [packet_for 5]"
      and hr = hr_win32 and rtl = id and C = idle_op, OF one_pending_ok(2)]
  show ?thesis by (auto simp: one_pending_ok w p)
qed

end
