(* ===== verification/Wait_Event.thy ===== *)
theory Wait_Event
  imports Proactor
begin

text \<open>
  Waiting for a kernel handle, \<^verbatim>\<open>iocp/ops/event.rs\<close>, and the thread-pool backend, \<^verbatim>\<open>iocp/threadpool.rs\<close>.

  A wait registers a callback that runs once on another thread. Whichever of the callback and a
  cancellation comes first posts the completion packet, and the reference leaked to the callback must be
  released by exactly one of them. The registration's own state, which \<^verbatim>\<open>UnregisterWaitEx\<close> reports on, is
  part of the model.
\<close>

section \<open>The operation\<close>

record WaitContext =
  wc_port :: nat
  wc_overlapped :: nat
  wc_posted :: bool
  wc_strong :: nat

record WaitForHandle =
  wf_target :: nat
  wf_port :: nat
  wf_wait :: nat
  wf_ctx :: bool

definition wait_new :: "nat \<Rightarrow> nat \<Rightarrow> WaitForHandle" where
  "wait_new port target = \<lparr>wf_target = target, wf_port = port, wf_wait = 0, wf_ctx = False\<rparr>"

text \<open>\<^verbatim>\<open>post_once\<close>: whether this call posted, with the posted packets (port and operation) appended.\<close>

definition post_once :: "WaitContext \<Rightarrow> (nat \<times> nat) list \<Rightarrow> (bool \<times> WaitContext \<times> (nat \<times> nat) list) may_panic" where
  "post_once c packets =
     (if wc_strong c = 0 then None
      else if wc_posted c then Some (False, c, packets)
      else Some (True, c\<lparr>wc_posted := True\<rparr>, packets @ [(wc_port c, wc_overlapped c)]))"

definition ctx_drop :: "WaitContext \<Rightarrow> WaitContext may_panic" where
  "ctx_drop c = (if wc_strong c = 0 then None else Some (c\<lparr>wc_strong := wc_strong c - 1\<rparr>))"

text \<open>\<^verbatim>\<open>operate\<close>; \<open>Register\<close> is \<^verbatim>\<open>RegisterWaitForSingleObject\<close>, returning the wait handle.\<close>

definition wait_operate ::
  "(nat \<Rightarrow> hresult + nat) \<Rightarrow> nat \<Rightarrow> WaitForHandle \<Rightarrow> io_result poll \<times> WaitForHandle \<times> WaitContext" where
  "wait_operate Register optr wh =
     (let c = \<lparr>wc_port = wf_port wh, wc_overlapped = optr, wc_posted = False, wc_strong = 2\<rparr> in
      case Register (wf_target wh) of
        Inr h \<Rightarrow> (Pending, wh\<lparr>wf_wait := h, wf_ctx := True\<rparr>, c)
      | Inl e \<Rightarrow> (Ready (Inl e), wh\<lparr>wf_ctx := False\<rparr>, c\<lparr>wc_strong := 0\<rparr>))"

text \<open>\<^verbatim>\<open>unregister\<close>: \<open>Unregister\<close> is whether \<^verbatim>\<open>UnregisterWaitEx\<close> succeeds.\<close>

definition unregister :: "bool \<Rightarrow> WaitForHandle \<Rightarrow> bool \<times> WaitForHandle" where
  "unregister Unregister wh =
     (if wf_wait wh = 0 then (False, wh) else (Unregister, wh\<lparr>wf_wait := 0\<rparr>))"

definition wait_on_complete :: "bool \<Rightarrow> WaitForHandle \<Rightarrow> WaitForHandle" where
  "wait_on_complete Unregister wh = snd (unregister Unregister wh)"

definition wait_callback :: "WaitContext \<Rightarrow> (nat \<times> nat) list \<Rightarrow> (WaitContext \<times> (nat \<times> nat) list) may_panic" where
  "wait_callback c packets =
     Option.bind (post_once c packets) (\<lambda>(_, c1, packets1). map_option (\<lambda>c2. (c2, packets1)) (ctx_drop c1))"

definition wait_cancel ::
  "bool \<Rightarrow> WaitForHandle \<Rightarrow> WaitContext \<Rightarrow> (nat \<times> nat) list \<Rightarrow>
   (WaitForHandle \<times> WaitContext \<times> (nat \<times> nat) list) may_panic" where
  "wait_cancel Unregister wh c packets =
     (case unregister Unregister wh of
        (callback_will_not_run, wh1) \<Rightarrow>
          if \<not> wf_ctx wh1 then Some (wh1, c, packets)
          else if callback_will_not_run then
            Option.bind (post_once c packets) (\<lambda>(posted, c1, packets1).
              if posted then map_option (\<lambda>c2. (wh1, c2, packets1)) (ctx_drop c1)
              else Some (wh1, c1, packets1))
          else Some (wh1, c, packets))"

section \<open>The callback and the cancellation, interleaved\<close>

text \<open>
  The registration: armed; its callback running, before and after it posts; finished; or removed before
  it ever ran. \<^verbatim>\<open>UnregisterWaitEx\<close> fails exactly while the callback runs. The cancellation: not begun,
  between removing the wait and posting, between posting and releasing the leaked reference.
\<close>

datatype registration = Armed | CallbackPosting | CallbackDropping | CallbackDone | Removed

datatype canceller = NoCancel | CancelPosting | CancelDropping

record wait_sys =
  wop :: WaitForHandle
  wctx :: WaitContext
  packets :: "(nat \<times> nat) list"
  reg :: registration
  canc :: canceller
  bad :: bool

definition unregister_ok :: "registration \<Rightarrow> bool" where
  "unregister_ok r \<longleftrightarrow> r = Armed \<or> r = CallbackDone"

inductive wait_step :: "wait_sys \<Rightarrow> wait_sys \<Rightarrow> bool" where
  signalled: "reg s = Armed \<Longrightarrow> wait_step s (s\<lparr>reg := CallbackPosting\<rparr>)"
| callback_post: "reg s = CallbackPosting \<Longrightarrow> post_once (wctx s) (packets s) = Some (b, c, ps) \<Longrightarrow>
    wait_step s (s\<lparr>reg := CallbackDropping, wctx := c, packets := ps\<rparr>)"
| callback_post_bad: "reg s = CallbackPosting \<Longrightarrow> post_once (wctx s) (packets s) = None \<Longrightarrow> wait_step s (s\<lparr>bad := True\<rparr>)"
| callback_drop: "reg s = CallbackDropping \<Longrightarrow> ctx_drop (wctx s) = Some c \<Longrightarrow>
    wait_step s (s\<lparr>reg := CallbackDone, wctx := c\<rparr>)"
| callback_drop_bad: "reg s = CallbackDropping \<Longrightarrow> ctx_drop (wctx s) = None \<Longrightarrow> wait_step s (s\<lparr>bad := True\<rparr>)"
| cancel: "canc s = NoCancel \<Longrightarrow> unregister (unregister_ok (reg s)) (wop s) = (b, wh) \<Longrightarrow>
    wait_step s (s\<lparr>wop := wh, canc := (if b then CancelPosting else NoCancel),
      reg := (if b \<and> reg s = Armed then Removed else reg s)\<rparr>)"
| cancel_post: "canc s = CancelPosting \<Longrightarrow> post_once (wctx s) (packets s) = Some (b, c, ps) \<Longrightarrow>
    wait_step s (s\<lparr>canc := (if b then CancelDropping else NoCancel), wctx := c, packets := ps\<rparr>)"
| cancel_post_bad: "canc s = CancelPosting \<Longrightarrow> post_once (wctx s) (packets s) = None \<Longrightarrow> wait_step s (s\<lparr>bad := True\<rparr>)"
| cancel_drop: "canc s = CancelDropping \<Longrightarrow> ctx_drop (wctx s) = Some c \<Longrightarrow>
    wait_step s (s\<lparr>canc := NoCancel, wctx := c\<rparr>)"
| cancel_drop_bad: "canc s = CancelDropping \<Longrightarrow> ctx_drop (wctx s) = None \<Longrightarrow> wait_step s (s\<lparr>bad := True\<rparr>)"
| completed: "packets s \<noteq> [] \<Longrightarrow> canc s = NoCancel \<Longrightarrow>
    wait_step s (s\<lparr>wop := wait_on_complete (unregister_ok (reg s)) (wop s)\<rparr>)"

definition wait_started :: "nat \<Rightarrow> nat \<Rightarrow> nat \<Rightarrow> nat \<Rightarrow> wait_sys" where
  "wait_started port target optr h =
     (case wait_operate (\<lambda>_. Inr h) optr (wait_new port target) of
        (_, wh, c) \<Rightarrow> \<lparr>wop = wh, wctx = c, packets = [], reg = Armed, canc = NoCancel, bad = False\<rparr>)"

inductive wait_reachable :: "nat \<Rightarrow> nat \<Rightarrow> nat \<Rightarrow> nat \<Rightarrow> wait_sys \<Rightarrow> bool" for port target optr h where
  start: "wait_reachable port target optr h (wait_started port target optr h)"
| step: "wait_reachable port target optr h s \<Longrightarrow> wait_step s s' \<Longrightarrow> wait_reachable port target optr h s'"

text \<open>The leaked reference is outstanding until the callback has dropped it or the cancellation has.\<close>

definition leaked :: "wait_sys \<Rightarrow> bool" where
  "leaked s \<longleftrightarrow> reg s \<in> {Armed, CallbackPosting, CallbackDropping} \<or>
     reg s = Removed \<and> canc s \<noteq> NoCancel"

definition wait_inv :: "nat \<Rightarrow> nat \<Rightarrow> wait_sys \<Rightarrow> bool" where
  "wait_inv port optr s \<longleftrightarrow>
     \<not> bad s \<and> wc_port (wctx s) = port \<and> wc_overlapped (wctx s) = optr \<and>
     wc_strong (wctx s) = (if leaked s then 2 else 1) \<and>
     packets s = (if wc_posted (wctx s) then [(port, optr)] else []) \<and>
     (case reg s of
        Armed \<Rightarrow> \<not> wc_posted (wctx s) \<and> canc s = NoCancel \<and> wf_wait (wop s) \<noteq> 0
      | CallbackPosting \<Rightarrow> \<not> wc_posted (wctx s) \<and> canc s = NoCancel
      | CallbackDropping \<Rightarrow> wc_posted (wctx s) \<and> canc s = NoCancel
      | CallbackDone \<Rightarrow> wc_posted (wctx s) \<and> canc s \<noteq> CancelDropping
      | Removed \<Rightarrow> wf_wait (wop s) = 0 \<and> (wc_posted (wctx s) \<longleftrightarrow> canc s \<noteq> CancelPosting))"

lemma wait_inv_step:
  assumes "wait_step s s'" "wait_inv port optr s"
  shows "wait_inv port optr s'"
  using assms
proof (induction rule: wait_step.induct)
  case (cancel s b wh)
  then show ?case
    by (cases "reg s") (auto simp: wait_inv_def leaked_def unregister_def unregister_ok_def split: if_splits)
next
  case (completed s)
  then show ?case
    by (cases "reg s") (auto simp: wait_inv_def leaked_def wait_on_complete_def unregister_def)
next
  case (cancel_post s b c ps)
  then show ?case
    by (cases "reg s") (auto simp: wait_inv_def leaked_def post_once_def split: if_splits)
next
  case (cancel_drop s c)
  then show ?case
    by (cases "reg s") (auto simp: wait_inv_def leaked_def ctx_drop_def split: if_splits)
qed (auto simp: wait_inv_def leaked_def post_once_def ctx_drop_def split: if_splits registration.splits)

lemma wait_inv_start: "h \<noteq> 0 \<Longrightarrow> wait_inv port optr (wait_started port target optr h)"
  by (simp add: wait_started_def wait_operate_def wait_new_def wait_inv_def leaked_def)

lemma wait_reachable_inv: "wait_reachable port target optr h s \<Longrightarrow> h \<noteq> 0 \<Longrightarrow> wait_inv port optr s"
  by (induction rule: wait_reachable.induct) (blast intro: wait_inv_start wait_inv_step)+

section \<open>Properties\<close>

text \<open>
  Property C16. A wait completes exactly once, whoever wins: under every interleaving of the callback,
  cancellations and the completion, at most one packet is ever posted and it names this operation; once
  the callback has finished or a cancellation has removed the wait and run to its end, exactly one was
  posted and the leaked reference has been released, once.
\<close>

theorem wait_posts_exactly_once:
  assumes "wait_reachable port target optr h s" "h \<noteq> 0"
  shows "\<not> bad s \<and> (packets s = [] \<or> packets s = [(port, optr)]) \<and>
    (if reg s \<in> {CallbackDone, Removed} \<and> canc s = NoCancel
     then packets s = [(port, optr)] \<and> wc_strong (wctx s) = 1 else 0 < wc_strong (wctx s))"
  using wait_reachable_inv [OF assms]
  by (cases "reg s") (auto simp: wait_inv_def leaked_def)

theorem wait_posts_exactly_once_witness:
  "packets (wait_started 1 2 3 4\<lparr>reg := CallbackPosting\<rparr>) = []"
proof -
  have "wait_step (wait_started 1 2 3 4) (wait_started 1 2 3 4\<lparr>reg := CallbackPosting\<rparr>)"
    by (rule wait_step.signalled) (simp add: wait_started_def wait_operate_def)
  then have "wait_reachable 1 2 3 4 (wait_started 1 2 3 4\<lparr>reg := CallbackPosting\<rparr>)"
    by (rule wait_reachable.step [OF wait_reachable.start])
  from wait_posts_exactly_once [OF this] show ?thesis
    by (simp add: wait_started_def wait_operate_def)
qed

section \<open>The thread pool\<close>

text \<open>
  \<^verbatim>\<open>io_callback\<close> turns the callback's arguments into a dispatch. A submission is bracketed by
  \<^verbatim>\<open>StartThreadpoolIo\<close> and, when no callback will come, \<^verbatim>\<open>CancelThreadpoolIo\<close>; \<open>expected\<close> counts the
  callbacks the pool still waits for.
\<close>

definition io_callback ::
  "(u32 \<Rightarrow> hresult) \<Rightarrow> 't OpCode \<Rightarrow> nat \<Rightarrow> u32 \<Rightarrow> nat \<Rightarrow> ('t, 'w) Proactor \<Rightarrow> ('t, 'w) Proactor may_panic" where
  "io_callback hr C optr io_result bytes_transferred P =
     (if optr = 0 then Some P
      else map_option snd
             (dispatch_one C
                (optr, if io_result = 0 then Inr bytes_transferred else Inl (hr io_result), bytes_transferred) P))"

definition threadpool_submit ::
  "'t OpCode \<Rightarrow> nat \<Rightarrow> 't \<Rightarrow> ('t, 'w) Proactor \<Rightarrow> nat \<Rightarrow> (Submit \<times> ('t, 'w) Proactor \<times> nat) may_panic" where
  "threadpool_submit C a t P expected =
     Option.bind (leak a (key_new t) (live_set P)) (\<lambda>(k1, live1).
     Option.bind (key_operate C k1) (\<lambda>(started, k2).
       let P1 = P\<lparr>heap := (heap P)(a \<mapsto> k2), live_set := live1\<rparr>;
           started_io = expected + 1
       in case started of
         Pending \<Rightarrow> Some (submit_pending, P1, started_io)
       | Ready (Inl e) \<Rightarrow>
           map_option (\<lambda>(k3, live2). (submit_ready (Inl e), P1\<lparr>heap := (heap P1)(a \<mapsto> k3), live_set := live2\<rparr>,
               started_io - 1))
             (unleak a k2 live1)
       | Ready (Inr n) \<Rightarrow>
           Option.bind (on_complete_inline C k2 (Inr n)) (\<lambda>k3.
             map_option (\<lambda>(k4, live2).
               (submit_ready (Inr n), P1\<lparr>heap := (heap P1)(a \<mapsto> k4), live_set := live2\<rparr>, started_io - 1))
               (unleak a k3 live1))))"

text \<open>
  The two backends submit alike: the thread pool gives the same future, the same live set and
  the same operation as the reactor, except that only the reactor keeps a cancellation record; and it
  expects one more callback exactly when the operation is pending.
\<close>

theorem threadpool_submits_like_reactor:
  "case (threadpool_submit C a t P n, proactor_submit C a t P) of
     (Some (f, P1, n'), Some (g, P2)) \<Rightarrow>
       f = g \<and> live_set P1 = live_set P2 \<and> pending P1 = pending P \<and>
       n' = (if is_ready f then n else n + 1) \<and>
       map_option op (heap P1 a) = map_option op (heap P2 a)
   | (None, Some _) \<Rightarrow> False
   | _ \<Rightarrow> True"
  by (auto simp: threadpool_submit_def proactor_submit_def Let_def track_def on_heap_def erased_cancel_def
      arc_clone_def access_def arc_drop_def raw_op_drop_def is_ready_def submit_pending_def submit_ready_def
      split: option.splits bind_splits poll.splits sum.splits prod.splits if_splits)

end
