(* ===== verification/Winhttp_Context.thy ===== *)
theory Winhttp_Context
  imports Stream_Ops
begin

text \<open>
  The state a WinHTTP request shares with its status callback, \<^verbatim>\<open>winhttp/context.rs\<close>, and the five
  operation futures of \<^verbatim>\<open>winhttp/ops.rs\<close>.

  Each lock acquisition is one function on \<open>Inner\<close>. Wakers and boxed buffers are type variables. The
  operating system's side is an argument: \<open>submit\<close> is the WinHTTP call, which returns whether it was
  accepted and what the context looks like afterwards (a callback may have run meanwhile).
\<close>

section \<open>State\<close>

datatype OpKind = OpSend | OpWrite | OpReceiveResponse | OpQueryDataAvailable | OpRead

datatype Side = WriteSide | ReadSide

fun side :: "OpKind \<Rightarrow> Side" where
  "side OpSend = WriteSide"
| "side OpWrite = WriteSide"
| "side OpReceiveResponse = ReadSide"
| "side OpQueryDataAvailable = ReadSide"
| "side OpRead = ReadSide"

datatype Completion = Done u32 | Failed hresult

datatype SlotState =
    SIdle
  | SPending OpKind u64
  | SAbandoned OpKind u64
  | SComplete u64 Completion

record 'w Slot =
  slot_op :: SlotState
  slot_waker :: "'w option"

record ('w, 'b) Inner =
  next_generation :: u64
  write_slot :: "'w Slot"
  read_slot :: "'w Slot"
  retired :: "(u64 \<times> 'b) list"
  send_retention :: "'b list"

definition slot_new :: "'w Slot" where
  "slot_new = \<lparr>slot_op = SIdle, slot_waker = None\<rparr>"

definition slot_is_idle :: "'w Slot \<Rightarrow> bool" where
  "slot_is_idle s = (slot_op s = SIdle)"

definition context_new :: "('w, 'b) Inner" where
  "context_new = \<lparr>next_generation = 1, write_slot = slot_new, read_slot = slot_new, retired = [], send_retention = []\<rparr>"

text \<open>\<^verbatim>\<open>slot_mut\<close>: the slot of a side, and the context with that slot replaced.\<close>

fun slot :: "('w, 'b) Inner \<Rightarrow> Side \<Rightarrow> 'w Slot" where
  "slot i WriteSide = write_slot i"
| "slot i ReadSide = read_slot i"

fun set_slot :: "Side \<Rightarrow> 'w Slot \<Rightarrow> ('w, 'b) Inner \<Rightarrow> ('w, 'b) Inner" where
  "set_slot WriteSide s i = i\<lparr>write_slot := s\<rparr>"
| "set_slot ReadSide s i = i\<lparr>read_slot := s\<rparr>"

definition set_op :: "Side \<Rightarrow> SlotState \<Rightarrow> ('w, 'b) Inner \<Rightarrow> ('w, 'b) Inner" where
  "set_op sd x i = set_slot sd ((slot i sd)\<lparr>slot_op := x\<rparr>) i"

definition set_slot_waker :: "Side \<Rightarrow> 'w option \<Rightarrow> ('w, 'b) Inner \<Rightarrow> ('w, 'b) Inner" where
  "set_slot_waker sd w i = set_slot sd ((slot i sd)\<lparr>slot_waker := w\<rparr>) i"

lemma slot_set [simp]:
  "slot (set_op sd x i) sd' = (if sd' = sd then (slot i sd)\<lparr>slot_op := x\<rparr> else slot i sd')"
  "slot (set_slot_waker sd w i) sd' = (if sd' = sd then (slot i sd)\<lparr>slot_waker := w\<rparr> else slot i sd')"
  "slot (i\<lparr>retired := r\<rparr>) sd' = slot i sd'"
  "slot (i\<lparr>send_retention := b\<rparr>) sd' = slot i sd'"
  "slot (i\<lparr>next_generation := g\<rparr>) sd' = slot i sd'"
  by (cases sd; cases sd'; simp add: set_op_def set_slot_waker_def)+

lemma set_fields [simp]:
  "retired (set_op sd x i) = retired i" "retired (set_slot_waker sd w i) = retired i"
  "send_retention (set_op sd x i) = send_retention i"
  "send_retention (set_slot_waker sd w i) = send_retention i"
  "next_generation (set_op sd x i) = next_generation i"
  "next_generation (set_slot_waker sd w i) = next_generation i"
  by (cases sd; simp add: set_op_def set_slot_waker_def)+

declare slot.simps [simp del] set_slot.simps [simp del]

section \<open>Operations under the lock\<close>

definition inner_is_idle :: "('w, 'b) Inner \<Rightarrow> Side \<Rightarrow> bool" where
  "inner_is_idle i sd = slot_is_idle (slot i sd)"

definition begin_op :: "OpKind \<Rightarrow> u64 \<Rightarrow> ('w, 'b) Inner \<Rightarrow> ('w, 'b) Inner" where
  "begin_op k g i = set_op (side k) (SPending k g) i"

definition rollback :: "Side \<Rightarrow> u64 \<Rightarrow> ('w, 'b) Inner \<Rightarrow> ('w, 'b) Inner" where
  "rollback sd g i =
     (case slot_op (slot i sd) of
        SPending _ g' \<Rightarrow> if g' = g then set_op sd SIdle i else i
      | _ \<Rightarrow> i)"

definition inner_take_completion :: "Side \<Rightarrow> u64 \<Rightarrow> ('w, 'b) Inner \<Rightarrow> Completion option \<times> ('w, 'b) Inner" where
  "inner_take_completion sd g i =
     (case slot_op (slot i sd) of
        SComplete g' outcome \<Rightarrow> if g' = g then (Some outcome, set_op sd SIdle i) else (None, i)
      | _ \<Rightarrow> (None, i))"

definition inner_abandon :: "Side \<Rightarrow> u64 \<Rightarrow> 'b option \<Rightarrow> ('w, 'b) Inner \<Rightarrow> ('w, 'b) Inner" where
  "inner_abandon sd g buffer i =
     (let (retire, i1) =
        (case slot_op (slot i sd) of
           SPending k g' \<Rightarrow> if g' = g then (True, set_op sd (SAbandoned k g) i) else (False, i)
         | SComplete g' _ \<Rightarrow> if g' = g then (False, set_op sd SIdle i) else (False, i)
         | _ \<Rightarrow> (False, i))
      in if retire then (case buffer of Some b \<Rightarrow> i1\<lparr>retired := retired i1 @ [(g, b)]\<rparr> | None \<Rightarrow> i1)
         else i1)"

section \<open>The callback\<close>

definition record_op :: "OpKind \<Rightarrow> Completion \<Rightarrow> ('w, 'b) Inner \<Rightarrow> 'w option \<times> ('w, 'b) Inner" where
  "record_op expected outcome i =
     (let i1 = (if expected = OpReceiveResponse then i\<lparr>send_retention := []\<rparr> else i);
          sd = side expected;
          s = slot i1 sd
      in case slot_op s of
           SPending k g \<Rightarrow>
             if k = expected
             then (slot_waker s, set_slot_waker sd None (set_op sd (SComplete g outcome) i1))
             else (None, i1)
         | SAbandoned k g \<Rightarrow>
             if k = expected
             then (slot_waker s,
                   (let i2 = set_slot_waker sd None (set_op sd SIdle i1)
                    in i2\<lparr>retired := filter (\<lambda>(g', _). g' \<noteq> g) (retired i2)\<rparr>))
             else (None, i1)
         | _ \<Rightarrow> (None, i1))"

text \<open>One side of \<^verbatim>\<open>record_error\<close>: its waker and the generation to free.\<close>

definition fail_side :: "hresult \<Rightarrow> Side \<Rightarrow> ('w, 'b) Inner \<Rightarrow> 'w option \<times> u64 list \<times> ('w, 'b) Inner" where
  "fail_side e sd i =
     (let s = slot i sd in
      case slot_op s of
        SPending k g \<Rightarrow> (slot_waker s, [], set_slot_waker sd None (set_op sd (SComplete g (Failed e)) i))
      | SAbandoned k g \<Rightarrow> (slot_waker s, [g], set_slot_waker sd None (set_op sd SIdle i))
      | _ \<Rightarrow> (None, [], i))"

definition record_error :: "hresult \<Rightarrow> ('w, 'b) Inner \<Rightarrow> 'w option list \<times> ('w, 'b) Inner" where
  "record_error e i =
     (case fail_side e WriteSide (i\<lparr>send_retention := []\<rparr>) of
        (w1, f1, i1) \<Rightarrow>
          (case fail_side e ReadSide i1 of
             (w2, f2, i2) \<Rightarrow>
               ([w1, w2],
                if f1 @ f2 \<noteq> [] then i2\<lparr>retired := filter (\<lambda>(g, _). g \<notin> set (f1 @ f2)) (retired i2)\<rparr> else i2)))"

definition closing :: "('w, 'b) Inner \<Rightarrow> 'w list \<times> ('w, 'b) Inner" where
  "closing i =
     (let ws = (case slot_waker (write_slot i) of Some w \<Rightarrow> [w] | None \<Rightarrow> []) @
               (case slot_waker (read_slot i) of Some w \<Rightarrow> [w] | None \<Rightarrow> [])
      in (ws, set_slot_waker ReadSide None (set_slot_waker WriteSide None (i\<lparr>retired := [], send_retention := []\<rparr>))))"

text \<open>The notification codes, and the information block as the bytes WinHTTP hands over (\<open>None\<close>: null).\<close>

abbreviation (input) STATUS_HANDLE_CLOSING :: u32 where "STATUS_HANDLE_CLOSING \<equiv> 0x00000800"
abbreviation (input) STATUS_HEADERS_AVAILABLE :: u32 where "STATUS_HEADERS_AVAILABLE \<equiv> 0x00020000"
abbreviation (input) STATUS_DATA_AVAILABLE :: u32 where "STATUS_DATA_AVAILABLE \<equiv> 0x00040000"
abbreviation (input) STATUS_READ_COMPLETE :: u32 where "STATUS_READ_COMPLETE \<equiv> 0x00080000"
abbreviation (input) STATUS_WRITE_COMPLETE :: u32 where "STATUS_WRITE_COMPLETE \<equiv> 0x00100000"
abbreviation (input) STATUS_REQUEST_ERROR :: u32 where "STATUS_REQUEST_ERROR \<equiv> 0x00200000"
abbreviation (input) STATUS_SENDREQUEST_COMPLETE :: u32 where "STATUS_SENDREQUEST_COMPLETE \<equiv> 0x00400000"

definition read_u32 :: "u8 list option \<Rightarrow> u32 \<Rightarrow> u32" where
  "read_u32 information information_length =
     (case information of
        None \<Rightarrow> 0
      | Some bs \<Rightarrow> if unat information_length < 4 then 0 else from_le32 (take 4 bs))"

text \<open>\<^verbatim>\<open>WINHTTP_ASYNC_RESULT\<close> is 16 bytes on a 64-bit target, \<^verbatim>\<open>dwError\<close> at offset 8.\<close>

definition read_async_error :: "(u32 \<Rightarrow> hresult) \<Rightarrow> u8 list option \<Rightarrow> u32 \<Rightarrow> hresult" where
  "read_async_error hr information information_length =
     (case information of
        None \<Rightarrow> hr 12030
      | Some bs \<Rightarrow> if unat information_length < 16 then hr 12030 else hr (from_le32 (take 4 (drop 8 bs))))"

definition opt_list :: "'a option \<Rightarrow> 'a list" where
  "opt_list x = (case x of Some y \<Rightarrow> [y] | None \<Rightarrow> [])"

definition dispatch_callback ::
  "(u32 \<Rightarrow> hresult) \<Rightarrow> nat \<Rightarrow> u32 \<Rightarrow> u8 list option \<Rightarrow> u32 \<Rightarrow> ('w, 'b) Inner \<Rightarrow> 'w list \<times> ('w, 'b) Inner" where
  "dispatch_callback hr context status information information_length i =
     (if context = 0 then ([], i)
      else if status = STATUS_HANDLE_CLOSING then closing i
      else if status = STATUS_SENDREQUEST_COMPLETE then map_prod opt_list id (record_op OpSend (Done 0) i)
      else if status = STATUS_HEADERS_AVAILABLE then map_prod opt_list id (record_op OpReceiveResponse (Done 0) i)
      else if status = STATUS_WRITE_COMPLETE then
        map_prod opt_list id (record_op OpWrite (Done (read_u32 information information_length)) i)
      else if status = STATUS_DATA_AVAILABLE then
        map_prod opt_list id (record_op OpQueryDataAvailable (Done (read_u32 information information_length)) i)
      else if status = STATUS_READ_COMPLETE then
        map_prod opt_list id (record_op OpRead (Done information_length) i)
      else if status = STATUS_REQUEST_ERROR then
        map_prod (concat \<circ> map opt_list) id
          (record_error (read_async_error hr information information_length) i)
      else ([], i))"

section \<open>The operation futures\<close>

datatype Submitted = Accepted | SubmitFailed hresult

text \<open>The two locked regions of \<^verbatim>\<open>poll_operation\<close>, before and after the WinHTTP call.\<close>

definition claim_slot :: "OpKind \<Rightarrow> 'w \<Rightarrow> ('w, 'b) Inner \<Rightarrow> (u64 \<times> ('w, 'b) Inner) option" where
  "claim_slot k w i =
     (if \<not> inner_is_idle i (side k) then None
      else let g = next_generation i
           in Some (g, set_slot_waker (side k) (Some w)
                (begin_op k g (i\<lparr>next_generation := next_generation i + 1\<rparr>))))"

definition collect :: "OpKind \<Rightarrow> 'w \<Rightarrow> u64 \<Rightarrow> ('w, 'b) Inner \<Rightarrow> (hresult + u32) poll \<times> ('w, 'b) Inner" where
  "collect k w g i =
     (case inner_take_completion (side k) g i of
        (Some (Done n), i') \<Rightarrow> (Ready (Inr n), i')
      | (Some (Failed e), i') \<Rightarrow> (Ready (Inl e), i')
      | (None, i') \<Rightarrow> (Pending, set_slot_waker (side k) (Some w) i'))"

definition poll_operation ::
  "hresult \<Rightarrow> OpKind \<Rightarrow> u64 option \<Rightarrow> 'w \<Rightarrow> (('w, 'b) Inner \<Rightarrow> Submitted \<times> ('w, 'b) Inner) \<Rightarrow>
   ('w, 'b) Inner \<Rightarrow> (hresult + u32) poll \<times> u64 option \<times> ('w, 'b) Inner" where
  "poll_operation in_progress k generation w submit i =
     (case generation of
        Some g \<Rightarrow> (case collect k w g i of (r, i') \<Rightarrow> (r, Some g, i'))
      | None \<Rightarrow>
          (case claim_slot k w i of
             None \<Rightarrow> (Ready (Inl in_progress), None, i)
           | Some (g, i1) \<Rightarrow>
               (case submit i1 of
                  (Accepted, i2) \<Rightarrow> (case collect k w g i2 of (r, i3) \<Rightarrow> (r, Some g, i3))
                | (SubmitFailed e, i2) \<Rightarrow> (Ready (Inl e), Some g, rollback (side k) g i2))))"

definition request_abandon :: "OpKind \<Rightarrow> u64 option \<Rightarrow> 'b option \<Rightarrow> ('w, 'b) Inner \<Rightarrow> ('w, 'b) Inner" where
  "request_abandon k generation buffer i =
     (case generation of None \<Rightarrow> i | Some g \<Rightarrow> inner_abandon (side k) g buffer i)"

definition retain_send_buffer :: "'b \<Rightarrow> ('w, 'b) Inner \<Rightarrow> ('w, 'b) Inner" where
  "retain_send_buffer b i = i\<lparr>send_retention := send_retention i @ [b]\<rparr>"


text \<open>What a context keeps alive for the platform is a boxed buffer or a boxed header block.\<close>

datatype 'b any_box = BoxBuffer 'b | BoxWide "u16 list"

record 'b SendRequest =
  sr_body :: "'b option"
  sr_headers :: "u16 list option"
  sr_total_length :: u32
  sr_generation :: "u64 option"

definition send_request_new :: "u16 list option \<Rightarrow> 'b \<Rightarrow> u32 \<Rightarrow> 'b SendRequest" where
  "send_request_new headers body total_length =
     \<lparr>sr_body = Some body, sr_headers = headers, sr_total_length = total_length, sr_generation = None\<rparr>"

type_synonym ('w, 'b) submission = "('w, 'b any_box) Inner \<Rightarrow> Submitted \<times> ('w, 'b any_box) Inner"

definition send_request_poll ::
  "(u32 \<Rightarrow> hresult) \<Rightarrow> hresult \<Rightarrow> ('b, 'z) IoBuf_scheme \<Rightarrow>
   (u16 list option \<Rightarrow> nat option \<Rightarrow> u32 \<Rightarrow> u32 \<Rightarrow> ('w, 'b) submission) \<Rightarrow> 'w \<Rightarrow> 'b SendRequest \<Rightarrow>
   ('w, 'b any_box) Inner \<Rightarrow> (hresult + unit) poll \<times> 'b SendRequest \<times> ('w, 'b any_box) Inner" where
  "send_request_poll hr in_progress D WinHttpSendRequest w f i =
     (let (body_ptr, initialised) =
        (case sr_body f of Some b \<Rightarrow> (stable_ptr D b, bytes_init D b) | None \<Rightarrow> (0, 0)) in
      if initialised > u32_max then (Ready (Inl (hr ERROR_INVALID_PARAMETER)), f, i)
      else
        let body_len = of_nat initialised :: u32;
            headers = (case sr_headers f of Some h \<Rightarrow> if h = [] then None else Some h | None \<Rightarrow> None);
            submit = WinHttpSendRequest headers (if body_len = 0 then None else Some body_ptr) body_len
                       (sr_total_length f)
        in case poll_operation in_progress OpSend (sr_generation f) w submit i of
             (outcome, gen, i1) \<Rightarrow>
               let f1 = f\<lparr>sr_generation := gen\<rparr>;
                   i2 = (if gen \<noteq> None then
                           (case sr_body f1 of Some b \<Rightarrow> retain_send_buffer (BoxBuffer b) i1 | None \<Rightarrow> i1) else i1);
                   i3 = (if gen \<noteq> None then
                           (case sr_headers f1 of Some h \<Rightarrow> retain_send_buffer (BoxWide h) i2 | None \<Rightarrow> i2) else i2);
                   f2 = (if gen \<noteq> None then f1\<lparr>sr_body := None, sr_headers := None\<rparr> else f1)
               in (case outcome of
                     Pending \<Rightarrow> Pending
                   | Ready (Inr _) \<Rightarrow> Ready (Inr ())
                   | Ready (Inl e) \<Rightarrow> Ready (Inl e), f2, i3))"

definition send_request_drop :: "'b SendRequest \<Rightarrow> ('w, 'b any_box) Inner \<Rightarrow> ('w, 'b any_box) Inner" where
  "send_request_drop f i = request_abandon OpSend (sr_generation f) None i"

record 'b WriteData =
  wd_buffer :: "'b option"
  wd_generation :: "u64 option"

definition write_data_new :: "'b \<Rightarrow> 'b WriteData" where
  "write_data_new buffer = \<lparr>wd_buffer = Some buffer, wd_generation = None\<rparr>"

text \<open>\<^verbatim>\<open>u32::try_from(n).unwrap_or(u32::MAX)\<close>.\<close>

definition clamp_u32 :: "nat \<Rightarrow> u32" where
  "clamp_u32 n = (if n \<le> u32_max then of_nat n else of_nat u32_max)"

definition write_data_poll ::
  "hresult \<Rightarrow> ('b, 'z) IoBuf_scheme \<Rightarrow> (nat \<Rightarrow> u32 \<Rightarrow> ('w, 'b) submission) \<Rightarrow> 'w \<Rightarrow> 'b WriteData \<Rightarrow>
   ('w, 'b any_box) Inner \<Rightarrow> ((hresult + nat) \<times> 'b) poll \<times> 'b WriteData \<times> ('w, 'b any_box) Inner" where
  "write_data_poll in_progress D WinHttpWriteData w f i =
     (let (ptr, initialised) =
        (case wd_buffer f of Some b \<Rightarrow> (stable_ptr D b, bytes_init D b) | None \<Rightarrow> (0, 0));
          len = clamp_u32 initialised;
          p = (if len = 0 then 0 else ptr)
      in case poll_operation in_progress OpWrite (wd_generation f) w (WinHttpWriteData p len) i of
           (outcome, gen, i1) \<Rightarrow>
             let f1 = f\<lparr>wd_generation := gen\<rparr>
             in case outcome of
                  Pending \<Rightarrow> (Pending, f1, i1)
                | Ready r \<Rightarrow>
                    (case wd_buffer f1 of
                       None \<Rightarrow> (Pending, f1, i1)
                     | Some b \<Rightarrow>
                         (Ready (case r of Inr n \<Rightarrow> Inr (min (unat n) (unat len)) | Inl e \<Rightarrow> Inl e, b),
                          f1\<lparr>wd_buffer := None\<rparr>, i1)))"

definition write_data_drop :: "'b WriteData \<Rightarrow> ('w, 'b any_box) Inner \<Rightarrow> ('w, 'b any_box) Inner" where
  "write_data_drop f i = request_abandon OpWrite (wd_generation f) (map_option BoxBuffer (wd_buffer f)) i"

text \<open>\<^verbatim>\<open>ReceiveResponse\<close> and \<^verbatim>\<open>QueryDataAvailable\<close> hold nothing but their generation.\<close>

definition receive_response_poll ::
  "hresult \<Rightarrow> (('w, 'b) Inner \<Rightarrow> Submitted \<times> ('w, 'b) Inner) \<Rightarrow> 'w \<Rightarrow> u64 option \<Rightarrow>
   ('w, 'b) Inner \<Rightarrow> (hresult + unit) poll \<times> u64 option \<times> ('w, 'b) Inner" where
  "receive_response_poll in_progress WinHttpReceiveResponse w gen i =
     (case poll_operation in_progress OpReceiveResponse gen w WinHttpReceiveResponse i of
        (outcome, gen', i') \<Rightarrow>
          (case outcome of
             Pending \<Rightarrow> Pending | Ready (Inr _) \<Rightarrow> Ready (Inr ()) | Ready (Inl e) \<Rightarrow> Ready (Inl e), gen', i'))"

definition receive_response_drop :: "u64 option \<Rightarrow> ('w, 'b) Inner \<Rightarrow> ('w, 'b) Inner" where
  "receive_response_drop gen i = request_abandon OpReceiveResponse gen None i"

definition query_data_poll ::
  "hresult \<Rightarrow> (('w, 'b) Inner \<Rightarrow> Submitted \<times> ('w, 'b) Inner) \<Rightarrow> 'w \<Rightarrow> u64 option \<Rightarrow>
   ('w, 'b) Inner \<Rightarrow> (hresult + u32) poll \<times> u64 option \<times> ('w, 'b) Inner" where
  "query_data_poll in_progress WinHttpQueryDataAvailable w gen i =
     poll_operation in_progress OpQueryDataAvailable gen w WinHttpQueryDataAvailable i"

definition query_data_drop :: "u64 option \<Rightarrow> ('w, 'b) Inner \<Rightarrow> ('w, 'b) Inner" where
  "query_data_drop gen i = request_abandon OpQueryDataAvailable gen None i"

record 'b ReadData =
  rdt_buffer :: "'b option"
  rdt_capacity :: nat
  rdt_generation :: "u64 option"

definition read_data_new :: "'b IoBufMut \<Rightarrow> 'b \<Rightarrow> 'b ReadData may_panic" where
  "read_data_new D buffer =
     map_option (\<lambda>c. \<lparr>rdt_buffer = Some buffer, rdt_capacity = c, rdt_generation = None\<rparr>) (bytes_total D buffer)"

definition read_data_poll ::
  "(u32 \<Rightarrow> hresult) \<Rightarrow> hresult \<Rightarrow> 'b IoBufMut \<Rightarrow> (nat \<Rightarrow> u32 \<Rightarrow> ('w, 'b) submission) \<Rightarrow> 'w \<Rightarrow> 'b ReadData \<Rightarrow>
   ('w, 'b any_box) Inner \<Rightarrow> (((hresult + nat) \<times> 'b) poll \<times> 'b ReadData \<times> ('w, 'b any_box) Inner) may_panic" where
  "read_data_poll hr in_progress D WinHttpReadData w f i =
     (let requested = clamp_u32 (rdt_capacity f);
          capacity = unat requested
      in if capacity = 0 then
           (case rdt_buffer f of
              Some b \<Rightarrow> Some (Ready (Inl (hr ERROR_INVALID_PARAMETER), b), f\<lparr>rdt_buffer := None\<rparr>, i)
            | None \<Rightarrow> Some (Pending, f, i))
         else case rdt_buffer f of
             None \<Rightarrow> Some (Pending, f, i)
           | Some b \<Rightarrow>
               (case as_uninit D b of
                  None \<Rightarrow> None
                | Some u \<Rightarrow>
                    (case poll_operation in_progress OpRead (rdt_generation f) w
                            (WinHttpReadData (us_ptr u) requested) i of
                       (outcome, gen, i1) \<Rightarrow>
                         let f1 = f\<lparr>rdt_generation := gen\<rparr>
                         in case outcome of
                              Pending \<Rightarrow> Some (Pending, f1, i1)
                            | Ready (Inl e) \<Rightarrow> Some (Ready (Inl e, b), f1\<lparr>rdt_buffer := None\<rparr>, i1)
                            | Ready (Inr n) \<Rightarrow>
                                map_option (\<lambda>b'. (Ready (Inr (min (unat n) capacity), b'),
                                                   f1\<lparr>rdt_buffer := None\<rparr>, i1))
                                  (set_init D b (min (unat n) capacity)))))"

definition read_data_drop :: "'b ReadData \<Rightarrow> ('w, 'b any_box) Inner \<Rightarrow> ('w, 'b any_box) Inner" where
  "read_data_drop f i = request_abandon OpRead (rdt_generation f) (map_option BoxBuffer (rdt_buffer f)) i"


section \<open>A request with its platform\<close>

text \<open>
  \<open>os\<close> is the operation the platform has accepted on each side and not yet reported, with the buffer it
  uses; \<open>held\<close> are the futures that have claimed a generation and not yet returned or been dropped, with
  the buffer they own; \<open>submitting\<close> marks a future between its claim and the end of its WinHTTP call;
  \<open>waiting\<close> is the waker of a future's last poll; \<open>outcomes\<close> what the platform reported for a generation.
  After a request error the platform accepts nothing more.

  The body and the header block of a send are apart from all that, as in the code. A \<open>SendRequest\<close> has no
  buffer to retire (its drop passes \<^verbatim>\<open>None\<close>); \<open>sending\<close> is what it still owns inside the poll that
  submits it, which moves the boxes into \<open>send_retention\<close> one lock at a time after the WinHTTP call has
  ended, accepted or refused, so the future can be dropped only when it owns nothing. \<open>lent\<close> is what the
  platform may read: every box of a send whose call was made, also one that failed at once, until the
  notification of a received response, a request error or the closing of the handle, which is how long
  WinHTTP documents the body of a send to be in use. Boxes are compared by their identity.
\<close>

record ('w, 'b) request =
  ctx :: "('w, 'b) Inner"
  os :: "Side \<Rightarrow> (OpKind \<times> u64 \<times> 'b option) option"
  held :: "u64 \<Rightarrow> (OpKind \<times> 'b option) option"
  submitting :: "Side \<Rightarrow> u64 option"
  dead :: bool
  waiting :: "u64 \<Rightarrow> 'w option"
  outcomes :: "u64 \<Rightarrow> Completion option"
  shut :: bool
  sending :: "u64 \<Rightarrow> 'b list"
  lent :: "'b list"

definition request_new :: "('w, 'b) request" where
  "request_new = \<lparr>ctx = context_new, os = (\<lambda>_. None), held = (\<lambda>_. None), submitting = (\<lambda>_. None), dead = False,
     waiting = (\<lambda>_. None), outcomes = (\<lambda>_. None), shut = False,
     sending = (\<lambda>_. []), lent = []\<rparr>"

definition pending_gen :: "('w, 'b) Inner \<Rightarrow> u64 \<Rightarrow> bool" where
  "pending_gen i g \<longleftrightarrow> (\<exists>sd k. slot_op (slot i sd) = SPending k g)"

inductive req_step :: "('w, 'b) request \<Rightarrow> ('w, 'b) request \<Rightarrow> bool" where
  claim: "claim_slot k w (ctx s) = Some (g, i) \<Longrightarrow> g \<noteq> - 1 \<Longrightarrow>
    (k = OpSend \<longrightarrow> b = None) \<Longrightarrow> (k \<noteq> OpSend \<longrightarrow> xs = []) \<Longrightarrow>
    req_step s (s\<lparr>ctx := i, held := (held s)(g \<mapsto> (k, b)), submitting := (submitting s)(side k \<mapsto> g),
      waiting := (waiting s)(g \<mapsto> w), sending := (sending s)(g := xs)\<rparr>)"
| accept: "submitting s sd = Some g \<Longrightarrow> held s g = Some (k, b) \<Longrightarrow> \<not> dead s \<Longrightarrow>
    req_step s (s\<lparr>submitting := (submitting s)(sd := None), os := (os s)(sd \<mapsto> (k, g, b)),
      lent := lent s @ sending s g\<rparr>)"
| reject: "submitting s sd = Some g \<Longrightarrow>
    req_step s (s\<lparr>submitting := (submitting s)(sd := None), ctx := rollback sd g (ctx s),
      lent := lent s @ sending s g\<rparr>)"
| notify: "os s sd = Some (k, g, b) \<Longrightarrow>
    req_step s (s\<lparr>ctx := snd (record_op k (Done n) (ctx s)), os := (os s)(sd := None),
      outcomes := (outcomes s)(g \<mapsto> Done n), lent := (if k = OpReceiveResponse then [] else lent s)\<rparr>)"
| error: "req_step s (s\<lparr>ctx := snd (record_error e (ctx s)), os := (\<lambda>_. None), dead := True,
      outcomes := (\<lambda>g. if pending_gen (ctx s) g then Some (Failed e) else outcomes s g), lent := []\<rparr>)"
| retained: "sending s g = x # xs \<Longrightarrow> submitting s (side OpSend) \<noteq> Some g \<Longrightarrow>
    req_step s (s\<lparr>ctx := retain_send_buffer x (ctx s), sending := (sending s)(g := xs)\<rparr>)"
| collected: "held s g = Some (k, b) \<Longrightarrow> submitting s (side k) \<noteq> Some g \<Longrightarrow>
    collect k w g (ctx s) = (Ready r, i) \<Longrightarrow> req_step s (s\<lparr>ctx := i, held := (held s)(g := None)\<rparr>)"
| waits: "held s g = Some (k, b) \<Longrightarrow> slot_op (slot (ctx s) (side k)) = SPending k g \<Longrightarrow>
    collect k w g (ctx s) = (Pending, i) \<Longrightarrow> req_step s (s\<lparr>ctx := i, waiting := (waiting s)(g \<mapsto> w)\<rparr>)"
| dropped: "held s g = Some (k, b) \<Longrightarrow> submitting s (side k) \<noteq> Some g \<Longrightarrow> sending s g = [] \<Longrightarrow>
    req_step s (s\<lparr>ctx := inner_abandon (side k) g b (ctx s), held := (held s)(g := None)\<rparr>)"
| closed: "held s = (\<lambda>_. None) \<Longrightarrow> sending s = (\<lambda>_. []) \<Longrightarrow>
    req_step s (s\<lparr>ctx := snd (closing (ctx s)), os := (\<lambda>_. None), dead := True, shut := True, lent := []\<rparr>)"

inductive req_reachable :: "('w, 'b) request \<Rightarrow> bool" where
  start: "req_reachable request_new"
| step: "req_reachable s \<Longrightarrow> \<not> shut s \<Longrightarrow> req_step s s' \<Longrightarrow> req_reachable s'"

fun slot_gen :: "SlotState \<Rightarrow> u64 option" where
  "slot_gen SIdle = None"
| "slot_gen (SPending k g) = Some g"
| "slot_gen (SAbandoned k g) = Some g"
| "slot_gen (SComplete g c) = Some g"


definition side_ok :: "('w, 'b) request \<Rightarrow> Side \<Rightarrow> bool" where
  "side_ok s sd \<longleftrightarrow>
     (case slot_op (slot (ctx s) sd) of
        SIdle \<Rightarrow> os s sd = None \<and> submitting s sd = None
      | SPending k g \<Rightarrow> side k = sd \<and> slot_waker (slot (ctx s) sd) = waiting s g \<and> waiting s g \<noteq> None \<and>
          (\<exists>b. held s g = Some (k, b) \<and>
             (submitting s sd = Some g \<and> os s sd = None \<or> submitting s sd = None \<and> os s sd = Some (k, g, b)))
      | SAbandoned k g \<Rightarrow> side k = sd \<and> held s g = None \<and> submitting s sd = None \<and>
          (\<exists>b. os s sd = Some (k, g, b) \<and> (\<forall>x. b = Some x \<longrightarrow> (g, x) \<in> set (retired (ctx s))))
      | SComplete g c \<Rightarrow> os s sd = None \<and> outcomes s g = Some c \<and>
          (submitting s sd = None \<or> submitting s sd = Some g \<and> dead s) \<and> (\<exists>k b. held s g = Some (k, b) \<and> side k = sd))"

definition gens_ok :: "('w, 'b) request \<Rightarrow> bool" where
  "gens_ok s \<longleftrightarrow>
     (\<forall>sd g. slot_gen (slot_op (slot (ctx s) sd)) = Some g \<longrightarrow> g < next_generation (ctx s)) \<and>
     (\<forall>g. held s g \<noteq> None \<longrightarrow> g < next_generation (ctx s)) \<and>
     (\<forall>g sd sd'. slot_gen (slot_op (slot (ctx s) sd)) = Some g \<and>
        slot_gen (slot_op (slot (ctx s) sd')) = Some g \<longrightarrow> sd = sd')"

definition retired_ok :: "('w, 'b) request \<Rightarrow> bool" where
  "retired_ok s \<longleftrightarrow>
     (\<forall>g x. (g, x) \<in> set (retired (ctx s)) \<longrightarrow>
        (\<exists>sd k. slot_op (slot (ctx s) sd) = SAbandoned k g \<and> os s sd = Some (k, g, Some x)))"

definition req_inv :: "('w, 'b) request \<Rightarrow> bool" where
  "req_inv s \<longleftrightarrow> (\<forall>sd. side_ok s sd) \<and> gens_ok s \<and> retired_ok s"

lemma req_inv_sends [simp]:
  "req_inv (s\<lparr>sending := f\<rparr>) = req_inv s" "req_inv (s\<lparr>lent := xs\<rparr>) = req_inv s"
  by (simp_all add: req_inv_def side_ok_def gens_ok_def retired_ok_def cong: SlotState.case_cong)

lemma word_less_Suc: "(n::u64) \<noteq> - 1 \<Longrightarrow> g < n \<or> g = n \<Longrightarrow> g < n + 1"
proof -
  assume n: "n \<noteq> - 1" and g: "g < n \<or> g = n"
  from n have "1 + n \<noteq> 0" by (metis add.commute eq_neg_iff_add_eq_0)
  then have "unat (1 + n) = Suc (unat n)" by (rule unatSuc)
  with g show ?thesis by (auto simp: word_less_nat_alt add.commute)
qed

lemma context_new_idle [simp]: "slot context_new sd = slot_new" "retired context_new = []"
  by (cases sd) (simp_all add: context_new_def slot.simps)

lemma req_inv_new: "req_inv request_new"
  by (simp add: req_inv_def side_ok_def gens_ok_def retired_ok_def request_new_def slot_new_def)

text \<open>What each function does to a slot.\<close>

lemma record_op_slots:
  assumes "slot_op (slot i (side k)) = SPending k g \<or> slot_op (slot i (side k)) = SAbandoned k g"
  shows "slot (snd (record_op k c i)) sd =
      (if sd = side k
       then \<lparr>slot_op = (if slot_op (slot i sd) = SPending k g then SComplete g c else SIdle), slot_waker = None\<rparr>
       else slot i sd)"
    "retired (snd (record_op k c i)) =
      (if slot_op (slot i (side k)) = SPending k g then retired i
       else filter (\<lambda>(g', _). g' \<noteq> g) (retired i))"
    "next_generation (snd (record_op k c i)) = next_generation i"
    "fst (record_op k c i) = slot_waker (slot i (side k))"
  using assms by (auto simp: record_op_def Let_def)

lemma fail_side_slots:
  "slot (snd (snd (fail_side e sd i))) sd' =
     (if sd' = sd then
        (case slot_op (slot i sd) of
           SPending k g \<Rightarrow> \<lparr>slot_op = SComplete g (Failed e), slot_waker = None\<rparr>
         | SAbandoned k g \<Rightarrow> \<lparr>slot_op = SIdle, slot_waker = None\<rparr>
         | _ \<Rightarrow> slot i sd)
      else slot i sd')"
  "retired (snd (snd (fail_side e sd i))) = retired i"
  "next_generation (snd (snd (fail_side e sd i))) = next_generation i"
  "fst (snd (fail_side e sd i)) = (case slot_op (slot i sd) of SAbandoned k g \<Rightarrow> [g] | _ \<Rightarrow> [])"
  by (auto simp: fail_side_def Let_def split: SlotState.splits)

lemma record_error_slots:
  "slot (snd (record_error e i)) sd =
     (case slot_op (slot i sd) of
        SPending k g \<Rightarrow> \<lparr>slot_op = SComplete g (Failed e), slot_waker = None\<rparr>
      | SAbandoned k g \<Rightarrow> \<lparr>slot_op = SIdle, slot_waker = None\<rparr>
      | _ \<Rightarrow> slot i sd)"
  "set (retired (snd (record_error e i))) =
     {(g, x) \<in> set (retired i). \<nexists>sd k. slot_op (slot i sd) = SAbandoned k g}"
  "next_generation (snd (record_error e i)) = next_generation i"
proof -
  let ?i0 = "i\<lparr>send_retention := []\<rparr>"
  obtain w1 f1 i1 where 1: "fail_side e WriteSide ?i0 = (w1, f1, i1)" by (metis prod_cases3)
  obtain w2 f2 i2 where 2: "fail_side e ReadSide i1 = (w2, f2, i2)" by (metis prod_cases3)
  note A = fail_side_slots [of e WriteSide ?i0, unfolded 1, simplified]
  note B = fail_side_slots [of e ReadSide i1, unfolded 2, simplified]
  have f: "set (f1 @ f2) = {g. \<exists>sd k. slot_op (slot i sd) = SAbandoned k g}"
  proof -
    have "(\<exists>sd k. slot_op (slot i sd) = SAbandoned k g) \<longleftrightarrow>
        (\<exists>k. slot_op (slot i WriteSide) = SAbandoned k g) \<or> (\<exists>k. slot_op (slot i ReadSide) = SAbandoned k g)" for g
      by (metis Side.exhaust)
    then show ?thesis using A B by (auto split: SlotState.splits)
  qed
  have r: "snd (record_error e i) =
      (if f1 @ f2 \<noteq> [] then i2\<lparr>retired := filter (\<lambda>(g, _). g \<notin> set (f1 @ f2)) (retired i2)\<rparr> else i2)"
    by (simp add: record_error_def 1 2)
  show "slot (snd (record_error e i)) sd =
     (case slot_op (slot i sd) of
        SPending k g \<Rightarrow> \<lparr>slot_op = SComplete g (Failed e), slot_waker = None\<rparr>
      | SAbandoned k g \<Rightarrow> \<lparr>slot_op = SIdle, slot_waker = None\<rparr>
      | _ \<Rightarrow> slot i sd)"
    using A B by (cases sd) (auto simp: r split: SlotState.splits)
  show "next_generation (snd (record_error e i)) = next_generation i"
    using A B by (simp add: r)
  show "set (retired (snd (record_error e i))) =
     {(g, x) \<in> set (retired i). \<nexists>sd k. slot_op (slot i sd) = SAbandoned k g}"
  proof -
    have "set (retired (snd (record_error e i))) = {(g, x) \<in> set (retired i). g \<notin> set (f1 @ f2)}"
    proof -
      have "retired i2 = retired i" using A(2) B(2) by simp
      then show ?thesis by (auto simp: r)
    qed
    then show ?thesis unfolding f by simp
  qed
qed


lemma req_invD:
  assumes "req_inv s"
  shows "side_ok s sd" "gens_ok s" "retired_ok s"
  using assms by (simp_all add: req_inv_def)

lemma slot_gen_cases:
  "slot_gen x = Some g \<longleftrightarrow> (\<exists>k. x = SPending k g) \<or> (\<exists>k. x = SAbandoned k g) \<or> (\<exists>c. x = SComplete g c)"
  by (cases x) auto

lemma retired_ok_other:
  assumes "retired_ok s" "\<And>k g. slot_op (slot (ctx s) sd) \<noteq> SAbandoned k g"
    and "\<And>sd'. sd' \<noteq> sd \<Longrightarrow> slot_op (slot (ctx s') sd') = slot_op (slot (ctx s) sd') \<and> os s' sd' = os s sd'"
    and "retired (ctx s') = retired (ctx s)"
  shows "retired_ok s'"
  unfolding retired_ok_def assms(4)
proof (intro allI impI)
  fix g x
  assume "(g, x) \<in> set (retired (ctx s))"
  with assms(1) obtain sd' k where "slot_op (slot (ctx s) sd') = SAbandoned k g" "os s sd' = Some (k, g, Some x)"
    unfolding retired_ok_def by blast
  moreover from this(1) assms(2) have "sd' \<noteq> sd" by auto
  ultimately show "\<exists>sd k. slot_op (slot (ctx s') sd) = SAbandoned k g \<and> os s' sd = Some (k, g, Some x)"
    using assms(3) by metis
qed

text \<open>Steps that touch the slots of a single side and futures of one generation.\<close>

lemma req_inv_claim:
  assumes inv: "req_inv s" and c: "claim_slot k w (ctx s) = Some (g, i)" and g: "g \<noteq> - 1"
  shows "req_inv (s\<lparr>ctx := i, held := (held s)(g \<mapsto> (k, b)), submitting := (submitting s)(side k \<mapsto> g),
      waiting := (waiting s)(g \<mapsto> w)\<rparr>)" (is "req_inv ?s")
proof -
  note D = req_invD [OF inv]
  have idle: "slot_op (slot (ctx s) (side k)) = SIdle" and gn: "g = next_generation (ctx s)"
    and i: "slot i sd = (if sd = side k then \<lparr>slot_op = SPending k g, slot_waker = Some w\<rparr> else slot (ctx s) sd)"
      "retired i = retired (ctx s)" "next_generation i = g + 1" for sd
    using c by (auto simp: claim_slot_def inner_is_idle_def slot_is_idle_def begin_op_def Let_def split: if_splits)
  have less: "slot_gen (slot_op (slot (ctx s) sd)) = Some g' \<Longrightarrow> g' < g"
    "held s g' \<noteq> None \<Longrightarrow> g' < g" for sd g'
    using D(2) gn by (auto simp: gens_ok_def)
  have fresh: "slot_op (slot (ctx s) sd) \<noteq> SAbandoned k' g" "slot_op (slot (ctx s) sd) \<noteq> SPending k' g"
    "slot_op (slot (ctx s) sd) \<noteq> SComplete g c" for sd k' c
    using less(1) [of sd g] by auto
  have "side_ok ?s sd" for sd
  proof (cases "sd = side k")
    case True
    with D(1) [of sd] idle show ?thesis by (simp add: side_ok_def i)
  next
    case False
    with D(1) [of sd] fresh [of sd] show ?thesis by (auto simp: side_ok_def i split: SlotState.splits)
  qed
  moreover have "gens_ok ?s"
    using D(2) less idle word_less_Suc [OF g]
    by (auto simp: gens_ok_def i split: if_splits dest: less)
  moreover have "retired_ok ?s"
    by (rule retired_ok_other [OF D(3), of "side k"]) (use idle in \<open>auto simp: i\<close>)
  ultimately show ?thesis by (simp add: req_inv_def)
qed


lemma side_ok_frame:
  assumes "side_ok s sd" "slot (ctx s') sd = slot (ctx s) sd" "os s' sd = os s sd"
    and "submitting s' sd = submitting s sd" "dead s' = dead s"
    and "\<And>g. slot_gen (slot_op (slot (ctx s) sd)) = Some g \<Longrightarrow>
      held s' g = held s g \<and> waiting s' g = waiting s g \<and> outcomes s' g = outcomes s g \<and>
      (\<forall>x. (g, x) \<in> set (retired (ctx s)) \<longrightarrow> (g, x) \<in> set (retired (ctx s')))"
  shows "side_ok s' sd"
  using assms unfolding side_ok_def by (auto split: SlotState.splits)

lemma held_side:
  assumes "req_inv s" "held s g = Some (k, b)" "slot_gen (slot_op (slot (ctx s) sd)) = Some g"
  shows "sd = side k"
  using req_invD(1) [OF assms(1), of sd] assms(2,3)
  by (auto simp: side_ok_def slot_gen_cases)

lemma gens_ok_frame:
  assumes "gens_ok s" "next_generation (ctx s') = next_generation (ctx s)"
    and "\<And>sd g. slot_gen (slot_op (slot (ctx s') sd)) = Some g \<Longrightarrow> slot_gen (slot_op (slot (ctx s) sd)) = Some g"
    and "\<And>g. held s' g \<noteq> None \<Longrightarrow> held s g \<noteq> None"
  shows "gens_ok s'"
  using assms unfolding gens_ok_def by metis

lemma gens_unique:
  "req_inv s \<Longrightarrow> slot_gen (slot_op (slot (ctx s) sd)) = Some g \<Longrightarrow>
   slot_gen (slot_op (slot (ctx s) sd')) = Some g \<Longrightarrow> sd' = sd"
  unfolding req_inv_def gens_ok_def by metis

lemma req_inv_accept:
  assumes inv: "req_inv s" and g: "submitting s sd = Some g" and h: "held s g = Some (k, b)"
    and p: "slot_op (slot (ctx s) sd) = SPending k g"
  shows "req_inv (s\<lparr>submitting := (submitting s)(sd := None), os := (os s)(sd \<mapsto> (k, g, b))\<rparr>)" (is "req_inv ?s")
proof -
  note D = req_invD [OF inv]
  have "side_ok ?s sd'" for sd'
  proof (cases "sd' = sd")
    case True
    with D(1) [of sd] p h g show ?thesis by (auto simp: side_ok_def)
  next
    case False
    then show ?thesis by (intro side_ok_frame [OF D(1)]) simp_all
  qed
  moreover have "gens_ok ?s" by (rule gens_ok_frame [OF D(2)]) simp_all
  moreover have "retired_ok ?s" by (rule retired_ok_other [OF D(3), of sd]) (use p in auto)
  ultimately show ?thesis by (simp add: req_inv_def)
qed

lemma req_inv_reject:
  assumes inv: "req_inv s" and g: "submitting s sd = Some g"
  shows "req_inv (s\<lparr>submitting := (submitting s)(sd := None), ctx := rollback sd g (ctx s)\<rparr>)" (is "req_inv ?s")
proof -
  note D = req_invD [OF inv]
  have st: "(\<exists>k. slot_op (slot (ctx s) sd) = SPending k g) \<or> (\<exists>c. slot_op (slot (ctx s) sd) = SComplete g c)"
    using D(1) [of sd] g by (auto simp: side_ok_def split: SlotState.splits)
  have r: "slot (rollback sd g (ctx s)) sd' =
      (if sd' = sd \<and> (\<exists>k. slot_op (slot (ctx s) sd) = SPending k g)
       then (slot (ctx s) sd)\<lparr>slot_op := SIdle\<rparr> else slot (ctx s) sd')"
    "retired (rollback sd g (ctx s)) = retired (ctx s)"
    "next_generation (rollback sd g (ctx s)) = next_generation (ctx s)" for sd'
    using st by (auto simp: rollback_def)
  have "side_ok ?s sd'" for sd'
  proof (cases "sd' = sd")
    case True
    with D(1) [of sd] st g show ?thesis by (auto simp: side_ok_def r)
  next
    case False
    then show ?thesis by (intro side_ok_frame [OF D(1)]) (simp_all add: r)
  qed
  moreover have "gens_ok ?s" by (rule gens_ok_frame [OF D(2)]) (auto simp: r split: if_splits)
  moreover have "retired_ok ?s" by (rule retired_ok_other [OF D(3), of sd]) (use st in \<open>auto simp: r\<close>)
  ultimately show ?thesis by (simp add: req_inv_def)
qed

lemma req_inv_notify:
  assumes inv: "req_inv s" and o: "os s sd = Some (k, g, b)"
  shows "req_inv (s\<lparr>ctx := snd (record_op k (Done n) (ctx s)), os := (os s)(sd := None),
      outcomes := (outcomes s)(g \<mapsto> Done n)\<rparr>)" (is "req_inv ?s")
proof -
  note D = req_invD [OF inv]
  have sd: "sd = side k" and st: "slot_op (slot (ctx s) sd) = SPending k g \<or> slot_op (slot (ctx s) sd) = SAbandoned k g"
    using D(1) [of sd] o by (auto simp: side_ok_def split: SlotState.splits)
  note R = record_op_slots [of "ctx s" k g "Done n", OF st [unfolded sd], folded sd]
  have gn: "slot_gen (slot_op (slot (ctx s) sd)) = Some g" using st by auto
  have "side_ok ?s sd'" for sd'
  proof (cases "sd' = sd")
    case True
    with D(1) [of sd] st o show ?thesis by (auto simp: side_ok_def R)
  next
    case False
    show ?thesis
    proof (rule side_ok_frame [OF D(1)])
      fix g' assume "slot_gen (slot_op (slot (ctx s) sd')) = Some g'"
      then have "g' \<noteq> g" using gens_unique [OF inv gn] False by auto
      then show "held ?s g' = held s g' \<and> waiting ?s g' = waiting s g' \<and> outcomes ?s g' = outcomes s g' \<and>
          (\<forall>x. (g', x) \<in> set (retired (ctx s)) \<longrightarrow> (g', x) \<in> set (retired (ctx ?s)))"
        by (simp add: R)
    qed (use False in \<open>simp_all add: R\<close>)
  qed
  moreover have "gens_ok ?s" by (rule gens_ok_frame [OF D(2)]) (use st in \<open>auto simp: R split: if_splits\<close>)
  moreover have "retired_ok ?s"
    using st
  proof
    assume "slot_op (slot (ctx s) sd) = SPending k g"
    then show ?thesis by (intro retired_ok_other [OF D(3), of sd]) (auto simp: R)
  next
    assume ab: "slot_op (slot (ctx s) sd) = SAbandoned k g"
    show ?thesis
      unfolding retired_ok_def
    proof (intro allI impI)
      fix g' x
      assume "(g', x) \<in> set (retired (ctx ?s))"
      then have g': "g' \<noteq> g" "(g', x) \<in> set (retired (ctx s))" using ab by (auto simp: R)
      then obtain sd' k' where "slot_op (slot (ctx s) sd') = SAbandoned k' g'" "os s sd' = Some (k', g', Some x)"
        using D(3) unfolding retired_ok_def by blast
      moreover from this g' ab have "sd' \<noteq> sd" by auto
      ultimately show "\<exists>sd k. slot_op (slot (ctx ?s) sd) = SAbandoned k g' \<and> os ?s sd = Some (k, g', Some x)"
        by (intro exI [of _ sd'] exI [of _ k']) (simp add: R)
    qed
  qed
  ultimately show ?thesis by (simp add: req_inv_def)
qed

lemma req_inv_error:
  assumes inv: "req_inv s"
  shows "req_inv (s\<lparr>ctx := snd (record_error e (ctx s)), os := (\<lambda>_. None), dead := True,
      outcomes := (\<lambda>g. if pending_gen (ctx s) g then Some (Failed e) else outcomes s g)\<rparr>)" (is "req_inv ?s")
proof -
  note D = req_invD [OF inv]
  note R = record_error_slots [of e "ctx s"]
  have "\<not> pending_gen (ctx s) g" if "slot_op (slot (ctx s) sd) = SComplete g c" for sd g c
  proof
    assume "pending_gen (ctx s) g"
    then obtain sd' k where p: "slot_op (slot (ctx s) sd') = SPending k g" by (auto simp: pending_gen_def)
    have "sd' = sd" by (rule gens_unique [OF inv]) (simp_all add: p that)
    with p that show False by simp
  qed
  then have "side_ok ?s sd" for sd
    using D(1) [of sd]
    by (cases "slot_op (slot (ctx s) sd)") (auto simp: side_ok_def R pending_gen_def)
  moreover have "gens_ok ?s"
    by (rule gens_ok_frame [OF D(2)]) (auto simp: R split: SlotState.splits)
  moreover have "retired_ok ?s"
    using D(3) unfolding retired_ok_def by (simp add: R) blast
  ultimately show ?thesis by (simp add: req_inv_def)
qed


lemma req_inv_waker:
  assumes inv: "req_inv s" and p: "slot_op (slot (ctx s) sd) = SPending k g"
  shows "req_inv (s\<lparr>ctx := set_slot_waker sd (Some w) (ctx s), waiting := (waiting s)(g \<mapsto> w)\<rparr>)" (is "req_inv ?s")
proof -
  note D = req_invD [OF inv]
  have gn: "slot_gen (slot_op (slot (ctx s) sd)) = Some g" using p by simp
  have "side_ok ?s sd'" for sd'
  proof (cases "sd' = sd")
    case True
    with D(1) [of sd] p show ?thesis by (auto simp: side_ok_def)
  next
    case False
    then show ?thesis
      by (intro side_ok_frame [OF D(1)]) (use gens_unique [OF inv gn] in auto)
  qed
  moreover have "gens_ok ?s" by (rule gens_ok_frame [OF D(2)]) (auto split: if_splits)
  moreover have "retired_ok ?s" by (rule retired_ok_other [OF D(3), of sd]) (use p in auto)
  ultimately show ?thesis by (simp add: req_inv_def)
qed

lemma req_inv_collected:
  assumes inv: "req_inv s" and c: "slot_op (slot (ctx s) (side k)) = SComplete g c"
    and h: "held s g = Some (k, b)" and sub: "submitting s (side k) \<noteq> Some g"
  shows "req_inv (s\<lparr>ctx := set_op (side k) SIdle (ctx s), held := (held s)(g := None)\<rparr>)" (is "req_inv ?s")
proof -
  note D = req_invD [OF inv]
  have gn: "slot_gen (slot_op (slot (ctx s) (side k))) = Some g" using c by simp
  have "side_ok ?s sd'" for sd'
  proof (cases "sd' = side k")
    case True
    with D(1) [of "side k"] c sub show ?thesis by (auto simp: side_ok_def)
  next
    case False
    then show ?thesis
      by (intro side_ok_frame [OF D(1)]) (use gens_unique [OF inv gn] in auto)
  qed
  moreover have "gens_ok ?s" by (rule gens_ok_frame [OF D(2)]) (auto split: if_splits)
  moreover have "retired_ok ?s" by (rule retired_ok_other [OF D(3), of "side k"]) (use c in auto)
  ultimately show ?thesis by (simp add: req_inv_def)
qed

lemma req_inv_dropped:
  assumes inv: "req_inv s" and h: "held s g = Some (k, b)" and sub: "submitting s (side k) \<noteq> Some g"
  shows "req_inv (s\<lparr>ctx := inner_abandon (side k) g b (ctx s), held := (held s)(g := None)\<rparr>)" (is "req_inv ?s")
proof -
  note D = req_invD [OF inv]
  let ?o = "slot_op (slot (ctx s) (side k))"
  consider (own) k' where "?o = SPending k' g" | (complete) c where "?o = SComplete g c"
    | (other) "slot_gen ?o \<noteq> Some g"
  proof (cases "slot_gen ?o = Some g")
    case True
    moreover have "?o \<noteq> SAbandoned k' g" for k' using D(1) [of "side k"] h by (auto simp: side_ok_def)
    ultimately show ?thesis using that(1,2) unfolding slot_gen_cases by blast
  qed (rule that(3))
  then show ?thesis
  proof cases
    case complete
    then have "inner_abandon (side k) g b (ctx s) = set_op (side k) SIdle (ctx s)"
      by (simp add: inner_abandon_def)
    then show ?thesis using req_inv_collected [OF inv complete h sub] by simp
  next
    case other
    then have same: "inner_abandon (side k) g b (ctx s) = ctx s"
      by (cases ?o) (auto simp: inner_abandon_def)
    have ng: "slot_gen (slot_op (slot (ctx s) sd)) \<noteq> Some g" for sd
      using held_side [OF inv h] other by metis
    have "side_ok ?s sd" for sd
    proof (rule side_ok_frame [OF D(1)])
      fix g' assume "slot_gen (slot_op (slot (ctx s) sd)) = Some g'"
      then have "g' \<noteq> g" using ng [of sd] by auto
      then show "held ?s g' = held s g' \<and> waiting ?s g' = waiting s g' \<and> outcomes ?s g' = outcomes s g' \<and>
          (\<forall>x. (g', x) \<in> set (retired (ctx s)) \<longrightarrow> (g', x) \<in> set (retired (ctx ?s)))"
        by (simp add: same)
    qed (simp_all add: same)
    moreover have "gens_ok ?s" by (rule gens_ok_frame [OF D(2)]) (auto simp: same split: if_splits)
    moreover have "retired_ok ?s" using D(3) by (simp add: retired_ok_def same)
    ultimately show ?thesis by (simp add: req_inv_def)
  next
    case own
    obtain b' where b': "held s g = Some (k', b')"
      "submitting s (side k) = Some g \<and> os s (side k) = None \<or>
       submitting s (side k) = None \<and> os s (side k) = Some (k', g, b')"
      using D(1) [of "side k", unfolded side_ok_def own SlotState.case] by blast
    have k': "k' = k" using b'(1) h by simp
    have o: "os s (side k) = Some (k, g, b)" using b' h sub by (metis option.inject prod.inject)
    have A: "slot (inner_abandon (side k) g b (ctx s)) sd =
        (if sd = side k then (slot (ctx s) sd)\<lparr>slot_op := SAbandoned k g\<rparr> else slot (ctx s) sd)"
      "retired (inner_abandon (side k) g b (ctx s)) =
        retired (ctx s) @ (case b of Some x \<Rightarrow> [(g, x)] | None \<Rightarrow> [])"
      "next_generation (inner_abandon (side k) g b (ctx s)) = next_generation (ctx s)" for sd
      using own k' by (auto simp: inner_abandon_def split: option.splits)
    have gn: "slot_gen (slot_op (slot (ctx s) (side k))) = Some g" using own by simp
    have "side_ok ?s sd" for sd
    proof (cases "sd = side k")
      case True
      with D(1) [of "side k"] own k' o show ?thesis by (auto simp: side_ok_def A)
    next
      case False
      show ?thesis
      proof (rule side_ok_frame [OF D(1)])
        fix g' assume "slot_gen (slot_op (slot (ctx s) sd)) = Some g'"
        then have "g' \<noteq> g" using gens_unique [OF inv gn] False by auto
        then show "held ?s g' = held s g' \<and> waiting ?s g' = waiting s g' \<and> outcomes ?s g' = outcomes s g' \<and>
            (\<forall>x. (g', x) \<in> set (retired (ctx s)) \<longrightarrow> (g', x) \<in> set (retired (ctx ?s)))"
          by (simp add: A)
      qed (use False in \<open>simp_all add: A\<close>)
    qed
    moreover have "gens_ok ?s" by (rule gens_ok_frame [OF D(2)]) (use own in \<open>auto simp: A split: if_splits\<close>)
    moreover have "retired_ok ?s"
      unfolding retired_ok_def
    proof (intro allI impI)
      fix g' x
      assume "(g', x) \<in> set (retired (ctx ?s))"
      then consider "(g', x) \<in> set (retired (ctx s))" | "g' = g" "b = Some x"
        by (auto simp: A split: option.splits)
      then show "\<exists>sd k. slot_op (slot (ctx ?s) sd) = SAbandoned k g' \<and> os ?s sd = Some (k, g', Some x)"
      proof cases
        case 1
        then obtain sd k2 where "slot_op (slot (ctx s) sd) = SAbandoned k2 g'" "os s sd = Some (k2, g', Some x)"
          using D(3) unfolding retired_ok_def by blast
        moreover from this own have "sd \<noteq> side k" by auto
        ultimately show ?thesis by (intro exI [of _ sd] exI [of _ k2]) (simp add: A)
      next
        case 2
        have "slot_op (slot (ctx ?s) (side k)) = SAbandoned k g" by (simp add: A)
        then show ?thesis using o 2 by (intro exI [of _ "side k"] exI [of _ k]) simp
      qed
    qed
    ultimately show ?thesis by (simp add: req_inv_def)
  qed
qed

lemma collect_cases:
  assumes "collect k w g i = (r, i')"
  shows "(\<exists>c. slot_op (slot i (side k)) = SComplete g c \<and> i' = set_op (side k) SIdle i \<and>
      r = Ready (case c of Done n \<Rightarrow> Inr n | Failed e \<Rightarrow> Inl e)) \<or>
    r = Pending \<and> i' = set_slot_waker (side k) (Some w) i"
  using assms
  by (auto simp: collect_def inner_take_completion_def split: SlotState.splits Completion.splits if_splits)

lemma req_inv_retained:
  assumes inv: "req_inv s"
  shows "req_inv (s\<lparr>ctx := retain_send_buffer x (ctx s)\<rparr>)" (is "req_inv ?s")
proof -
  note D = req_invD [OF inv]
  have "side_ok ?s sd" for sd by (rule side_ok_frame [OF D(1)]) (simp_all add: retain_send_buffer_def)
  moreover have "gens_ok ?s" by (rule gens_ok_frame [OF D(2)]) (simp_all add: retain_send_buffer_def)
  moreover have "retired_ok ?s" using D(3) by (simp add: retired_ok_def retain_send_buffer_def)
  ultimately show ?thesis by (simp add: req_inv_def)
qed

lemma req_inv_step:
  assumes "req_step s s'" "\<not> shut s'" "req_inv s"
  shows "req_inv s'"
  using assms
proof (induction rule: req_step.induct)
  case (claim k w s g i b xs)
  from req_inv_claim [OF claim.prems(2) claim.hyps(1,2), of b] show ?case by simp
next
  case (accept s sd g k b)
  then have "slot_op (slot (ctx s) sd) = SPending k g"
    using req_invD(1) [OF accept.prems(2), of sd] by (auto simp: side_ok_def split: SlotState.splits)
  from req_inv_accept [OF accept.prems(2) accept.hyps(1,2) this] show ?case by simp
next
  case (reject s sd g)
  from req_inv_reject [OF reject.prems(2) reject.hyps] show ?case by simp
next
  case (notify s sd k g b n)
  from req_inv_notify [OF notify.prems(2) notify.hyps, of n] show ?case by simp
next
  case (error s e)
  from req_inv_error [OF error.prems(2), of e] show ?case by simp
next
  case (retained s g x xs)
  from req_inv_retained [OF retained.prems(2), of x] show ?case by simp
next
  case (collected s g k b w r i)
  with collect_cases [OF collected(3)] show ?case by (auto intro: req_inv_collected)
next
  case (waits s g k b w i)
  with collect_cases [OF waits(3)] show ?case by (auto intro: req_inv_waker)
next
  case (dropped s g k b)
  then show ?case by (intro req_inv_dropped)
next
  case (closed s)
  then show ?case by simp
qed


text \<open>
  The boxes of a send. What the platform may read is still owned by the future whose poll submits it or
  already in the retention; only a generation handed out can own boxes.
\<close>

definition send_inv :: "('w, 'b) request \<Rightarrow> bool" where
  "send_inv s \<longleftrightarrow>
     (\<forall>x\<in>set (lent s). x \<in> set (send_retention (ctx s)) \<or> (\<exists>g. x \<in> set (sending s g))) \<and>
     (\<forall>g. sending s g \<noteq> [] \<longrightarrow> g < next_generation (ctx s))"

lemma send_inv_frame:
  assumes "send_inv s" "set (lent s') \<subseteq> set (lent s)" "sending s' = sending s"
    and "send_retention (ctx s') = send_retention (ctx s) \<or> lent s' = []"
    and "next_generation (ctx s') = next_generation (ctx s)"
  shows "send_inv s'"
  using assms unfolding send_inv_def by (metis empty_iff list.set(1) subsetD)

lemma record_op_retention:
  "send_retention (snd (record_op k c i)) = (if k = OpReceiveResponse then [] else send_retention i)"
  "next_generation (snd (record_op k c i)) = next_generation i"
  by (auto simp: record_op_def Let_def split: SlotState.split)

lemma abandon_retention:
  "send_retention (inner_abandon sd g b i) = send_retention i"
  "next_generation (inner_abandon sd g b i) = next_generation i"
  by (auto simp: inner_abandon_def split: SlotState.split option.split)

lemma rollback_retention:
  "send_retention (rollback sd g i) = send_retention i" "next_generation (rollback sd g i) = next_generation i"
  by (auto simp: rollback_def split: SlotState.split)

lemma collect_retention:
  assumes "collect k w g i = (r, i')"
  shows "send_retention i' = send_retention i" "next_generation i' = next_generation i"
  using collect_cases [OF assms] by auto

lemma claim_retention:
  assumes "claim_slot k w i = Some (g, i')"
  shows "send_retention i' = send_retention i" "next_generation i' = g + 1" "g = next_generation i"
  using assms by (auto simp: claim_slot_def begin_op_def Let_def split: if_splits)

lemma send_inv_claim:
  assumes inv: "send_inv s" and c: "claim_slot k w (ctx s) = Some (g, i)" and g: "g \<noteq> - 1"
    and i: "ctx s' = i" "lent s' = lent s" "sending s' = (sending s)(g := xs)"
  shows "send_inv s'"
proof -
  note C = claim_retention [OF c]
  have "sending s g = []" using inv C(3) unfolding send_inv_def by (metis order_less_irrefl)
  then have own: "x \<in> set (sending s g') \<Longrightarrow> x \<in> set (sending s' g')" for x g' by (auto simp: i)
  have lent: "x \<in> set (send_retention (ctx s')) \<or> (\<exists>g. x \<in> set (sending s' g))" if "x \<in> set (lent s')" for x
    using inv own that unfolding send_inv_def i C(1) by metis
  have "g' < next_generation (ctx s')" if "sending s' g' \<noteq> []" for g'
    unfolding i C(2) by (rule word_less_Suc [OF g]) (use inv that C(3) in \<open>auto simp: send_inv_def i split: if_splits\<close>)
  with lent show ?thesis by (simp add: send_inv_def)
qed

lemma send_inv_step:
  assumes "req_step s s'" "send_inv s"
  shows "send_inv s'"
  using assms
proof (induction rule: req_step.induct)
  case (claim k w s g i b xs)
  from claim.prems claim.hyps(1,2) show ?case by (rule send_inv_claim) simp_all
next
  case (accept s sd g k b)
  then show ?case unfolding send_inv_def by auto
next
  case (reject s sd g)
  then show ?case unfolding send_inv_def by (auto simp: rollback_retention)
next
  case (notify s sd k g b n)
  from notify.prems show ?case by (rule send_inv_frame) (simp_all add: record_op_retention)
next
  case (error s e)
  from error.prems show ?case by (rule send_inv_frame) (simp_all add: record_error_slots)
next
  case (retained s g x xs)
  let ?s = "s\<lparr>ctx := retain_send_buffer x (ctx s), sending := (sending s)(g := xs)\<rparr>"
  have "y \<in> set (send_retention (ctx ?s)) \<or> (\<exists>g'. y \<in> set (sending ?s g'))"
    if "y \<in> set (send_retention (ctx s)) \<or> (\<exists>g'. y \<in> set (sending s g'))" for y
    using that
  proof
    assume "\<exists>g'. y \<in> set (sending s g')"
    then obtain g' where g': "y \<in> set (sending s g')" by blast
    show ?thesis
    proof (cases "g' = g")
      case True
      with g' retained.hyps(1) show ?thesis by (auto simp: retain_send_buffer_def)
    next
      case False
      with g' show ?thesis by (intro disjI2 exI [of _ g']) simp
    qed
  qed (simp add: retain_send_buffer_def)
  then show ?case using retained unfolding send_inv_def by (auto simp: retain_send_buffer_def)
next
  case (collected s g k b w r i)
  from collected.prems show ?case by (rule send_inv_frame) (simp_all add: collect_retention [OF collected.hyps(3)])
next
  case (waits s g k b w i)
  from waits.prems show ?case by (rule send_inv_frame) (simp_all add: collect_retention [OF waits.hyps(3)])
next
  case (dropped s g k b)
  from dropped.prems show ?case by (rule send_inv_frame) (simp_all add: abandon_retention)
next
  case (closed s)
  from closed.prems show ?case by (rule send_inv_frame) (simp_all add: closing_def Let_def)
qed

lemma req_reachable_sends: "req_reachable s \<Longrightarrow> send_inv s"
proof (induction rule: req_reachable.induct)
  case start
  show ?case by (simp add: send_inv_def request_new_def)
qed (rule send_inv_step)

text \<open>
  The poll of a new \<open>SendRequest\<close>: once a generation exists, the call having been accepted or failed,
  the body and the header block are in the retention and the future owns neither; its drop retires nothing.
\<close>

lemma send_request_poll_moves:
  assumes "send_request_poll hr e D W w (send_request_new hs c n) i = (r, f, i')"
  shows "(if sr_generation f = None then f = send_request_new hs c n
      else sr_body f = None \<and> sr_headers f = None \<and> BoxBuffer c \<in> set (send_retention i') \<and>
           (\<forall>h. hs = Some h \<longrightarrow> BoxWide h \<in> set (send_retention i')))"
  using assms
  by (auto simp: send_request_poll_def send_request_new_def retain_send_buffer_def Let_def
      split: if_splits prod.splits option.splits)

lemma send_request_drop_retires_nothing:
  "send_retention (send_request_drop f i) = send_retention i \<and> retired (send_request_drop f i) = retired i"
  by (auto simp: send_request_drop_def request_abandon_def inner_abandon_def
      split: option.split SlotState.split)

lemma req_shut_keeps: "req_step s s' \<Longrightarrow> \<not> shut s' \<Longrightarrow> \<not> shut s"
  by (induction rule: req_step.induct) simp_all

lemma req_reachable_inv: "req_reachable s \<Longrightarrow> \<not> shut s \<Longrightarrow> req_inv s"
  by (induction rule: req_reachable.induct) (auto intro: req_inv_new req_inv_step)

text \<open>A request with a write accepted by the platform, and the same after its future was dropped.\<close>

definition writing :: "(nat, string) request" where
  "writing = request_new\<lparr>
     ctx := set_slot_waker WriteSide (Some 9) (begin_op OpWrite 1 (context_new\<lparr>next_generation := 1 + 1\<rparr>)),
     os := (\<lambda>_. None)(WriteSide \<mapsto> (OpWrite, 1, Some ''body'')),
     held := [1 \<mapsto> (OpWrite, Some ''body'')], submitting := (\<lambda>_. None), waiting := [1 \<mapsto> 9]\<rparr>"

definition abandoned :: "(nat, string) request" where
  "abandoned = writing\<lparr>ctx := inner_abandon WriteSide 1 (Some ''body'') (ctx writing), held := \<lambda>_. None\<rparr>"

lemma not_shut_writing: "\<not> shut writing" "\<not> shut abandoned"
  by (simp_all add: writing_def abandoned_def request_new_def)

lemma fun_upd_const [simp]: "(\<lambda>_. c)(x := c) = (\<lambda>_. c)"
  by (rule ext) simp

lemma writing_reachable: "req_reachable writing"
proof -
  let ?i = "set_slot_waker WriteSide (Some (9::nat)) (begin_op OpWrite 1 (context_new\<lparr>next_generation := 1 + 1\<rparr>))"
  have "claim_slot OpWrite 9 (ctx request_new) = Some (1, ?i)"
    by (simp add: claim_slot_def inner_is_idle_def slot_is_idle_def request_new_def slot_new_def)
      (simp add: context_new_def)
  from req_step.claim [OF this, of "Some ''body''" "[]"]
  have 1: "req_reachable (request_new\<lparr>ctx := ?i, held := [1 \<mapsto> (OpWrite, Some ''body'')],
      submitting := [WriteSide \<mapsto> 1], waiting := [1 \<mapsto> 9]\<rparr>)" (is "req_reachable ?s")
    by (intro req_reachable.step [OF req_reachable.start]) (simp_all add: request_new_def)
  have "req_step ?s (?s\<lparr>submitting := (submitting ?s)(WriteSide := None),
      os := (os ?s)(WriteSide \<mapsto> (OpWrite, 1, Some ''body'')), lent := lent ?s @ sending ?s 1\<rparr>)"
    by (rule req_step.accept) (simp_all add: request_new_def)
  also have "?s\<lparr>submitting := (submitting ?s)(WriteSide := None),
      os := (os ?s)(WriteSide \<mapsto> (OpWrite, 1, Some ''body'')), lent := lent ?s @ sending ?s 1\<rparr> = writing"
    by (simp add: writing_def request_new_def)
  finally have "req_step ?s writing" .
  moreover have "\<not> shut ?s" by (simp add: request_new_def)
  ultimately show ?thesis using req_reachable.step [OF 1] by blast
qed

lemma abandoned_reachable: "req_reachable abandoned"
proof -
  have "req_step writing (writing\<lparr>ctx := inner_abandon (side OpWrite) 1 (Some ''body'') (ctx writing),
      held := (held writing)(1 := None)\<rparr>)"
    by (rule req_step.dropped) (simp_all add: writing_def request_new_def)
  moreover have "writing\<lparr>ctx := inner_abandon (side OpWrite) 1 (Some ''body'') (ctx writing),
      held := (held writing)(1 := None)\<rparr> = abandoned"
    by (simp add: abandoned_def) (simp add: writing_def)
  ultimately show ?thesis
    by (metis (no_types, lifting) req_reachable.step writing_reachable not_shut_writing)
qed

text \<open>A send whose future was dropped after its poll: accepted by the platform, its body in the retention.\<close>

definition send_submitting :: "(nat, string) request" where
  "send_submitting = request_new\<lparr>
     ctx := set_slot_waker WriteSide (Some 9) (begin_op OpSend 1 (context_new\<lparr>next_generation := 1 + 1\<rparr>)),
     held := [1 \<mapsto> (OpSend, None)], submitting := [WriteSide \<mapsto> 1], waiting := [1 \<mapsto> 9],
     sending := (\<lambda>_. [])(1 := [''body''])\<rparr>"

definition send_accepted :: "(nat, string) request" where
  "send_accepted = send_submitting\<lparr>submitting := (submitting send_submitting)(WriteSide := None),
     os := (os send_submitting)(WriteSide \<mapsto> (OpSend, 1, None)),
     lent := lent send_submitting @ sending send_submitting 1\<rparr>"

definition send_kept :: "(nat, string) request" where
  "send_kept = send_accepted\<lparr>ctx := retain_send_buffer ''body'' (ctx send_accepted),
     sending := (sending send_accepted)(1 := [])\<rparr>"

definition send_gone :: "(nat, string) request" where
  "send_gone = send_kept\<lparr>ctx := inner_abandon (side OpSend) 1 None (ctx send_kept), held := (held send_kept)(1 := None)\<rparr>"

lemma send_gone_reachable: "req_reachable send_gone" "\<not> shut send_gone"
proof -
  note S = send_submitting_def send_accepted_def send_kept_def send_gone_def request_new_def
  let ?i = "set_slot_waker WriteSide (Some (9::nat)) (begin_op OpSend 1 (context_new\<lparr>next_generation := 1 + 1\<rparr>))"
  have "claim_slot OpSend 9 (ctx request_new) = Some (1, ?i)"
    by (simp add: claim_slot_def inner_is_idle_def slot_is_idle_def request_new_def slot_new_def)
      (simp add: context_new_def)
  from req_step.claim [OF this, of None "[''body'']"] have "req_step request_new send_submitting" by (simp add: S)
  moreover have "req_step send_submitting send_accepted"
    unfolding send_accepted_def by (rule req_step.accept) (simp_all add: S)
  moreover have "req_step send_accepted send_kept"
    unfolding send_kept_def by (rule req_step.retained) (simp_all add: S)
  moreover have "req_step send_kept send_gone"
    unfolding send_gone_def by (rule req_step.dropped) (simp_all add: S)
  moreover have "\<not> shut request_new" "\<not> shut send_submitting" "\<not> shut send_accepted" "\<not> shut send_kept"
    by (simp_all add: S)
  ultimately show "req_reachable send_gone" by (metis req_reachable.intros)
  show "\<not> shut send_gone" by (simp add: S)
qed

section \<open>Properties\<close>

text \<open>
  Property C3. A buffer WinHTTP is using is never freed, on any interleaving of polls, drops and
  notifications. For every operation the platform has accepted and not yet reported, on either side, the
  buffer it was given is still owned by the live future of that operation or sits in the retired list under
  the operation's generation. The body and the header block of a send, which the platform may read until the
  response is received, a request error or the closing of the handle, and also after a call that failed at
  once, are never in the retired list's care: each is in \<open>send_retention\<close>, or still owned by the future
  whose poll is submitting it. And that poll ends owning none of them: once a generation exists both are in
  the retention, and dropping the future afterwards neither retires nor releases anything.
\<close>

theorem platform_buffer_alive:
  assumes "req_reachable s" "\<not> shut s"
  shows "(\<forall>sd k g x. os s sd = Some (k, g, Some x) \<longrightarrow>
      held s g = Some (k, Some x) \<or> (g, x) \<in> set (retired (ctx s))) \<and>
    (\<forall>x\<in>set (lent s). x \<in> set (send_retention (ctx s)) \<or> (\<exists>g. x \<in> set (sending s g))) \<and>
    (\<forall>hr e D W w hs c n i r f i'. send_request_poll hr e D W w (send_request_new hs c n) i = (r, f, i') \<longrightarrow>
      (if sr_generation f = None then f = send_request_new hs c n
       else sr_body f = None \<and> sr_headers f = None \<and> BoxBuffer c \<in> set (send_retention i') \<and>
            (\<forall>h. hs = Some h \<longrightarrow> BoxWide h \<in> set (send_retention i')))) \<and>
    (\<forall>f i. send_retention (send_request_drop f i) = send_retention i \<and> retired (send_request_drop f i) = retired i)"
proof (intro conjI)
  show "\<forall>sd k g x. os s sd = Some (k, g, Some x) \<longrightarrow>
      held s g = Some (k, Some x) \<or> (g, x) \<in> set (retired (ctx s))"
  proof (intro allI impI)
    fix sd k g x
    assume "os s sd = Some (k, g, Some x)"
    with req_invD(1) [OF req_reachable_inv [OF assms], of sd]
    show "held s g = Some (k, Some x) \<or> (g, x) \<in> set (retired (ctx s))"
      by (auto simp: side_ok_def split: SlotState.splits)
  qed
  show "\<forall>x\<in>set (lent s). x \<in> set (send_retention (ctx s)) \<or> (\<exists>g. x \<in> set (sending s g))"
    using req_reachable_sends [OF assms(1)] by (simp add: send_inv_def)
qed (use send_request_poll_moves send_request_drop_retires_nothing in blast)+

theorem platform_buffer_alive_witness:
  "(1, ''body'') \<in> set (retired (ctx abandoned)) \<and> ''body'' \<in> set (send_retention (ctx send_gone))"
proof
  from platform_buffer_alive [OF abandoned_reachable not_shut_writing(2)]
  have "\<forall>sd k g x. os abandoned sd = Some (k, g, Some x) \<longrightarrow>
      held abandoned g = Some (k, Some x) \<or> (g, x) \<in> set (retired (ctx abandoned))" by (rule conjunct1)
  moreover have "os abandoned WriteSide = Some (OpWrite, 1, Some ''body'')" "held abandoned 1 = None"
    by (simp_all add: abandoned_def writing_def)
  ultimately show "(1, ''body'') \<in> set (retired (ctx abandoned))" by (metis option.distinct(1))
  from platform_buffer_alive [OF send_gone_reachable]
  have "\<forall>x\<in>set (lent send_gone). x \<in> set (send_retention (ctx send_gone)) \<or> (\<exists>g. x \<in> set (sending send_gone g))"
    by (elim conjE)
  then show "''body'' \<in> set (send_retention (ctx send_gone))"
    by (simp add: send_gone_def send_kept_def send_accepted_def send_submitting_def request_new_def)
qed

text \<open>
  Nothing is retired for longer than needed: every retired buffer belongs to an abandoned
  operation that the platform still has outstanding, so the list is empty whenever both slots are idle.
\<close>

theorem retired_only_while_outstanding:
  assumes "req_reachable s" "\<not> shut s" "(g, x) \<in> set (retired (ctx s))"
  shows "\<exists>sd k. slot_op (slot (ctx s) sd) = SAbandoned k g \<and> os s sd = Some (k, g, Some x)"
  using req_invD(3) [OF req_reachable_inv [OF assms(1,2)]] assms(3) by (simp add: retired_ok_def)

theorem retired_only_while_outstanding_witness:
  "\<exists>sd k. os abandoned sd = Some (k, 1, Some ''body'')"
proof -
  have "(1, ''body'') \<in> set (retired (ctx abandoned))"
    by (simp add: abandoned_def writing_def inner_abandon_def begin_op_def)
  from retired_only_while_outstanding [OF abandoned_reachable not_shut_writing(2) this] show ?thesis by blast
qed

text \<open>
  Property C15. The completion reaches its own future: when the platform reports an operation whose
  future is still alive, the callback stores the outcome under that future's generation and wakes the
  waker of its last poll; what a future then collects is what the platform reported for its generation.
\<close>

theorem completion_reaches_its_future:
  assumes "req_reachable s" "\<not> shut s" "os s sd = Some (k, g, b)" "held s g = Some (k, b')"
  shows "fst (record_op k c (ctx s)) = waiting s g \<and> waiting s g \<noteq> None \<and>
    slot_op (slot (snd (record_op k c (ctx s))) sd) = SComplete g c \<and>
    collect k w g (snd (record_op k c (ctx s))) =
      (Ready (case c of Done n \<Rightarrow> Inr n | Failed e \<Rightarrow> Inl e), set_op sd SIdle (snd (record_op k c (ctx s))))"
proof -
  have st: "slot_op (slot (ctx s) sd) = SPending k g" "sd = side k" "slot_waker (slot (ctx s) sd) = waiting s g"
    "waiting s g \<noteq> None"
    using req_invD(1) [OF req_reachable_inv [OF assms(1,2)], of sd] assms(3,4)
    by (auto simp: side_ok_def split: SlotState.splits)
  note R = record_op_slots [of "ctx s" k g c, OF disjI1, OF st(1) [unfolded st(2)]]
  show ?thesis
    using st(1,3,4) unfolding st(2)
    by (simp add: R collect_def inner_take_completion_def split: Completion.split)
qed

theorem completion_reaches_its_future_witness:
  "fst (record_op OpWrite (Done 4) (ctx writing)) = Some 9"
  using completion_reaches_its_future [OF writing_reachable not_shut_writing(1), of WriteSide OpWrite 1
      "Some ''body''" "Some ''body''" "Done 4" 0]
  by (simp add: writing_def)

text \<open>
  A request error fails whatever is in flight on either side: afterwards both slots are idle
  or complete, each pending future's slot holds the error under its own generation and its waker is
  returned for waking, and no abandoned buffer stays behind.
\<close>

theorem request_error_fails_both_sides:
  assumes "req_reachable s" "\<not> shut s"
  shows "retired (snd (record_error e (ctx s))) = [] \<and>
    (\<forall>sd. slot_op (slot (snd (record_error e (ctx s))) sd) =
       (case slot_op (slot (ctx s) sd) of
          SPending k g \<Rightarrow> SComplete g (Failed e) | SAbandoned k g \<Rightarrow> SIdle | x \<Rightarrow> x))"
proof -
  note R = record_error_slots [of e "ctx s"]
  have "set (retired (snd (record_error e (ctx s)))) = {}"
    unfolding R using req_invD(3) [OF req_reachable_inv [OF assms]] by (fastforce simp: retired_ok_def)
  then have "retired (snd (record_error e (ctx s))) = []" by (simp only: set_empty)
  moreover have "slot_op (slot (snd (record_error e (ctx s))) sd) =
      (case slot_op (slot (ctx s) sd) of
         SPending k g \<Rightarrow> SComplete g (Failed e) | SAbandoned k g \<Rightarrow> SIdle | x \<Rightarrow> x)" for sd
    by (auto simp: R split: SlotState.split)
  ultimately show ?thesis by blast
qed

theorem request_error_fails_both_sides_witness:
  "retired (snd (record_error 5 (ctx abandoned))) = []"
  using request_error_fails_both_sides [OF abandoned_reachable not_shut_writing(2)] by simp

text \<open>
  A slot is never overwritten (the code's invariant G): polling a fresh operation while its
  side holds anything but \<open>SIdle\<close> returns the in-progress error, makes no WinHTTP call and leaves the
  whole context as it was; on an idle side the operation gets a generation no other slot or future has.
\<close>

theorem busy_slot_never_overwritten:
  assumes "req_reachable s" "\<not> shut s"
  shows "(if slot_op (slot (ctx s) (side k)) = SIdle
     then (\<exists>g i. claim_slot k w (ctx s) = Some (g, i) \<and> held s g = None \<and>
             slot_op (slot i (side k)) = SPending k g \<and>
             (\<forall>sd. slot_gen (slot_op (slot (ctx s) sd)) \<noteq> Some g))
     else poll_operation e k None w submit (ctx s) = (Ready (Inl e), None, ctx s))"
proof -
  have "gens_ok s" using req_invD(2) [OF req_reachable_inv [OF assms]] .
  then have "held s (next_generation (ctx s)) = None"
    "slot_gen (slot_op (slot (ctx s) sd)) \<noteq> Some (next_generation (ctx s))" for sd
    unfolding gens_ok_def by (metis order_less_irrefl)+
  then show ?thesis
    by (auto simp: claim_slot_def inner_is_idle_def slot_is_idle_def poll_operation_def begin_op_def Let_def)
qed

theorem busy_slot_never_overwritten_witness:
  "poll_operation 7 OpSend None 3 (\<lambda>i. (Accepted, i)) (ctx writing) = (Ready (Inl 7), None, ctx writing)"
proof -
  have "slot_op (slot (ctx writing) (side OpSend)) \<noteq> SIdle" by (simp add: writing_def begin_op_def)
  with busy_slot_never_overwritten [OF writing_reachable not_shut_writing(1), of OpSend 3 7 "\<lambda>i. (Accepted, i)"]
  show ?thesis by simp
qed

text \<open>
  \<^verbatim>\<open>ReadData\<close> publishes no more than WinHTTP was asked to write: into a vector it reports at
  most the requested length and sets the vector's length to exactly what it reports.
\<close>

theorem read_data_publishes_reported:
  assumes "valid_vec v"
    and "read_data_poll hr e vec_IoBufMut W w f i = Some (Ready (Inr n, v'), f', i')"
    and "rdt_buffer f = Some v" "rdt_capacity f = vcap v"
  shows "n \<le> vcap v \<and> v' = v\<lparr>vlen := n\<rparr>"
proof -
  have c: "unat (clamp_u32 x) \<le> x" for x
    by (simp add: clamp_u32_def unat_of_nat)
  from assms(2-4) show ?thesis
    by (auto simp: read_data_poll_def vec_IoBufMut_def Let_def le_trans [OF min.cobounded2 c]
        split: if_splits prod.splits poll.splits sum.splits)
qed

theorem read_data_publishes_reported_witness:
  "\<exists>f' i'. read_data_poll hr_win32 7 vec_IoBufMut
       (\<lambda>p n i. (Accepted, snd (record_op OpRead (Done 3) i))) (9::nat)
       \<lparr>rdt_buffer = Some \<lparr>vptr = 100, vcap = 4, vlen = 0\<rparr>, rdt_capacity = 4, rdt_generation = None\<rparr> context_new =
     Some (Ready (Inr 3, \<lparr>vptr = 100, vcap = 4, vlen = 3\<rparr>), f', i')"
proof -
  let ?W = "\<lambda>(p::nat) (n::u32) i. (Accepted, snd (record_op OpRead (Done 3) i))"
  let ?v = "\<lparr>vptr = 100, vcap = 4, vlen = 0\<rparr> :: vec"
  let ?f = "\<lparr>rdt_buffer = Some ?v, rdt_capacity = 4, rdt_generation = None\<rparr>"
  obtain v' f' i' where run: "read_data_poll hr_win32 7 vec_IoBufMut ?W (9::nat) ?f context_new = Some (Ready (Inr 3, v'), f', i')"
    by (simp add: read_data_poll_def vec_IoBufMut_def Let_def clamp_u32_def poll_operation_def claim_slot_def
        inner_is_idle_def slot_is_idle_def slot_new_def begin_op_def record_op_def collect_def
        inner_take_completion_def)
  from read_data_publishes_reported [OF _ run, of ?v] have "v' = ?v\<lparr>vlen := 3\<rparr>" by (simp add: valid_vec_def)
  with run show ?thesis by simp
qed

end
