(* ===== verification/Http_Errors.thy ===== *)
theory Http_Errors
  imports Errors
begin

text \<open>
  The errors of the HTTP layer, \<^verbatim>\<open>winasio-util/src/error.rs\<close>, and the values of the \<^verbatim>\<open>http\<close> crate the
  layer handles.

  A header name is represented by its \<^verbatim>\<open>as_str\<close> bytes and a header value by its \<^verbatim>\<open>as_bytes\<close>, which is all
  the sources look at; a Rust \<^verbatim>\<open>str\<close> is the list of its Unicode scalar values. A boxed foreign error is a
  value of type \<open>'e\<close>. The operations of the \<^verbatim>\<open>http\<close> crate are arguments, gathered in the record \<open>http\<close>, and
  \<open>header_map_laws\<close> states what the layer relies on: the documented behaviour of \<^verbatim>\<open>HeaderMap\<close>.
\<close>

section \<open>Values of the http crate\<close>

type_synonym bytes = "u8 list"
type_synonym str = "nat list"
type_synonym header_name = bytes
type_synonym header_value = bytes

record 'm http =
  hm_new :: 'm
  hm_append :: "'m \<Rightarrow> header_name \<Rightarrow> header_value \<Rightarrow> 'm"
  hm_iter :: "'m \<Rightarrow> (header_name \<times> header_value) list"
  name_from_bytes :: "bytes \<Rightarrow> header_name option"
  value_from_bytes :: "bytes \<Rightarrow> header_value option"
  value_from_str :: "str \<Rightarrow> header_value option"
  value_to_str :: "header_value \<Rightarrow> str option"

text \<open>\<^verbatim>\<open>get_all\<close>: the values under one name, in the order they were appended.\<close>

definition hm_get_all :: "('m, 'z) http_scheme \<Rightarrow> 'm \<Rightarrow> header_name \<Rightarrow> header_value list" where
  "hm_get_all H m n = map snd (filter (\<lambda>p. fst p = n) (hm_iter H m))"

definition header_map_laws :: "('m, 'z) http_scheme \<Rightarrow> bool" where
  "header_map_laws H \<longleftrightarrow> hm_iter H (hm_new H) = [] \<and>
     (\<forall>m k v n. hm_get_all H (hm_append H m k v) n = hm_get_all H m n @ (if k = n then [v] else []))"

text \<open>The bytes of an ASCII literal, and of a \<^verbatim>\<open>str\<close> all of whose characters are ASCII.\<close>

definition lit :: "string \<Rightarrow> bytes" where
  "lit s = map of_char s"

definition ascii_str :: "str \<Rightarrow> bytes" where
  "ascii_str s = map of_nat s"

section \<open>Client errors\<close>

datatype HeaderReason = NotVisibleAscii

datatype RequestReason = ReasonMethod | ReasonTarget | ReasonHeaderName | ReasonHeaderValue

datatype 'e BodyError =
    FramingHeaderNotAllowed header_name
  | LengthMismatch nat nat
  | Source 'e

datatype RequestStage =
    StConnect | StOpenRequest | StConfigure | StSend | StWrite | StReceiveResponse | StReadHeaders

datatype 'e RequestError =
    UnsupportedScheme "str option"
  | MissingHost
  | UserinfoNotSupported
  | InvalidRequestHeader header_name HeaderReason
  | BodyTooLarge nat
  | WriteStalled nat
  | MalformedResponseHeader str
  | RequestBody "'e BodyError"
  | Transport RequestStage hresult

definition request_win_http :: "'e RequestError \<Rightarrow> WinHttpError option" where
  "request_win_http e =
     (case e of Transport _ source \<Rightarrow> Some (winhttp_from_error source) | _ \<Rightarrow> None)"

datatype 'e ResponseBodyError = Truncated nat nat | RBRead hresult | RBWrite 'e

definition body_win_http :: "'e ResponseBodyError \<Rightarrow> WinHttpError option" where
  "body_win_http e = (case e of RBRead source \<Rightarrow> Some (winhttp_from_error source) | _ \<Rightarrow> None)"

section \<open>Server errors\<close>

definition E_INVALID_HANDLE :: hresult where
  "E_INVALID_HANDLE = 0x80070006"

definition E_OPERATION_ABORTED :: hresult where
  "E_OPERATION_ABORTED = 0x800703E3"

definition is_closed_handle :: "hresult \<Rightarrow> bool" where
  "is_closed_handle source \<longleftrightarrow> source = E_INVALID_HANDLE"

datatype ServerOperation =
    OpInitialize | OpCreateSession | OpCreateUrlGroup | OpAddUrl | OpCreateQueue | OpBindUrlGroup
  | OpReadBody | OpReject | OpShutdown

datatype PlatformError = PlatformError ServerOperation hresult

definition platform_is_queue_closed :: "PlatformError \<Rightarrow> bool" where
  "platform_is_queue_closed e = (case e of PlatformError _ source \<Rightarrow> is_closed_handle source)"

datatype AcceptError =
    RequestTooLarge nat
  | MalformedRequest RequestReason bytes
  | AcceptReceive hresult

definition accept_is_queue_closed :: "AcceptError \<Rightarrow> bool" where
  "accept_is_queue_closed e =
     (case e of
        AcceptReceive source \<Rightarrow> is_closed_handle source \<or> source = E_OPERATION_ABORTED
      | RequestTooLarge _ \<Rightarrow> False
      | MalformedRequest _ _ \<Rightarrow> False)"

datatype SendStage = SendHead | SendBodyPart | SendTrailerPart

datatype 'e ResponseError =
    BadContentLength bytes
  | ResponseBodyErr "'e BodyError"
  | SendFailed SendStage hresult

definition response_is_queue_closed :: "'e ResponseError \<Rightarrow> bool" where
  "response_is_queue_closed e =
     (case e of
        SendFailed _ source \<Rightarrow> is_closed_handle source
      | BadContentLength _ \<Rightarrow> False
      | ResponseBodyErr _ \<Rightarrow> False)"

datatype 'e ServeError = ServeAccept AcceptError | ServeService 'e | ServeResponse "'e ResponseError"

definition serve_is_queue_closed :: "'e ServeError \<Rightarrow> bool" where
  "serve_is_queue_closed e =
     (case e of
        ServeAccept error \<Rightarrow> accept_is_queue_closed error
      | ServeResponse error \<Rightarrow> response_is_queue_closed error
      | ServeService _ \<Rightarrow> False)"

end
