(* ===== verification/Client_Body.thy ===== *)
theory Client_Body
  imports Http_Errors
begin

text \<open>
  Writing a request body over HTTP/1.1: \<^verbatim>\<open>Framing\<close>, \<^verbatim>\<open>write_body\<close> and \<^verbatim>\<open>write_all\<close> of
  \<^verbatim>\<open>winasio-util/src/client.rs\<close>.

  A body is the list of the frames it yields, its end the end of the list. The platform's answer to its
  \<open>i\<close>-th write is \<open>W i buffer\<close>, and \<open>sk_wire\<close> collects the bytes it took. Byte counts are naturals: a
  \<^verbatim>\<open>u64\<close> cannot be exceeded by bytes that exist. The reference is a decoder for the chunked transfer
  coding, written from its grammar and not from the sources.
\<close>

section \<open>The sources\<close>

datatype frame = DataFrame bytes | TrailersFrame "(header_name \<times> header_value) list"

datatype Framing = Exact nat | Chunked

definition MAX_WRITE :: nat where
  "MAX_WRITE = 64 * 1024"

definition total_length :: "Framing \<Rightarrow> u32" where
  "total_length f = (case f of Exact len \<Rightarrow> of_nat len | Chunked \<Rightarrow> 0)"

record sink =
  sk_calls :: nat
  sk_wire :: bytes

type_synonym writer = "nat \<Rightarrow> bytes \<Rightarrow> hresult + nat"

definition write_data :: "writer \<Rightarrow> bytes \<Rightarrow> sink \<Rightarrow> (hresult + nat) \<times> sink" where
  "write_data W buffer s =
     (let r = W (sk_calls s) buffer
      in (r, s\<lparr>sk_calls := sk_calls s + 1,
              sk_wire := sk_wire s @ (case r of Inr n \<Rightarrow> take n buffer | Inl _ \<Rightarrow> [])\<rparr>))"

text \<open>\<^verbatim>\<open>{:x}\<close> of a length.\<close>

definition hex_digit :: "nat \<Rightarrow> u8" where
  "hex_digit d = (if d < 10 then of_nat (48 + d) else of_nat (87 + d))"

fun hex_digits :: "nat \<Rightarrow> bytes" where
  "hex_digits n = (if n < 16 then [hex_digit n] else hex_digits (n div 16) @ [hex_digit (n mod 16)])"

declare hex_digits.simps [simp del]

definition crlf :: bytes where
  "crlf = [13, 10]"

definition chunk_of :: "bytes \<Rightarrow> bytes" where
  "chunk_of chunk = hex_digits (length chunk) @ crlf @ chunk @ crlf"

definition last_chunk :: bytes where
  "last_chunk = [48] @ crlf @ crlf"

function client_write_all :: "writer \<Rightarrow> bytes \<Rightarrow> sink \<Rightarrow> ('e RequestError + unit) \<times> sink" where
  "client_write_all W pending_bytes s =
     (if pending_bytes = [] then (Inr (), s)
      else case write_data W pending_bytes s of
          (Inl e, s1) \<Rightarrow> (Inl (Transport StWrite e), s1)
        | (Inr n, s1) \<Rightarrow>
            if n \<ge> length pending_bytes then (Inr (), s1)
            else if n = 0 then (Inl (WriteStalled (length pending_bytes)), s1)
            else client_write_all W (drop n pending_bytes) s1)"
  by pat_completeness auto
termination
  by (relation "measure (\<lambda>(W, p, s). length p)") (auto simp: write_data_def Let_def)

declare client_write_all.simps [simp del]

lemma client_write_all_unfold [simp]:
  "client_write_all W [] s = (Inr (), s)"
  "client_write_all W (b # bs) s =
     (case write_data W (b # bs) s of
        (Inl e, s1) \<Rightarrow> (Inl (Transport StWrite e), s1)
      | (Inr n, s1) \<Rightarrow>
          if n \<ge> length (b # bs) then (Inr (), s1)
          else if n = 0 then (Inl (WriteStalled (length (b # bs))), s1)
          else client_write_all W (drop n (b # bs)) s1)"
  by (subst client_write_all.simps, simp)+

text \<open>One data frame, in pieces of at most \<open>MAX_WRITE\<close>; the result is the running count.\<close>

function write_pieces :: "writer \<Rightarrow> Framing \<Rightarrow> bytes \<Rightarrow> nat \<Rightarrow> sink \<Rightarrow> ('e RequestError + nat) \<times> sink" where
  "write_pieces W framing data written s =
     (if data = [] then (Inr written, s)
      else
        let n = min (length data) MAX_WRITE;
            chunk = take n data
        in case client_write_all W (case framing of Exact _ \<Rightarrow> chunk | Chunked \<Rightarrow> chunk_of chunk) s of
             (Inl e, s1) \<Rightarrow> (Inl e, s1)
           | (Inr _, s1) \<Rightarrow> write_pieces W framing (drop n data) (written + n) s1)"
  by pat_completeness auto
termination
  by (relation "measure (\<lambda>(W, f, d, n, s). length d)") (auto simp: MAX_WRITE_def)

declare write_pieces.simps [simp del]

lemma write_pieces_unfold [simp]:
  "write_pieces W framing [] written s = (Inr written, s)"
  "write_pieces W framing (b # bs) written s =
     (let n = min (length (b # bs)) MAX_WRITE;
          chunk = take n (b # bs)
      in case client_write_all W (case framing of Exact _ \<Rightarrow> chunk | Chunked \<Rightarrow> chunk_of chunk) s of
           (Inl e, s1) \<Rightarrow> (Inl e, s1)
         | (Inr _, s1) \<Rightarrow> write_pieces W framing (drop n (b # bs)) (written + n) s1)"
  by (subst write_pieces.simps, simp)+

fun write_frames ::
  "writer \<Rightarrow> Framing \<Rightarrow> ('e + frame) list \<Rightarrow> nat \<Rightarrow> sink \<Rightarrow> ('e RequestError + nat) \<times> sink" where
  "write_frames W framing [] written s = (Inr written, s)"
| "write_frames W framing (Inl e # body) written s = (Inl (RequestBody (Source e)), s)"
| "write_frames W framing (Inr (TrailersFrame _) # body) written s = write_frames W framing body written s"
| "write_frames W framing (Inr (DataFrame data) # body) written s =
     (case write_pieces W framing data written s of
        (Inl e, s1) \<Rightarrow> (Inl e, s1)
      | (Inr written1, s1) \<Rightarrow> write_frames W framing body written1 s1)"

definition write_body :: "writer \<Rightarrow> ('e + frame) list \<Rightarrow> Framing \<Rightarrow> sink \<Rightarrow> ('e RequestError + unit) \<times> sink" where
  "write_body W body framing s =
     (case write_frames W framing body 0 s of
        (Inl e, s1) \<Rightarrow> (Inl e, s1)
      | (Inr written, s1) \<Rightarrow>
          case framing of
            Exact declared \<Rightarrow>
              if declared \<noteq> written then (Inl (RequestBody (LengthMismatch declared written)), s1)
              else (Inr (), s1)
          | Chunked \<Rightarrow> client_write_all W last_chunk s1)"

section \<open>The chunked transfer coding\<close>

text \<open>
  A decoder: a size in hexadecimal, a line end, that many bytes and a line end; a size of zero and an
  empty line end the message.
\<close>

definition hex_value :: "u8 \<Rightarrow> nat option" where
  "hex_value c =
     (if 48 \<le> unat c \<and> unat c \<le> 57 then Some (unat c - 48)
      else if 97 \<le> unat c \<and> unat c \<le> 102 then Some (unat c - 87) else None)"

fun chunk_size :: "nat \<Rightarrow> bytes \<Rightarrow> (nat \<times> bytes) option" where
  "chunk_size n [] = None"
| "chunk_size n (c # cs) =
     (case hex_value c of
        Some d \<Rightarrow> chunk_size (16 * n + d) cs
      | None \<Rightarrow> (case c # cs of a # b # rest \<Rightarrow> if a = 13 \<and> b = 10 then Some (n, rest) else None | _ \<Rightarrow> None))"

lemma chunk_size_shorter: "chunk_size n bs = Some (k, rest) \<Longrightarrow> length rest < length bs"
  by (induction n bs rule: chunk_size.induct) (auto split: option.splits list.splits if_splits)

function dechunk :: "bytes \<Rightarrow> bytes option" where
  "dechunk bs =
     (case chunk_size 0 bs of
        None \<Rightarrow> None
      | Some (n, rest) \<Rightarrow>
          if n = 0 then (if rest = crlf then Some [] else None)
          else if length rest < n + 2 \<or> take 2 (drop n rest) \<noteq> crlf then None
          else map_option (append (take n rest)) (dechunk (drop (n + 2) rest)))"
  by pat_completeness auto
termination
  by (relation "measure length") (auto dest: chunk_size_shorter)

declare dechunk.simps [simp del]

lemma unat_small: "k < 256 \<Longrightarrow> unat (of_nat k :: u8) = k"
  by (simp only: unat_of_nat) simp

lemma hex_value_digit: "d < 16 \<Longrightarrow> hex_value (hex_digit d) = Some d"
  using unat_small [of "48 + d"] unat_small [of "87 + d"] unfolding hex_value_def hex_digit_def
  by (cases "d < 10") (simp_all del: of_nat_add)

lemma hex_digits_Cons: "hex_digits n \<noteq> []"
  by (subst hex_digits.simps) simp

lemma chunk_size_digits: "chunk_size m (hex_digits n @ bs) = chunk_size (m * 16 ^ length (hex_digits n) + n) bs"
proof (induction n arbitrary: m bs rule: hex_digits.induct)
  case (1 n)
  show ?case
  proof (cases "n < 16")
    case True
    then show ?thesis by (simp add: hex_digits.simps [of n] hex_value_digit ac_simps)
  next
    case False
    have e: "hex_digits n = hex_digits (n div 16) @ [hex_digit (n mod 16)]"
      using False by (simp add: hex_digits.simps [of n])
    have "chunk_size m (hex_digits n @ bs) =
        chunk_size (m * 16 ^ length (hex_digits (n div 16)) + n div 16) (hex_digit (n mod 16) # bs)"
      unfolding e using "1.IH" [OF False, of m "hex_digit (n mod 16) # bs"] by simp
    also have "\<dots> = chunk_size (m * 16 ^ length (hex_digits n) + n) bs"
    proof -
      have "16 * (m * 16 ^ length (hex_digits (n div 16)) + n div 16) + n mod 16 = m * 16 ^ length (hex_digits n) + n"
        unfolding e by (simp add: algebra_simps)
      then show ?thesis by (simp only: chunk_size.simps hex_value_digit mod_less_divisor zero_less_numeral option.case)
    qed
    finally show ?thesis .
  qed
qed

lemma dechunk_last [simp]: "dechunk last_chunk = Some []"
  by (subst dechunk.simps) (simp add: last_chunk_def crlf_def hex_value_def)

lemma dechunk_chunk:
  assumes "chunk \<noteq> []"
  shows "dechunk (chunk_of chunk @ bs) = map_option (append chunk) (dechunk bs)"
proof -
  have "chunk_size 0 (chunk_of chunk @ bs) = Some (length chunk, chunk @ crlf @ bs)"
    by (simp add: chunk_of_def chunk_size_digits crlf_def hex_value_def)
  then show ?thesis
    using assms by (subst dechunk.simps) (simp add: crlf_def)
qed

section \<open>What is written\<close>

text \<open>The data of a body, and its pieces.\<close>

definition frame_data :: "'e + frame \<Rightarrow> bytes" where
  "frame_data x = (case x of Inr (DataFrame d) \<Rightarrow> d | _ \<Rightarrow> [])"

definition body_data :: "('e + frame) list \<Rightarrow> bytes" where
  "body_data body = concat (map frame_data body)"

lemma body_data_simps [simp]:
  "body_data [] = []" "body_data (x # xs) = frame_data x @ body_data xs"
  "frame_data (Inr (DataFrame d)) = d" "frame_data (Inr (TrailersFrame t)) = []" "frame_data (Inl e) = []"
  by (simp_all add: body_data_def frame_data_def)

function pieces :: "bytes \<Rightarrow> bytes list" where
  "pieces data = (if data = [] then [] else take MAX_WRITE data # pieces (drop MAX_WRITE data))"
  by pat_completeness auto
termination
  by (relation "measure length") (auto simp: MAX_WRITE_def)

declare pieces.simps [simp del]

lemma pieces_Nil [simp]: "pieces [] = []"
  by (subst pieces.simps) simp

lemma concat_pieces [simp]: "concat (pieces data) = data"
  by (induction data rule: pieces.induct) (subst pieces.simps, simp)

lemma pieces_bounds: "p \<in> set (pieces data) \<Longrightarrow> p \<noteq> [] \<and> length p \<le> MAX_WRITE"
proof (induction data rule: pieces.induct)
  case (1 data)
  then show ?case by (subst (asm) (2) pieces.simps) (auto simp: MAX_WRITE_def split: if_splits)
qed

text \<open>Bytes a piece puts on the wire, and what the wire holds of a body under a framing.\<close>

definition framed :: "Framing \<Rightarrow> bytes \<Rightarrow> bytes" where
  "framed f chunk = (case f of Exact _ \<Rightarrow> chunk | Chunked \<Rightarrow> chunk_of chunk)"

definition wire_of :: "Framing \<Rightarrow> bytes list \<Rightarrow> bytes" where
  "wire_of f ps = concat (map (framed f) ps)"

lemma wire_of_simps [simp]: "wire_of f [] = []" "wire_of f (p # ps) = framed f p @ wire_of f ps"
  "wire_of f (ps @ qs) = wire_of f ps @ wire_of f qs" "wire_of (Exact n) ps = concat ps"
proof -
  show "wire_of (Exact n) ps = concat ps" by (induction ps) (simp_all add: wire_of_def framed_def)
qed (simp_all add: wire_of_def)

lemma dechunk_wire:
  "(\<forall>p \<in> set ps. p \<noteq> []) \<Longrightarrow> dechunk (wire_of Chunked ps @ bs) = map_option (append (concat ps)) (dechunk bs)"
  by (induction ps; cases "dechunk bs") (auto simp: framed_def dechunk_chunk)

text \<open>\<^verbatim>\<open>write_all\<close> puts a prefix of its buffer on the wire, all of it exactly when it succeeds.\<close>

lemma client_write_all_wire:
  fixes r :: "'e RequestError + unit"
  shows "client_write_all W p s = (r, s') \<Longrightarrow> \<exists>k. sk_wire s' = sk_wire s @ take k p \<and> (r = Inr () \<longrightarrow> take k p = p)"
proof (induction W p s arbitrary: r s' rule: client_write_all.induct)
  case (1 W p s)
  show ?case
  proof (cases "p = []")
    case True
    with "1.prems" show ?thesis by (simp add: client_write_all.simps)
  next
    case False
    obtain r1 s1 where w: "write_data W p s = (r1, s1)" by (cases "write_data W p s")
    show ?thesis
    proof (cases r1)
      case (Inl e)
      then have "sk_wire s1 = sk_wire s" using w by (auto simp: write_data_def Let_def)
      with "1.prems" False w Inl show ?thesis
        by (subst (asm) client_write_all.simps) (auto intro: exI [of _ 0])
    next
      case (Inr n)
      have s1: "sk_wire s1 = sk_wire s @ take n p" using w Inr by (auto simp: write_data_def Let_def)
      show ?thesis
      proof (cases "n \<ge> length p \<or> n = 0")
        case True
        with "1.prems" False w Inr s1 show ?thesis
          by (subst (asm) client_write_all.simps) (auto intro: exI [of _ n] split: if_splits)
      next
        case lt: False
        then have rec: "client_write_all W (drop n p) s1 = (r, s')"
          using "1.prems" False w Inr by (subst (asm) client_write_all.simps) simp
        from "1.IH" [OF False w [symmetric] Inr _ _ rec] lt obtain k where
          k: "sk_wire s' = sk_wire s1 @ take k (drop n p)" "r = Inr () \<longrightarrow> take k (drop n p) = drop n p"
          by auto
        have "take n p @ take k (drop n p) = take (n + k) p" by (simp add: take_add)
        with k s1 lt show ?thesis by (intro exI [of _ "n + k"]) auto
      qed
    qed
  qed
qed

lemma client_write_all_ok:
  "client_write_all W p s = (Inr (), s1) \<Longrightarrow> sk_wire s1 = sk_wire s @ p"
  by (drule client_write_all_wire) auto

lemma write_pieces_ok:
  "write_pieces W f data written s = (Inr w' :: 'e RequestError + nat, s1) \<Longrightarrow>
    w' = written + length data \<and> sk_wire s1 = sk_wire s @ wire_of f (pieces data)"
proof (induction data arbitrary: written s rule: pieces.induct)
  case (1 data)
  show ?case
  proof (cases "data = []")
    case True
    with "1.prems" show ?thesis by (simp add: write_pieces.simps)
  next
    case False
    let ?n = "min (length data) MAX_WRITE"
    let ?chunk = "take ?n data"
    obtain r s2 where w: "client_write_all W (framed f ?chunk) s = (r :: 'e RequestError + unit, s2)"
      by (cases "client_write_all W (framed f ?chunk) s :: ('e RequestError + unit) \<times> sink")
    from "1.prems" False w obtain u where u: "r = Inr u"
      by (subst (asm) write_pieces.simps) (auto simp: Let_def framed_def split: sum.splits)
    have d: "drop ?n data = drop MAX_WRITE data" "?chunk = take MAX_WRITE data" by (auto simp: min_def)
    have "write_pieces W f (drop ?n data) (written + ?n) s2 = (Inr w' :: 'e RequestError + nat, s1)"
      using "1.prems" False w u by (subst (asm) write_pieces.simps) (simp add: Let_def framed_def)
    then have rec: "write_pieces W f (drop MAX_WRITE data) (written + ?n) s2 = (Inr w' :: 'e RequestError + nat, s1)"
      unfolding d(1) .
    have s2: "sk_wire s2 = sk_wire s @ framed f ?chunk" using w u client_write_all_ok by auto
    have p: "pieces data = ?chunk # pieces (drop MAX_WRITE data)"
      using False by (subst pieces.simps) (simp add: d)
    show ?thesis using "1.IH" [OF False rec] s2 unfolding p by simp
  qed
qed

definition all_pieces :: "('e + frame) list \<Rightarrow> bytes list" where
  "all_pieces body = concat (map (\<lambda>x. pieces (frame_data x)) body)"

lemma all_pieces_simps [simp]:
  "all_pieces [] = []" "all_pieces (x # xs) = pieces (frame_data x) @ all_pieces xs"
  by (simp_all add: all_pieces_def)

lemma concat_all_pieces [simp]: "concat (all_pieces body) = body_data body"
  by (induction body) auto

lemma all_pieces_nonempty: "\<forall>p \<in> set (all_pieces body). p \<noteq> []"
  by (auto simp: all_pieces_def dest: pieces_bounds)

lemma write_frames_ok:
  "write_frames W f (body :: ('e + frame) list) written s = (Inr w', s1) \<Longrightarrow>
    w' = written + length (body_data body) \<and> sk_wire s1 = sk_wire s @ wire_of f (all_pieces body) \<and>
    (\<forall>e. Inl e \<notin> set body)"
proof (induction W f body written s arbitrary: w' s1 rule: write_frames.induct)
  case (4 W f data body written s)
  then obtain w1 s2 where w: "write_pieces W f data written s = (Inr w1 :: 'e RequestError + nat, s2)"
      "write_frames W f body w1 s2 = (Inr w', s1)"
    by (auto split: sum.splits prod.splits)
  from "4.IH" [OF w(1) [symmetric] refl w(2)] write_pieces_ok [OF w(1)] show ?case by simp
qed auto

lemma write_body_sent:
  fixes body :: "('e + frame) list"
  assumes "write_body W body f s = (Inr (), s1)"
  shows "\<exists>sent. sk_wire s1 = sk_wire s @ sent \<and> (\<forall>e. Inl e \<notin> set body) \<and>
    (case f of Exact declared \<Rightarrow> sent = body_data body \<and> length sent = declared
     | Chunked \<Rightarrow> dechunk sent = Some (body_data body))"
proof -
  from assms obtain w s2 where w: "write_frames W f body 0 s = (Inr w, s2)"
    by (auto simp: write_body_def split: sum.splits prod.splits)
  note fr = write_frames_ok [OF w]
  show ?thesis
  proof (cases f)
    case (Exact declared)
    with assms w fr show ?thesis by (auto simp: write_body_def split: if_splits)
  next
    case Chunked
    with assms w have "client_write_all W last_chunk s2 = (Inr () :: 'e RequestError + unit, s1)" by (simp add: write_body_def)
    then have "sk_wire s1 = sk_wire s @ wire_of Chunked (all_pieces body) @ last_chunk"
      using client_write_all_ok fr Chunked by fastforce
    with Chunked fr show ?thesis
      by (intro exI [of _ "wire_of Chunked (all_pieces body) @ last_chunk"])
        (simp add: dechunk_wire [OF all_pieces_nonempty])
  qed
qed

section \<open>Properties\<close>

text \<open>
  Property C4. What a request body looks like on the wire, whatever the platform does: when \<^verbatim>\<open>write_body\<close>
  succeeds, the bytes the platform took after those already written are, for a declared length, exactly
  the data of the body, of exactly that length; and otherwise a chunked message that decodes to the data
  of the body. No data frame was lost, duplicated or reordered by partial writes, and a body that failed
  or does not have its declared length is never reported as sent.
\<close>

theorem client_body_round_trip:
  fixes body :: "('e + frame) list"
  assumes "write_body W body f s = (Inr (), s1)"
  shows "\<exists>sent. sk_wire s1 = sk_wire s @ sent \<and> (\<forall>e. Inl e \<notin> set body) \<and>
    (case f of Exact declared \<Rightarrow> sent = body_data body \<and> length sent = declared
     | Chunked \<Rightarrow> dechunk sent = Some (body_data body))"
  by (rule write_body_sent [OF assms])

text \<open>A platform that takes every write in two halves.\<close>

definition halving :: writer where
  "halving i buffer = Inr ((length buffer + 1) div 2)"

theorem client_body_round_trip_witness:
  "\<exists>sent s1. write_body halving [Inr (DataFrame [7, 8, 9]) :: unit + frame] Chunked \<lparr>sk_calls = 0, sk_wire = []\<rparr> =
      (Inr (), s1) \<and> sk_wire s1 = sent \<and> dechunk sent = Some [7, 8, 9]"
proof -
  let ?s = "\<lparr>sk_calls = 0, sk_wire = []\<rparr> :: sink"
  obtain s1 where r: "write_body halving [Inr (DataFrame [7, 8, 9]) :: unit + frame] Chunked ?s = (Inr (), s1)"
    by (simp add: write_body_def write_data_def halving_def MAX_WRITE_def
        chunk_of_def hex_digits.simps hex_digit_def crlf_def last_chunk_def)
  with client_body_round_trip [OF r] show ?thesis by simp
qed

end
