(* ===== verification/Http_Headers.thy ===== *)
theory Http_Headers
  imports Http_Errors
begin

text \<open>
  Header blocks and request targets: \<^verbatim>\<open>winasio-util/src/headers.rs\<close> and \<^verbatim>\<open>winasio-util/src/uri.rs\<close>.

  The string operations of the standard library the sources use (\<^verbatim>\<open>trim\<close>, \<^verbatim>\<open>split\<close>, \<^verbatim>\<open>split_once\<close>,
  \<^verbatim>\<open>encode_utf16\<close>, \<^verbatim>\<open>parse::<u64>\<close>) are modelled on lists of Unicode scalar values.
\<close>

section \<open>Strings\<close>

definition is_whitespace :: "nat \<Rightarrow> bool" where
  "is_whitespace c \<longleftrightarrow> 9 \<le> c \<and> c \<le> 13 \<or> c \<in> {32, 133, 160, 5760, 8232, 8233, 8239, 8287, 12288} \<or>
     8192 \<le> c \<and> c \<le> 8202"

definition trim_start :: "str \<Rightarrow> str" where
  "trim_start s = dropWhile is_whitespace s"

definition trim :: "str \<Rightarrow> str" where
  "trim s = rev (trim_start (rev (trim_start s)))"

function split_crlf :: "str \<Rightarrow> str list" where
  "split_crlf [] = [[]]"
| "split_crlf (c # cs) =
     (if c = 13 \<and> cs \<noteq> [] \<and> hd cs = 10 then [] # split_crlf (tl cs)
      else case split_crlf cs of [] \<Rightarrow> [[c]] | l # ls \<Rightarrow> (c # l) # ls)"
  by pat_completeness auto
termination
  by (relation "measure length") auto

fun split_once :: "nat \<Rightarrow> str \<Rightarrow> (str \<times> str) option" where
  "split_once d [] = None"
| "split_once d (c # cs) =
     (if c = d then Some ([], cs) else map_option (\<lambda>(a, b). (c # a, b)) (split_once d cs))"

definition utf16_units :: "nat \<Rightarrow> u16 list" where
  "utf16_units c =
     (if c < 0x10000 then [of_nat c]
      else [of_nat (0xD800 + (c - 0x10000) div 1024), of_nat (0xDC00 + (c - 0x10000) mod 1024)])"

definition encode_utf16 :: "str \<Rightarrow> u16 list" where
  "encode_utf16 s = concat (map utf16_units s)"

definition chars :: "string \<Rightarrow> str" where
  "chars s = map of_char s"

definition is_digit :: "nat \<Rightarrow> bool" where
  "is_digit c \<longleftrightarrow> 48 \<le> c \<and> c \<le> 57"

definition decimal :: "str \<Rightarrow> nat" where
  "decimal s = foldl (\<lambda>n c. 10 * n + (c - 48)) 0 s"

definition parse_u64 :: "str \<Rightarrow> nat option" where
  "parse_u64 s =
     (let ds = (case s of c # cs \<Rightarrow> if c = 43 \<and> cs \<noteq> [] then cs else s | [] \<Rightarrow> s)
      in if ds \<noteq> [] \<and> list_all is_digit ds \<and> decimal ds \<le> u64_max then Some (decimal ds) else None)"

section \<open>Request headers\<close>

definition CONTENT_LENGTH :: header_name where
  "CONTENT_LENGTH = lit ''content-length''"

definition TRANSFER_ENCODING :: header_name where
  "TRANSFER_ENCODING = lit ''transfer-encoding''"

definition crlf_str :: str where
  "crlf_str = [13, 10]"

definition name_str :: "header_name \<Rightarrow> str" where
  "name_str n = map unat n"

fun encode_lines ::
  "('m, 'z) http_scheme \<Rightarrow> (header_name \<times> header_value) list \<Rightarrow> str \<Rightarrow> 'e RequestError + str" where
  "encode_lines H [] block = Inr block"
| "encode_lines H ((name, val) # rest) block =
     (if name = CONTENT_LENGTH \<or> name = TRANSFER_ENCODING
      then Inl (RequestBody (FramingHeaderNotAllowed name))
      else case value_to_str H val of
          None \<Rightarrow> Inl (InvalidRequestHeader name NotVisibleAscii)
        | Some txt \<Rightarrow> encode_lines H rest (block @ name_str name @ [58, 32] @ txt @ crlf_str))"

definition encode :: "('m, 'z) http_scheme \<Rightarrow> 'm \<Rightarrow> 'e RequestError + u16 list option" where
  "encode H headers =
     (case encode_lines H (hm_iter H headers) [] of
        Inl e \<Rightarrow> Inl e
      | Inr block \<Rightarrow> if block = [] then Inr None else Inr (Some (encode_utf16 block)))"

definition append_line :: "u16 list option \<Rightarrow> str \<Rightarrow> u16 list option" where
  "append_line block line =
     Some ((case block of None \<Rightarrow> [] | Some b \<Rightarrow> b) @ encode_utf16 line @ encode_utf16 crlf_str)"

section \<open>Response headers\<close>

datatype Version = HTTP_09 | HTTP_10 | HTTP_11 | HTTP_2 | HTTP_3

definition parse_version :: "str \<Rightarrow> Version" where
  "parse_version status_line =
     (let v = takeWhile (\<lambda>c. c \<noteq> 32) status_line in
      if v = chars ''HTTP/0.9'' then HTTP_09
      else if v = chars ''HTTP/1.0'' then HTTP_10
      else if v = chars ''HTTP/2.0'' \<or> v = chars ''HTTP/2'' then HTTP_2
      else if v = chars ''HTTP/3.0'' \<or> v = chars ''HTTP/3'' then HTTP_3
      else HTTP_11)"

text \<open>
  One header line. The name goes to \<^verbatim>\<open>HeaderName::from_bytes\<close> as the bytes of its text; \<open>utf8\<close> is the
  UTF-8 encoding of a string.
\<close>

definition utf8_char :: "nat \<Rightarrow> bytes" where
  "utf8_char c =
     (if c < 0x80 then [of_nat c]
      else if c < 0x800 then [of_nat (0xC0 + c div 64), of_nat (0x80 + c mod 64)]
      else if c < 0x10000 then [of_nat (0xE0 + c div 4096), of_nat (0x80 + c div 64 mod 64), of_nat (0x80 + c mod 64)]
      else [of_nat (0xF0 + c div 262144), of_nat (0x80 + c div 4096 mod 64), of_nat (0x80 + c div 64 mod 64),
            of_nat (0x80 + c mod 64)])"

definition utf8 :: "str \<Rightarrow> bytes" where
  "utf8 s = concat (map utf8_char s)"

definition parse_line :: "('m, 'z) http_scheme \<Rightarrow> str \<Rightarrow> 'm \<Rightarrow> 'e RequestError + 'm" where
  "parse_line H line headers =
     (case split_once 58 line of
        None \<Rightarrow> Inl (MalformedResponseHeader line)
      | Some (name, val) \<Rightarrow>
          case name_from_bytes H (utf8 (trim name)) of
            None \<Rightarrow> Inl (MalformedResponseHeader line)
          | Some n \<Rightarrow>
              case value_from_str H (trim val) of
                None \<Rightarrow> Inl (MalformedResponseHeader line)
              | Some v \<Rightarrow> Inr (hm_append H headers n v))"

fun parse_lines :: "('m, 'z) http_scheme \<Rightarrow> str list \<Rightarrow> 'm \<Rightarrow> 'e RequestError + 'm" where
  "parse_lines H [] headers = Inr headers"
| "parse_lines H (line # lines) headers =
     (if line = [] then parse_lines H lines headers
      else case parse_line H line headers of
          Inl e \<Rightarrow> Inl e
        | Inr headers1 \<Rightarrow> parse_lines H lines headers1)"

definition parse :: "('m, 'z) http_scheme \<Rightarrow> str \<Rightarrow> 'e RequestError + (Version \<times> 'm)" where
  "parse H raw =
     (case split_crlf raw of
        [] \<Rightarrow> Inr (parse_version [], hm_new H)
      | status_line # lines \<Rightarrow>
          case parse_lines H lines (hm_new H) of
            Inl e \<Rightarrow> Inl e
          | Inr headers \<Rightarrow> Inr (parse_version status_line, headers))"

fun trailer_lines :: "('m, 'z) http_scheme \<Rightarrow> str list \<Rightarrow> 'm \<Rightarrow> 'e RequestError + 'm" where
  "trailer_lines H [] headers = Inr headers"
| "trailer_lines H (line # lines) headers =
     (if line = [] \<or> take 5 line = chars ''HTTP/'' then trailer_lines H lines headers
      else case parse_line H line headers of
          Inl e \<Rightarrow> Inl e
        | Inr headers1 \<Rightarrow> trailer_lines H lines headers1)"

definition parse_trailers :: "('m, 'z) http_scheme \<Rightarrow> str \<Rightarrow> 'e RequestError + 'm" where
  "parse_trailers H raw = trailer_lines H (split_crlf raw) (hm_new H)"

definition METHOD_HEAD :: bytes where
  "METHOD_HEAD = lit ''HEAD''"

definition is_informational :: "nat \<Rightarrow> bool" where
  "is_informational status \<longleftrightarrow> 100 \<le> status \<and> status < 200"

definition may_have_body :: "bytes \<Rightarrow> nat \<Rightarrow> bool" where
  "may_have_body method status =
     (if method = METHOD_HEAD then False
      else \<not> (is_informational status \<or> status = 204 \<or> status = 304))"

text \<open>The declared length, and \<open>None\<close> where it is absent, unusable or contradictory.\<close>

fun content_length_loop :: "('m, 'z) http_scheme \<Rightarrow> header_value list \<Rightarrow> nat option \<Rightarrow> nat option" where
  "content_length_loop H [] declared = declared"
| "content_length_loop H (v # vs) declared =
     (case value_to_str H v of
        None \<Rightarrow> None
      | Some txt \<Rightarrow>
          case parse_u64 (trim txt) of
            None \<Rightarrow> None
          | Some parsed \<Rightarrow>
              if declared \<noteq> None \<and> declared \<noteq> Some parsed then None
              else content_length_loop H vs (Some parsed))"

definition content_length :: "('m, 'z) http_scheme \<Rightarrow> 'm \<Rightarrow> nat option" where
  "content_length H headers = content_length_loop H (hm_get_all H headers CONTENT_LENGTH) None"

section \<open>Request targets\<close>

text \<open>What \<^verbatim>\<open>decompose\<close> asks the \<^verbatim>\<open>http::Uri\<close> for.\<close>

record uri =
  uri_scheme :: "str option"
  uri_host :: "str option"
  uri_authority :: "str option"
  uri_port :: "u16 option"
  uri_path_and_query :: "str option"

record Target =
  target_host :: "u16 list"
  target_port :: u16
  target_object :: "u16 list"
  target_secure :: bool

definition decompose :: "uri \<Rightarrow> 'e RequestError + Target" where
  "decompose u =
     (case (case uri_scheme u of
              Some s \<Rightarrow> if s = chars ''http'' then Inr False
                        else if s = chars ''https'' then Inr True else Inl (UnsupportedScheme (Some s))
            | None \<Rightarrow> Inl (UnsupportedScheme None)) of
        Inl e \<Rightarrow> Inl e
      | Inr secure \<Rightarrow>
          case (case uri_host u of Some h \<Rightarrow> if h \<noteq> [] then Some h else None | None \<Rightarrow> None) of
            None \<Rightarrow> Inl MissingHost
          | Some host \<Rightarrow>
              if (case uri_authority u of Some a \<Rightarrow> 64 \<in> set a | None \<Rightarrow> False) then Inl UserinfoNotSupported
              else
                let port = (case uri_port u of Some p \<Rightarrow> p | None \<Rightarrow> if secure then 443 else 80);
                    object = (case uri_path_and_query u of Some t \<Rightarrow> if t = [] then [47] else t | None \<Rightarrow> [47])
                in Inr \<lparr>target_host = encode_utf16 host, target_port = port,
                        target_object = encode_utf16 object, target_secure = secure\<rparr>)"

section \<open>A header block is read back as it was written\<close>

text \<open>
  The documented laws of header names and values: a valid name is its own normal form and is a token; a
  value converts to text only when it is visible ASCII (a space and a tab included), and back; and every
  such text is that of a value.
\<close>

definition visible :: "str \<Rightarrow> bool" where
  "visible t \<longleftrightarrow> (\<forall>c \<in> set t. c = 9 \<or> 32 \<le> c \<and> c < 127)"

definition http_text_laws :: "('m, 'z) http_scheme \<Rightarrow> bool" where
  "http_text_laws H \<longleftrightarrow>
     (\<forall>k n. name_from_bytes H k = Some n \<longrightarrow>
        name_from_bytes H n = Some n \<and> n \<noteq> [] \<and> (\<forall>b \<in> set n. 33 \<le> unat b \<and> unat b < 127 \<and> unat b \<noteq> 58)) \<and>
     (\<forall>v t. value_to_str H v = Some t \<longrightarrow>
        value_from_str H t = Some v \<and> visible t) \<and>
     (\<forall>t. visible t \<longrightarrow> (\<exists>v. value_from_str H t = Some v \<and> value_to_str H v = Some t))"

text \<open>What \<^verbatim>\<open>parse\<close> makes of a value: the one whose text is the trimmed text, the same one if it has no blanks at its ends.\<close>

definition reads_back :: "('m, 'z) http_scheme \<Rightarrow> header_value \<Rightarrow> header_value \<Rightarrow> bool" where
  "reads_back H v v' \<longleftrightarrow>
     (\<exists>t. value_to_str H v = Some t \<and> value_to_str H v' = Some (trim t) \<and> (trim t = t \<longrightarrow> v' = v))"

lemma set_trim: "set (trim t) \<subseteq> set t"
  unfolding trim_def trim_start_def by (auto dest!: set_dropWhileD)

lemma visible_trim: "visible t \<Longrightarrow> visible (trim t)"
  using set_trim unfolding visible_def by blast

definition header_line :: "header_name \<times> str \<Rightarrow> str" where
  "header_line p = name_str (fst p) @ [58, 32] @ snd p"

lemma encode_lines_block:
  "encode_lines H ps acc = (Inr block :: 'e RequestError + str) \<Longrightarrow>
    (\<forall>p \<in> set ps. fst p \<noteq> CONTENT_LENGTH \<and> fst p \<noteq> TRANSFER_ENCODING) \<and>
    (\<exists>txts. list_all2 (\<lambda>p t. value_to_str H (snd p) = Some t) ps txts \<and>
      block = acc @ concat (map (\<lambda>p. header_line p @ crlf_str) (zip (map fst ps) txts)))"
proof (induction ps arbitrary: acc)
  case (Cons p ps)
  obtain n v where p: "p = (n, v)" by (cases p)
  from Cons.prems obtain t where t: "value_to_str H v = Some t"
    "encode_lines H ps (acc @ name_str n @ [58, 32] @ t @ crlf_str) = (Inr block :: 'e RequestError + str)"
    "n \<noteq> CONTENT_LENGTH" "n \<noteq> TRANSFER_ENCODING"
    by (auto simp: p split: if_splits option.splits)
  from Cons.IH [OF t(2)] obtain txts where
    "list_all2 (\<lambda>p t. value_to_str H (snd p) = Some t) ps txts"
    "block = (acc @ name_str n @ [58, 32] @ t @ crlf_str) @
       concat (map (\<lambda>p. header_line p @ crlf_str) (zip (map fst ps) txts))" by blast
  moreover have "\<forall>p \<in> set ps. fst p \<noteq> CONTENT_LENGTH \<and> fst p \<noteq> TRANSFER_ENCODING"
    using Cons.IH [OF t(2)] by blast
  ultimately show ?case
    using p t(1,3,4) by (intro conjI exI [of _ "t # txts"]) (simp_all add: header_line_def)
qed simp

lemma split_crlf_line: "13 \<notin> set l \<Longrightarrow> split_crlf (l @ crlf_str @ rest) = l # split_crlf rest"
  by (induction l) (auto simp: crlf_str_def)

lemma split_crlf_lines:
  "(\<forall>l \<in> set ls. 13 \<notin> set l) \<Longrightarrow> split_crlf (concat (map (\<lambda>l. l @ crlf_str) ls)) = ls @ [[]]"
  by (induction ls) (auto simp: split_crlf_line)

lemma trim_token: "(\<forall>c \<in> set s. \<not> is_whitespace c) \<Longrightarrow> trim s = s"
proof -
  assume a: "\<forall>c \<in> set s. \<not> is_whitespace c"
  have d: "dropWhile is_whitespace t = t" if "\<forall>c \<in> set t. \<not> is_whitespace c" for t
    using that by (cases t) auto
  show ?thesis using d [of s] d [of "rev s"] a by (simp add: trim_def trim_start_def)
qed

lemma trim_space: "trim (32 # s) = trim s"
  by (simp add: trim_def trim_start_def is_whitespace_def)

lemma split_once_at: "58 \<notin> set a \<Longrightarrow> split_once 58 (a @ 58 # b) = Some (a, b)"
  by (induction a) auto

lemma utf8_name: "(\<forall>b \<in> set n. unat b < 127) \<Longrightarrow> utf8 (name_str n) = n"
  by (induction n) (auto simp: utf8_def name_str_def utf8_char_def)

lemma token_text:
  assumes "\<forall>b \<in> set n. 33 \<le> unat b \<and> unat b < 127 \<and> unat b \<noteq> 58"
  shows "trim (name_str n) = name_str n" "utf8 (name_str n) = n" "58 \<notin> set (name_str n)" "13 \<notin> set (name_str n)"
proof -
  have "\<not> is_whitespace (unat b)" if "b \<in> set n" for b
    using assms that by (auto simp: is_whitespace_def)
  then show "trim (name_str n) = name_str n" by (intro trim_token) (auto simp: name_str_def)
  show "utf8 (name_str n) = n" using assms by (intro utf8_name) auto
  show "58 \<notin> set (name_str n)" using assms by (auto simp: name_str_def)
  show "13 \<notin> set (name_str n)" using assms by (force simp: name_str_def)
qed

lemma parse_header_line:
  assumes laws: "http_text_laws H" and n: "name_from_bytes H n = Some n"
    and t: "value_to_str H v = Some t"
  shows "\<exists>v'. reads_back H v v' \<and> parse_line H (header_line (n, t)) m = Inr (hm_append H m n v')"
    "13 \<notin> set (header_line (n, t))" "header_line (n, t) \<noteq> []"
proof -
  note tok = token_text [of n]
  have n': "\<forall>b \<in> set n. 33 \<le> unat b \<and> unat b < 127 \<and> unat b \<noteq> 58"
    using laws n unfolding http_text_laws_def by blast
  have v: "value_from_str H t = Some v" "visible t"
    using laws t unfolding http_text_laws_def by blast+
  obtain v' where v': "value_from_str H (trim t) = Some v'" "value_to_str H v' = Some (trim t)"
    using laws visible_trim [OF v(2)] unfolding http_text_laws_def by blast
  then have "reads_back H v v'" using t v(1) by (auto simp: reads_back_def)
  moreover have "split_once 58 (header_line (n, t)) = Some (name_str n, 32 # t)"
    using split_once_at [OF tok(3) [OF n'], of "32 # t"] by (simp add: header_line_def)
  then have "parse_line H (header_line (n, t)) m = Inr (hm_append H m n v')"
    using n v' tok(1,2) [OF n'] by (simp add: parse_line_def trim_space)
  ultimately show "\<exists>v'. reads_back H v v' \<and> parse_line H (header_line (n, t)) m = Inr (hm_append H m n v')" by blast
  show "13 \<notin> set (header_line (n, t))" using tok(4) [OF n'] v(2) by (auto simp: header_line_def visible_def)
  show "header_line (n, t) \<noteq> []" by (simp add: header_line_def)
qed

lemma parse_lines_block:
  fixes H :: "('m, 'z) http_scheme"
  assumes laws: "header_map_laws H" "http_text_laws H"
    and "list_all2 (\<lambda>p t. value_to_str H (snd p) = Some t) ps txts"
    and "\<forall>p \<in> set ps. name_from_bytes H (fst p) = Some (fst p)"
  shows "(\<exists>m'. parse_lines H (map header_line (zip (map fst ps) txts) @ [[]]) m = (Inr m' :: 'e RequestError + 'm) \<and>
      (\<forall>n. \<exists>vs. list_all2 (reads_back H) (map snd (filter (\<lambda>p. fst p = n) ps)) vs \<and>
         hm_get_all H m' n = hm_get_all H m n @ vs)) \<and>
    (\<forall>l \<in> set (map header_line (zip (map fst ps) txts)). 13 \<notin> set l)"
  using assms(3,4)
proof (induction ps txts arbitrary: m rule: list_all2_induct)
  case Nil
  show ?case by simp
next
  case (Cons p ps t txts)
  obtain n v where p: "p = (n, v)" by (cases p)
  with Cons have v: "value_to_str H v = Some t" "name_from_bytes H n = Some n" by auto
  note line = parse_header_line [OF laws(2) v(2) v(1)]
  from line(1) obtain v' where v': "reads_back H v v'"
    "parse_line H (header_line (n, t)) m = (Inr (hm_append H m n v') :: 'e RequestError + 'm)" by blast
  have g: "hm_get_all H (hm_append H m n v') k = hm_get_all H m k @ (if n = k then [v'] else [])" for k
    using laws(1) by (simp add: header_map_laws_def)
  have IH: "(\<exists>m'. parse_lines H (map header_line (zip (map fst ps) txts) @ [[]]) (hm_append H m n v') = (Inr m' :: 'e RequestError + 'm) \<and>
      (\<forall>k. \<exists>vs. list_all2 (reads_back H) (map snd (filter (\<lambda>p. fst p = k) ps)) vs \<and>
        hm_get_all H m' k = hm_get_all H (hm_append H m n v') k @ vs)) \<and>
    (\<forall>l \<in> set (map header_line (zip (map fst ps) txts)). 13 \<notin> set l)"
    by (rule Cons.IH) (use Cons.prems in auto)
  then obtain m' where m': "parse_lines H (map header_line (zip (map fst ps) txts) @ [[]]) (hm_append H m n v') = (Inr m' :: 'e RequestError + 'm)"
    and vs: "\<And>k. \<exists>vs. list_all2 (reads_back H) (map snd (filter (\<lambda>p. fst p = k) ps)) vs \<and>
        hm_get_all H m' k = hm_get_all H (hm_append H m n v') k @ vs" by blast
  have "\<exists>ws. list_all2 (reads_back H) (map snd (filter (\<lambda>q. fst q = k) (p # ps))) ws \<and>
      hm_get_all H m' k = hm_get_all H m k @ ws" for k
  proof -
    from vs [of k] obtain vs where "list_all2 (reads_back H) (map snd (filter (\<lambda>p. fst p = k) ps)) vs"
      "hm_get_all H m' k = hm_get_all H (hm_append H m n v') k @ vs" by blast
    then show ?thesis
      by (intro exI [of _ "(if n = k then [v'] else []) @ vs"]) (simp add: g p v'(1))
  qed
  moreover have "parse_lines H (map header_line (zip (map fst (p # ps)) (t # txts)) @ [[]]) m = (Inr m' :: 'e RequestError + 'm)"
    using m' v'(2) line(3) by (simp add: p)
  ultimately show ?case using IH p line(2) by auto
qed

lemma utf16_ascii: "(\<forall>c \<in> set s. c < 127) \<Longrightarrow> map unat (encode_utf16 s) = s"
  by (induction s) (auto simp: encode_utf16_def utf16_units_def unat_of_nat)

lemma block_ascii:
  assumes laws: "http_text_laws H"
    and "list_all2 (\<lambda>p t. value_to_str H (snd p) = Some t) ps txts"
    and "blk = concat (map (\<lambda>p. header_line p @ crlf_str) (zip (map fst ps) txts))"
    and "\<forall>p \<in> set ps. name_from_bytes H (fst p) = Some (fst p)"
  shows "\<forall>c \<in> set blk. c < 127"
  using assms(2,3,4)
proof (induction ps txts arbitrary: blk rule: list_all2_induct)
  case (Cons p ps t txts)
  have "\<forall>b \<in> set (fst p). unat b < 127" "\<forall>c \<in> set t. c < 127"
    using laws Cons.hyps Cons.prems(2) unfolding http_text_laws_def visible_def by fastforce+
  with Cons.IH [OF refl] Cons.prems show ?case
    by (auto simp: header_line_def name_str_def crlf_str_def)
qed simp

section \<open>Properties\<close>

text \<open>
  Property C14. A header block is read back as it was written: when \<^verbatim>\<open>encode\<close> accepts the headers of a
  request (whose names are valid header names), the block it hands to the platform, put under a status line
  and parsed by \<^verbatim>\<open>parse\<close>, gives a header map with one value for every value written under each name, in
  the same order: the same value, except that blanks at the ends of its text are trimmed, which is all that
  reading does to it. So no value can add a header line of its own, and neither of the framing headers is in
  the block.
\<close>

theorem header_block_round_trip:
  fixes H :: "('m, 'z) http_scheme"
  assumes laws: "header_map_laws H" "http_text_laws H"
    and names: "\<forall>p \<in> set (hm_iter H m). name_from_bytes H (fst p) = Some (fst p)"
    and enc: "encode H m = (Inr (Some block) :: 'e RequestError + u16 list option)"
    and status: "13 \<notin> set status"
  shows "\<exists>m'. parse H (status @ crlf_str @ map unat block) = (Inr (parse_version status, m') :: 'e RequestError + Version \<times> 'm) \<and>
    (\<forall>n. list_all2 (reads_back H) (hm_get_all H m n) (hm_get_all H m' n)) \<and>
    hm_get_all H m CONTENT_LENGTH = [] \<and> hm_get_all H m TRANSFER_ENCODING = []"
proof -
  let ?ps = "hm_iter H m"
  from enc obtain blk where b: "encode_lines H ?ps [] = (Inr blk :: 'e RequestError + str)" "block = encode_utf16 blk"
    by (auto simp: encode_def split: sum.splits if_splits)
  from encode_lines_block [OF b(1)] obtain txts where
    free: "\<forall>p \<in> set ?ps. fst p \<noteq> CONTENT_LENGTH \<and> fst p \<noteq> TRANSFER_ENCODING" and
    txts: "list_all2 (\<lambda>p t. value_to_str H (snd p) = Some t) ?ps txts"
      "blk = concat (map (\<lambda>p. header_line p @ crlf_str) (zip (map fst ?ps) txts))"
    by auto
  let ?lines = "map header_line (zip (map fst ?ps) txts)"
  obtain m' where m': "parse_lines H (?lines @ [[]]) (hm_new H) = (Inr m' :: 'e RequestError + 'm)"
      "\<And>n. \<exists>vs. list_all2 (reads_back H) (map snd (filter (\<lambda>p. fst p = n) ?ps)) vs \<and>
        hm_get_all H m' n = hm_get_all H (hm_new H) n @ vs"
      "\<forall>l \<in> set ?lines. 13 \<notin> set l"
    using parse_lines_block [OF laws txts(1) names] by blast
  have ascii: "\<forall>c \<in> set blk. c < 127"
    by (rule block_ascii [OF laws(2) txts names])
  have t: "blk = concat (map (\<lambda>l. l @ crlf_str) ?lines)" using txts(2) by (simp add: o_def)
  have "split_crlf (status @ crlf_str @ map unat block) = status # ?lines @ [[]]"
    unfolding b(2) utf16_ascii [OF ascii] using split_crlf_line [OF status] split_crlf_lines [OF m'(3)] t by simp
  then have "parse H (status @ crlf_str @ map unat block) =
      (Inr (parse_version status, m') :: 'e RequestError + Version \<times> 'm)"
    using m'(1) by (simp add: parse_def)
  moreover have "list_all2 (reads_back H) (hm_get_all H m n) (hm_get_all H m' n)" for n
    using m'(2) [of n] laws(1) by (auto simp: hm_get_all_def header_map_laws_def)
  moreover have "hm_get_all H m CONTENT_LENGTH = []" "hm_get_all H m TRANSFER_ENCODING = []"
    using free by (auto simp: hm_get_all_def filter_empty_conv)
  ultimately show ?thesis by blast
qed

text \<open>A header map that is a list in insertion order, with all names valid that are made of letters and dashes.\<close>

definition list_http :: "(header_name \<times> header_value) list http" where
  "list_http = \<lparr>hm_new = [], hm_append = (\<lambda>m k v. m @ [(k, v)]), hm_iter = (\<lambda>m. m),
     name_from_bytes = (\<lambda>b. if b \<noteq> [] \<and> (\<forall>c \<in> set b. unat c = 45 \<or> 97 \<le> unat c \<and> unat c \<le> 122) then Some b else None),
     value_from_bytes = (\<lambda>b. Some b),
     value_from_str = (\<lambda>t. if \<forall>c \<in> set t. c = 9 \<or> 32 \<le> c \<and> c < 127 then Some (map of_nat t) else None),
     value_to_str = (\<lambda>v. if \<forall>c \<in> set v. unat c = 9 \<or> 32 \<le> unat c \<and> unat c < 127 then Some (map unat v) else None)\<rparr>"

lemma list_http_laws: "header_map_laws list_http" "http_text_laws list_http"
proof -
  show "header_map_laws list_http" by (auto simp: header_map_laws_def list_http_def hm_get_all_def)
  have from_text: "map unat (map of_nat t :: header_value) = t" if "visible t" for t
    using that by (induction t) (auto simp: visible_def unat_of_nat)
  have "value_to_str list_http (map of_nat t) = Some t" if "visible t" for t
    using that from_text [OF that] by (auto simp: list_http_def visible_def unat_of_nat)
  then have "\<exists>v. value_from_str list_http t = Some v \<and> value_to_str list_http v = Some t" if "visible t" for t
    using that by (auto simp: list_http_def visible_def)
  then show "http_text_laws list_http"
    by (auto simp: http_text_laws_def list_http_def visible_def map_idI split: if_splits)
qed

theorem header_block_round_trip_witness:
  "\<exists>m'. parse list_http (chars ''HTTP/1.1 200 OK'' @ crlf_str @ name_str (lit ''host'') @ [58, 32, 97, 32, 13, 10]) =
      (Inr (HTTP_11, m') :: unit RequestError + _) \<and> hm_get_all list_http m' (lit ''host'') = [[97]]"
proof -
  let ?m = "[(lit ''host'', [97, 32])] :: (header_name \<times> header_value) list"
  have e: "encode list_http ?m = (Inr (Some (encode_utf16 (name_str (lit ''host'') @ [58, 32, 97, 32, 13, 10]))) ::
      unit RequestError + u16 list option)"
    by (simp add: encode_def list_http_def lit_def CONTENT_LENGTH_def TRANSFER_ENCODING_def name_str_def crlf_str_def)
  have a: "map unat (encode_utf16 (name_str (lit ''host'') @ [58, 32, 97, 32, 13, 10])) =
      name_str (lit ''host'') @ [58, 32, 97, 32, 13, 10]"
    by (rule utf16_ascii) (simp add: lit_def name_str_def)
  have "\<exists>m'. parse list_http (chars ''HTTP/1.1 200 OK'' @ crlf_str @ map unat (encode_utf16 (name_str (lit ''host'') @ [58, 32, 97, 32, 13, 10]))) =
        (Inr (parse_version (chars ''HTTP/1.1 200 OK''), m') :: unit RequestError + _) \<and>
      (\<forall>n. list_all2 (reads_back list_http) (hm_get_all list_http ?m n) (hm_get_all list_http m' n)) \<and>
      hm_get_all list_http ?m CONTENT_LENGTH = [] \<and> hm_get_all list_http ?m TRANSFER_ENCODING = []"
    by (rule header_block_round_trip [OF list_http_laws _ e]) (auto simp: list_http_def lit_def chars_def)
  then obtain m' where m': "parse list_http (chars ''HTTP/1.1 200 OK'' @ crlf_str @ name_str (lit ''host'') @ [58, 32, 97, 32, 13, 10]) =
      (Inr (parse_version (chars ''HTTP/1.1 200 OK''), m') :: unit RequestError + _)"
    "list_all2 (reads_back list_http) (hm_get_all list_http ?m (lit ''host'')) (hm_get_all list_http m' (lit ''host''))"
    unfolding a by blast
  have "v = [97]" if "reads_back list_http [97, 32] v" for v
  proof -
    have "value_to_str list_http v = Some [97]"
      using that by (auto simp: reads_back_def list_http_def trim_def trim_start_def is_whitespace_def split: if_splits)
    with list_http_laws(2) have "value_from_str list_http [97] = Some v" unfolding http_text_laws_def by blast
    then show ?thesis by (simp add: list_http_def)
  qed
  then have "hm_get_all list_http m' (lit ''host'') = [[97]]"
    using m'(2) by (auto simp: hm_get_all_def list_http_def list_all2_Cons1)
  with m'(1) show ?thesis by (auto simp: parse_version_def chars_def)
qed

end
