(* ===== verification/H2_Duplex.thy ===== *)
theory H2_Duplex
  imports Client_Body Http_Headers
begin

text \<open>
  The HTTP/2 request path, \<^verbatim>\<open>winasio-util/src/h2.rs\<close>: the response is received while the request body is
  being written.

  The model is at the level of polls. The receive future answers its \<open>j\<close>-th poll with \<open>A j\<close>, the \<open>i\<close>-th
  write is pending for \<open>K i\<close> polls before it answers \<open>W i buffer\<close>, and a request body is the list of the
  answers it gives to its polls, \<open>Pending\<close> among them, ended by the end of the list.
\<close>

section \<open>Framing\<close>

datatype H2Framing = Automatic | H2Exact nat | ManualChunked

datatype Terminal = TNone | TBytes bytes | TEndStream

definition h2_total_length :: "H2Framing \<Rightarrow> u32" where
  "h2_total_length f = (case f of H2Exact len \<Rightarrow> of_nat len | _ \<Rightarrow> 0)"

definition h2_frame :: "H2Framing \<Rightarrow> bytes \<Rightarrow> bytes" where
  "h2_frame f chunk = (case f of ManualChunked \<Rightarrow> chunk_of chunk | _ \<Rightarrow> chunk)"

definition h2_terminal :: "H2Framing \<Rightarrow> Terminal" where
  "h2_terminal f = (case f of ManualChunked \<Rightarrow> TBytes last_chunk | Automatic \<Rightarrow> TEndStream | H2Exact _ \<Rightarrow> TNone)"

text \<open>The probe for automatic chunking, with its cache: 1 is yes, 2 is no, anything else undecided.\<close>

definition probe_chunking :: "u8 \<Rightarrow> hresult + bool \<Rightarrow> ('e RequestError + bool) \<times> u8" where
  "probe_chunking cache supports =
     (if cache = 1 then (Inr True, cache)
      else if cache = 2 then (Inr False, cache)
      else case supports of
          Inl e \<Rightarrow> (Inl (Transport StOpenRequest e), cache)
        | Inr supported \<Rightarrow> (Inr supported, if supported then 1 else 2))"

definition choose_framing ::
  "nat option \<Rightarrow> u8 \<Rightarrow> hresult + bool \<Rightarrow> ('e RequestError + H2Framing) \<times> u8" where
  "choose_framing exact cache supports =
     (case exact of
        Some len \<Rightarrow> (if len > u32_max then Inl (BodyTooLarge len) else Inr (H2Exact len), cache)
      | None \<Rightarrow>
          case probe_chunking cache supports of
            (Inl e, c) \<Rightarrow> (Inl e, c)
          | (Inr supported, c) \<Rightarrow> (Inr (if supported then Automatic else ManualChunked), c))"

section \<open>The head phase\<close>

record duplex =
  dx_sink :: sink
  dx_polls :: nat
  dx_head :: "(hresult + unit) option"

type_synonym receiver = "nat \<Rightarrow> (hresult + unit) option"

definition recv_poll :: "receiver \<Rightarrow> duplex \<Rightarrow> duplex" where
  "recv_poll A d =
     (if dx_head d = None then d\<lparr>dx_head := A (dx_polls d), dx_polls := dx_polls d + 1\<rparr> else d)"

text \<open>\<^verbatim>\<open>with_recv\<close> around one write.\<close>

definition with_recv :: "receiver \<Rightarrow> (nat \<Rightarrow> nat) \<Rightarrow> writer \<Rightarrow> bytes \<Rightarrow> duplex \<Rightarrow> (hresult + nat) \<times> duplex" where
  "with_recv A K W buffer d =
     (let d1 = (recv_poll A ^^ Suc (K (sk_calls (dx_sink d)))) d in
      case write_data W buffer (dx_sink d1) of (r, s1) \<Rightarrow> (r, d1\<lparr>dx_sink := s1\<rparr>))"

text \<open>
  \<^verbatim>\<open>with_recv_until_head\<close> around a pull: \<open>None\<close> when the head arrived first, otherwise what the body
  yielded, and the body afterwards.
\<close>

fun pull ::
  "receiver \<Rightarrow> ('e + frame) poll list \<Rightarrow> duplex \<Rightarrow>
   ('e + frame) option option \<times> ('e + frame) poll list \<times> duplex" where
  "pull A [] d = (Some None, [], recv_poll A d)"
| "pull A (Ready x # body) d = (Some (Some x), body, recv_poll A d)"
| "pull A (Pending # body) d =
     (if dx_head (recv_poll A d) \<noteq> None then (None, body, recv_poll A d)
      else pull A body (recv_poll A d))"

function write_all_with_recv ::
  "receiver \<Rightarrow> (nat \<Rightarrow> nat) \<Rightarrow> writer \<Rightarrow> bytes \<Rightarrow> duplex \<Rightarrow> ('e RequestError + unit) \<times> duplex" where
  "write_all_with_recv A K W pending_bytes d =
     (if pending_bytes = [] then (Inr (), d)
      else case with_recv A K W pending_bytes d of
          (Inl e, d1) \<Rightarrow> if dx_head d1 \<noteq> None then (Inr (), d1) else (Inl (Transport StWrite e), d1)
        | (Inr n, d1) \<Rightarrow>
            if n \<ge> length pending_bytes then (Inr (), d1)
            else if n = 0 then (Inl (WriteStalled (length pending_bytes)), d1)
            else write_all_with_recv A K W (drop n pending_bytes) d1)"
  by pat_completeness auto
termination
  by (relation "measure (\<lambda>(A, K, W, p, d). length p)") auto

declare write_all_with_recv.simps [simp del]

definition end_stream_with_recv ::
  "receiver \<Rightarrow> (nat \<Rightarrow> nat) \<Rightarrow> writer \<Rightarrow> duplex \<Rightarrow> ('e RequestError + unit) \<times> duplex" where
  "end_stream_with_recv A K W d =
     (case with_recv A K W [] d of
        (Inr _, d1) \<Rightarrow> (Inr (), d1)
      | (Inl e, d1) \<Rightarrow> if dx_head d1 \<noteq> None then (Inr (), d1) else (Inl (Transport StWrite e), d1))"

text \<open>One data frame, until it is written or the head has arrived.\<close>

function send_data ::
  "receiver \<Rightarrow> (nat \<Rightarrow> nat) \<Rightarrow> writer \<Rightarrow> H2Framing \<Rightarrow> bytes \<Rightarrow> duplex \<Rightarrow> ('e RequestError + unit) \<times> duplex" where
  "send_data A K W f data d =
     (if data = [] \<or> dx_head d \<noteq> None then (Inr (), d)
      else
        let n = min (length data) MAX_WRITE
        in case write_all_with_recv A K W (h2_frame f (take n data)) d of
             (Inl e, d1) \<Rightarrow> (Inl e, d1)
           | (Inr _, d1) \<Rightarrow> send_data A K W f (drop n data) d1)"
  by pat_completeness auto
termination
  by (relation "measure (\<lambda>(A, K, W, f, data, d). length data)") (auto simp: MAX_WRITE_def)

declare send_data.simps [simp del]

lemma pull_shorter: "pull A body d = (Some (Some x), body1, d1) \<Longrightarrow> length body1 < length body"
  by (induction A body d rule: pull.induct) (auto split: if_splits)

text \<open>The loop: whether the whole body was sent, and what is left of the body.\<close>

function drive_loop ::
  "receiver \<Rightarrow> (nat \<Rightarrow> nat) \<Rightarrow> writer \<Rightarrow> H2Framing \<Rightarrow> ('e + frame) poll list \<Rightarrow> duplex \<Rightarrow>
   ('e RequestError + bool) \<times> ('e + frame) poll list \<times> duplex" where
  "drive_loop A K W f body d =
     (if dx_head d \<noteq> None then (Inr False, body, d)
      else case pull A body d of
          (None, body1, d1) \<Rightarrow> (Inr False, body1, d1)
        | (Some None, body1, d1) \<Rightarrow>
            (case (case h2_terminal f of
                     TNone \<Rightarrow> (Inr (), d1)
                   | TBytes bs \<Rightarrow> write_all_with_recv A K W bs d1
                   | TEndStream \<Rightarrow> end_stream_with_recv A K W d1) of
               (Inl e, d2) \<Rightarrow> (Inl e, body1, d2)
             | (Inr _, d2) \<Rightarrow> (Inr True, body1, d2))
        | (Some (Some (Inl e)), body1, d1) \<Rightarrow> (Inl (RequestBody (Source e)), body1, d1)
        | (Some (Some (Inr (TrailersFrame _))), body1, d1) \<Rightarrow> drive_loop A K W f body1 d1
        | (Some (Some (Inr (DataFrame data))), body1, d1) \<Rightarrow>
            (case send_data A K W f data d1 of
               (Inl e, d2) \<Rightarrow> (Inl e, body1, d2)
             | (Inr _, d2) \<Rightarrow> drive_loop A K W f body1 d2))"
  by pat_completeness auto
termination
  by (relation "measure (\<lambda>(A, K, W, f, body, d). length body)") (auto dest!: sym [of _ "pull _ _ _"] pull_shorter)

declare drive_loop.simps [simp del]

text \<open>The receive is awaited at the end; \<open>fuel\<close> bounds the polls of that wait, \<open>None\<close> is a wait still running.\<close>

fun recv_await :: "nat \<Rightarrow> receiver \<Rightarrow> nat \<Rightarrow> (hresult + unit) option" where
  "recv_await 0 A j = None"
| "recv_await (Suc fuel) A j = (case A j of Some r \<Rightarrow> Some r | None \<Rightarrow> recv_await fuel A (Suc j))"

definition drive_head ::
  "nat \<Rightarrow> receiver \<Rightarrow> (nat \<Rightarrow> nat) \<Rightarrow> writer \<Rightarrow> H2Framing \<Rightarrow> ('e + frame) poll list \<Rightarrow> sink \<Rightarrow>
   (('e RequestError + bool) \<times> ('e + frame) poll list \<times> sink) option" where
  "drive_head fuel A K W f body s =
     (case drive_loop A K W f body \<lparr>dx_sink = s, dx_polls = 0, dx_head = None\<rparr> of
        (Inl e, body1, d) \<Rightarrow> Some (Inl e, body1, dx_sink d)
      | (Inr write_done, body1, d) \<Rightarrow>
          (case (case dx_head d of Some r \<Rightarrow> Some r | None \<Rightarrow> recv_await fuel A (dx_polls d)) of
             None \<Rightarrow> None
           | Some (Inl e) \<Rightarrow> Some (Inl (Transport StReceiveResponse e), body1, dx_sink d)
           | Some (Inr _) \<Rightarrow> Some (Inr write_done, body1, dx_sink d)))"

section \<open>The response body\<close>

datatype HalfError = HalfPlatform hresult | HalfStalled

function write_all_half :: "writer \<Rightarrow> bytes \<Rightarrow> sink \<Rightarrow> (HalfError + unit) \<times> sink" where
  "write_all_half W pending_bytes s =
     (if pending_bytes = [] then (Inr (), s)
      else case write_data W pending_bytes s of
          (Inl e, s1) \<Rightarrow> (Inl (HalfPlatform e), s1)
        | (Inr n, s1) \<Rightarrow>
            if n \<ge> length pending_bytes then (Inr (), s1)
            else if n = 0 then (Inl HalfStalled, s1)
            else write_all_half W (drop n pending_bytes) s1)"
  by pat_completeness auto
termination
  by (relation "measure (\<lambda>(W, p, s). length p)") auto

declare write_all_half.simps [simp del]

text \<open>One data frame of the remaining body; the result is whether every piece was written.\<close>

function send_half :: "writer \<Rightarrow> H2Framing \<Rightarrow> bytes \<Rightarrow> sink \<Rightarrow> bool \<times> sink" where
  "send_half W f data s =
     (if data = [] then (True, s)
      else
        let n = min (length data) MAX_WRITE
        in case write_all_half W (h2_frame f (take n data)) s of
             (Inl _, s1) \<Rightarrow> (False, s1)
           | (Inr _, s1) \<Rightarrow> send_half W f (drop n data) s1)"
  by pat_completeness auto
termination
  by (relation "measure (\<lambda>(W, f, data, s). length data)") (auto simp: MAX_WRITE_def)

declare send_half.simps [simp del]

text \<open>The outbound part of a turn: the error of the body, whether the write is done, the rest of the body.\<close>

fun advance_outbound ::
  "writer \<Rightarrow> H2Framing \<Rightarrow> ('e + frame) poll list \<Rightarrow> sink \<Rightarrow>
   'e option \<times> bool \<times> ('e + frame) poll list \<times> sink" where
  "advance_outbound W f [] s =
     (None, True, [],
      case h2_terminal f of
        TNone \<Rightarrow> s
      | TBytes bs \<Rightarrow> snd (write_all_half W bs s)
      | TEndStream \<Rightarrow> snd (write_data W [] s))"
| "advance_outbound W f (Pending # body) s = (None, False, body, s)"
| "advance_outbound W f (Ready (Inl e) # body) s = (Some e, False, body, s)"
| "advance_outbound W f (Ready (Inr (TrailersFrame _)) # body) s = advance_outbound W f body s"
| "advance_outbound W f (Ready (Inr (DataFrame data)) # body) s =
     (case send_half W f data s of
        (True, s1) \<Rightarrow> advance_outbound W f body s1
      | (False, s1) \<Rightarrow> (None, True, body, s1))"

definition H2_MAX_READ :: nat where
  "H2_MAX_READ = 64 * 1024"

text \<open>
  What the platform says to one turn's reads: how much is available, what a read of a given capacity
  returns with its buffer, and the raw trailers.
\<close>

record reader =
  rd_available :: "hresult + nat"
  rd_read :: "nat \<Rightarrow> (hresult + nat) \<times> bytes"
  rd_trailers :: "hresult + str option"

datatype ('e, 'm) StepResult =
    StepData "('e + frame) poll list" bool bytes
  | StepTrailers 'm
  | StepEnd
  | StepError "'e ResponseBodyError"

definition duplex_step ::
  "('m, 'z) http_scheme \<Rightarrow> writer \<Rightarrow> reader \<Rightarrow> ('e + frame) poll list \<Rightarrow> bool \<Rightarrow> H2Framing \<Rightarrow> sink \<Rightarrow>
   ('e, 'm) StepResult \<times> sink" where
  "duplex_step H W R body write_done f s =
     (case (if write_done then (None, True, body, s) else advance_outbound W f body s) of
        (Some e, _, _, s1) \<Rightarrow> (StepError (RBWrite e), s1)
      | (None, write_done1, body1, s1) \<Rightarrow>
          let ended = (case rd_trailers R of
                  Inl e \<Rightarrow> StepError (RBRead e)
                | Inr None \<Rightarrow> StepEnd
                | Inr (Some raw) \<Rightarrow>
                    (case parse_trailers H raw :: 'e RequestError + 'm of
                       Inr m \<Rightarrow> if hm_iter H m \<noteq> [] then StepTrailers m else StepEnd
                     | Inl _ \<Rightarrow> StepEnd))
          in (case rd_available R of
                Inl e \<Rightarrow> StepError (RBRead e)
              | Inr available \<Rightarrow>
                  if available = 0 then ended
                  else (case rd_read R (min available H2_MAX_READ) of
                          (Inl e, _) \<Rightarrow> StepError (RBRead e)
                        | (Inr n, buffer) \<Rightarrow>
                            if take n buffer = [] then ended
                            else StepData body1 write_done1 (take n buffer)), s1))"

text \<open>\<^verbatim>\<open>DuplexResponseBody\<close>: idle with the rest of the request body, or finished; one poll that completes.\<close>

datatype 'e DState = DActive "('e + frame) poll list" bool | DFinished

definition duplex_poll_frame ::
  "('m, 'z) http_scheme \<Rightarrow> writer \<Rightarrow> reader \<Rightarrow> H2Framing \<Rightarrow> 'e DState \<Rightarrow> sink \<Rightarrow>
   ('e ResponseBodyError + bytes + 'm) option \<times> 'e DState \<times> sink" where
  "duplex_poll_frame H W R f st s =
     (case st of
        DFinished \<Rightarrow> (None, DFinished, s)
      | DActive body write_done \<Rightarrow>
          (case duplex_step H W R body write_done f s of
             (StepData body1 done1 bs, s1) \<Rightarrow> (Some (Inr (Inl bs)), DActive body1 done1, s1)
           | (StepTrailers m, s1) \<Rightarrow> (Some (Inr (Inr m)), DFinished, s1)
           | (StepEnd, s1) \<Rightarrow> (None, DFinished, s1)
           | (StepError e, s1) \<Rightarrow> (Some (Inl e), DFinished, s1)))"

section \<open>The request body across the two phases\<close>

text \<open>A platform that makes progress: a write takes at least one byte of a nonempty buffer.\<close>

definition progress :: "writer \<Rightarrow> bool" where
  "progress W \<longleftrightarrow> (\<forall>i b. \<exists>n. W i b = Inr n \<and> (b \<noteq> [] \<longrightarrow> 0 < n))"

definition frames_of :: "('e + frame) poll list \<Rightarrow> ('e + frame) list" where
  "frames_of body = concat (map (\<lambda>p. case p of Ready x \<Rightarrow> [x] | Pending \<Rightarrow> []) body)"

lemma frames_of_simps [simp]:
  "frames_of [] = []" "frames_of (Pending # b) = frames_of b" "frames_of (Ready x # b) = x # frames_of b"
  by (simp_all add: frames_of_def)

definition coding :: "H2Framing \<Rightarrow> Framing" where
  "coding f = (case f of ManualChunked \<Rightarrow> Chunked | _ \<Rightarrow> Exact 0)"

definition h2_end :: "H2Framing \<Rightarrow> bytes" where
  "h2_end f = (case f of ManualChunked \<Rightarrow> last_chunk | _ \<Rightarrow> [])"

lemma h2_frame_framed: "h2_frame f chunk = framed (coding f) chunk"
  by (cases f) (simp_all add: h2_frame_def framed_def coding_def)

lemma write_data_progress:
  assumes "progress W"
  obtains n s1 where "write_data W b s = (Inr n, s1)" "sk_wire s1 = sk_wire s @ take n b" "b \<noteq> [] \<Longrightarrow> 0 < n"
proof -
  obtain n where "W (sk_calls s) b = Inr n" "b \<noteq> [] \<longrightarrow> 0 < n" using assms by (auto simp: progress_def)
  then show ?thesis by (intro that) (auto simp: write_data_def Let_def)
qed

lemma recv_poll_sink [simp]: "dx_sink (recv_poll A d) = dx_sink d"
  by (simp add: recv_poll_def)

lemma recv_polls_sink [simp]: "dx_sink ((recv_poll A ^^ k) d) = dx_sink d"
  by (induction k) simp_all

lemma with_recv_progress:
  assumes "progress W"
  obtains n d1 where "with_recv A K W b d = (Inr n, d1)"
    "sk_wire (dx_sink d1) = sk_wire (dx_sink d) @ take n b" "b \<noteq> [] \<Longrightarrow> 0 < n"
proof -
  obtain n s1 where "write_data W b (dx_sink d) = (Inr n, s1)" "sk_wire s1 = sk_wire (dx_sink d) @ take n b"
      "b \<noteq> [] \<Longrightarrow> 0 < n"
    by (rule write_data_progress [OF assms, of b "dx_sink d"]) blast
  then show ?thesis by (intro that) (auto simp: with_recv_def Let_def simp del: funpow.simps)
qed

lemma write_all_with_recv_ok:
  assumes "progress W"
  shows "\<exists>d1. write_all_with_recv A K W p d = (Inr () :: 'e RequestError + unit, d1) \<and> sk_wire (dx_sink d1) = sk_wire (dx_sink d) @ p"
proof (induction p arbitrary: d rule: length_induct)
  case (1 p)
  show ?case
  proof (cases "p = []")
    case True
    then show ?thesis by (simp add: write_all_with_recv.simps)
  next
    case False
    obtain n d1 where w: "with_recv A K W p d = (Inr n, d1)"
      "sk_wire (dx_sink d1) = sk_wire (dx_sink d) @ take n p" "0 < n"
      using False with_recv_progress [OF assms, of A K p d] by blast
    show ?thesis
    proof (cases "n \<ge> length p")
      case True
      with False w show ?thesis by (subst write_all_with_recv.simps) simp
    next
      case lt: False
      with w have "length (drop n p) < length p" by simp
      with "1.IH" obtain d2 where "write_all_with_recv A K W (drop n p) d1 = (Inr () :: 'e RequestError + unit, d2)"
        "sk_wire (dx_sink d2) = sk_wire (dx_sink d1) @ drop n p" by blast
      with False w lt show ?thesis by (subst write_all_with_recv.simps) simp
    qed
  qed
qed

lemma write_all_half_ok:
  assumes "progress W"
  shows "\<exists>s1. write_all_half W p s = (Inr (), s1) \<and> sk_wire s1 = sk_wire s @ p"
proof (induction p arbitrary: s rule: length_induct)
  case (1 p)
  show ?case
  proof (cases "p = []")
    case True
    then show ?thesis by (simp add: write_all_half.simps)
  next
    case False
    obtain n s1 where w: "write_data W p s = (Inr n, s1)" "sk_wire s1 = sk_wire s @ take n p" "0 < n"
      using False write_data_progress [OF assms, of p s] by blast
    show ?thesis
    proof (cases "n \<ge> length p")
      case True
      with False w show ?thesis by (subst write_all_half.simps) simp
    next
      case lt: False
      with w have "length (drop n p) < length p" by simp
      with "1.IH" obtain s2 where "write_all_half W (drop n p) s1 = (Inr (), s2)"
        "sk_wire s2 = sk_wire s1 @ drop n p" by blast
      with False w lt show ?thesis by (subst write_all_half.simps) simp
    qed
  qed
qed

lemma send_half_ok:
  assumes "progress W"
  shows "\<exists>s1. send_half W f data s = (True, s1) \<and> sk_wire s1 = sk_wire s @ wire_of (coding f) (pieces data)"
proof (induction data arbitrary: s rule: pieces.induct)
  case (1 data)
  show ?case
  proof (cases "data = []")
    case True
    then show ?thesis by (simp add: send_half.simps)
  next
    case False
    have d: "drop (min (length data) MAX_WRITE) data = drop MAX_WRITE data"
      "take (min (length data) MAX_WRITE) data = take MAX_WRITE data" by (auto simp: min_def)
    obtain s1 where s1: "write_all_half W (h2_frame f (take MAX_WRITE data)) s = (Inr (), s1)"
      "sk_wire s1 = sk_wire s @ h2_frame f (take MAX_WRITE data)"
      using write_all_half_ok [OF assms] by blast
    from "1.IH" [OF False, of s1] obtain s2 where "send_half W f (drop MAX_WRITE data) s1 = (True, s2)"
      "sk_wire s2 = sk_wire s1 @ wire_of (coding f) (pieces (drop MAX_WRITE data))" by blast
    with False s1 show ?thesis
      by (subst send_half.simps, subst pieces.simps) (simp add: Let_def d h2_frame_framed)
  qed
qed

text \<open>A data frame is sent piece by piece, and what is left when the head arrives is given up.\<close>

lemma send_data_ok:
  assumes "progress W"
  shows "\<exists>d1 ps rest. send_data A K W f data d = (Inr () :: 'e RequestError + unit, d1) \<and> data = concat ps @ rest \<and>
    (\<forall>p \<in> set ps. p \<noteq> []) \<and> (rest = [] \<or> dx_head d1 \<noteq> None) \<and>
    sk_wire (dx_sink d1) = sk_wire (dx_sink d) @ wire_of (coding f) ps"
proof (induction data arbitrary: d rule: pieces.induct)
  case (1 data)
  show ?case
  proof (cases "data = [] \<or> dx_head d \<noteq> None")
    case True
    then have "send_data A K W f data d = (Inr () :: 'e RequestError + unit, d)" by (subst send_data.simps) simp
    with True show ?thesis by (intro exI [of _ d] exI [of _ "[]"] exI [of _ data]) auto
  next
    case False
    have m: "drop (min (length data) MAX_WRITE) data = drop MAX_WRITE data"
      "take (min (length data) MAX_WRITE) data = take MAX_WRITE data" by (auto simp: min_def)
    have ne: "take MAX_WRITE data \<noteq> []" using False by (simp add: MAX_WRITE_def)
    obtain d1 where d1: "write_all_with_recv A K W (h2_frame f (take MAX_WRITE data)) d = (Inr () :: 'e RequestError + unit, d1)"
      "sk_wire (dx_sink d1) = sk_wire (dx_sink d) @ h2_frame f (take MAX_WRITE data)"
      using write_all_with_recv_ok [OF assms] by blast
    from False "1.IH" [of d1] obtain d2 ps rest where d2:
      "send_data A K W f (drop MAX_WRITE data) d1 = (Inr () :: 'e RequestError + unit, d2)"
      "drop MAX_WRITE data = concat ps @ rest" "\<forall>p \<in> set ps. p \<noteq> []" "rest = [] \<or> dx_head d2 \<noteq> None"
      "sk_wire (dx_sink d2) = sk_wire (dx_sink d1) @ wire_of (coding f) ps" by blast
    have "send_data A K W f data d = (Inr () :: 'e RequestError + unit, d2)"
      using False d1(1) d2(1) by (subst send_data.simps) (simp add: Let_def m)
    moreover have "data = concat (take MAX_WRITE data # ps) @ rest" using d2(2) append_take_drop_id [of MAX_WRITE data] by simp
    ultimately show ?thesis
      using d1(2) d2(3-5) ne by (intro exI [of _ d2] exI [of _ "take MAX_WRITE data # ps"] exI [of _ rest]) (simp add: h2_frame_framed)
  qed
qed

lemma pull_result:
  "case pull A body d of
     (None, body1, d1) \<Rightarrow> dx_sink d1 = dx_sink d \<and> frames_of body1 = frames_of body
   | (Some None, body1, d1) \<Rightarrow> dx_sink d1 = dx_sink d \<and> body1 = [] \<and> frames_of body = []
   | (Some (Some x), body1, d1) \<Rightarrow> dx_sink d1 = dx_sink d \<and> frames_of body = x # frames_of body1"
  by (induction A body d rule: pull.induct) (auto split: prod.splits option.splits)

lemma terminal_ok:
  assumes "progress W"
  shows "\<exists>d2. (case h2_terminal f of TNone \<Rightarrow> (Inr () :: 'e RequestError + unit, d) | TBytes bs \<Rightarrow> write_all_with_recv A K W bs d
      | TEndStream \<Rightarrow> end_stream_with_recv A K W d) = (Inr (), d2) \<and>
    sk_wire (dx_sink d2) = sk_wire (dx_sink d) @ h2_end f"
proof (cases f)
  case Automatic
  obtain n d1 where "with_recv A K W [] d = (Inr n, d1)" "sk_wire (dx_sink d1) = sk_wire (dx_sink d) @ take n []"
    by (rule with_recv_progress [OF assms])
  with Automatic show ?thesis by (simp add: h2_terminal_def h2_end_def end_stream_with_recv_def)
next
  case ManualChunked
  then show ?thesis using write_all_with_recv_ok [OF assms] by (simp add: h2_terminal_def h2_end_def)
qed (simp add: h2_terminal_def h2_end_def)

lemma drive_loop_head: "dx_head d \<noteq> None \<Longrightarrow> drive_loop A K W f body d = (Inr False, body, d)"
  by (subst drive_loop.simps) simp

text \<open>
  How a body is accounted for: the pieces \<open>ps\<close> on the wire, the bytes \<open>lost\<close>, which are the end of one
  frame, and the rest of the body.
\<close>

definition accounted ::
  "H2Framing \<Rightarrow> ('e + frame) poll list \<Rightarrow> sink \<Rightarrow> bool \<Rightarrow> ('e + frame) poll list \<Rightarrow> sink \<Rightarrow> bytes list \<Rightarrow> bytes \<Rightarrow> bool" where
  "accounted f body s fin body1 s1 ps lost \<longleftrightarrow>
     body_data (frames_of body) = concat ps @ lost @ body_data (frames_of body1) \<and>
     set (frames_of body1) \<subseteq> set (frames_of body) \<and> (\<forall>p \<in> set ps. p \<noteq> []) \<and>
     sk_wire s1 = sk_wire s @ wire_of (coding f) ps @ (if fin then h2_end f else []) \<and>
     (fin \<longrightarrow> lost = [] \<and> body1 = []) \<and>
     (lost = [] \<or> (\<exists>x \<in> set (frames_of body). \<exists>pre. frame_data x = pre @ lost))"

lemma accounted_frame:
  assumes "accounted f body1 s1 fin body2 s2 ps lost" "frames_of body = x # frames_of body1"
    and "frame_data x = concat qs" "\<forall>p \<in> set qs. p \<noteq> []" "sk_wire s1 = sk_wire s @ wire_of (coding f) qs"
  shows "accounted f body s fin body2 s2 (qs @ ps) lost"
  using assms unfolding accounted_def by auto

lemma drive_loop_ok:
  fixes body :: "('e + frame) poll list"
  assumes W: "progress W" and "\<forall>e. Inl e \<notin> set (frames_of body)"
  shows "\<exists>fin body1 d1 ps lost. drive_loop A K W f body d = (Inr fin, body1, d1) \<and>
    accounted f body (dx_sink d) fin body1 (dx_sink d1) ps lost"
  using assms(2)
proof (induction "length body" arbitrary: body d rule: less_induct)
  case less
  show ?case
  proof (cases "dx_head d = None")
    case False
    then have "drive_loop A K W f body d = (Inr False, body, d)" by (simp add: drive_loop_head)
    then show ?thesis by (intro exI [of _ False] exI [of _ body] exI [of _ d] exI [of _ "[]"]) (simp add: accounted_def)
  next
    case None: True
    obtain r body1 d1 where p: "pull A body d = (r, body1, d1)" by (metis prod_cases3)
    note pr = pull_result [where A = A and body = body and d = d, unfolded p]
    consider "r = None" | "r = Some None" | x where "r = Some (Some x)" by (cases r; cases "the r") auto
    then show ?thesis
    proof cases
      case 1
      then have "drive_loop A K W f body d = (Inr False, body1, d1)"
        using None p by (subst drive_loop.simps) simp
      with 1 pr show ?thesis
        by (intro exI [of _ False] exI [of _ body1] exI [of _ d1] exI [of _ "[]"]) (simp add: accounted_def)
    next
      case 2
      obtain d2 where d2: "(case h2_terminal f of TNone \<Rightarrow> (Inr () :: 'e RequestError + unit, d1)
          | TBytes bs \<Rightarrow> write_all_with_recv A K W bs d1 | TEndStream \<Rightarrow> end_stream_with_recv A K W d1) = (Inr (), d2)"
        "sk_wire (dx_sink d2) = sk_wire (dx_sink d1) @ h2_end f"
        using terminal_ok [OF W, where f = f and d = d1 and A = A and K = K] by blast
      then have "drive_loop A K W f body d = (Inr True, body1, d2)"
        using None p 2 by (subst drive_loop.simps) simp
      with 2 pr d2(2) show ?thesis
        by (intro exI [of _ True] exI [of _ body1] exI [of _ d2] exI [of _ "[]"]) (simp add: accounted_def)
    next
      case (3 x)
      have fr: "frames_of body = x # frames_of body1" and sk: "dx_sink d1 = dx_sink d" using pr 3 by auto
      have lt: "length body1 < length body" using pull_shorter p 3 by blast
      have ok: "\<forall>e. Inl e \<notin> set (frames_of body1)" using less.prems fr by auto
      show ?thesis
      proof (cases "\<exists>t. x = Inr (TrailersFrame t)")
        case True
        then obtain t where x: "x = Inr (TrailersFrame t)" ..
        then have eq: "drive_loop A K W f body d = drive_loop A K W f body1 d1"
          using p 3 None by (subst drive_loop.simps) simp
        obtain fin body2 d3 qs lost where q: "drive_loop A K W f body1 d1 = (Inr fin, body2, d3)"
          "accounted f body1 (dx_sink d1) fin body2 (dx_sink d3) qs lost"
          using less.hyps [OF lt ok, of d1] by blast
        have "accounted f body (dx_sink d) fin body2 (dx_sink d3) ([] @ qs) lost"
          by (rule accounted_frame [OF q(2) fr]) (simp_all add: x sk)
        with eq q(1) show ?thesis by auto
      next
        case False
        then obtain data where x: "x = Inr (DataFrame data)"
          using less.prems fr by (metis frame.exhaust list.set_intros(1) sumE)
        obtain d2 ps rest where d2: "send_data A K W f data d1 = (Inr () :: 'e RequestError + unit, d2)"
          "data = concat ps @ rest" "\<forall>p \<in> set ps. p \<noteq> []" "rest = [] \<or> dx_head d2 \<noteq> None"
          "sk_wire (dx_sink d2) = sk_wire (dx_sink d1) @ wire_of (coding f) ps"
          using send_data_ok [OF W] by blast
        have eq: "drive_loop A K W f body d = drive_loop A K W f body1 d2"
          using p 3 x None d2(1) by (subst drive_loop.simps) simp
        show ?thesis
        proof (cases "rest = []")
          case True
          obtain fin body2 d3 qs lost where q: "drive_loop A K W f body1 d2 = (Inr fin, body2, d3)"
            "accounted f body1 (dx_sink d2) fin body2 (dx_sink d3) qs lost"
            using less.hyps [OF lt ok, of d2] by blast
          have "accounted f body (dx_sink d) fin body2 (dx_sink d3) (ps @ qs) lost"
            by (rule accounted_frame [OF q(2) fr]) (use d2 True in \<open>simp_all add: x sk\<close>)
          with eq q(1) show ?thesis by auto
        next
          case rest: False
          with d2(4) have "drive_loop A K W f body1 d2 = (Inr False, body1, d2)" by (auto simp: drive_loop_head)
          moreover have "accounted f body (dx_sink d) False body1 (dx_sink d2) ps rest"
            using d2(2,3,5) fr sk x by (auto simp: accounted_def)
          ultimately show ?thesis using eq by auto
        qed
      qed
    qed
  qed
qed

lemma advance_shorter: "advance_outbound W f body s = (e, False, body1, s1) \<Longrightarrow> length body1 < length body"
proof (induction W f body s rule: advance_outbound.induct)
  case (5 W f data body s)
  obtain b s2 where h: "send_half W f data s = (b, s2)" by (cases "send_half W f data s")
  with "5.prems" have "b" by (cases b) simp_all
  with h "5.prems" have "advance_outbound W f body s2 = (e, False, body1, s1)" by simp
  with "5.IH" [OF h [symmetric]] \<open>b\<close> have "length body1 < length body" by blast
  then show ?case by simp
qed simp_all

text \<open>The turns of the response body until the request body is sent: what a consumer's polls add up to.\<close>

function outbound_turns ::
  "writer \<Rightarrow> H2Framing \<Rightarrow> ('e + frame) poll list \<Rightarrow> sink \<Rightarrow> sink" where
  "outbound_turns W f body s =
     (case advance_outbound W f body s of
        (None, False, body1, s1) \<Rightarrow> outbound_turns W f body1 s1
      | (_, _, _, s1) \<Rightarrow> s1)"
  by pat_completeness auto
termination
  by (relation "measure (\<lambda>(W, f, body, s). length body)") (auto dest!: sym [of _ "advance_outbound _ _ _ _"] advance_shorter)

declare outbound_turns.simps [simp del]

lemma advance_ok:
  assumes W: "progress W" and "\<forall>e. Inl e \<notin> set (frames_of body)"
  shows "\<exists>fin body1 s1 ps. advance_outbound W f body s = (None, fin, body1, s1) \<and> accounted f body s fin body1 s1 ps []"
  using assms(2)
proof (induction body arbitrary: s)
  case Nil
  obtain s2 where e: "write_all_half W last_chunk s = (Inr (), s2)" "sk_wire s2 = sk_wire s @ last_chunk"
    using write_all_half_ok [OF W] by blast
  obtain n s3 where "write_data W [] s = (Inr n, s3)" "sk_wire s3 = sk_wire s @ take n []"
    by (rule write_data_progress [OF W])
  with e have "accounted f [] s True [] (case h2_terminal f of TNone \<Rightarrow> s
      | TBytes bs \<Rightarrow> snd (write_all_half W bs s) | TEndStream \<Rightarrow> snd (write_data W [] s)) [] []"
    by (cases f) (simp_all add: accounted_def h2_terminal_def h2_end_def)
  then show ?case by (intro exI conjI) (rule advance_outbound.simps, assumption)
next
  case (Cons a body)
  show ?case
  proof (cases a)
    case Pending
    then show ?thesis
      by (intro exI [of _ False] exI [of _ body] exI [of _ s] exI [of _ "[]"]) (simp add: accounted_def)
  next
    case (Ready x)
    have fr: "frames_of (a # body) = x # frames_of body" using Ready by simp
    have ok: "\<forall>e. Inl e \<notin> set (frames_of body)" using Cons.prems fr by auto
    consider (tr) t where "x = Inr (TrailersFrame t)" | (data) data where "x = Inr (DataFrame data)"
      using Cons.prems fr by (metis frame.exhaust list.set_intros(1) sumE)
    then show ?thesis
    proof cases
      case tr
      obtain fin body1 s1 ps where q: "advance_outbound W f body s = (None, fin, body1, s1)"
        "accounted f body s fin body1 s1 ps []" using Cons.IH [OF ok] by blast
      have "accounted f (a # body) s fin body1 s1 ([] @ ps) []"
        by (rule accounted_frame [OF q(2) fr]) (simp_all add: tr)
      with q(1) tr Ready show ?thesis by auto
    next
      case data
      obtain s2 where s2: "send_half W f data s = (True, s2)" "sk_wire s2 = sk_wire s @ wire_of (coding f) (pieces data)"
        using send_half_ok [OF W] by blast
      obtain fin body1 s1 ps where q: "advance_outbound W f body s2 = (None, fin, body1, s1)"
        "accounted f body s2 fin body1 s1 ps []" using Cons.IH [OF ok] by blast
      have "accounted f (a # body) s fin body1 s1 (pieces data @ ps) []"
        by (rule accounted_frame [OF q(2) fr]) (use s2(2) in \<open>auto simp: data dest: pieces_bounds\<close>)
      with q(1) s2(1) data Ready show ?thesis by auto
    qed
  qed
qed

lemma outbound_turns_ok:
  assumes W: "progress W" and "\<forall>e. Inl e \<notin> set (frames_of body)"
  shows "\<exists>ps. concat ps = body_data (frames_of body) \<and> (\<forall>p \<in> set ps. p \<noteq> []) \<and>
    sk_wire (outbound_turns W f body s) = sk_wire s @ wire_of (coding f) ps @ h2_end f"
  using assms(2)
proof (induction "length body" arbitrary: body s rule: less_induct)
  case less
  obtain fin body1 s1 ps where q: "advance_outbound W f body s = (None, fin, body1, s1)"
    "accounted f body s fin body1 s1 ps []" using advance_ok [OF W less.prems] by blast
  show ?case
  proof (cases fin)
    case True
    with q show ?thesis by (subst outbound_turns.simps) (auto simp: accounted_def)
  next
    case False
    have lt: "length body1 < length body" using q(1) False by (simp add: advance_shorter [of W f body s None body1 s1])
    have ok: "\<forall>e. Inl e \<notin> set (frames_of body1)" using less.prems q(2) by (auto simp: accounted_def)
    obtain qs where qs: "concat qs = body_data (frames_of body1)" "\<forall>p \<in> set qs. p \<noteq> []"
      "sk_wire (outbound_turns W f body1 s1) = sk_wire s1 @ wire_of (coding f) qs @ h2_end f"
      using less.hyps [OF lt ok] by blast
    have "outbound_turns W f body s = outbound_turns W f body1 s1"
      using q(1) False by (subst outbound_turns.simps) simp
    with qs q(2) False show ?thesis by (intro exI [of _ "ps @ qs"]) (auto simp: accounted_def)
  qed
qed

text \<open>The bytes of a request body on the wire, decoded.\<close>

definition decoded :: "H2Framing \<Rightarrow> bytes \<Rightarrow> bytes option" where
  "decoded f sent = (case f of ManualChunked \<Rightarrow> dechunk sent | _ \<Rightarrow> Some sent)"

lemma decoded_wire:
  "(\<forall>p \<in> set ps. p \<noteq> []) \<Longrightarrow> decoded f (wire_of (coding f) ps @ h2_end f) = Some (concat ps)"
  by (cases f) (simp_all add: decoded_def coding_def h2_end_def dechunk_wire)

section \<open>Properties\<close>

text \<open>
  Property C10. The request body across the two phases, on a platform that makes progress and with a body
  that does not fail: once the response head has arrived, what the head phase wrote followed by what the
  response body's turns write is a complete message, whose data is the body's data, in order, except that
  the end of at most one data frame may be missing, namely what was left of a frame when the head came. If
  the head phase reports the whole body as sent, nothing is missing, whatever the size of the frames.
\<close>

theorem h2_body_accounted:
  fixes body :: "('e + frame) poll list"
  assumes W: "progress W" and ok: "\<forall>e. Inl e \<notin> set (frames_of body)"
    and head: "drive_head fuel A K W f body s = Some (Inr write_done, body1, s1)"
    and turns: "s2 = (if write_done then s1 else outbound_turns W f body1 s1)"
  shows "\<exists>sent front lost back. sk_wire s2 = sk_wire s @ sent \<and> decoded f sent = Some (front @ back) \<and>
    body_data (frames_of body) = front @ lost @ back \<and> (write_done \<longrightarrow> lost = []) \<and>
    (lost = [] \<or> (\<exists>x \<in> set (frames_of body). \<exists>pre. frame_data x = pre @ lost))"
proof -
  let ?d = "\<lparr>dx_sink = s, dx_polls = 0, dx_head = None\<rparr>"
  obtain fin b d1 ps lost where q: "drive_loop A K W f body ?d = (Inr fin, b, d1)"
    "accounted f body s fin b (dx_sink d1) ps lost"
    using drive_loop_ok [OF W ok, of A K f ?d] by auto
  have r: "fin = write_done" "b = body1" "dx_sink d1 = s1"
    using head q(1) by (auto simp: drive_head_def split: option.splits sum.splits)
  note acc = q(2) [unfolded r]
  show ?thesis
  proof (cases write_done)
    case True
    with acc turns decoded_wire [of ps f] show ?thesis
      by (intro exI [of _ "wire_of (coding f) ps @ h2_end f"] exI [of _ "concat ps"] exI [of _ "[]"]) (simp add: accounted_def)
  next
    case False
    have ok1: "\<forall>e. Inl e \<notin> set (frames_of body1)" using ok acc by (auto simp: accounted_def)
    obtain qs where qs: "concat qs = body_data (frames_of body1)" "\<forall>p \<in> set qs. p \<noteq> []"
      "sk_wire s2 = sk_wire s1 @ wire_of (coding f) qs @ h2_end f"
      using outbound_turns_ok [OF W ok1, of f s1] turns False by auto
    have "decoded f (wire_of (coding f) (ps @ qs) @ h2_end f) = Some (concat (ps @ qs))"
      using acc qs(2) by (intro decoded_wire) (auto simp: accounted_def)
    with acc qs False show ?thesis
      by (intro exI [of _ "wire_of (coding f) (ps @ qs) @ h2_end f"] exI [of _ "concat ps"] exI [of _ lost]
          exI [of _ "concat qs"]) (simp add: accounted_def)
  qed
qed

definition take_all :: writer where
  "take_all i buffer = Inr (length buffer)"

lemma take_all_progress: "progress take_all"
  by (simp add: progress_def take_all_def)

theorem h2_body_accounted_witness:
  "drive_head 1 (\<lambda>_. Some (Inr ())) (\<lambda>_. 0) take_all ManualChunked
      [Pending, Ready (Inr (DataFrame [7, 8]) :: unit + frame)] \<lparr>sk_calls = 0, sk_wire = []\<rparr> =
      Some (Inr False, [Ready (Inr (DataFrame [7, 8]))], \<lparr>sk_calls = 0, sk_wire = []\<rparr>) \<and>
   (\<exists>sent front lost back.
      sk_wire (outbound_turns take_all ManualChunked [Ready (Inr (DataFrame [7, 8]) :: unit + frame)] \<lparr>sk_calls = 0, sk_wire = []\<rparr>) = sent \<and>
      decoded ManualChunked sent = Some (front @ back) \<and> [7, 8] = front @ lost @ back)"
proof -
  let ?b = "[Pending, Ready (Inr (DataFrame [7, 8]) :: unit + frame)]"
  let ?s = "\<lparr>sk_calls = 0, sk_wire = []\<rparr> :: sink"
  have h: "drive_head 1 (\<lambda>_. Some (Inr ())) (\<lambda>_. 0) take_all ManualChunked ?b ?s =
      Some (Inr False, [Ready (Inr (DataFrame [7, 8]))], ?s)"
    by (simp add: drive_head_def drive_loop.simps recv_poll_def)
  have "\<exists>sent front lost back. sk_wire (outbound_turns take_all ManualChunked [Ready (Inr (DataFrame [7, 8]) :: unit + frame)] ?s) =
      sk_wire ?s @ sent \<and> decoded ManualChunked sent = Some (front @ back) \<and> body_data (frames_of ?b) = front @ lost @ back \<and>
      (False \<longrightarrow> lost = []) \<and> (lost = [] \<or> (\<exists>x \<in> set (frames_of ?b). \<exists>pre. frame_data x = pre @ lost))"
    by (rule h2_body_accounted [OF take_all_progress _ h]) simp_all
  with h show ?thesis by simp blast
qed

text \<open>
  The head phase as long as the receive has not answered: what a step does to a state \<open>d\<close> without a head,
  with any receiver that is silent up to the poll the step ends at.
\<close>

abbreviation (input) silent :: "receiver \<Rightarrow> nat \<Rightarrow> bool" where
  "silent A j \<equiv> \<forall>i<j. A i = None"

lemma recv_poll_silent:
  "dx_head d = None \<Longrightarrow> silent A (dx_polls d + 1) \<Longrightarrow> recv_poll A d = d\<lparr>dx_polls := dx_polls d + 1\<rparr>"
  by (simp add: recv_poll_def)

lemma recv_polls_silent:
  "dx_head d = None \<Longrightarrow> silent A (dx_polls d + n) \<Longrightarrow> (recv_poll A ^^ n) d = d\<lparr>dx_polls := dx_polls d + n\<rparr>"
  by (induction n) (simp_all add: recv_poll_def)

lemma with_recv_silent:
  assumes W: "progress W" and d: "dx_head d = None"
  shows "\<exists>n d1. dx_head d1 = None \<and> dx_polls d \<le> dx_polls d1 \<and> (b \<noteq> [] \<longrightarrow> 0 < n) \<and>
    sk_wire (dx_sink d1) = sk_wire (dx_sink d) @ take n b \<and>
    (\<forall>A. silent A (dx_polls d1) \<longrightarrow> with_recv A K W b d = (Inr n, d1))"
proof -
  let ?k = "Suc (K (sk_calls (dx_sink d)))"
  let ?d = "d\<lparr>dx_polls := dx_polls d + ?k\<rparr>"
  obtain n s1 where w: "write_data W b (dx_sink d) = (Inr n, s1)" "sk_wire s1 = sk_wire (dx_sink d) @ take n b"
    "b \<noteq> [] \<Longrightarrow> 0 < n" by (rule write_data_progress [OF W, of b "dx_sink d"]) blast
  have "with_recv A K W b d = (Inr n, ?d\<lparr>dx_sink := s1\<rparr>)" if "silent A (dx_polls ?d)" for A
    using w(1) recv_polls_silent [where A = A and n = ?k, OF d] that by (simp add: with_recv_def Let_def del: funpow.simps)
  with w(2,3) d show ?thesis
    by (intro exI [of _ n] exI [of _ "?d\<lparr>dx_sink := s1\<rparr>"]) auto
qed

lemma write_all_silent:
  assumes "progress W" "dx_head d = None"
  shows "\<exists>d1. dx_head d1 = None \<and> dx_polls d \<le> dx_polls d1 \<and> sk_wire (dx_sink d1) = sk_wire (dx_sink d) @ p \<and>
    (\<forall>A. silent A (dx_polls d1) \<longrightarrow> write_all_with_recv A K W p d = (Inr () :: 'e RequestError + unit, d1))"
  using assms(2)
proof (induction p arbitrary: d rule: length_induct)
  case (1 p)
  show ?case
  proof (cases "p = []")
    case True
    with 1 show ?thesis by (intro exI [of _ d]) (simp add: write_all_with_recv.simps)
  next
    case False
    obtain n d1 where w: "dx_head d1 = None" "dx_polls d \<le> dx_polls d1" "0 < n"
      "sk_wire (dx_sink d1) = sk_wire (dx_sink d) @ take n p"
      "\<And>A. silent A (dx_polls d1) \<Longrightarrow> with_recv A K W p d = (Inr n, d1)"
      using False with_recv_silent [OF assms(1) "1.prems", of p K] by blast
    show ?thesis
    proof (cases "n \<ge> length p")
      case True
      have "write_all_with_recv A K W p d = (Inr () :: 'e RequestError + unit, d1)" if "silent A (dx_polls d1)" for A
        using False True w(5) [OF that] by (subst write_all_with_recv.simps) simp
      with w True show ?thesis by (intro exI [of _ d1]) simp
    next
      case lt: False
      with w have "length (drop n p) < length p" by simp
      with "1.IH" w(1) obtain d2 where d2: "dx_head d2 = None" "dx_polls d1 \<le> dx_polls d2"
        "sk_wire (dx_sink d2) = sk_wire (dx_sink d1) @ drop n p"
        "\<And>A. silent A (dx_polls d2) \<Longrightarrow> write_all_with_recv A K W (drop n p) d1 = (Inr () :: 'e RequestError + unit, d2)"
        by blast
      have "write_all_with_recv A K W p d = (Inr () :: 'e RequestError + unit, d2)" if "silent A (dx_polls d2)" for A
        using False lt w(3) w(5) [of A] d2(2) d2(4) [OF that] that by (subst write_all_with_recv.simps) simp
      with w d2 show ?thesis by (intro exI [of _ d2]) simp
    qed
  qed
qed

lemma send_data_silent:
  assumes "progress W" "dx_head d = None"
  shows "\<exists>d1. dx_head d1 = None \<and> dx_polls d \<le> dx_polls d1 \<and>
    sk_wire (dx_sink d1) = sk_wire (dx_sink d) @ wire_of (coding f) (pieces data) \<and>
    (\<forall>A. silent A (dx_polls d1) \<longrightarrow> send_data A K W f data d = (Inr () :: 'e RequestError + unit, d1))"
  using assms(2)
proof (induction data arbitrary: d rule: pieces.induct)
  case (1 data)
  show ?case
  proof (cases "data = []")
    case True
    with 1 show ?thesis by (intro exI [of _ d]) (simp add: send_data.simps)
  next
    case False
    have m: "drop (min (length data) MAX_WRITE) data = drop MAX_WRITE data"
      "take (min (length data) MAX_WRITE) data = take MAX_WRITE data" by (auto simp: min_def)
    obtain d1 where d1: "dx_head d1 = None" "dx_polls d \<le> dx_polls d1"
      "sk_wire (dx_sink d1) = sk_wire (dx_sink d) @ h2_frame f (take MAX_WRITE data)"
      "\<And>A. silent A (dx_polls d1) \<Longrightarrow>
        write_all_with_recv A K W (h2_frame f (take MAX_WRITE data)) d = (Inr () :: 'e RequestError + unit, d1)"
      using write_all_silent [OF assms(1) "1.prems"] by blast
    from "1.IH" [OF False d1(1)] obtain d2 where d2: "dx_head d2 = None" "dx_polls d1 \<le> dx_polls d2"
      "sk_wire (dx_sink d2) = sk_wire (dx_sink d1) @ wire_of (coding f) (pieces (drop MAX_WRITE data))"
      "\<And>A. silent A (dx_polls d2) \<Longrightarrow> send_data A K W f (drop MAX_WRITE data) d1 = (Inr () :: 'e RequestError + unit, d2)"
      by blast
    have "send_data A K W f data d = (Inr () :: 'e RequestError + unit, d2)" if "silent A (dx_polls d2)" for A
      using False "1.prems" d1(4) [of A] d2(2) d2(4) [OF that] that by (subst send_data.simps) (simp add: Let_def m)
    with False d1 d2 show ?thesis
      by (intro exI [of _ d2], subst pieces.simps) (simp add: h2_frame_framed)
  qed
qed

text \<open>What comes before a frame is written by the loop, and leaves it at the poll the frame is pulled at.\<close>

definition pre_written ::
  "(nat \<Rightarrow> nat) \<Rightarrow> writer \<Rightarrow> H2Framing \<Rightarrow> ('e + frame) poll list \<Rightarrow> duplex \<Rightarrow> bytes list \<Rightarrow> duplex \<Rightarrow> bool" where
  "pre_written K W f pre d ps d1 \<longleftrightarrow> dx_head d1 = None \<and> dx_polls d \<le> dx_polls d1 \<and>
     concat ps = body_data (frames_of pre) \<and> (\<forall>p \<in> set ps. p \<noteq> []) \<and>
     sk_wire (dx_sink d1) = sk_wire (dx_sink d) @ wire_of (coding f) ps \<and>
     (\<forall>A tl. silent A (dx_polls d1) \<longrightarrow> drive_loop A K W f (pre @ tl) d = drive_loop A K W f tl d1)"

lemma drive_loop_pending:
  assumes "dx_head d = None" "silent A (dx_polls d + 1)"
  shows "drive_loop A K W f (Pending # body) d = drive_loop A K W f body (d\<lparr>dx_polls := dx_polls d + 1\<rparr>)"
  using assms recv_poll_silent [OF assms] by (subst (1 2) drive_loop.simps) simp

lemma drive_loop_silent:
  fixes pre :: "('e + frame) poll list"
  assumes W: "progress W" and "\<forall>e. Inl e \<notin> set (frames_of pre)" "dx_head d = None"
  shows "\<exists>ps d1. pre_written K W f pre d ps d1"
  using assms(2,3)
proof (induction pre arbitrary: d)
  case Nil
  then show ?case by (intro exI [of _ "[]"] exI [of _ d]) (simp add: pre_written_def)
next
  case (Cons a pre)
  let ?d = "d\<lparr>dx_polls := dx_polls d + 1\<rparr>"
  have ok: "\<forall>e. Inl e \<notin> set (frames_of pre)" using Cons.prems(1) by (cases a) auto
  consider (pending) "a = Pending" | (tr) t where "a = Ready (Inr (TrailersFrame t))" | (data) data where "a = Ready (Inr (DataFrame data))"
    using Cons.prems(1) by (metis frame.exhaust frames_of_simps(3) list.set_intros(1) poll.exhaust sumE)
  then show ?case
  proof cases
    case pending
    obtain ps d1 where q: "pre_written K W f pre ?d ps d1" using Cons.IH [OF ok, of ?d] Cons.prems(2) by auto
    have "drive_loop A K W f (a # pre @ tl) d = drive_loop A K W f (pre @ tl) ?d" if "silent A (dx_polls d1)" for A tl
      unfolding pending by (rule drive_loop_pending [OF Cons.prems(2)]) (use that q in \<open>auto simp: pre_written_def\<close>)
    with q pending have "pre_written K W f (a # pre) d ps d1" by (simp add: pre_written_def)
    then show ?thesis by blast
  next
    case tr
    obtain ps d1 where q: "pre_written K W f pre ?d ps d1" using Cons.IH [OF ok, of ?d] Cons.prems(2) by auto
    have "drive_loop A K W f (a # pre @ tl) d = drive_loop A K W f (pre @ tl) ?d" if "silent A (dx_polls d1)" for A tl
      using that q Cons.prems(2) recv_poll_silent [where A = A, OF Cons.prems(2)] tr
      by (subst drive_loop.simps) (simp add: pre_written_def)
    with q tr have "pre_written K W f (a # pre) d ps d1" by (simp add: pre_written_def)
    then show ?thesis by blast
  next
    case data
    obtain d2 where d2: "dx_head d2 = None" "dx_polls ?d \<le> dx_polls d2"
      "sk_wire (dx_sink d2) = sk_wire (dx_sink ?d) @ wire_of (coding f) (pieces data)"
      "\<And>A. silent A (dx_polls d2) \<Longrightarrow> send_data A K W f data ?d = (Inr () :: 'e RequestError + unit, d2)"
      using send_data_silent [OF W, of ?d f data K] Cons.prems(2) by auto
    obtain ps d1 where q: "pre_written K W f pre d2 ps d1" using Cons.IH [OF ok d2(1)] by blast
    have "drive_loop A K W f (a # pre @ tl) d = drive_loop A K W f (pre @ tl) d2" if "silent A (dx_polls d1)" for A tl
      using that q Cons.prems(2) recv_poll_silent [where A = A, OF Cons.prems(2)] d2(2) d2(4) [of A] data
      by (subst drive_loop.simps) (simp add: pre_written_def)
    with q d2(2,3) data have "pre_written K W f (a # pre) d (pieces data @ ps) d1"
      using pieces_bounds by (fastforce simp: pre_written_def)
    then show ?thesis by blast
  qed
qed

lemma drive_loop_drops:
  assumes "dx_head d = None" "A (dx_polls d) = Some (Inr ())"
  shows "drive_loop A K W f (Ready (Inr (DataFrame data)) # rest) d =
    (Inr False, rest, d\<lparr>dx_polls := dx_polls d + 1, dx_head := Some (Inr ())\<rparr>)"
proof -
  have "recv_poll A d = d\<lparr>dx_polls := dx_polls d + 1, dx_head := Some (Inr ())\<rparr>"
    using assms by (simp add: recv_poll_def)
  then show ?thesis using assms(1) by (subst drive_loop.simps) (simp add: send_data.simps drive_loop_head)
qed



end
