(* ===== verification/Http_Body.thy ===== *)
theory Http_Body
  imports Client_Body
begin

text \<open>
  The streaming bodies: the response body of the client, \<^verbatim>\<open>winasio-util/src/body.rs\<close>, and the request
  body of the server, \<^verbatim>\<open>winasio-util/src/server/incoming.rs\<close>.

  Both are state machines that own one read at a time. The \<open>i\<close>-th read of a body is pending for \<open>K i\<close>
  polls; \<open>avail i\<close> and \<open>rd i capacity\<close> are what the platform then answers.
\<close>

section \<open>The client's response body\<close>

definition MAX_READ :: nat where
  "MAX_READ = 64 * 1024"

datatype BodyState = BIdle | BBusy nat "nat option" | BFinished

record native =
  nb_state :: BodyState
  nb_remaining :: "nat option"
  nb_delivered :: nat
  nb_reads :: nat

definition body_new :: "nat option \<Rightarrow> native" where
  "body_new declared = \<lparr>nb_state = BIdle, nb_remaining = declared, nb_delivered = 0, nb_reads = 0\<rparr>"

definition body_empty :: native where
  "body_empty = \<lparr>nb_state = BFinished, nb_remaining = Some 0, nb_delivered = 0, nb_reads = 0\<rparr>"

definition shortfall :: "native \<Rightarrow> 'e ResponseBodyError option" where
  "shortfall n =
     (case nb_remaining n of
        None \<Rightarrow> None
      | Some missing \<Rightarrow> if missing = 0 then None else Some (Truncated (nb_delivered n + missing) (nb_delivered n)))"

definition read_once ::
  "hresult + nat \<Rightarrow> (nat \<Rightarrow> (hresult + nat) \<times> bytes) \<Rightarrow> nat option \<Rightarrow> 'e ResponseBodyError + bytes option" where
  "read_once available rd cap =
     (case available of
        Inl e \<Rightarrow> Inl (RBRead e)
      | Inr a \<Rightarrow>
          if a = 0 then Inr None
          else
            let wanted = min a MAX_READ;
                wanted = (case cap of Some remaining \<Rightarrow> min wanted (max remaining 1) | None \<Rightarrow> wanted)
            in case rd wanted of
                 (Inl e, _) \<Rightarrow> Inl (RBRead e)
               | (Inr n, buffer) \<Rightarrow> if take n buffer = [] then Inr None else Inr (Some (take n buffer)))"

type_synonym available = "nat \<Rightarrow> hresult + nat"
type_synonym body_read = "nat \<Rightarrow> nat \<Rightarrow> (hresult + nat) \<times> bytes"
type_synonym 'e body_poll = "('e ResponseBodyError + bytes) option poll"

text \<open>A poll in the busy state, and a poll: the loop passes at most once from idle to busy.\<close>

definition poll_busy ::
  "available \<Rightarrow> body_read \<Rightarrow> nat \<Rightarrow> nat option \<Rightarrow> native \<Rightarrow> 'e body_poll \<times> native" where
  "poll_busy avail rd k cap n =
     (case k of
        Suc k' \<Rightarrow> (Pending, n\<lparr>nb_state := BBusy k' cap\<rparr>)
      | 0 \<Rightarrow>
          let n1 = n\<lparr>nb_state := BFinished, nb_reads := nb_reads n + 1\<rparr>
          in case read_once (avail (nb_reads n)) (rd (nb_reads n)) cap of
               Inl e \<Rightarrow> (Ready (Some (Inl e)), n1)
             | Inr None \<Rightarrow>
                 (case shortfall n1 of
                    Some e \<Rightarrow> (Ready (Some (Inl e)), n1)
                  | None \<Rightarrow> (Ready None, n1))
             | Inr (Some chunk) \<Rightarrow>
                 (Ready (Some (Inr chunk)),
                  n1\<lparr>nb_state := BIdle, nb_delivered := nb_delivered n1 + length chunk,
                     nb_remaining := map_option (\<lambda>r. r - length chunk) (nb_remaining n1)\<rparr>))"

definition body_poll_frame ::
  "(nat \<Rightarrow> nat) \<Rightarrow> available \<Rightarrow> body_read \<Rightarrow> native \<Rightarrow> 'e body_poll \<times> native" where
  "body_poll_frame K avail rd n =
     (case nb_state n of
        BFinished \<Rightarrow> (Ready None, n)
      | BIdle \<Rightarrow>
          if nb_remaining n = Some 0 then (Ready None, n\<lparr>nb_state := BFinished\<rparr>)
          else poll_busy avail rd (K (nb_reads n)) (nb_remaining n) n
      | BBusy k cap \<Rightarrow> poll_busy avail rd k cap n)"

definition is_end_stream :: "native \<Rightarrow> bool" where
  "is_end_stream n \<longleftrightarrow> nb_state n = BFinished \<or> nb_remaining n = Some 0"

definition size_hint :: "native \<Rightarrow> nat \<times> nat option" where
  "size_hint n = (case nb_remaining n of Some r \<Rightarrow> (r, Some r) | None \<Rightarrow> (0, None))"

section \<open>The server's request body\<close>

definition READ_SIZE :: nat where
  "READ_SIZE = 16 * 1024"

datatype IncomingState = IIdle bytes | IBusy nat bytes | IFinished

record IncomingBody =
  ib_state :: IncomingState
  ib_declared :: "nat option"
  ib_delivered :: nat
  ib_reads :: nat

definition incoming_new :: "nat option \<Rightarrow> IncomingBody" where
  "incoming_new declared =
     \<lparr>ib_state = IIdle (replicate READ_SIZE 0), ib_declared = declared, ib_delivered = 0, ib_reads = 0\<rparr>"

definition incoming_empty :: IncomingBody where
  "incoming_empty = \<lparr>ib_state = IFinished, ib_declared = Some 0, ib_delivered = 0, ib_reads = 0\<rparr>"

definition body_for :: "bool \<Rightarrow> nat option \<Rightarrow> IncomingBody" where
  "body_for has_more declared =
     (if \<not> has_more \<and> (case declared of Some d \<Rightarrow> d | None \<Rightarrow> 0) = 0 then incoming_empty
      else incoming_new declared)"

text \<open>\<open>rd i buffer\<close> is what the \<open>i\<close>-th read gives back: the buffer and the result.\<close>

definition incoming_busy ::
  "(nat \<Rightarrow> bytes \<Rightarrow> bytes \<times> (hresult + nat)) \<Rightarrow> nat \<Rightarrow> bytes \<Rightarrow> IncomingBody \<Rightarrow>
   ((PlatformError + bytes) option poll \<times> IncomingBody) may_panic" where
  "incoming_busy rd k buffer b =
     (case k of
        Suc k' \<Rightarrow> Some (Pending, b\<lparr>ib_state := IBusy k' buffer\<rparr>)
      | 0 \<Rightarrow>
          let b1 = b\<lparr>ib_state := IFinished, ib_reads := ib_reads b + 1\<rparr>
          in case rd (ib_reads b) buffer of
               (_, Inl e) \<Rightarrow> Some (Ready (Some (Inl (PlatformError OpReadBody e))), b1)
             | (buffer1, Inr n) \<Rightarrow>
                 if n = 0 then Some (Ready None, b1)
                 else if length buffer1 < n then None
                 else Some (Ready (Some (Inr (take n buffer1))),
                        b1\<lparr>ib_state := IIdle buffer1, ib_delivered := ib_delivered b1 + n\<rparr>))"

definition incoming_poll_frame ::
  "(nat \<Rightarrow> nat) \<Rightarrow> (nat \<Rightarrow> bytes \<Rightarrow> bytes \<times> (hresult + nat)) \<Rightarrow> IncomingBody \<Rightarrow>
   ((PlatformError + bytes) option poll \<times> IncomingBody) may_panic" where
  "incoming_poll_frame K rd b =
     (case ib_state b of
        IFinished \<Rightarrow> Some (Ready None, b)
      | IIdle buffer \<Rightarrow> incoming_busy rd (K (ib_reads b)) buffer b
      | IBusy k buffer \<Rightarrow> incoming_busy rd k buffer b)"

definition incoming_size_hint :: "IncomingBody \<Rightarrow> nat \<times> nat option" where
  "incoming_size_hint b =
     (case ib_declared b of
        Some d \<Rightarrow> (d - ib_delivered b, Some (d - ib_delivered b))
      | None \<Rightarrow> (0, None))"

section \<open>A run of polls\<close>

fun run_polls ::
  "nat \<Rightarrow> (nat \<Rightarrow> nat) \<Rightarrow> available \<Rightarrow> body_read \<Rightarrow> native \<Rightarrow> 'e body_poll list \<times> native" where
  "run_polls 0 K avail rd n = ([], n)"
| "run_polls (Suc m) K avail rd n =
     (case run_polls m K avail rd n of
        (rs, n1) \<Rightarrow> (case body_poll_frame K avail rd n1 of (r, n2) \<Rightarrow> (rs @ [r], n2)))"

definition poll_bytes :: "'e body_poll \<Rightarrow> bytes" where
  "poll_bytes r = (case r of Ready (Some (Inr chunk)) \<Rightarrow> chunk | _ \<Rightarrow> [])"

definition run_bytes :: "'e body_poll list \<Rightarrow> bytes" where
  "run_bytes rs = concat (map poll_bytes rs)"

definition is_error :: "'e body_poll \<Rightarrow> bool" where
  "is_error r \<longleftrightarrow> (\<exists>e. r = Ready (Some (Inl e)))"

lemma run_bytes_simps [simp]: "run_bytes [] = []" "run_bytes (rs @ [r]) = run_bytes rs @ poll_bytes r"
  by (simp_all add: run_bytes_def)

text \<open>The platform never writes more than the capacity of the buffer it was given.\<close>

definition reads_law :: "body_read \<Rightarrow> bool" where
  "reads_law rd \<longleftrightarrow> (\<forall>i w. length (snd (rd i w)) \<le> w)"

lemma read_once_bound:
  assumes "reads_law rd" "read_once a (rd i) (Some r) = Inr (Some chunk)" "0 < r"
  shows "length chunk \<le> r \<and> chunk \<noteq> []"
proof -
  obtain av where a: "a = Inr av" "av \<noteq> 0" using assms(2) by (auto simp: read_once_def split: sum.splits if_splits)
  define w where "w = min (min av MAX_READ) (max r 1)"
  obtain res buf where rd: "rd i w = (res, buf)" by (cases "rd i w")
  have l: "length buf \<le> w" using assms(1) rd unfolding reads_law_def by (metis snd_conv)
  obtain n where "res = Inr n" using assms(2) a rd by (auto simp: read_once_def w_def Let_def split: sum.splits)
  then have "chunk = take n buf" "chunk \<noteq> []"
    using assms(2) a rd by (auto simp: read_once_def w_def Let_def split: if_splits)
  moreover have "w \<le> r" using assms(3) by (simp add: w_def)
  ultimately show ?thesis using l by simp
qed

lemma read_once_error: "read_once a rd cap = Inl e \<Longrightarrow> \<exists>h. e = RBRead h"
  by (auto simp: read_once_def Let_def split: sum.splits if_splits prod.splits)

definition run_inv :: "nat \<Rightarrow> 'e body_poll list \<Rightarrow> native \<Rightarrow> bool" where
  "run_inv d rs n \<longleftrightarrow>
     nb_delivered n = length (run_bytes rs) \<and>
     (\<exists>r. nb_remaining n = Some r \<and> length (run_bytes rs) + r = d \<and>
        (\<forall>k cap. nb_state n = BBusy k cap \<longrightarrow> cap = Some r \<and> 0 < r) \<and>
        (Ready None \<in> set rs \<and> (\<forall>x \<in> set rs. \<not> is_error x) \<longrightarrow> r = 0)) \<and>
     (Ready None \<in> set rs \<or> (\<exists>x \<in> set rs. is_error x) \<longrightarrow> nb_state n = BFinished) \<and>
     (nb_state n = BFinished \<longrightarrow> Ready None \<in> set rs \<or> (\<exists>x \<in> set rs. is_error x)) \<and>
     (\<forall>e r. Ready (Some (Inl (Truncated e r))) \<in> set rs \<longrightarrow> e = d \<and> r = length (run_bytes rs) \<and> r < d)"

lemma run_inv_busy:
  fixes rs :: "'e body_poll list"
  assumes law: "reads_law rd" and inv: "run_inv d rs n" and st: "nb_state n \<noteq> BFinished"
    and r: "nb_remaining n = Some r" "0 < r"
    and p: "poll_busy avail rd k (Some r) n = (x, n')"
  shows "run_inv d (rs @ [x]) n'"
proof (cases k)
  case (Suc k')
  then show ?thesis using inv st r p by (auto simp: run_inv_def poll_busy_def poll_bytes_def is_error_def)
next
  case 0
  let ?n1 = "n\<lparr>nb_state := BFinished, nb_reads := nb_reads n + 1\<rparr>"
  have none: "Ready None \<notin> set rs" "\<forall>x \<in> set rs. \<not> is_error x"
    using inv st by (auto simp: run_inv_def)
  have notr: "Ready (Some (Inl e)) \<notin> set rs" for e using none(2) by (auto simp: is_error_def)
  have del: "nb_delivered n = length (run_bytes rs)" "length (run_bytes rs) + r = d"
    using inv r by (auto simp: run_inv_def)
  define ro :: "'e ResponseBodyError + bytes option" where
    "ro = read_once (avail (nb_reads n)) (rd (nb_reads n)) (Some r)"
  have n': "(x, n') = (case ro of
      Inl e \<Rightarrow> (Ready (Some (Inl e)), ?n1)
    | Inr None \<Rightarrow> (Ready (Some (Inl (Truncated d (length (run_bytes rs))))), ?n1)
    | Inr (Some chunk) \<Rightarrow> (Ready (Some (Inr chunk)),
        ?n1\<lparr>nb_state := BIdle, nb_delivered := nb_delivered n + length chunk, nb_remaining := Some (r - length chunk)\<rparr>))"
    using p 0 r del by (simp add: poll_busy_def ro_def [symmetric] shortfall_def Let_def split: sum.splits option.splits)
  consider e where "ro = Inl e" | "ro = Inr None" | chunk where "ro = Inr (Some chunk)"
    by (metis option.exhaust sumE)
  then show ?thesis
  proof cases
    case 1
    then obtain h where "e = RBRead h" unfolding ro_def by (metis read_once_error)
    with 1 n' none notr del r show ?thesis
      by (auto simp: run_inv_def is_error_def poll_bytes_def)
  next
    case 2
    with n' none notr del r show ?thesis
      by (auto simp: run_inv_def is_error_def poll_bytes_def)
  next
    case (3 chunk)
    have "length chunk \<le> r \<and> chunk \<noteq> []" by (rule read_once_bound [OF law 3 [unfolded ro_def] r(2)])
    with 3 n' none notr del r show ?thesis
      by (auto simp: run_inv_def is_error_def poll_bytes_def)
  qed
qed

lemma run_inv_step:
  assumes law: "reads_law rd" and inv: "run_inv d rs n" and p: "body_poll_frame K avail rd n = (x, n')"
  shows "run_inv d (rs @ [x]) n'"
proof -
  obtain r where r: "nb_remaining n = Some r" using inv by (auto simp: run_inv_def)
  show ?thesis
  proof (cases "nb_state n")
    case BIdle
    show ?thesis
    proof (cases "r = 0")
      case True
      with BIdle r p have "x = Ready None" "n' = n\<lparr>nb_state := BFinished\<rparr>" by (auto simp: body_poll_frame_def)
      with inv r True BIdle show ?thesis by (auto simp: run_inv_def is_error_def poll_bytes_def)
    next
      case False
      with BIdle r p have "poll_busy avail rd (K (nb_reads n)) (Some r) n = (x, n')" by (simp add: body_poll_frame_def)
      with run_inv_busy [OF law inv _ r _ this] BIdle False show ?thesis by simp
    qed
  next
    case (BBusy k cap)
    have "cap = Some r" "0 < r" using inv BBusy r by (auto simp: run_inv_def)
    with BBusy p have "poll_busy avail rd k (Some r) n = (x, n')" by (simp add: body_poll_frame_def)
    with run_inv_busy [OF law inv _ r _ this] BBusy \<open>0 < r\<close> show ?thesis by simp
  next
    case BFinished
    with p have "x = Ready None" "n' = n" by (auto simp: body_poll_frame_def)
    with inv BFinished show ?thesis by (auto simp: run_inv_def is_error_def poll_bytes_def)
  qed
qed

lemma run_polls_inv:
  "reads_law rd \<Longrightarrow> run_polls m K avail rd (body_new (Some d)) = (rs :: 'e body_poll list, n) \<Longrightarrow> run_inv d rs n"
proof (induction m arbitrary: rs n)
  case 0
  then show ?case by (auto simp: run_inv_def body_new_def)
next
  case (Suc m)
  obtain rs1 n1 where a: "run_polls m K avail rd (body_new (Some d)) = (rs1 :: 'e body_poll list, n1)" by fastforce
  obtain x n2 where b: "body_poll_frame K avail rd n1 = (x :: 'e body_poll, n2)" by fastforce
  have "rs = rs1 @ [x]" "n = n2" using Suc.prems a b by auto
  with run_inv_step [OF Suc.prems(1) Suc.IH [OF Suc.prems(1) a] b] show ?case by simp
qed

section \<open>Properties\<close>

text \<open>
  Property C13. A response body with a declared length, over any number of polls, on a platform that stays
  within the buffers it is given: the bytes handed out never exceed the declared length; the body reports
  its end, without an error, only when it handed out exactly that many; an end that comes early is the
  error that names how much was declared and how much was received; and the length of what is handed out
  and the remaining length always add up to the declared one.
\<close>

theorem response_body_exact:
  assumes "reads_law rd" "run_polls m K avail rd (body_new (Some d)) = (rs, n)"
  shows "length (run_bytes rs) + the (nb_remaining n) = d \<and>
    (Ready None \<in> set rs \<and> (\<forall>x \<in> set rs. \<not> is_error x) \<longrightarrow> length (run_bytes rs) = d) \<and>
    (\<forall>e r. Ready (Some (Inl (Truncated e r))) \<in> set rs \<longrightarrow> e = d \<and> r = length (run_bytes rs) \<and> r < d)"
  using run_polls_inv [OF assms] by (auto simp: run_inv_def)

text \<open>A platform with two bytes left that are read one at a time, each read pending once.\<close>

definition one_byte :: body_read where
  "one_byte i w = (Inr 1, replicate (min 1 w) 9)"

theorem response_body_exact_witness:
  "\<exists>n. run_polls 5 (\<lambda>_. 1) (\<lambda>i. Inr (2 - i)) one_byte (body_new (Some 2)) =
      ([Pending, Ready (Some (Inr [9])), Pending, Ready (Some (Inr [9])), Ready None] :: unit body_poll list, n) \<and>
    length (run_bytes [Pending, Ready (Some (Inr [9])), Pending, Ready (Some (Inr [9])), Ready None :: unit body_poll]) = 2"
proof -
  have law: "reads_law one_byte" by (simp add: reads_law_def one_byte_def)
  let ?rs = "[Pending, Ready (Some (Inr [9])), Pending, Ready (Some (Inr [9])), Ready None] :: unit body_poll list"
  have five: "(5 :: nat) = Suc (Suc (Suc (Suc (Suc 0))))" by simp
  obtain n where n: "run_polls 5 (\<lambda>_. 1) (\<lambda>i. Inr (2 - i)) one_byte (body_new (Some 2)) = (?rs, n)"
    unfolding five by (simp add: body_new_def body_poll_frame_def poll_busy_def read_once_def one_byte_def MAX_READ_def Let_def)
  from response_body_exact [OF law n] show ?thesis using n by (auto simp: is_error_def)
qed

end
