(* ===== verification/Httpsys_Response.thy ===== *)
theory Httpsys_Response
  imports Http_Errors
begin

text \<open>
  The reply the HTTP Server API is given: \<^verbatim>\<open>httpsys/header.rs\<close> and \<^verbatim>\<open>httpsys/response.rs\<close>.

  A pointer of the built structure is represented by the bytes or the array it points to; that these stay
  in place is the contract of the operation that owns the response. What the platform reads of an array is
  the part its count admits.
\<close>

section \<open>Known headers\<close>

definition request_header_names :: "string list" where
  "request_header_names =
    [''Cache-Control'', ''Connection'', ''Date'', ''Keep-Alive'', ''Pragma'', ''Trailer'', ''Transfer-Encoding'',
     ''Upgrade'', ''Via'', ''Warning'', ''Allow'', ''Content-Length'', ''Content-Type'', ''Content-Encoding'',
     ''Content-Language'', ''Content-Location'', ''Content-MD5'', ''Content-Range'', ''Expires'', ''Last-Modified'',
     ''Accept'', ''Accept-Charset'', ''Accept-Encoding'', ''Accept-Language'', ''Authorization'', ''Cookie'', ''Expect'',
     ''From'', ''Host'', ''If-Match'', ''If-Modified-Since'', ''If-None-Match'', ''If-Range'', ''If-Unmodified-Since'',
     ''Max-Forwards'', ''Proxy-Authorization'', ''Referer'', ''Range'', ''TE'', ''Translate'', ''User-Agent'']"

definition response_header_names :: "string list" where
  "response_header_names =
    [''Cache-Control'', ''Connection'', ''Date'', ''Keep-Alive'', ''Pragma'', ''Trailer'', ''Transfer-Encoding'',
     ''Upgrade'', ''Via'', ''Warning'', ''Allow'', ''Content-Length'', ''Content-Type'', ''Content-Encoding'',
     ''Content-Language'', ''Content-Location'', ''Content-MD5'', ''Content-Range'', ''Expires'', ''Last-Modified'',
     ''Accept-Ranges'', ''Age'', ''ETag'', ''Location'', ''Proxy-Authenticate'', ''Retry-After'', ''Server'',
     ''Set-Cookie'', ''Vary'', ''WWW-Authenticate'']"

definition RESPONSE_HEADER_COUNT :: nat where
  "RESPONSE_HEADER_COUNT = 30"

definition header_name :: "string list \<Rightarrow> nat \<Rightarrow> string" where
  "header_name names i = (if i < length names then names ! i else '''')"

definition to_ascii_lowercase :: "u8 \<Rightarrow> u8" where
  "to_ascii_lowercase b = (if 65 \<le> unat b \<and> unat b \<le> 90 then b + 32 else b)"

definition eq_ignore_ascii_case :: "bytes \<Rightarrow> bytes \<Rightarrow> bool" where
  "eq_ignore_ascii_case a b \<longleftrightarrow> map to_ascii_lowercase a = map to_ascii_lowercase b"

definition from_name :: "string list \<Rightarrow> bytes \<Rightarrow> nat option" where
  "from_name names name = iter_position (\<lambda>t. eq_ignore_ascii_case name (lit t)) names"

section \<open>Slots\<close>

record 'a slots =
  sl_inline :: "'a option list"
  sl_len :: nat
  sl_spill :: "'a list"

definition slots_new :: "nat \<Rightarrow> 'a slots" where
  "slots_new N = \<lparr>sl_inline = replicate N None, sl_len = 0, sl_spill = []\<rparr>"

definition slots_push :: "nat \<Rightarrow> 'a slots \<Rightarrow> 'a \<Rightarrow> 'a slots" where
  "slots_push N s v =
     (if sl_len s < N then s\<lparr>sl_inline := (sl_inline s)[sl_len s := Some v], sl_len := sl_len s + 1\<rparr>
      else s\<lparr>sl_spill := sl_spill s @ [v]\<rparr>)"

definition slots_total :: "'a slots \<Rightarrow> nat" where
  "slots_total s = sl_len s + length (sl_spill s)"

definition slots_iter :: "'a slots \<Rightarrow> 'a list" where
  "slots_iter s = map the (take (sl_len s) (sl_inline s)) @ sl_spill s"

definition slots_clear :: "'a slots \<Rightarrow> 'a slots" where
  "slots_clear s =
     s\<lparr>sl_inline := replicate (sl_len s) None @ drop (sl_len s) (sl_inline s), sl_len := 0, sl_spill := []\<rparr>"

text \<open>Every slot below the length is occupied, so \<^verbatim>\<open>expect\<close> does not panic, and only a full array spills.\<close>

definition slots_ok :: "nat \<Rightarrow> 'a slots \<Rightarrow> bool" where
  "slots_ok N s \<longleftrightarrow> length (sl_inline s) = N \<and> sl_len s \<le> N \<and>
     (\<forall>i < sl_len s. sl_inline s ! i \<noteq> None) \<and> (sl_spill s \<noteq> [] \<longrightarrow> sl_len s = N)"

text \<open>The interface of a growing sequence, and what its clients use.\<close>

locale growing_seq =
  fixes empty :: 's and push :: "'s \<Rightarrow> 'a \<Rightarrow> 's" and clear :: "'s \<Rightarrow> 's"
    and items :: "'s \<Rightarrow> 'a list" and count :: "'s \<Rightarrow> nat" and ok :: "'s \<Rightarrow> bool"
  assumes empty_ok: "ok empty" and empty_items: "items empty = []"
    and push_ok: "ok s \<Longrightarrow> ok (push s x)" and push_items: "ok s \<Longrightarrow> items (push s x) = items s @ [x]"
    and clear_ok: "ok s \<Longrightarrow> ok (clear s)" and clear_items: "ok s \<Longrightarrow> items (clear s) = []"
    and count_items: "ok s \<Longrightarrow> count s = length (items s)"
begin

lemma pushes_items: "ok s \<Longrightarrow> ok (foldl push s xs) \<and> items (foldl push s xs) = items s @ xs"
  by (induction xs arbitrary: s) (simp_all add: push_ok push_items)

end

lemma slots_push_ok: "slots_ok N s \<Longrightarrow> slots_ok N (slots_push N s x)"
  by (auto simp: slots_ok_def slots_push_def nth_list_update less_Suc_eq)

lemma slots_push_iter: "slots_ok N s \<Longrightarrow> slots_iter (slots_push N s x) = slots_iter s @ [x]"
  by (auto simp: slots_ok_def slots_push_def slots_iter_def take_Suc_conv_app_nth)

interpretation unknown_slots: growing_seq "slots_new 8" "slots_push 8" slots_clear slots_iter slots_total "slots_ok 8"
  by unfold_locales
    (simp_all add: slots_push_ok slots_push_iter, auto simp: slots_ok_def slots_new_def slots_iter_def slots_clear_def slots_total_def)

interpretation chunk_slots: growing_seq "slots_new 4" "slots_push 4" slots_clear slots_iter slots_total "slots_ok 4"
  by unfold_locales
    (simp_all add: slots_push_ok slots_push_iter, auto simp: slots_ok_def slots_new_def slots_iter_def slots_clear_def slots_total_def)

section \<open>The response\<close>

definition INLINE_UNKNOWN_HEADERS :: nat where
  "INLINE_UNKNOWN_HEADERS = 8"

definition INLINE_CHUNKS :: nat where
  "INLINE_CHUNKS = 4"

record unknown_header =
  NameLength :: u16
  RawValueLength :: u16
  pName :: bytes
  pRawValue :: bytes

record HTTP_RESPONSE =
  StatusCode :: u16
  ReasonLength :: u16
  pReason :: bytes
  KnownHeaders :: "(u16 \<times> bytes) option list"
  UnknownHeaderCount :: u16
  pUnknownHeaders :: "unknown_header list"
  EntityChunkCount :: u16
  pEntityChunks :: "(u32 \<times> bytes) list"

definition response_default :: HTTP_RESPONSE where
  "response_default = \<lparr>StatusCode = 0, ReasonLength = 0, pReason = [],
     KnownHeaders = replicate RESPONSE_HEADER_COUNT None, UnknownHeaderCount = 0, pUnknownHeaders = [],
     EntityChunkCount = 0, pEntityChunks = []\<rparr>"

definition unknown_default :: unknown_header where
  "unknown_default = \<lparr>NameLength = 0, RawValueLength = 0, pName = [], pRawValue = []\<rparr>"

record Response =
  rs_status :: u16
  rs_reason :: bytes
  rs_known :: "bytes option list"
  rs_unknown :: "(bytes \<times> bytes) slots"
  rs_chunks :: "bytes slots"
  rs_raw :: HTTP_RESPONSE
  rs_unknown_raw :: "unknown_header list"
  rs_chunks_raw :: "(u32 \<times> bytes) list"

definition response_new :: "u16 \<Rightarrow> Response" where
  "response_new status = \<lparr>rs_status = status, rs_reason = [], rs_known = replicate RESPONSE_HEADER_COUNT None,
     rs_unknown = slots_new INLINE_UNKNOWN_HEADERS, rs_chunks = slots_new INLINE_CHUNKS, rs_raw = response_default,
     rs_unknown_raw = replicate INLINE_UNKNOWN_HEADERS unknown_default, rs_chunks_raw = replicate INLINE_CHUNKS (0, [])\<rparr>"

definition set_status :: "u16 \<Rightarrow> Response \<Rightarrow> Response" where
  "set_status status r = r\<lparr>rs_status := status\<rparr>"

definition set_reason :: "bytes \<Rightarrow> Response \<Rightarrow> Response" where
  "set_reason reason r = r\<lparr>rs_reason := reason\<rparr>"

definition set_header :: "nat \<Rightarrow> bytes \<Rightarrow> Response \<Rightarrow> Response" where
  "set_header i v r = r\<lparr>rs_known := (rs_known r)[i := Some v]\<rparr>"

definition remove_header :: "nat \<Rightarrow> Response \<Rightarrow> Response" where
  "remove_header i r = r\<lparr>rs_known := (rs_known r)[i := None]\<rparr>"

definition get_header :: "nat \<Rightarrow> Response \<Rightarrow> bytes option" where
  "get_header i r = rs_known r ! i"

definition add_header :: "bytes \<Rightarrow> bytes \<Rightarrow> Response \<Rightarrow> Response" where
  "add_header name v r = r\<lparr>rs_unknown := slots_push INLINE_UNKNOWN_HEADERS (rs_unknown r) (name, v)\<rparr>"

definition add_body :: "bytes \<Rightarrow> Response \<Rightarrow> Response" where
  "add_body body r = r\<lparr>rs_chunks := slots_push INLINE_CHUNKS (rs_chunks r) body\<rparr>"

definition clear_body :: "Response \<Rightarrow> Response" where
  "clear_body r = r\<lparr>rs_chunks := slots_clear (rs_chunks r)\<rparr>"

definition body_len :: "Response \<Rightarrow> nat" where
  "body_len r = sum_list (map length (slots_iter (rs_chunks r)))"

section \<open>Building the structure\<close>

definition len_u16 :: "(u32 \<Rightarrow> hresult) \<Rightarrow> bytes \<Rightarrow> hresult + u16" where
  "len_u16 hr v = (if length v < 2 ^ 16 then Inr (of_nat (length v)) else Inl (hr ERROR_INVALID_PARAMETER))"

definition len_u32 :: "(u32 \<Rightarrow> hresult) \<Rightarrow> bytes \<Rightarrow> hresult + u32" where
  "len_u32 hr v = (if length v < 2 ^ 32 then Inr (of_nat (length v)) else Inl (hr ERROR_INVALID_PARAMETER))"

definition memory_chunk :: "bytes \<Rightarrow> u32 \<times> bytes" where
  "memory_chunk body = (of_nat (length body), body)"

definition raw_header :: "bytes \<times> bytes \<Rightarrow> unknown_header" where
  "raw_header p = \<lparr>NameLength = of_nat (length (fst p)), RawValueLength = of_nat (length (snd p)),
     pName = fst p, pRawValue = snd p\<rparr>"

fun known_loop ::
  "(u32 \<Rightarrow> hresult) \<Rightarrow> nat \<Rightarrow> bytes option list \<Rightarrow> HTTP_RESPONSE \<Rightarrow> (hresult + unit) \<times> HTTP_RESPONSE" where
  "known_loop hr i [] raw = (Inr (), raw)"
| "known_loop hr i (None # vs) raw = known_loop hr (Suc i) vs raw"
| "known_loop hr i (Some v # vs) raw =
     (case len_u16 hr v of
        Inl e \<Rightarrow> (Inl e, raw)
      | Inr n \<Rightarrow> known_loop hr (Suc i) vs (raw\<lparr>KnownHeaders := (KnownHeaders raw)[i := Some (n, v)]\<rparr>))"

text \<open>The first length of the unknown headers, and of the chunks, that does not fit.\<close>

fun check_headers :: "(u32 \<Rightarrow> hresult) \<Rightarrow> (bytes \<times> bytes) list \<Rightarrow> hresult + unit" where
  "check_headers hr [] = Inr ()"
| "check_headers hr ((n, v) # ps) =
     (case len_u16 hr n of
        Inl e \<Rightarrow> Inl e
      | Inr _ \<Rightarrow> (case len_u16 hr v of Inl e \<Rightarrow> Inl e | Inr _ \<Rightarrow> check_headers hr ps))"

fun check_chunks :: "(u32 \<Rightarrow> hresult) \<Rightarrow> bytes list \<Rightarrow> hresult + unit" where
  "check_chunks hr [] = Inr ()"
| "check_chunks hr (b # bs) = (case len_u32 hr b of Inl e \<Rightarrow> Inl e | Inr _ \<Rightarrow> check_chunks hr bs)"

definition build_reason :: "(u32 \<Rightarrow> hresult) \<Rightarrow> Response \<Rightarrow> (hresult + unit) \<times> Response" where
  "build_reason hr r =
     (let raw = response_default\<lparr>StatusCode := rs_status r\<rparr> in
      if rs_reason r = [] then (Inr (), r\<lparr>rs_raw := raw\<rparr>)
      else case len_u16 hr (rs_reason r) of
          Inl e \<Rightarrow> (Inl e, r\<lparr>rs_raw := raw\<rparr>)
        | Inr n \<Rightarrow> (Inr (), r\<lparr>rs_raw := raw\<lparr>ReasonLength := n, pReason := rs_reason r\<rparr>\<rparr>))"

definition build_known :: "(u32 \<Rightarrow> hresult) \<Rightarrow> Response \<Rightarrow> (hresult + unit) \<times> Response" where
  "build_known hr r = (case known_loop hr 0 (rs_known r) (rs_raw r) of (x, raw) \<Rightarrow> (x, r\<lparr>rs_raw := raw\<rparr>))"

text \<open>The inline array keeps what an earlier build left behind the headers written now.\<close>

definition build_unknown :: "(u32 \<Rightarrow> hresult) \<Rightarrow> Response \<Rightarrow> (hresult + unit) \<times> Response" where
  "build_unknown hr r =
     (let items = slots_iter (rs_unknown r); n = slots_total (rs_unknown r) in
      if n = 0 then (Inr (), r)
      else case check_headers hr items of
          Inl e \<Rightarrow> (Inl e, r)
        | Inr _ \<Rightarrow>
            let new_raw = map raw_header items;
                inline = (if n \<le> INLINE_UNKNOWN_HEADERS
                          then take INLINE_UNKNOWN_HEADERS new_raw @ drop (length new_raw) (rs_unknown_raw r)
                          else rs_unknown_raw r)
            in (Inr (), r\<lparr>rs_unknown_raw := inline,
                  rs_raw := (rs_raw r)\<lparr>pUnknownHeaders := (if n \<le> INLINE_UNKNOWN_HEADERS then inline else new_raw),
                                        UnknownHeaderCount := of_nat n\<rparr>\<rparr>))"

definition build_chunks :: "(u32 \<Rightarrow> hresult) \<Rightarrow> Response \<Rightarrow> (hresult + unit) \<times> Response" where
  "build_chunks hr r =
     (let items = slots_iter (rs_chunks r); n = slots_total (rs_chunks r) in
      if n = 0 then (Inr (), r)
      else case check_chunks hr items of
          Inl e \<Rightarrow> (Inl e, r)
        | Inr _ \<Rightarrow>
            let new_raw = map memory_chunk items;
                inline = (if n \<le> INLINE_CHUNKS
                          then take INLINE_CHUNKS new_raw @ drop (length new_raw) (rs_chunks_raw r)
                          else rs_chunks_raw r)
            in (Inr (), r\<lparr>rs_chunks_raw := inline,
                  rs_raw := (rs_raw r)\<lparr>pEntityChunks := (if n \<le> INLINE_CHUNKS then inline else new_raw),
                                        EntityChunkCount := of_nat n\<rparr>\<rparr>))"

definition and_then :: "('e + unit) \<times> 's \<Rightarrow> ('s \<Rightarrow> ('e + unit) \<times> 's) \<Rightarrow> ('e + unit) \<times> 's" where
  "and_then x f = (case x of (Inl e, s) \<Rightarrow> (Inl e, s) | (Inr _, s) \<Rightarrow> f s)"

definition build :: "(u32 \<Rightarrow> hresult) \<Rightarrow> Response \<Rightarrow> (hresult + unit) \<times> Response" where
  "build hr r =
     and_then (and_then (and_then (build_reason hr r) (build_known hr)) (build_unknown hr)) (build_chunks hr)"

definition invalidate :: "Response \<Rightarrow> Response" where
  "invalidate r = r\<lparr>rs_raw := response_default,
     rs_unknown_raw := replicate INLINE_UNKNOWN_HEADERS unknown_default,
     rs_chunks_raw := replicate INLINE_CHUNKS (0, [])\<rparr>"

section \<open>What the platform reads\<close>

definition header_view :: "unknown_header \<Rightarrow> bytes \<times> bytes" where
  "header_view h = (take (unat (NameLength h)) (pName h), take (unat (RawValueLength h)) (pRawValue h))"

record response_view =
  vw_status :: u16
  vw_reason :: bytes
  vw_known :: "bytes option list"
  vw_unknown :: "(bytes \<times> bytes) list"
  vw_chunks :: "bytes list"

definition platform_view :: "HTTP_RESPONSE \<Rightarrow> response_view" where
  "platform_view raw = \<lparr>vw_status = StatusCode raw, vw_reason = take (unat (ReasonLength raw)) (pReason raw),
     vw_known = map (map_option (\<lambda>(n, v). take (unat n) v)) (KnownHeaders raw),
     vw_unknown = map header_view (take (unat (UnknownHeaderCount raw)) (pUnknownHeaders raw)),
     vw_chunks = map (\<lambda>(n, b). take (unat n) b) (take (unat (EntityChunkCount raw)) (pEntityChunks raw))\<rparr>"

definition response_ok :: "Response \<Rightarrow> bool" where
  "response_ok r \<longleftrightarrow> length (rs_known r) = RESPONSE_HEADER_COUNT \<and>
     slots_ok INLINE_UNKNOWN_HEADERS (rs_unknown r) \<and> slots_ok INLINE_CHUNKS (rs_chunks r)"

definition response_fits :: "Response \<Rightarrow> bool" where
  "response_fits r \<longleftrightarrow> length (rs_reason r) < 2 ^ 16 \<and>
     (\<forall>v. Some v \<in> set (rs_known r) \<longrightarrow> length v < 2 ^ 16) \<and>
     (\<forall>p \<in> set (slots_iter (rs_unknown r)). length (fst p) < 2 ^ 16 \<and> length (snd p) < 2 ^ 16) \<and>
     (\<forall>b \<in> set (slots_iter (rs_chunks r)). length b < 2 ^ 32)"

lemma response_new_ok: "response_ok (response_new status)"
  using unknown_slots.empty_ok chunk_slots.empty_ok
  by (simp add: response_ok_def response_new_def INLINE_UNKNOWN_HEADERS_def INLINE_CHUNKS_def)

lemma response_ops_ok:
  assumes "response_ok r"
  shows "response_ok (set_status st r)" "response_ok (set_reason b r)" "response_ok (set_header i v r)"
    "response_ok (remove_header i r)" "response_ok (add_header n v r)" "response_ok (add_body b r)"
    "response_ok (clear_body r)" "response_ok (invalidate r)"
  using assms
  by (simp_all add: unknown_slots.push_ok chunk_slots.push_ok chunk_slots.clear_ok response_ok_def set_status_def set_reason_def set_header_def remove_header_def add_header_def
      add_body_def clear_body_def invalidate_def INLINE_UNKNOWN_HEADERS_def INLINE_CHUNKS_def)

lemma unat_len16: "length v < 2 ^ 16 \<Longrightarrow> unat (of_nat (length v) :: u16) = length v"
  by (simp add: unat_of_nat)

lemma unat_len32: "length v < 2 ^ 32 \<Longrightarrow> unat (of_nat (length v) :: u32) = length v"
  by (simp add: unat_of_nat)

lemma known_loop_view:
  assumes "i + length vs \<le> length (KnownHeaders raw)" "\<forall>v. Some v \<in> set vs \<longrightarrow> length v < 2 ^ 16"
  shows "known_loop hr i vs raw = (Inr (), raw\<lparr>KnownHeaders := take i (KnownHeaders raw) @
      map2 (\<lambda>v old. case v of Some b \<Rightarrow> Some (of_nat (length b), b) | None \<Rightarrow> old) vs (drop i (KnownHeaders raw)) @
      drop (i + length vs) (KnownHeaders raw)\<rparr>)"
  using assms
proof (induction hr i vs raw rule: known_loop.induct)
  case (2 hr i vs raw)
  then have "drop i (KnownHeaders raw) = KnownHeaders raw ! i # drop (Suc i) (KnownHeaders raw)"
    by (simp add: Cons_nth_drop_Suc)
  moreover have "take (Suc i) (KnownHeaders raw) = take i (KnownHeaders raw) @ [KnownHeaders raw ! i]"
    using "2.prems" by (simp add: take_Suc_conv_app_nth)
  ultimately show ?case using 2 by simp
next
  case (3 hr i v vs raw)
  let ?k = "KnownHeaders raw" and ?x = "Some (of_nat (length v) :: u16, v)"
  have i: "i < length ?k" using "3.prems" by simp
  have "drop i ?k = ?k ! i # drop (Suc i) ?k" using i by (simp add: Cons_nth_drop_Suc)
  moreover have "take (Suc i) (?k[i := ?x]) = take i ?k @ [?x]" using i by (simp add: take_Suc_conv_app_nth)
  moreover have "len_u16 hr v = Inr (of_nat (length v))" using "3.prems" by (simp add: len_u16_def)
  ultimately show ?case using 3 by (simp add: drop_update_cancel)
qed simp

lemma known_loop_error:
  "Some v \<in> set vs \<Longrightarrow> \<not> length v < 2 ^ 16 \<Longrightarrow> fst (known_loop hr i vs raw) = Inl (hr ERROR_INVALID_PARAMETER)"
  by (induction hr i vs raw rule: known_loop.induct) (auto simp: len_u16_def)

lemma check_headers_result:
  "check_headers hr ps = (if \<forall>p \<in> set ps. length (fst p) < 2 ^ 16 \<and> length (snd p) < 2 ^ 16 then Inr ()
     else Inl (hr ERROR_INVALID_PARAMETER))"
  by (induction hr ps rule: check_headers.induct) (auto simp: len_u16_def)

lemma check_chunks_result:
  "check_chunks hr bs = (if \<forall>b \<in> set bs. length b < 2 ^ 32 then Inr () else Inl (hr ERROR_INVALID_PARAMETER))"
  by (induction hr bs rule: check_chunks.induct) (auto simp: len_u32_def)

lemma build_reason_result:
  "build_reason hr r = (if length (rs_reason r) < 2 ^ 16
     then (Inr (), r\<lparr>rs_raw := response_default\<lparr>StatusCode := rs_status r, ReasonLength := of_nat (length (rs_reason r)),
                                pReason := rs_reason r\<rparr>\<rparr>)
     else (Inl (hr ERROR_INVALID_PARAMETER), r\<lparr>rs_raw := response_default\<lparr>StatusCode := rs_status r\<rparr>\<rparr>))"
  by (auto simp: build_reason_def Let_def len_u16_def response_default_def)

lemma view_take:
  "length xs = n \<Longrightarrow> take (unat (of_nat n :: u16)) (if n \<le> N then take N xs @ ys else xs) = take (n mod 2 ^ 16) xs"
  by (auto simp: unat_of_nat)

lemma build_known_result:
  assumes "length (rs_known r) = RESPONSE_HEADER_COUNT"
    and "KnownHeaders (rs_raw r) = replicate RESPONSE_HEADER_COUNT None"
    and "\<forall>v. Some v \<in> set (rs_known r) \<longrightarrow> length v < 2 ^ 16"
  shows "build_known hr r = (Inr (), r\<lparr>rs_raw := (rs_raw r)\<lparr>KnownHeaders :=
    map (map_option (\<lambda>b. (of_nat (length b), b))) (rs_known r)\<rparr>\<rparr>)"
proof -
  have "map2 (\<lambda>v old. case v of Some b \<Rightarrow> Some (of_nat (length b), b) | None \<Rightarrow> old) vs (replicate (length vs) None) =
      map (map_option (\<lambda>b. (of_nat (length b) :: u16, b))) vs" for vs :: "bytes option list"
    by (induction vs) (auto split: option.splits)
  from this [of "rs_known r"] show ?thesis
    using assms known_loop_view [of 0 "rs_known r" "rs_raw r" hr] by (simp add: build_known_def)
qed

lemma known_view:
  "\<forall>v. Some v \<in> set vs \<longrightarrow> length v < 2 ^ 16 \<Longrightarrow>
    map (map_option (\<lambda>(n, v). take (unat n) v)) (map (map_option (\<lambda>b. (of_nat (length b) :: u16, b))) vs) = vs"
proof (induction vs)
  case (Cons a vs)
  then show ?case by (cases a) (simp_all add: unat_len16)
qed simp

lemma unknown_view:
  "\<forall>p \<in> set ps. length (fst p) < 2 ^ 16 \<and> length (snd p) < 2 ^ 16 \<Longrightarrow> map header_view (map raw_header ps) = ps"
  by (induction ps) (auto simp: header_view_def raw_header_def unat_len16)

lemma chunks_view:
  "\<forall>b \<in> set bs. length b < 2 ^ 32 \<Longrightarrow> map (\<lambda>(n, b). take (unat n) b) (map memory_chunk bs) = bs"
  by (induction bs) (auto simp: memory_chunk_def unat_len32)

lemma build_unknown_result:
  assumes ok: "slots_ok INLINE_UNKNOWN_HEADERS (rs_unknown r)" and zero: "UnknownHeaderCount (rs_raw r) = 0"
    and fits: "\<forall>p \<in> set (slots_iter (rs_unknown r)). length (fst p) < 2 ^ 16 \<and> length (snd p) < 2 ^ 16"
  shows "\<exists>r' c ps. build_unknown hr r = (Inr (), r') \<and> rs_chunks r' = rs_chunks r \<and>
    rs_raw r' = (rs_raw r)\<lparr>pUnknownHeaders := ps, UnknownHeaderCount := c\<rparr> \<and>
    map header_view (take (unat c) ps) =
      take (length (slots_iter (rs_unknown r)) mod 2 ^ 16) (slots_iter (rs_unknown r))"
proof -
  let ?items = "slots_iter (rs_unknown r)"
  have n: "slots_total (rs_unknown r) = length ?items"
    using unknown_slots.count_items ok by (simp add: INLINE_UNKNOWN_HEADERS_def)
  show ?thesis
  proof (cases "?items = []")
    case True
    with n have e: "build_unknown hr r = (Inr (), r)" by (simp add: build_unknown_def)
    show ?thesis
      by (rule exI [of _ r], rule exI [of _ 0], rule exI [of _ "pUnknownHeaders (rs_raw r)"]) (use e True zero in simp)
  next
    case False
    let ?ys = "drop (length ?items) (rs_unknown_raw r)"
    let ?ps = "if length ?items \<le> INLINE_UNKNOWN_HEADERS then take INLINE_UNKNOWN_HEADERS (map raw_header ?items) @ ?ys
      else map raw_header ?items"
    have "map header_view (take (unat (of_nat (length ?items) :: u16)) ?ps) =
        take (length ?items mod 2 ^ 16) (map header_view (map raw_header ?items))"
      by (subst view_take) (simp_all only: take_map length_map)
    then have v: "map header_view (take (unat (of_nat (length ?items) :: u16)) ?ps) = take (length ?items mod 2 ^ 16) ?items"
      by (simp only: unknown_view [OF fits])
    have "\<exists>inl. build_unknown hr r = (Inr (), r\<lparr>rs_unknown_raw := inl,
        rs_raw := (rs_raw r)\<lparr>pUnknownHeaders := ?ps, UnknownHeaderCount := of_nat (length ?items)\<rparr>\<rparr>)"
      by (rule exI [of _ "if length ?items \<le> INLINE_UNKNOWN_HEADERS then ?ps else rs_unknown_raw r"])
        (use False n fits in \<open>simp add: build_unknown_def check_headers_result Let_def\<close>)
    then obtain inl where "build_unknown hr r = (Inr (), r\<lparr>rs_unknown_raw := inl,
        rs_raw := (rs_raw r)\<lparr>pUnknownHeaders := ?ps, UnknownHeaderCount := of_nat (length ?items)\<rparr>\<rparr>)" ..
    with v show ?thesis by (intro exI conjI) (assumption | simp)+
  qed
qed

lemma build_chunks_result:
  assumes ok: "slots_ok INLINE_CHUNKS (rs_chunks r)" and zero: "EntityChunkCount (rs_raw r) = 0"
    and fits: "\<forall>b \<in> set (slots_iter (rs_chunks r)). length b < 2 ^ 32"
  shows "\<exists>r' c bs. build_chunks hr r = (Inr (), r') \<and>
    rs_raw r' = (rs_raw r)\<lparr>pEntityChunks := bs, EntityChunkCount := c\<rparr> \<and>
    map (\<lambda>(n, b). take (unat n) b) (take (unat c) bs) =
      take (length (slots_iter (rs_chunks r)) mod 2 ^ 16) (slots_iter (rs_chunks r))"
proof -
  let ?items = "slots_iter (rs_chunks r)"
  have n: "slots_total (rs_chunks r) = length ?items"
    using chunk_slots.count_items ok by (simp add: INLINE_CHUNKS_def)
  show ?thesis
  proof (cases "?items = []")
    case True
    with n have e: "build_chunks hr r = (Inr (), r)" by (simp add: build_chunks_def)
    show ?thesis
      by (rule exI [of _ r], rule exI [of _ 0], rule exI [of _ "pEntityChunks (rs_raw r)"]) (use e True zero in simp)
  next
    case False
    let ?ys = "drop (length ?items) (rs_chunks_raw r)"
    let ?ps = "if length ?items \<le> INLINE_CHUNKS then take INLINE_CHUNKS (map memory_chunk ?items) @ ?ys
      else map memory_chunk ?items"
    have "map (\<lambda>(n, b). take (unat n) b) (take (unat (of_nat (length ?items) :: u16)) ?ps) =
        take (length ?items mod 2 ^ 16) (map (\<lambda>(n, b). take (unat n) b) (map memory_chunk ?items))"
      by (subst view_take) (simp_all only: take_map length_map)
    then have v: "map (\<lambda>(n, b). take (unat n) b) (take (unat (of_nat (length ?items) :: u16)) ?ps) =
        take (length ?items mod 2 ^ 16) ?items"
      by (simp only: chunks_view [OF fits])
    have "\<exists>inl. build_chunks hr r = (Inr (), r\<lparr>rs_chunks_raw := inl,
        rs_raw := (rs_raw r)\<lparr>pEntityChunks := ?ps, EntityChunkCount := of_nat (length ?items)\<rparr>\<rparr>)"
      by (rule exI [of _ "if length ?items \<le> INLINE_CHUNKS then ?ps else rs_chunks_raw r"])
        (use False n fits in \<open>simp add: build_chunks_def check_chunks_result Let_def\<close>)
    then obtain inl where "build_chunks hr r = (Inr (), r\<lparr>rs_chunks_raw := inl,
        rs_raw := (rs_raw r)\<lparr>pEntityChunks := ?ps, EntityChunkCount := of_nat (length ?items)\<rparr>\<rparr>)" ..
    with v show ?thesis by (intro exI conjI) (assumption | simp)+
  qed
qed

lemma build_until_unknown:
  assumes "length (rs_known r) = RESPONSE_HEADER_COUNT" "length (rs_reason r) < 2 ^ 16"
    and "\<forall>v. Some v \<in> set (rs_known r) \<longrightarrow> length v < 2 ^ 16"
  shows "build hr r = and_then (build_unknown hr (r\<lparr>rs_raw := response_default\<lparr>StatusCode := rs_status r,
    ReasonLength := of_nat (length (rs_reason r)), pReason := rs_reason r,
    KnownHeaders := map (map_option (\<lambda>b. (of_nat (length b), b))) (rs_known r)\<rparr>\<rparr>)) (build_chunks hr)"
  using assms by (simp add: build_def and_then_def build_reason_result build_known_result response_default_def)

lemma build_refuses_front:
  assumes "\<not> (length (rs_reason r) < 2 ^ 16 \<and> (\<forall>v. Some v \<in> set (rs_known r) \<longrightarrow> length v < 2 ^ 16))"
  shows "fst (build hr r) = Inl (hr ERROR_INVALID_PARAMETER)"
proof (cases "length (rs_reason r) < 2 ^ 16")
  case False
  then show ?thesis by (simp add: build_def and_then_def build_reason_result)
next
  case True
  with assms obtain v where v: "Some v \<in> set (rs_known r)" "\<not> length v < 2 ^ 16" by blast
  have "fst (build_known hr (r\<lparr>rs_raw := response_default\<lparr>StatusCode := rs_status r,
      ReasonLength := of_nat (length (rs_reason r)), pReason := rs_reason r\<rparr>\<rparr>)) = Inl (hr ERROR_INVALID_PARAMETER)"
    using known_loop_error [OF v] by (simp add: build_known_def split_def)
  with True show ?thesis by (auto simp: build_def and_then_def build_reason_result split: prod.splits)
qed

lemma build_unknown_refuses:
  assumes "slots_ok INLINE_UNKNOWN_HEADERS (rs_unknown r)"
    and "\<not> (\<forall>p \<in> set (slots_iter (rs_unknown r)). length (fst p) < 2 ^ 16 \<and> length (snd p) < 2 ^ 16)"
  shows "fst (build_unknown hr r) = Inl (hr ERROR_INVALID_PARAMETER)"
proof -
  have "slots_total (rs_unknown r) \<noteq> 0"
    using assms unknown_slots.count_items [of "rs_unknown r"] by (auto simp: INLINE_UNKNOWN_HEADERS_def)
  with assms show ?thesis by (simp add: build_unknown_def check_headers_result Let_def)
qed

lemma build_chunks_refuses:
  assumes "slots_ok INLINE_CHUNKS (rs_chunks r)" "\<not> (\<forall>b \<in> set (slots_iter (rs_chunks r)). length b < 2 ^ 32)"
  shows "fst (build_chunks hr r) = Inl (hr ERROR_INVALID_PARAMETER)"
proof -
  have "slots_total (rs_chunks r) \<noteq> 0"
    using assms chunk_slots.count_items [of "rs_chunks r"] by (auto simp: INLINE_CHUNKS_def)
  with assms show ?thesis by (simp add: build_chunks_def check_chunks_result Let_def)
qed

section \<open>Properties\<close>

text \<open>
  Property C12. The reply on the wire is the reply that was set: building succeeds exactly when every length
  fits its field, and is the invalid-parameter error otherwise; and then the platform reads the status, the
  reason, every known header, and the unknown headers and body chunks in the order they were added, through
  the inline arrays or the spilled ones alike. The two counts are not checked: of \<open>n\<close> unknown headers or
  chunks the platform sees the first \<open>n mod 65536\<close>.
\<close>

theorem response_build_faithful:
  assumes ok: "response_ok r"
  shows "(if response_fits r
     then fst (build hr r) = Inr () \<and> platform_view (rs_raw (snd (build hr r))) =
       \<lparr>vw_status = rs_status r, vw_reason = rs_reason r, vw_known = rs_known r,
        vw_unknown = take (length (slots_iter (rs_unknown r)) mod 2 ^ 16) (slots_iter (rs_unknown r)),
        vw_chunks = take (length (slots_iter (rs_chunks r)) mod 2 ^ 16) (slots_iter (rs_chunks r))\<rparr>
     else fst (build hr r) = Inl (hr ERROR_INVALID_PARAMETER))"
proof (cases "length (rs_reason r) < 2 ^ 16 \<and> (\<forall>v. Some v \<in> set (rs_known r) \<longrightarrow> length v < 2 ^ 16)")
  case False
  with build_refuses_front [OF False] show ?thesis by (auto simp: response_fits_def)
next
  case rest: True
  let ?r2 = "r\<lparr>rs_raw := response_default\<lparr>StatusCode := rs_status r, ReasonLength := of_nat (length (rs_reason r)),
    pReason := rs_reason r, KnownHeaders := map (map_option (\<lambda>b. (of_nat (length b), b))) (rs_known r)\<rparr>\<rparr>"
  have kn: "length (rs_known r) = RESPONSE_HEADER_COUNT" and un: "slots_ok INLINE_UNKNOWN_HEADERS (rs_unknown ?r2)"
    and ch: "slots_ok INLINE_CHUNKS (rs_chunks r)" using ok by (auto simp: response_ok_def)
  note b2 = build_until_unknown [OF kn conjunct1 [OF rest] conjunct2 [OF rest], of hr]
  show ?thesis
  proof (cases "\<forall>p \<in> set (slots_iter (rs_unknown ?r2)). length (fst p) < 2 ^ 16 \<and> length (snd p) < 2 ^ 16")
    case False
    with build_unknown_refuses [OF un False, of hr] show ?thesis
      by (auto simp: b2 and_then_def response_fits_def split: prod.splits)
  next
    case u: True
    obtain r3 c ps where r3: "build_unknown hr ?r2 = (Inr (), r3)" "rs_chunks r3 = rs_chunks r"
      "rs_raw r3 = (rs_raw ?r2)\<lparr>pUnknownHeaders := ps, UnknownHeaderCount := c\<rparr>"
      "map header_view (take (unat c) ps) =
        take (length (slots_iter (rs_unknown r)) mod 2 ^ 16) (slots_iter (rs_unknown r))"
      using build_unknown_result [of ?r2 hr] un u by (auto simp: response_default_def)
    have b3: "build hr r = build_chunks hr r3" using b2 r3(1) by (simp add: and_then_def)
    show ?thesis
    proof (cases "\<forall>b \<in> set (slots_iter (rs_chunks r)). length b < 2 ^ 32")
      case False
      with build_chunks_refuses [of r3 hr] ch r3(2) show ?thesis by (auto simp: b3 response_fits_def)
    next
      case c: True
      obtain r4 c' bs where r4: "build_chunks hr r3 = (Inr (), r4)"
        "rs_raw r4 = (rs_raw r3)\<lparr>pEntityChunks := bs, EntityChunkCount := c'\<rparr>"
        "map (\<lambda>(n, b). take (unat n) b) (take (unat c') bs) =
          take (length (slots_iter (rs_chunks r)) mod 2 ^ 16) (slots_iter (rs_chunks r))"
        using build_chunks_result [of r3 hr] ch c r3(2,3) by (auto simp: response_default_def)
      have "response_fits r" using rest u c by (simp add: response_fits_def)
      then show ?thesis
        using r3 r4 known_view [of "rs_known r"] unat_len16 [of "rs_reason r"] rest by (simp add: b3 platform_view_def)
    qed
  qed
qed

definition small_response :: Response where
  "small_response = add_body [1, 2] (add_header [120] [121] (set_header 26 [115] (response_new 200)))"

theorem response_build_faithful_witness:
  "response_ok small_response \<and> fst (build hr_win32 small_response) = Inr () \<and>
    vw_unknown (platform_view (rs_raw (snd (build hr_win32 small_response)))) = [([120], [121])]"
proof -
  have ok: "response_ok small_response"
    unfolding small_response_def by (intro response_ops_ok response_new_ok)
  have it: "slots_iter (rs_unknown small_response) = [([120], [121])]" "slots_iter (rs_chunks small_response) = [[1, 2]]"
    by (simp_all add: small_response_def add_body_def add_header_def set_header_def response_new_def
        INLINE_UNKNOWN_HEADERS_def INLINE_CHUNKS_def unknown_slots.push_items unknown_slots.empty_ok
        unknown_slots.empty_items chunk_slots.push_items chunk_slots.empty_ok chunk_slots.empty_items)
  have fits: "response_fits small_response"
    unfolding response_fits_def it
    by (auto simp: small_response_def add_body_def add_header_def set_header_def response_new_def
        RESPONSE_HEADER_COUNT_def set_conv_nth nth_list_update split: if_splits)
  from response_build_faithful [OF ok, of hr_win32] fits it ok show ?thesis by simp
qed

end
