(* ===== verification/Httpsys_Queue.thy ===== *)
theory Httpsys_Queue
  imports Httpsys_Response
begin

text \<open>
  The request queue of the HTTP Server API: \<^verbatim>\<open>httpsys/queue.rs\<close>, \<^verbatim>\<open>httpsys/request.rs\<close> and the operations
  under \<^verbatim>\<open>httpsys/ops\<close>.

  The platform's answers are arguments; so is whether the queue is found open, since another thread may
  close it between any two accesses: \<open>opened i\<close> is what the \<open>i\<close>-th access of a call sees. As in
  \<open>Httpsys_Response\<close> a pointer is what it points to, \<open>None\<close> being null, and the size of the platform's
  request structure is the argument \<open>min_capacity\<close>.
\<close>

section \<open>Requests\<close>

datatype Method =
    MOptions | MGet | MHead | MPost | MPut | MDelete | MTrace | MConnect | MTrack | MMove | MCopy | MPropFind
  | MPropPatch | MMkCol | MLock | MUnlock | MSearch | MUnknown bytes | MInvalid

fun method_bytes :: "Method \<Rightarrow> bytes" where
  "method_bytes MOptions = lit ''OPTIONS''"
| "method_bytes MGet = lit ''GET''"
| "method_bytes MHead = lit ''HEAD''"
| "method_bytes MPost = lit ''POST''"
| "method_bytes MPut = lit ''PUT''"
| "method_bytes MDelete = lit ''DELETE''"
| "method_bytes MTrace = lit ''TRACE''"
| "method_bytes MConnect = lit ''CONNECT''"
| "method_bytes MTrack = lit ''TRACK''"
| "method_bytes MMove = lit ''MOVE''"
| "method_bytes MCopy = lit ''COPY''"
| "method_bytes MPropFind = lit ''PROPFIND''"
| "method_bytes MPropPatch = lit ''PROPPATCH''"
| "method_bytes MMkCol = lit ''MKCOL''"
| "method_bytes MLock = lit ''LOCK''"
| "method_bytes MUnlock = lit ''UNLOCK''"
| "method_bytes MSearch = lit ''SEARCH''"
| "method_bytes (MUnknown raw) = raw"
| "method_bytes MInvalid = []"

record HTTP_REQUEST =
  RequestId :: u64
  ConnectionId :: u64
  Verb :: nat
  UnknownVerb :: "bytes option \<times> nat"
  RawUrl :: "bytes option \<times> nat"
  HttpVersion :: "nat \<times> nat"
  Flags :: u32
  KnownRequestHeaders :: "(bytes option \<times> nat) list"
  UnknownRequestHeaders :: "((bytes option \<times> nat) \<times> (bytes option \<times> nat)) list option"
  UnknownRequestHeaderCount :: nat

definition slice_u8 :: "bytes option \<times> nat \<Rightarrow> bytes" where
  "slice_u8 p = (case p of (None, _) \<Rightarrow> [] | (Some b, len) \<Rightarrow> if len = 0 then [] else take len b)"

definition request_method :: "HTTP_REQUEST \<Rightarrow> Method" where
  "request_method q =
     (let table = [MOptions, MGet, MHead, MPost, MPut, MDelete, MTrace, MConnect, MTrack, MMove, MCopy, MPropFind,
                   MPropPatch, MMkCol, MLock, MUnlock, MSearch]
      in if 3 \<le> Verb q \<and> Verb q \<le> 19 then table ! (Verb q - 3)
         else if Verb q = 1 then MUnknown (slice_u8 (UnknownVerb q))
         else MInvalid)"

definition raw_target :: "HTTP_REQUEST \<Rightarrow> bytes" where
  "raw_target q = slice_u8 (RawUrl q)"

definition FLAG_MORE_ENTITY_BODY :: u32 where "FLAG_MORE_ENTITY_BODY = 1"
definition FLAG_HTTP2 :: u32 where "FLAG_HTTP2 = 4"
definition FLAG_HTTP3 :: u32 where "FLAG_HTTP3 = 8"

definition is_http2 :: "HTTP_REQUEST \<Rightarrow> bool" where
  "is_http2 q \<longleftrightarrow> Flags q AND FLAG_HTTP2 \<noteq> 0"

definition is_http3 :: "HTTP_REQUEST \<Rightarrow> bool" where
  "is_http3 q \<longleftrightarrow> Flags q AND FLAG_HTTP3 \<noteq> 0"

definition has_more_body :: "HTTP_REQUEST \<Rightarrow> bool" where
  "has_more_body q \<longleftrightarrow> Flags q AND FLAG_MORE_ENTITY_BODY \<noteq> 0"

definition request_header :: "HTTP_REQUEST \<Rightarrow> nat \<Rightarrow> bytes option" where
  "request_header q i =
     (if i < length (KnownRequestHeaders q)
      then (case fst (KnownRequestHeaders q ! i) of None \<Rightarrow> None | Some _ \<Rightarrow> Some (slice_u8 (KnownRequestHeaders q ! i)))
      else None)"

definition unknown_headers :: "HTTP_REQUEST \<Rightarrow> (bytes \<times> bytes) list" where
  "unknown_headers q =
     (case UnknownRequestHeaders q of
        None \<Rightarrow> []
      | Some hs \<Rightarrow> map (\<lambda>(n, v). (slice_u8 n, slice_u8 v)) (take (UnknownRequestHeaderCount q) hs))"

definition unknown_header_value :: "HTTP_REQUEST \<Rightarrow> bytes \<Rightarrow> bytes option" where
  "unknown_header_value q name =
     map_option snd (find (\<lambda>(n, v). eq_ignore_ascii_case n name) (unknown_headers q))"

text \<open>The buffer: its capacity is rounded up to the 8-byte units it is allocated in.\<close>

definition with_capacity :: "nat \<Rightarrow> nat \<Rightarrow> nat" where
  "with_capacity min_capacity capacity = (max capacity min_capacity + 7) div 8 * 8"

lemma with_capacity_bounds:
  "max capacity min_capacity \<le> with_capacity min_capacity capacity"
  "with_capacity min_capacity capacity < max capacity min_capacity + 8"
  "8 dvd with_capacity min_capacity capacity"
  by (auto simp: with_capacity_def)

section \<open>Operations\<close>

text \<open>\<^verbatim>\<open>poll_from_code\<close>: the transferred count of an inline success is the one the kernel left in the operation.\<close>

definition poll_from_code :: "(u32 \<Rightarrow> hresult) \<Rightarrow> u32 \<Rightarrow> nat \<Rightarrow> (hresult + nat) poll" where
  "poll_from_code hr code internal_high =
     (if code = ERROR_IO_PENDING then Pending
      else if code = 0 then Ready (Inr internal_high)
      else Ready (map_sum id (\<lambda>_. 0) (check hr code)))"

definition MORE_DATA :: u32 where
  "MORE_DATA = 2"

definition send_response_flags :: "bool \<Rightarrow> u32" where
  "send_response_flags more_data = (if more_data then MORE_DATA else 0)"

definition send_body_flags :: "bool \<Rightarrow> u32" where
  "send_body_flags is_last = (if is_last then 0 else MORE_DATA)"

text \<open>
  The three sends; \<open>Call\<close> is the platform call on the flags and what the structure shows it, returning its
  code and the transferred count.
\<close>

definition send_response_operate ::
  "(u32 \<Rightarrow> hresult) \<Rightarrow> (u32 \<Rightarrow> HTTP_RESPONSE \<Rightarrow> u32 \<times> nat) \<Rightarrow> bool \<Rightarrow> Response \<Rightarrow>
   (hresult + nat) poll \<times> Response" where
  "send_response_operate hr Call more_data r =
     (case build hr r of
        (Inl e, r1) \<Rightarrow> (Ready (Inl e), r1)
      | (Inr _, r1) \<Rightarrow>
          (case Call (send_response_flags more_data) (rs_raw r1) of (code, n) \<Rightarrow> (poll_from_code hr code n, r1)))"

definition send_body_operate ::
  "(u32 \<Rightarrow> hresult) \<Rightarrow> (u32 \<Rightarrow> u32 \<times> bytes \<Rightarrow> u32 \<times> nat) \<Rightarrow> bool \<Rightarrow> bytes \<Rightarrow> (hresult + nat) poll" where
  "send_body_operate hr Call is_last buffer =
     (case len_u32 hr buffer of
        Inl e \<Rightarrow> Ready (Inl e)
      | Inr n \<Rightarrow> (case Call (send_body_flags is_last) (n, buffer) of (code, k) \<Rightarrow> poll_from_code hr code k))"

definition send_trailers_operate ::
  "(u32 \<Rightarrow> hresult) \<Rightarrow> (u32 \<Rightarrow> u16 \<times> unknown_header list \<Rightarrow> u32 \<times> nat) \<Rightarrow> (bytes \<times> bytes) list \<Rightarrow> (hresult + nat) poll" where
  "send_trailers_operate hr Call trailers =
     (if \<exists>p \<in> set trailers. \<not> length (fst p) < 2 ^ 16 \<or> \<not> length (snd p) < 2 ^ 16
      then Ready (Inl (hr ERROR_INVALID_PARAMETER))
      else case Call 0 (of_nat (length trailers), map raw_header trailers) of (code, k) \<Rightarrow> poll_from_code hr code k)"

section \<open>The handle\<close>

text \<open>The shared handle: its references, whether it was closed, and how often the platform closed it.\<close>

record queue_handle =
  qh_refs :: nat
  qh_invalid :: bool
  qh_closed :: bool
  qh_closes :: nat

definition queue_from_raw :: "bool \<Rightarrow> queue_handle" where
  "queue_from_raw invalid = \<lparr>qh_refs = 1, qh_invalid = invalid, qh_closed = False, qh_closes = 0\<rparr>"

definition owned_close :: "queue_handle \<Rightarrow> queue_handle" where
  "owned_close h =
     (if qh_invalid h \<or> qh_closed h then h else h\<lparr>qh_closed := True, qh_closes := qh_closes h + 1\<rparr>)"

definition queue_clone :: "queue_handle \<Rightarrow> queue_handle" where
  "queue_clone h = h\<lparr>qh_refs := qh_refs h + 1\<rparr>"

text \<open>Dropping a reference; the last one closes. \<^verbatim>\<open>release\<close> closes first and is then dropped as well.\<close>

definition queue_drop :: "queue_handle \<Rightarrow> queue_handle" where
  "queue_drop h = (if qh_refs h = 1 then owned_close (h\<lparr>qh_refs := 0\<rparr>) else h\<lparr>qh_refs := qh_refs h - 1\<rparr>)"

definition queue_release :: "queue_handle \<Rightarrow> queue_handle" where
  "queue_release h = (if qh_refs h = 1 then owned_close (owned_close (h\<lparr>qh_refs := 0\<rparr>)) else queue_drop h)"

datatype handle_use = UseClone | UseDrop | UseRelease

fun handle_run :: "handle_use list \<Rightarrow> queue_handle \<Rightarrow> queue_handle option" where
  "handle_run [] h = Some h"
| "handle_run (u # us) h =
     (if qh_refs h = 0 then None
      else handle_run us (case u of UseClone \<Rightarrow> queue_clone h | UseDrop \<Rightarrow> queue_drop h | UseRelease \<Rightarrow> queue_release h))"

section \<open>Receiving\<close>

definition GROWTH_FACTOR :: nat where
  "GROWTH_FACTOR = 16"

definition MAX_CAPACITY :: nat where
  "MAX_CAPACITY = 64 * 1024 * 1024"

record ReceiveConfig =
  initial_capacity :: nat
  max_retries :: nat

definition default_config :: ReceiveConfig where
  "default_config = \<lparr>initial_capacity = 4096, max_retries = 1\<rparr>"

datatype ReceiveError = TooLarge u64 nat nat bool | ReceiveFailed hresult

definition is_more_data :: "hresult \<Rightarrow> bool" where
  "is_more_data e \<longleftrightarrow> win32_code e = Some ERROR_MORE_DATA"

definition is_eof :: "hresult \<Rightarrow> bool" where
  "is_eof e \<longleftrightarrow> win32_code e = Some ERROR_HANDLE_EOF"

definition E_CLOSED :: "(u32 \<Rightarrow> hresult) \<Rightarrow> hresult" where
  "E_CLOSED hr = hr 6"

text \<open>
  \<^verbatim>\<open>reject\<close> and \<^verbatim>\<open>receive_id\<close>. \<open>R i target capacity\<close> is the \<open>i\<close>-th receive: its result and the request id
  left in the buffer. The log holds the target and the capacity of every attempt.
\<close>

definition reject :: "(u32 \<Rightarrow> hresult) \<Rightarrow> bool \<Rightarrow> bool \<Rightarrow> hresult + nat \<Rightarrow> hresult + unit" where
  "reject hr open1 open2 cancelled =
     (if \<not> open1 \<or> \<not> open2 then Inl (E_CLOSED hr) else map_sum id (\<lambda>_. ()) cancelled)"

definition grow :: "nat \<Rightarrow> nat" where
  "grow capacity = min (min (capacity * GROWTH_FACTOR) usize_max) MAX_CAPACITY"

function receive_loop ::
  "(u32 \<Rightarrow> hresult) \<Rightarrow> (nat \<Rightarrow> bool) \<Rightarrow> (nat \<Rightarrow> u64 \<Rightarrow> nat \<Rightarrow> (hresult + nat) \<times> u64) \<Rightarrow> (u64 \<Rightarrow> hresult + nat) \<Rightarrow>
   nat \<Rightarrow> nat \<Rightarrow> nat \<Rightarrow> u64 \<Rightarrow> nat \<Rightarrow>
   (ReceiveError + u64 \<times> nat \<times> nat) \<times> (u64 \<times> nat) list" where
  "receive_loop hr opened R C min_capacity max_tries capacity target retries =
     (if \<not> opened (2 * retries) \<or> \<not> opened (2 * retries + 1) then (Inl (ReceiveFailed (E_CLOSED hr)), [])
      else case R retries target (with_capacity min_capacity capacity) of
          (Inr _, got) \<Rightarrow> (Inr (got, with_capacity min_capacity capacity, retries), [(target, capacity)])
        | (Inl e, recovered) \<Rightarrow>
            if is_more_data e then
              if retries \<ge> max_tries then
                (Inl (TooLarge recovered capacity retries
                   (\<not> isl (reject hr (opened (2 * retries + 2)) (opened (2 * retries + 3)) (C recovered)))),
                 [(target, capacity)])
              else (case receive_loop hr opened R C min_capacity max_tries (grow capacity) recovered (retries + 1) of
                      (r, log) \<Rightarrow> (r, (target, capacity) # log))
            else (Inl (ReceiveFailed e), [(target, capacity)]))"
  by pat_completeness auto
termination
  by (relation "measure (\<lambda>(hr, opened, R, C, min_capacity, max_tries, capacity, target, retries). max_tries - retries)") auto

declare receive_loop.simps [simp del]

definition receive_id ::
  "(u32 \<Rightarrow> hresult) \<Rightarrow> (nat \<Rightarrow> bool) \<Rightarrow> (nat \<Rightarrow> u64 \<Rightarrow> nat \<Rightarrow> (hresult + nat) \<times> u64) \<Rightarrow> (u64 \<Rightarrow> hresult + nat) \<Rightarrow>
   nat \<Rightarrow> ReceiveConfig \<Rightarrow> u64 \<Rightarrow> (ReceiveError + u64 \<times> nat \<times> nat) \<times> (u64 \<times> nat) list" where
  "receive_id hr opened R C min_capacity cfg target =
     receive_loop hr opened R C min_capacity (max_retries cfg) (max (initial_capacity cfg) min_capacity) target 0"

section \<open>Bodies\<close>

definition queue_read_body ::
  "(u32 \<Rightarrow> hresult) \<Rightarrow> bool \<Rightarrow> bool \<Rightarrow> (bytes \<Rightarrow> (hresult + nat) \<times> bytes) \<Rightarrow> bytes \<Rightarrow> (hresult + nat) \<times> bytes" where
  "queue_read_body hr open1 open2 rd buffer =
     (if \<not> open1 \<or> \<not> open2 then (Inl (E_CLOSED hr), buffer)
      else case rd buffer of
          (Inl e, b) \<Rightarrow> (if is_eof e then Inr 0 else Inl e, b)
        | (Inr n, b) \<Rightarrow> (Inr n, b))"

text \<open>\<open>rd i\<close> is the \<open>i\<close>-th read; \<open>None\<close> is a loop that has not ended within the fuel.\<close>

fun read_body_to_end ::
  "nat \<Rightarrow> (u32 \<Rightarrow> hresult) \<Rightarrow> (nat \<Rightarrow> bool) \<Rightarrow> (nat \<Rightarrow> bytes \<Rightarrow> (hresult + nat) \<times> bytes) \<Rightarrow> nat \<Rightarrow> bytes \<Rightarrow>
   (hresult + bytes) option" where
  "read_body_to_end 0 hr opened rd i collected = None"
| "read_body_to_end (Suc fuel) hr opened rd i collected =
     (case queue_read_body hr (opened (2 * i)) (opened (2 * i + 1)) (rd i) [] of
        (Inl e, _) \<Rightarrow> Some (Inl e)
      | (Inr n, b) \<Rightarrow>
          if n = 0 then Some (Inr collected)
          else read_body_to_end fuel hr opened rd (Suc i) (collected @ take (min n (length b)) b))"

section \<open>Properties\<close>

text \<open>The capacity of the \<open>i\<close>-th attempt, and the request it asks for: the one the attempt before was too small for.\<close>

definition attempt_capacity :: "nat \<Rightarrow> nat \<Rightarrow> nat" where
  "attempt_capacity c i = (if i = 0 then c else min (c * 16 ^ i) MAX_CAPACITY)"

fun attempt_target :: "(nat \<Rightarrow> u64 \<Rightarrow> nat \<Rightarrow> (hresult + nat) \<times> u64) \<Rightarrow> nat \<Rightarrow> nat \<Rightarrow> u64 \<Rightarrow> nat \<Rightarrow> u64" where
  "attempt_target R m c target 0 = target"
| "attempt_target R m c target (Suc i) =
     snd (R i (attempt_target R m c target i) (with_capacity m (attempt_capacity c i)))"

lemma grow_attempt: "grow (attempt_capacity c i) = attempt_capacity c (Suc i)"
  by (auto simp: grow_def attempt_capacity_def GROWTH_FACTOR_def MAX_CAPACITY_def min_def)

definition receive_outcome :: "nat \<Rightarrow> nat \<Rightarrow> nat \<Rightarrow> ReceiveError + u64 \<times> nat \<times> nat \<Rightarrow> nat \<Rightarrow> bool" where
  "receive_outcome m c N r attempts \<longleftrightarrow>
     attempts \<le> N + 1 \<and>
     (case r of
        Inr (got, capacity, retries) \<Rightarrow> attempts = retries + 1 \<and> capacity = with_capacity m (attempt_capacity c retries)
      | Inl (TooLarge too_large capacity retries discarded) \<Rightarrow>
          retries = N \<and> attempts = N + 1 \<and> capacity = attempt_capacity c N
      | Inl (ReceiveFailed e) \<Rightarrow> True)"

lemma receive_loop_outcome:
  "k \<le> N \<Longrightarrow>
    receive_loop hr opened R C m N (attempt_capacity c k) (attempt_target R m c target k) k = (r, log) \<Longrightarrow>
    log = map (\<lambda>i. (attempt_target R m c target i, attempt_capacity c i)) [k ..< k + length log] \<and>
    receive_outcome m c N r (k + length log)"
proof (induction "N - k" arbitrary: k r log)
  case 0
  then show ?case
    by (subst (asm) receive_loop.simps) (auto simp: receive_outcome_def split: if_splits prod.splits sum.splits)
next
  case (Suc d)
  then have lt: "k < N" by simp
  let ?R = "R k (attempt_target R m c target k) (with_capacity m (attempt_capacity c k))"
  show ?case
  proof (cases "opened (2 * k) \<and> opened (2 * k + 1) \<and> (\<exists>e. fst ?R = Inl e \<and> is_more_data e)")
    case False
    then show ?thesis
      using Suc.prems(2) lt
      by (subst (asm) receive_loop.simps) (auto simp: receive_outcome_def split: if_splits prod.splits sum.splits)
  next
    case True
    then obtain e where e: "?R = (Inl e, attempt_target R m c target (Suc k))" "is_more_data e"
      by (cases ?R) auto
    obtain r1 log1 where r: "receive_loop hr opened R C m N (attempt_capacity c (Suc k)) (attempt_target R m c target (Suc k)) (Suc k) = (r1, log1)"
      by fastforce
    have "(r, log) = (r1, (attempt_target R m c target k, attempt_capacity c k) # log1)"
      using Suc.prems(2) True lt e r
      by (subst (asm) receive_loop.simps) (simp add: grow_attempt del: attempt_target.simps)
    moreover have "log1 = map (\<lambda>i. (attempt_target R m c target i, attempt_capacity c i)) [Suc k ..< Suc k + length log1] \<and>
        receive_outcome m c N r1 (Suc k + length log1)"
      by (rule Suc.hyps(1) [OF _ _ r]) (use Suc.hyps(2) lt in simp_all)
    ultimately show ?thesis by (simp add: upt_rec)
  qed
qed

text \<open>
  Property C18. Receiving a request retries within bounds: it always returns, after at most one attempt
  more than the configured retries; the attempts use the configured capacity and then that capacity times
  the powers of sixteen, cut at 64 MiB; each retry asks for exactly the request the attempt before it was
  too small for; a request that is returned was received with the capacity of its last attempt; and it is
  given up as too large only after the last permitted retry. (A configured capacity above 64 MiB is thus
  cut down, not grown, by the first retry.)
\<close>

theorem receive_retries_bounded:
  "case receive_id hr opened R C m cfg target of
     (r, log) \<Rightarrow>
       let c = max (initial_capacity cfg) m
       in log = map (\<lambda>i. (attempt_target R m c target i, attempt_capacity c i)) [0 ..< length log] \<and>
          receive_outcome m c (max_retries cfg) r (length log)"
proof -
  let ?c = "max (initial_capacity cfg) m"
  obtain r log where l: "receive_id hr opened R C m cfg target = (r, log)" by fastforce
  then have "receive_loop hr opened R C m (max_retries cfg) (attempt_capacity ?c 0) (attempt_target R m ?c target 0) 0 = (r, log)"
    by (simp add: receive_id_def attempt_capacity_def)
  from receive_loop_outcome [OF _ this] l show ?thesis by simp
qed

definition handle_ok :: "queue_handle \<Rightarrow> bool" where
  "handle_ok h \<longleftrightarrow> \<not> qh_invalid h \<and> qh_closed h = (qh_refs h = 0) \<and> qh_closes h = (if qh_refs h = 0 then 1 else 0)"

lemma handle_run_ok: "handle_ok h \<Longrightarrow> handle_run us h = Some h' \<Longrightarrow> handle_ok h'"
proof (induction us arbitrary: h)
  case (Cons u us)
  then have n: "qh_refs h \<noteq> 0" by (auto split: if_splits)
  have "handle_ok (case u of UseClone \<Rightarrow> queue_clone h | UseDrop \<Rightarrow> queue_drop h | UseRelease \<Rightarrow> queue_release h)"
    using Cons.prems(1) n
    by (cases u) (auto simp: handle_ok_def queue_clone_def queue_drop_def queue_release_def owned_close_def)
  with Cons n show ?case by auto
qed simp

text \<open>
  The queue handle is closed exactly once, by whoever gives up the last reference: after any
  sequence of clones, drops and releases by the queue and its outstanding operations, the platform has
  closed it once if no reference is left, and not at all as long as one is.
\<close>

theorem queue_handle_closed_once:
  assumes "handle_run us (queue_from_raw False) = Some h"
  shows "qh_closes h = (if qh_refs h = 0 then 1 else 0)"
  using handle_run_ok [OF _ assms] by (simp add: handle_ok_def queue_from_raw_def)

theorem queue_handle_closed_once_witness:
  "\<exists>h. handle_run [UseClone, UseRelease, UseDrop] (queue_from_raw False) = Some h \<and> qh_refs h = 0 \<and> qh_closes h = 1"
proof -
  obtain h where h: "handle_run [UseClone, UseRelease, UseDrop] (queue_from_raw False) = Some h" "qh_refs h = 0"
    by (simp add: queue_from_raw_def queue_clone_def queue_release_def queue_drop_def owned_close_def)
  from queue_handle_closed_once [OF h(1)] h show ?thesis by auto
qed

end
