(* ===== verification/Server_Head.thy ===== *)
theory Server_Head
  imports Http_Headers Httpsys_Queue
begin

text \<open>
  Between the HTTP Server API and the \<^verbatim>\<open>http\<close> crate: \<^verbatim>\<open>winasio-util/src/server/head.rs\<close>.

  Constructors of the \<^verbatim>\<open>http\<close> crate that may refuse their input (\<^verbatim>\<open>Method::from_bytes\<close>, \<^verbatim>\<open>Uri::try_from\<close>)
  and its table of reason phrases are arguments. The texts of the errors hold the raw bytes.
\<close>

section \<open>Requests\<close>

record ('u, 'm) Head =
  hd_method :: bytes
  hd_uri :: 'u
  hd_version :: Version
  hd_headers :: 'm
  hd_request_id :: u64
  hd_connection_id :: u64

definition server_header_value :: "('m, 'z) http_scheme \<Rightarrow> bytes \<Rightarrow> AcceptError + header_value" where
  "server_header_value H b =
     (case value_from_bytes H b of None \<Rightarrow> Inl (MalformedRequest ReasonHeaderValue b) | Some v \<Rightarrow> Inr v)"

definition method_of :: "(bytes \<Rightarrow> bytes option) \<Rightarrow> HTTP_REQUEST \<Rightarrow> AcceptError + bytes" where
  "method_of method_from_bytes q =
     (let b = method_bytes (request_method q) in
      if b = [] then Inl (MalformedRequest ReasonMethod [])
      else case method_from_bytes b of None \<Rightarrow> Inl (MalformedRequest ReasonMethod b) | Some m \<Rightarrow> Inr m)"

definition uri_of :: "(bytes \<Rightarrow> 'u option) \<Rightarrow> HTTP_REQUEST \<Rightarrow> AcceptError + 'u" where
  "uri_of uri_try_from q =
     (case uri_try_from (raw_target q) of None \<Rightarrow> Inl (MalformedRequest ReasonTarget (raw_target q)) | Some u \<Rightarrow> Inr u)"

definition version_from_tuple :: "nat \<Rightarrow> nat \<Rightarrow> Version" where
  "version_from_tuple major minor =
     (if major = 0 \<and> minor = 9 then HTTP_09
      else if major = 1 \<and> minor = 0 then HTTP_10
      else if major = 2 then HTTP_2
      else if major = 3 then HTTP_3
      else HTTP_11)"

definition version_of :: "HTTP_REQUEST \<Rightarrow> Version" where
  "version_of q =
     (if is_http2 q then HTTP_2
      else if is_http3 q then HTTP_3
      else version_from_tuple (fst (HttpVersion q)) (snd (HttpVersion q)))"

fun known_headers :: "('m, 'z) http_scheme \<Rightarrow> HTTP_REQUEST \<Rightarrow> nat list \<Rightarrow> 'm \<Rightarrow> AcceptError + 'm" where
  "known_headers H q [] headers = Inr headers"
| "known_headers H q (i # is) headers =
     (case request_header q i of
        None \<Rightarrow> known_headers H q is headers
      | Some b \<Rightarrow>
          (case name_from_bytes H (lit (header_name request_header_names i)) of
             None \<Rightarrow> Inl (MalformedRequest ReasonHeaderName (lit (header_name request_header_names i)))
           | Some n \<Rightarrow>
               (case server_header_value H b of
                  Inl e \<Rightarrow> Inl e
                | Inr v \<Rightarrow> known_headers H q is (hm_append H headers n v))))"

fun other_headers :: "('m, 'z) http_scheme \<Rightarrow> (bytes \<times> bytes) list \<Rightarrow> 'm \<Rightarrow> AcceptError + 'm" where
  "other_headers H [] headers = Inr headers"
| "other_headers H ((name, b) # ps) headers =
     (case name_from_bytes H name of
        None \<Rightarrow> Inl (MalformedRequest ReasonHeaderName name)
      | Some n \<Rightarrow>
          (case server_header_value H b of
             Inl e \<Rightarrow> Inl e
           | Inr v \<Rightarrow> other_headers H ps (hm_append H headers n v)))"

definition to_http ::
  "('m, 'z) http_scheme \<Rightarrow> (bytes \<Rightarrow> bytes option) \<Rightarrow> (bytes \<Rightarrow> 'u option) \<Rightarrow> HTTP_REQUEST \<Rightarrow> AcceptError + ('u, 'm) Head" where
  "to_http H method_from_bytes uri_try_from q =
     (case method_of method_from_bytes q of
        Inl e \<Rightarrow> Inl e
      | Inr m \<Rightarrow>
          (case uri_of uri_try_from q of
             Inl e \<Rightarrow> Inl e
           | Inr u \<Rightarrow>
               (case known_headers H q [0 ..< 41] (hm_new H) of
                  Inl e \<Rightarrow> Inl e
                | Inr h1 \<Rightarrow>
                    (case other_headers H (unknown_headers q) h1 of
                       Inl e \<Rightarrow> Inl e
                     | Inr h2 \<Rightarrow>
                         Inr \<lparr>hd_method = m, hd_uri = u, hd_version = version_of q, hd_headers = h2,
                              hd_request_id = RequestId q, hd_connection_id = ConnectionId q\<rparr>))))"

section \<open>Responses\<close>

text \<open>\<^verbatim>\<open>str::from_utf8\<close>.\<close>

definition cont :: "u8 \<Rightarrow> bool" where
  "cont b \<longleftrightarrow> 0x80 \<le> unat b \<and> unat b \<le> 0xBF"

fun from_utf8 :: "bytes \<Rightarrow> str option" where
  "from_utf8 [] = Some []"
| "from_utf8 (b # bs) =
     (let n = unat b in
      if n < 0x80 then map_option (Cons n) (from_utf8 bs)
      else case bs of
          [] \<Rightarrow> None
        | c # cs \<Rightarrow>
            if 0xC2 \<le> n \<and> n \<le> 0xDF \<and> cont c
            then map_option (Cons ((n - 0xC0) * 64 + (unat c - 0x80))) (from_utf8 cs)
            else (case cs of
                    [] \<Rightarrow> None
                  | d # ds \<Rightarrow>
                      if 0xE0 \<le> n \<and> n \<le> 0xEF \<and> cont c \<and> cont d \<and> (n = 0xE0 \<longrightarrow> 0xA0 \<le> unat c) \<and>
                        (n = 0xED \<longrightarrow> unat c \<le> 0x9F)
                      then map_option (Cons ((n - 0xE0) * 4096 + (unat c - 0x80) * 64 + (unat d - 0x80))) (from_utf8 ds)
                      else (case ds of
                              [] \<Rightarrow> None
                            | e # es \<Rightarrow>
                                if 0xF0 \<le> n \<and> n \<le> 0xF4 \<and> cont c \<and> cont d \<and> cont e \<and>
                                  (n = 0xF0 \<longrightarrow> 0x90 \<le> unat c) \<and> (n = 0xF4 \<longrightarrow> unat c \<le> 0x8F)
                                then map_option (Cons ((n - 0xF0) * 262144 + (unat c - 0x80) * 4096 +
                                       (unat d - 0x80) * 64 + (unat e - 0x80))) (from_utf8 es)
                                else None)))"

text \<open>\<^verbatim>\<open>to_string\<close> of a number.\<close>

fun dec_digits :: "nat \<Rightarrow> bytes" where
  "dec_digits n = (if n < 10 then [of_nat (48 + n)] else dec_digits (n div 10) @ [of_nat (48 + n mod 10)])"

declare dec_digits.simps [simp del]

definition is_framing_header :: "header_name \<Rightarrow> bool" where
  "is_framing_header name \<longleftrightarrow> name = TRANSFER_ENCODING"

fun declared_length_loop :: "header_value list \<Rightarrow> nat option \<Rightarrow> 'e ResponseError + nat option" where
  "declared_length_loop [] found = Inr found"
| "declared_length_loop (v # vs) found =
     (case Option.bind (from_utf8 v) (\<lambda>t. parse_u64 (trim t)) of
        None \<Rightarrow> Inl (BadContentLength v)
      | Some parsed \<Rightarrow>
          (case found of
             Some previous \<Rightarrow>
               if previous \<noteq> parsed
               then Inl (BadContentLength (dec_digits previous @ [44, 32] @ dec_digits parsed))
               else declared_length_loop vs (Some parsed)
           | None \<Rightarrow> declared_length_loop vs (Some parsed)))"

definition declared_length :: "('m, 'z) http_scheme \<Rightarrow> 'm \<Rightarrow> 'e ResponseError + nat option" where
  "declared_length H headers = declared_length_loop (hm_get_all H headers CONTENT_LENGTH) None"

definition SLOT_DATE :: nat where "SLOT_DATE = 2"
definition SLOT_TRANSFER_ENCODING :: nat where "SLOT_TRANSFER_ENCODING = 6"
definition SLOT_CONTENT_LENGTH :: nat where "SLOT_CONTENT_LENGTH = 11"
definition SLOT_SERVER :: nat where "SLOT_SERVER = 26"

definition known_slot :: "header_name \<Rightarrow> nat option" where
  "known_slot name =
     (if name = lit ''date'' then Some SLOT_DATE
      else if name = lit ''server'' then Some SLOT_SERVER else None)"

fun reply_headers :: "(header_name \<times> header_value) list \<Rightarrow> Response \<Rightarrow> 'e ResponseError + Response" where
  "reply_headers [] reply = Inr reply"
| "reply_headers ((name, v) # ps) reply =
     (if is_framing_header name then Inl (ResponseBodyErr (FramingHeaderNotAllowed name))
      else if name = CONTENT_LENGTH then reply_headers ps reply
      else case known_slot name of
          Some slot \<Rightarrow> reply_headers ps (set_header slot v reply)
        | None \<Rightarrow> reply_headers ps (add_header name v reply))"

definition from_http ::
  "('m, 'z) http_scheme \<Rightarrow> (nat \<Rightarrow> bytes option) \<Rightarrow> nat \<Rightarrow> 'm \<Rightarrow> 'e ResponseError + Response" where
  "from_http H canonical_reason status headers =
     (let reply = response_new (of_nat status);
          reply = (case canonical_reason status of Some reason \<Rightarrow> set_reason reason reply | None \<Rightarrow> reply)
      in reply_headers (hm_iter H headers) reply)"

definition may_send_body :: "bytes \<Rightarrow> nat \<Rightarrow> bool" where
  "may_send_body method status =
     (if method = METHOD_HEAD then False
      else \<not> (is_informational status \<or> status = 204 \<or> status = 304))"

definition may_declare_length :: "nat \<Rightarrow> bool" where
  "may_declare_length status \<longleftrightarrow> \<not> (is_informational status \<or> status = 204 \<or> status = 304)"

section \<open>Client and server agree\<close>

lemma may_send_is_may_have: "may_send_body method status = may_have_body method status"
  by (simp add: may_send_body_def may_have_body_def)

lemma from_utf8_ascii: "\<forall>b \<in> set v. unat b < 0x80 \<Longrightarrow> from_utf8 v = Some (map unat v)"
  by (induction v rule: from_utf8.induct) (auto simp: Let_def)

text \<open>
  On values the client can read as text, the server's reading of a declared length is the client's: the
  server refuses exactly what the client ignores.
\<close>

lemma length_loops_agree:
  assumes "\<forall>v \<in> set vs. value_to_str H v = Some (map unat v) \<and> (\<forall>b \<in> set v. unat b < 0x80)"
  shows "(case declared_length_loop vs found :: 'e ResponseError + nat option of Inr d \<Rightarrow> d | Inl _ \<Rightarrow> None) =
    content_length_loop H vs found"
  using assms
  by (induction vs arbitrary: found) (auto simp: from_utf8_ascii split: option.splits)

lemma reply_headers_ok:
  "reply_headers ps reply = (Inr reply' :: 'e ResponseError + Response) \<Longrightarrow> response_ok reply \<Longrightarrow>
    response_ok reply' \<and> rs_chunks reply' = rs_chunks reply \<and> (\<forall>p \<in> set ps. fst p \<noteq> TRANSFER_ENCODING)"
proof (induction ps arbitrary: reply)
  case (Cons p ps)
  obtain n v where p: "p = (n, v)" by (cases p)
  have c: "rs_chunks (set_header i v r) = rs_chunks r" "rs_chunks (add_header n v r) = rs_chunks r" for i r
    by (simp_all add: set_header_def add_header_def)
  have ok: "response_ok (set_header i v reply)" "response_ok (add_header n v reply)" for i
    using Cons.prems(2) by (simp_all add: response_ops_ok)
  have nf: "\<not> is_framing_header n" using Cons.prems(1) p by (auto split: if_splits)
  then have tail: "\<exists>reply1. reply_headers ps reply1 = (Inr reply' :: 'e ResponseError + Response) \<and> response_ok reply1 \<and>
      rs_chunks reply1 = rs_chunks reply"
    using Cons.prems p c ok by (auto split: if_splits option.splits)
  then show ?case using Cons.IH nf p by (auto simp: is_framing_header_def)
qed simp

lemma from_http_ok:
  assumes "from_http H canonical_reason status headers = (Inr reply :: 'e ResponseError + Response)"
  shows "response_ok reply \<and> slots_iter (rs_chunks reply) = []"
proof -
  let ?r = "case canonical_reason status of Some reason \<Rightarrow> set_reason reason (response_new (of_nat status))
    | None \<Rightarrow> response_new (of_nat status)"
  have ok: "response_ok ?r" by (cases "canonical_reason status") (simp_all add: response_ops_ok response_new_ok)
  have c: "rs_chunks ?r = slots_new 4"
    by (cases "canonical_reason status") (simp_all add: set_reason_def response_new_def INLINE_CHUNKS_def)
  have "reply_headers (hm_iter H headers) ?r = (Inr reply :: 'e ResponseError + Response)"
    using assms by (simp add: from_http_def Let_def)
  from reply_headers_ok [OF this ok] show ?thesis by (simp add: c chunk_slots.empty_items)
qed

end
