(* ===== verification/Server_Send.thy ===== *)
theory Server_Send
  imports Server_Head Client_Body Http_Body
begin

text \<open>
  Answering a request: the \<^verbatim>\<open>Responder\<close> and the accept and serve loops of
  \<^verbatim>\<open>winasio-util/src/server/mod.rs\<close>.

  \<open>Q i x\<close> is the queue's answer to the \<open>i\<close>-th send, and \<open>ou_log\<close> the sends it accepted. The answer to a
  request is complete when a send without more data was accepted. A body is the list of the frames it
  yields, with its exact size hint beside it.
\<close>

section \<open>Sending\<close>

datatype sent = SentHead Response bool | SentBody bytes bool | SentTrailers "(bytes \<times> bytes) list"

record outbox =
  ou_calls :: nat
  ou_log :: "sent list"

type_synonym send_call = "nat \<Rightarrow> sent \<Rightarrow> hresult + nat"

definition queue_send :: "send_call \<Rightarrow> SendStage \<Rightarrow> sent \<Rightarrow> outbox \<Rightarrow> ('e ResponseError + unit) \<times> outbox" where
  "queue_send Q stage x out =
     (case Q (ou_calls out) x of
        Inl e \<Rightarrow> (Inl (SendFailed stage e), out\<lparr>ou_calls := ou_calls out + 1\<rparr>)
      | Inr _ \<Rightarrow> (Inr (), out\<lparr>ou_calls := ou_calls out + 1, ou_log := ou_log out @ [x]\<rparr>))"

definition MAX_SEND :: nat where
  "MAX_SEND = 64 * 1024"

function responder_write :: "send_call \<Rightarrow> bytes \<Rightarrow> bool \<Rightarrow> outbox \<Rightarrow> ('e ResponseError + unit) \<times> outbox" where
  "responder_write Q buffer is_last out =
     (if length buffer > MAX_SEND then
        (case queue_send Q SendBodyPart (SentBody (take MAX_SEND buffer) False) out of
           (Inl e, out1) \<Rightarrow> (Inl e, out1)
         | (Inr _, out1) \<Rightarrow> responder_write Q (drop MAX_SEND buffer) is_last out1)
      else queue_send Q SendBodyPart (SentBody buffer is_last) out)"
  by pat_completeness auto
termination
  by (relation "measure (\<lambda>(Q, b, l, out). length b)") (auto simp: MAX_SEND_def)

declare responder_write.simps [simp del]

definition responder_finish :: "send_call \<Rightarrow> Response \<Rightarrow> outbox \<Rightarrow> ('e ResponseError + unit) \<times> outbox" where
  "responder_finish Q reply out = queue_send Q SendHead (SentHead reply False) out"

text \<open>The next data of a body: empty frames and trailers are passed over.\<close>

fun next_chunk :: "('e + frame) list \<Rightarrow> ('e BodyError + bytes option) \<times> ('e + frame) list" where
  "next_chunk [] = (Inr None, [])"
| "next_chunk (Inl e # body) = (Inl (Source e), body)"
| "next_chunk (Inr (TrailersFrame _) # body) = next_chunk body"
| "next_chunk (Inr (DataFrame data) # body) = (if data = [] then next_chunk body else (Inr (Some data), body))"

fun next_frame :: "('e + frame) list \<Rightarrow> ('e BodyError + frame option) \<times> ('e + frame) list" where
  "next_frame [] = (Inr None, [])"
| "next_frame (Inl e # body) = (Inl (Source e), body)"
| "next_frame (Inr (TrailersFrame t) # body) = (Inr (Some (TrailersFrame t)), body)"
| "next_frame (Inr (DataFrame data) # body) =
     (if data = [] then next_frame body else (Inr (Some (DataFrame data)), body))"

lemma next_chunk_shorter: "next_chunk body = (Inr (Some c), body1) \<Longrightarrow> length body1 < length body"
  by (induction body rule: next_chunk.induct) (auto split: if_splits)

lemma next_frame_shorter: "next_frame body = (Inr (Some c), body1) \<Longrightarrow> length body1 < length body"
  by (induction body rule: next_frame.induct) (auto split: if_splits)

text \<open>\<^verbatim>\<open>stream\<close>: \<open>chunk\<close> is the piece at hand, \<open>prefix\<close> the pieces fetched before.\<close>

definition next_piece ::
  "bytes list \<Rightarrow> ('e + frame) list \<Rightarrow> ('e BodyError + bytes option) \<times> bytes list \<times> ('e + frame) list" where
  "next_piece prefix body =
     (case prefix of p # ps \<Rightarrow> (Inr (Some p), ps, body)
      | [] \<Rightarrow> (case next_chunk body of (r, body1) \<Rightarrow> (r, [], body1)))"

lemma next_piece_shorter:
  "next_piece prefix body = (Inr (Some c), prefix1, body1) \<Longrightarrow>
    length prefix1 + length body1 < length prefix + length body"
  by (auto simp: next_piece_def split: list.splits prod.splits dest: next_chunk_shorter)

function stream_loop ::
  "send_call \<Rightarrow> Framing \<Rightarrow> bytes option \<Rightarrow> bytes list \<Rightarrow> ('e + frame) list \<Rightarrow> nat \<Rightarrow> outbox \<Rightarrow>
   ('e ResponseError + nat) \<times> outbox" where
  "stream_loop Q framing chunk prefix body written out =
     (case chunk of
        None \<Rightarrow> (Inr written, out)
      | Some piece \<Rightarrow>
          if (case framing of Exact declared \<Rightarrow> written + length piece > declared | Chunked \<Rightarrow> False)
          then (Inl (ResponseBodyErr (LengthMismatch
                  (case framing of Exact declared \<Rightarrow> declared | Chunked \<Rightarrow> 0) (written + length piece))), out)
          else
            case responder_write Q (framed framing piece) False out of
              (Inl e, out1) \<Rightarrow> (Inl e, out1)
            | (Inr _, out1) \<Rightarrow>
                (case next_piece prefix body of
                   (Inl e, _, _) \<Rightarrow> (Inl (ResponseBodyErr e), out1)
                 | (Inr None, _, _) \<Rightarrow> (Inr (written + length piece), out1)
                 | (Inr (Some c), prefix1, body1) \<Rightarrow>
                     stream_loop Q framing (Some c) prefix1 body1 (written + length piece) out1))"
  by pat_completeness auto
termination
  by (relation "measure (\<lambda>(Q, f, c, prefix, body, w, out). length prefix + length body)")
    (auto dest!: sym [of _ "next_piece _ _"] next_piece_shorter)

declare stream_loop.simps [simp del]

definition stream ::
  "send_call \<Rightarrow> Response \<Rightarrow> ('e + frame) list \<Rightarrow> bytes list \<Rightarrow> Framing \<Rightarrow> outbox \<Rightarrow> ('e ResponseError + unit) \<times> outbox" where
  "stream Q reply body prefix framing out =
     (case queue_send Q SendHead (SentHead reply True) out of
        (Inl e, out1) \<Rightarrow> (Inl e, out1)
      | (Inr _, out1) \<Rightarrow>
          (case stream_loop Q framing (case prefix of [] \<Rightarrow> None | p # _ \<Rightarrow> Some p) (tl prefix) body 0 out1 of
             (Inl e, out2) \<Rightarrow> (Inl e, out2)
           | (Inr written, out2) \<Rightarrow>
               (case framing of
                  Exact declared \<Rightarrow>
                    if declared \<noteq> written then (Inl (ResponseBodyErr (LengthMismatch declared written)), out2)
                    else responder_write Q [] True out2
                | Chunked \<Rightarrow> responder_write Q last_chunk True out2)))"

text \<open>The first two pieces, fetched before the framing is settled.\<close>

definition fetch_prefix :: "('e + frame) list \<Rightarrow> ('e BodyError + bytes list) \<times> ('e + frame) list" where
  "fetch_prefix body =
     (case next_chunk body of
        (Inl e, body1) \<Rightarrow> (Inl e, body1)
      | (Inr None, body1) \<Rightarrow> (Inr [], body1)
      | (Inr (Some a), body1) \<Rightarrow>
          (case next_chunk body1 of
             (Inl e, body2) \<Rightarrow> (Inl e, body2)
           | (Inr None, body2) \<Rightarrow> (Inr [a], body2)
           | (Inr (Some b), body2) \<Rightarrow> (Inr [a, b], body2)))"

definition send_parts ::
  "('m, 'z) http_scheme \<Rightarrow> (nat \<Rightarrow> bytes option) \<Rightarrow> send_call \<Rightarrow> bytes \<Rightarrow> nat \<Rightarrow> 'm \<Rightarrow> ('e + frame) list \<Rightarrow> nat option \<Rightarrow>
   outbox \<Rightarrow> ('e ResponseError + unit) \<times> outbox" where
  "send_parts H canonical_reason Q method status headers body exact out =
     (case from_http H canonical_reason status headers of
        Inl e \<Rightarrow> (Inl e, out)
      | Inr reply \<Rightarrow>
          (case declared_length H headers of
             Inl e \<Rightarrow> (Inl e, out)
           | Inr declared \<Rightarrow>
               if \<not> may_send_body method status then
                 responder_finish Q
                   (case (if declared \<noteq> None then declared else exact) of
                      Some len \<Rightarrow> if may_declare_length status
                                  then set_header SLOT_CONTENT_LENGTH (dec_digits len) reply else reply
                    | None \<Rightarrow> reply) out
               else if declared \<noteq> None \<and> exact \<noteq> None \<and> declared \<noteq> exact
               then (Inl (ResponseBodyErr (LengthMismatch (the declared) (the exact))), out)
               else
                 (case fetch_prefix body of
                    (Inl e, _) \<Rightarrow> (Inl (ResponseBodyErr e), out)
                  | (Inr prefix, body1) \<Rightarrow>
                      let produced = sum_list (map length prefix) in
                      (case (if exact \<noteq> None then exact else declared) of
                         Some len \<Rightarrow>
                           if len = 0 then
                             (if produced \<noteq> 0 then (Inl (ResponseBodyErr (LengthMismatch 0 produced)), out)
                              else responder_finish Q (set_header SLOT_CONTENT_LENGTH [48] reply) out)
                           else if length prefix < 2 \<and> produced = len then
                             responder_finish Q (case prefix of [] \<Rightarrow> reply | c # _ \<Rightarrow> add_body c reply) out
                           else stream Q (set_header SLOT_CONTENT_LENGTH (dec_digits len) reply) body1 prefix (Exact len) out
                       | None \<Rightarrow>
                           stream Q (set_header SLOT_TRANSFER_ENCODING (lit ''chunked'') reply) body1 prefix Chunked out))))"

definition send_status ::
  "('m, 'z) http_scheme \<Rightarrow> (nat \<Rightarrow> bytes option) \<Rightarrow> send_call \<Rightarrow> nat \<Rightarrow> outbox \<Rightarrow> ('e ResponseError + unit) \<times> outbox" where
  "send_status H canonical_reason Q status out =
     (case from_http H canonical_reason status (hm_new H) of
        Inl e \<Rightarrow> (Inl e, out)
      | Inr reply \<Rightarrow> responder_finish Q (set_header SLOT_CONTENT_LENGTH [48] reply) out)"

section \<open>Streaming with trailers\<close>

text \<open>The frames of a body written raw; \<open>hm_extend\<close> merges a further trailers frame into those collected.\<close>

function drain_frames ::
  "send_call \<Rightarrow> ((header_name \<times> header_value) list \<Rightarrow> (header_name \<times> header_value) list \<Rightarrow> (header_name \<times> header_value) list) \<Rightarrow>
   ('e + frame) list \<Rightarrow> (header_name \<times> header_value) list option \<Rightarrow> outbox \<Rightarrow>
   ('e ResponseError + (header_name \<times> header_value) list option) \<times> outbox" where
  "drain_frames Q hm_extend body trailers out =
     (case next_frame body of
        (Inl e, _) \<Rightarrow> (Inl (ResponseBodyErr e), out)
      | (Inr None, _) \<Rightarrow> (Inr trailers, out)
      | (Inr (Some (DataFrame data)), body1) \<Rightarrow>
          (case responder_write Q data False out of
             (Inl e, out1) \<Rightarrow> (Inl e, out1)
           | (Inr _, out1) \<Rightarrow> drain_frames Q hm_extend body1 trailers out1)
      | (Inr (Some (TrailersFrame t)), body1) \<Rightarrow>
          drain_frames Q hm_extend body1 (Some (case trailers of Some existing \<Rightarrow> hm_extend existing t | None \<Rightarrow> t)) out)"
  by pat_completeness auto
termination
  by (relation "measure (\<lambda>(Q, x, body, t, out). length body)") (auto dest!: sym [of _ "next_frame _"] next_frame_shorter)

declare drain_frames.simps [simp del]

definition send_streaming ::
  "('m, 'z) http_scheme \<Rightarrow> (nat \<Rightarrow> bytes option) \<Rightarrow> send_call \<Rightarrow>
   ((header_name \<times> header_value) list \<Rightarrow> (header_name \<times> header_value) list \<Rightarrow> (header_name \<times> header_value) list) \<Rightarrow>
   bool \<Rightarrow> nat \<Rightarrow> 'm \<Rightarrow> ('e + frame) list \<Rightarrow> outbox \<Rightarrow> ('e ResponseError + unit) \<times> outbox" where
  "send_streaming H canonical_reason Q hm_extend trailers_supported status headers body out =
     (case from_http H canonical_reason status headers of
        Inl e \<Rightarrow> (Inl e, out)
      | Inr reply \<Rightarrow>
          (case queue_send Q SendHead (SentHead reply True) out of
             (Inl e, out1) \<Rightarrow> (Inl e, out1)
           | (Inr _, out1) \<Rightarrow>
               (case drain_frames Q hm_extend body None out1 of
                  (Inl e, out2) \<Rightarrow>
                    (Inl e, snd (responder_write Q [] True out2 :: ('e ResponseError + unit) \<times> outbox))
                | (Inr trailers, out2) \<Rightarrow>
                    if trailers_supported \<and> trailers \<noteq> None \<and> the trailers \<noteq> []
                    then queue_send Q SendTrailerPart (SentTrailers (the trailers)) out2
                    else responder_write Q [] True out2)))"

section \<open>Serving\<close>

text \<open>\<^verbatim>\<open>dispatch\<close>: a failing service is answered with an internal error, and its error is the result.\<close>

definition dispatch ::
  "('m, 'z) http_scheme \<Rightarrow> (nat \<Rightarrow> bytes option) \<Rightarrow> send_call \<Rightarrow> bytes \<Rightarrow>
   'e + nat \<times> 'm \<times> ('e + frame) list \<times> nat option \<Rightarrow> outbox \<Rightarrow> ('e ServeError + unit) \<times> outbox" where
  "dispatch H canonical_reason Q method answer out =
     (case answer of
        Inr (status, headers, body, exact) \<Rightarrow>
          (case send_parts H canonical_reason Q method status headers body exact out of
             (Inl e, out1) \<Rightarrow> (Inl (ServeResponse e), out1)
           | (Inr _, out1) \<Rightarrow> (Inr (), out1))
      | Inl e \<Rightarrow>
          (Inl (ServeService e),
           snd (send_status H canonical_reason Q 500 out :: ('e ResponseError + unit) \<times> outbox)))"

text \<open>\<^verbatim>\<open>accept\<close>: a request that cannot be represented is answered with a bad-request status.\<close>

definition accept ::
  "('m, 'z) http_scheme \<Rightarrow> (bytes \<Rightarrow> bytes option) \<Rightarrow> (bytes \<Rightarrow> 'u option) \<Rightarrow> (nat \<Rightarrow> bytes option) \<Rightarrow> send_call \<Rightarrow>
   ReceiveError + HTTP_REQUEST \<Rightarrow> outbox \<Rightarrow>
   (AcceptError + ('u, 'm) Head \<times> IncomingBody) \<times> outbox" where
  "accept H method_from_bytes uri_try_from canonical_reason Q received out =
     (case received of
        Inl (TooLarge _ attempted_capacity _ _) \<Rightarrow> (Inl (RequestTooLarge attempted_capacity), out)
      | Inl (ReceiveFailed e) \<Rightarrow> (Inl (AcceptReceive e), out)
      | Inr q \<Rightarrow>
          (case to_http H method_from_bytes uri_try_from q of
             Inl e \<Rightarrow> (Inl e, snd (send_status H canonical_reason Q 400 out :: (unit ResponseError + unit) \<times> outbox))
           | Inr head \<Rightarrow> (Inr (head, body_for (has_more_body q) (content_length H (hd_headers head))), out)))"

text \<open>\<^verbatim>\<open>serve\<close> over the outcomes of \<^verbatim>\<open>serve_one\<close>: \<open>None\<close> as long as every one of them succeeded.\<close>

fun serve :: "('e ServeError + unit) list \<Rightarrow> ('e ServeError + unit) option" where
  "serve [] = None"
| "serve (Inr _ # rs) = serve rs"
| "serve (Inl e # rs) = Some (if serve_is_queue_closed e then Inr () else Inl e)"

section \<open>What a response puts on the wire\<close>

fun final_sent :: "sent \<Rightarrow> bool" where
  "final_sent (SentHead r more_data) = (\<not> more_data)"
| "final_sent (SentBody b is_last) = is_last"
| "final_sent (SentTrailers t) = True"

fun sent_bytes :: "sent \<Rightarrow> bytes" where
  "sent_bytes (SentHead r more_data) = concat (slots_iter (rs_chunks r))"
| "sent_bytes (SentBody b is_last) = b"
| "sent_bytes (SentTrailers t) = []"

definition wire_bytes :: "sent list \<Rightarrow> bytes" where
  "wire_bytes xs = concat (map sent_bytes xs)"

lemma wire_bytes_simps [simp]:
  "wire_bytes [] = []" "wire_bytes (x # xs) = sent_bytes x @ wire_bytes xs" "wire_bytes (xs @ ys) = wire_bytes xs @ wire_bytes ys"
  by (simp_all add: wire_bytes_def)

definition open_sends :: "sent list \<Rightarrow> bool" where
  "open_sends xs \<longleftrightarrow> (\<forall>x \<in> set xs. \<not> final_sent x)"

lemma open_sends_simps [simp]:
  "open_sends []" "open_sends (x # xs) \<longleftrightarrow> \<not> final_sent x \<and> open_sends xs" "open_sends (xs @ ys) \<longleftrightarrow> open_sends xs \<and> open_sends ys"
  by (auto simp: open_sends_def)

text \<open>A message ended by its last send, and by no earlier one.\<close>

definition ends_once :: "sent list \<Rightarrow> bool" where
  "ends_once xs \<longleftrightarrow> (\<exists>ys y. xs = ys @ [y] \<and> open_sends ys \<and> final_sent y)"

lemma ends_once_single [simp]: "ends_once [x] = final_sent x"
  by (auto simp: ends_once_def)

lemma ends_once_append: "open_sends xs \<Longrightarrow> ends_once ys \<Longrightarrow> ends_once (xs @ ys)"
  by (auto simp: ends_once_def)

lemma queue_send_log:
  "queue_send Q st x out = (r, out1) \<Longrightarrow>
    r = Inr () \<and> ou_log out1 = ou_log out @ [x] \<or> r \<noteq> Inr () \<and> ou_log out1 = ou_log out"
  by (auto simp: queue_send_def split: sum.splits)

lemma responder_write_log:
  fixes r :: "'e ResponseError + unit"
  shows "responder_write Q b is_last out = (r, out1) \<Longrightarrow>
    \<exists>new. ou_log out1 = ou_log out @ new \<and>
      (if r = Inr () then wire_bytes new = b \<and> (if is_last then ends_once new else open_sends new) else open_sends new)"
proof (induction "length b" arbitrary: b out rule: less_induct)
  case less
  show ?case
  proof (cases "length b > MAX_SEND")
    case False
    then have "queue_send Q SendBodyPart (SentBody b is_last) out = (r, out1)"
      using less.prems by (simp add: responder_write.simps [of Q b])
    from queue_send_log [OF this] show ?thesis
      by (elim disjE conjE) (auto intro: exI [of _ "[SentBody b is_last]"] exI [of _ "[]"])
  next
    case True
    obtain r1 out2 where q: "queue_send Q SendBodyPart (SentBody (take MAX_SEND b) False) out = (r1 :: 'e ResponseError + unit, out2)"
      by fastforce
    show ?thesis
    proof (cases r1)
      case (Inl e)
      with q True less.prems have "r = Inl e" "out1 = out2" by (auto simp: responder_write.simps [of Q b])
      with queue_send_log [OF q] Inl show ?thesis by (auto intro: exI [of _ "[]"])
    next
      case (Inr u)
      with q True less.prems have rec: "responder_write Q (drop MAX_SEND b) is_last out2 = (r, out1)"
        by (simp add: responder_write.simps [of Q b])
      have "length (drop MAX_SEND b) < length b" using True by (simp add: MAX_SEND_def)
      from less.hyps [OF this rec] obtain new where new: "ou_log out1 = ou_log out2 @ new"
        "if r = Inr () then wire_bytes new = drop MAX_SEND b \<and> (if is_last then ends_once new else open_sends new) else open_sends new"
        by blast
      have "ou_log out2 = ou_log out @ [SentBody (take MAX_SEND b) False]" using queue_send_log [OF q] Inr by auto
      with new show ?thesis
        using ends_once_append [of "[SentBody (take MAX_SEND b) False]" new]
        by (intro exI [of _ "SentBody (take MAX_SEND b) False # new"]) (auto split: if_splits)
    qed
  qed
qed

lemma next_chunk_data:
  "next_chunk body = (Inr x, body1) \<Longrightarrow>
    (case x of Some c \<Rightarrow> c \<noteq> [] \<and> body_data body = c @ body_data body1 | None \<Rightarrow> body_data body = [] \<and> body_data body1 = [])"
  by (induction body rule: next_chunk.induct) (auto split: if_splits option.splits)

lemma next_piece_data:
  "next_piece prefix body = (Inr x, prefix1, body1) \<Longrightarrow> (\<forall>p \<in> set prefix. p \<noteq> []) \<Longrightarrow>
    (case x of Some c \<Rightarrow> c \<noteq> [] \<and> concat prefix @ body_data body = c @ concat prefix1 @ body_data body1
     | None \<Rightarrow> concat prefix @ body_data body = []) \<and> (\<forall>p \<in> set prefix1. p \<noteq> [])"
  by (cases prefix) (auto simp: next_piece_def split: prod.splits option.splits dest!: next_chunk_data)

lemma stream_loop_log:
  fixes body :: "('e + frame) list"
  shows "stream_loop Q f (Some piece) prefix body written out = (r, out1) \<Longrightarrow>
    piece \<noteq> [] \<Longrightarrow> (\<forall>p \<in> set prefix. p \<noteq> []) \<Longrightarrow>
    \<exists>new. ou_log out1 = ou_log out @ new \<and> open_sends new \<and>
      (\<forall>w'. r = Inr w' \<longrightarrow> (\<exists>ps. (\<forall>p \<in> set ps. p \<noteq> []) \<and> wire_bytes new = wire_of f ps \<and>
         concat ps = piece @ concat prefix @ body_data body \<and> w' = written + length (concat ps)))"
proof (induction "length prefix + length body" arbitrary: piece prefix body written out rule: less_induct)
  case less
  show ?case
  proof (cases "case f of Exact declared \<Rightarrow> written + length piece > declared | Chunked \<Rightarrow> False")
    case True
    with less.prems(1) show ?thesis
      by (subst (asm) stream_loop.simps) (auto intro: exI [of _ "[]"])
  next
    case False
    obtain r1 out2 where w: "responder_write Q (framed f piece) False out = (r1 :: 'e ResponseError + unit, out2)" by fastforce
    from responder_write_log [OF w] obtain new where new: "ou_log out2 = ou_log out @ new" "open_sends new"
      "r1 = Inr () \<longrightarrow> wire_bytes new = framed f piece" by (auto split: if_splits)
    obtain x prefix1 body1 where n: "next_piece prefix body = (x, prefix1, body1)" by (metis prod_cases3)
    show ?thesis
    proof (cases "isl r1 \<or> isl x")
      case True
      with less.prems(1) w n False have "isl r" "out1 = out2"
        by (subst (asm) stream_loop.simps, auto split: sum.splits option.splits)+
      with new show ?thesis by (intro exI [of _ new]) auto
    next
      case ok: False
      then obtain y where y: "x = Inr y" and r1: "r1 = Inr ()" by (cases x; cases r1) auto
      show ?thesis
      proof (cases y)
        case None
        have "r = Inr (written + length piece)" "out1 = out2"
          using less.prems(1) w n False y r1 None by (subst (asm) stream_loop.simps, simp)+
        moreover have "concat prefix @ body_data body = []" using next_piece_data [OF n [unfolded y] less.prems(3)] None by simp
        ultimately show ?thesis
          using new r1 less.prems(2) by (intro exI [of _ new]) (auto intro!: exI [of _ "[piece]"])
      next
        case (Some c)
        have rec: "stream_loop Q f (Some c) prefix1 body1 (written + length piece) out2 = (r, out1)"
          using less.prems(1) w n False y r1 Some by (subst (asm) stream_loop.simps) simp
        note d = next_piece_data [OF n [unfolded y] less.prems(3), unfolded Some, simplified]
        have lt: "length prefix1 + length body1 < length prefix + length body"
          using next_piece_shorter n y Some by blast
        obtain new2 where new2: "ou_log out1 = ou_log out2 @ new2" "open_sends new2"
          "\<forall>w'. r = Inr w' \<longrightarrow> (\<exists>ps. (\<forall>p \<in> set ps. p \<noteq> []) \<and> wire_bytes new2 = wire_of f ps \<and>
             concat ps = c @ concat prefix1 @ body_data body1 \<and> w' = written + length piece + length (concat ps))"
          using less.hyps [OF lt rec] d by blast
        have "\<exists>ps. (\<forall>p \<in> set ps. p \<noteq> []) \<and> wire_bytes (new @ new2) = wire_of f ps \<and>
            concat ps = piece @ concat prefix @ body_data body \<and> w' = written + length (concat ps)" if "r = Inr w'" for w'
        proof -
          from new2(3) that obtain ps where "(\<forall>p \<in> set ps. p \<noteq> [])" "wire_bytes new2 = wire_of f ps"
            "concat ps = c @ concat prefix1 @ body_data body1" "w' = written + length piece + length (concat ps)" by blast
          with d new(3) r1 less.prems(2) show ?thesis by (intro exI [of _ "piece # ps"]) simp
        qed
        with new new2 show ?thesis by (intro exI [of _ "new @ new2"]) simp
      qed
    qed
  qed
qed

lemma stream_log:
  fixes body :: "('e + frame) list"
  assumes st: "stream Q reply body prefix f out = (r, out1)" and ne: "\<forall>p \<in> set prefix. p \<noteq> []"
    and emp: "prefix = [] \<longrightarrow> body_data body = []" and ch: "slots_iter (rs_chunks reply) = []"
  shows "\<exists>new. ou_log out1 = ou_log out @ new \<and>
    (if r = Inr () then ends_once new \<and>
       (case f of Exact d \<Rightarrow> wire_bytes new = concat prefix @ body_data body \<and> length (wire_bytes new) = d
        | Chunked \<Rightarrow> dechunk (wire_bytes new) = Some (concat prefix @ body_data body))
     else open_sends new)"
proof -
  obtain r1 out2 where q: "queue_send Q SendHead (SentHead reply True) out = (r1 :: 'e ResponseError + unit, out2)" by fastforce
  show ?thesis
  proof (cases r1)
    case (Inl e)
    with q st queue_send_log [OF q] show ?thesis by (auto simp: stream_def intro: exI [of _ "[]"])
  next
    case (Inr u)
    then have h: "ou_log out2 = ou_log out @ [SentHead reply True]" using queue_send_log [OF q] by auto
    obtain r2 out3 where l: "stream_loop Q f (case prefix of [] \<Rightarrow> None | p # _ \<Rightarrow> Some p) (tl prefix) body 0 out2 =
        (r2 :: 'e ResponseError + nat, out3)" by fastforce
    have "\<exists>new. ou_log out3 = ou_log out2 @ new \<and> open_sends new \<and>
        (\<forall>w. r2 = Inr w \<longrightarrow> (\<exists>ps. (\<forall>p \<in> set ps. p \<noteq> []) \<and> wire_bytes new = wire_of f ps \<and>
           concat ps = concat prefix @ body_data body \<and> w = length (concat ps)))"
    proof (cases prefix)
      case Nil
      then have "r2 = Inr 0" "out3 = out2" using l by (simp_all add: stream_loop.simps)
      with Nil emp show ?thesis by (intro exI [of _ "[]"]) (auto intro!: exI [of _ "[]"])
    next
      case (Cons p ps)
      with l have l': "stream_loop Q f (Some p) ps body 0 out2 = (r2, out3)" by simp
      show ?thesis using stream_loop_log [OF l'] ne Cons by auto
    qed
    then obtain new where new: "ou_log out3 = ou_log out2 @ new" "open_sends new"
        "\<And>w. r2 = Inr w \<Longrightarrow> \<exists>ps. (\<forall>p \<in> set ps. p \<noteq> []) \<and> wire_bytes new = wire_of f ps \<and>
           concat ps = concat prefix @ body_data body \<and> w = length (concat ps)" by blast
    let ?closing = "case f of Exact _ \<Rightarrow> [] | Chunked \<Rightarrow> last_chunk"
    show ?thesis
    proof (cases "\<exists>w. r2 = Inr w \<and> (\<forall>d. f = Exact d \<longrightarrow> d = w)")
      case False
      then have "r \<noteq> Inr ()" "out1 = out3"
        using st q l Inr by (auto simp: stream_def split: sum.splits Framing.splits)
      with h new(1,2) show ?thesis by (intro exI [of _ "SentHead reply True # new"]) simp
    next
      case True
      then obtain w where w: "r2 = Inr w" "\<forall>d. f = Exact d \<longrightarrow> d = w" by blast
      then have fin: "responder_write Q ?closing True out3 = (r, out1)"
        using st q l Inr by (auto simp: stream_def split: Framing.splits)
      obtain ps where ps: "\<forall>p \<in> set ps. p \<noteq> []" "wire_bytes new = wire_of f ps"
        "concat ps = concat prefix @ body_data body" "w = length (concat ps)" using new(3) [OF w(1)] by blast
      from responder_write_log [OF fin] obtain new2 where new2: "ou_log out1 = ou_log out3 @ new2"
        "if r = Inr () then wire_bytes new2 = ?closing \<and> ends_once new2 else open_sends new2" by auto
      let ?all = "SentHead reply True # new @ new2"
      have "r = Inr () \<Longrightarrow> ends_once ?all"
        using ends_once_append [of "SentHead reply True # new" new2] new(2) new2(2) by simp
      moreover have "r = Inr () \<Longrightarrow> case f of Exact d \<Rightarrow> wire_bytes ?all = concat prefix @ body_data body \<and> length (wire_bytes ?all) = d
          | Chunked \<Rightarrow> dechunk (wire_bytes ?all) = Some (concat prefix @ body_data body)"
        using new2(2) ps w(2) ch by (cases f) (simp_all add: dechunk_wire)
      moreover have "ou_log out1 = ou_log out @ ?all" using h new(1) new2(1) by simp
      ultimately show ?thesis using new(2) new2(2) by (intro exI [of _ ?all]) auto
    qed
  qed
qed

lemma fetch_prefix_data:
  "fetch_prefix body = (Inr prefix, body1) \<Longrightarrow>
    (\<forall>p \<in> set prefix. p \<noteq> []) \<and> body_data body = concat prefix @ body_data body1 \<and>
    (length prefix < 2 \<longrightarrow> body_data body1 = [])"
  by (auto simp: fetch_prefix_def split: prod.splits sum.splits option.splits dest!: next_chunk_data)

lemma responder_finish_log:
  assumes "responder_finish Q reply out = (r, out1)"
  shows "\<exists>new. ou_log out1 = ou_log out @ new \<and>
    (if r = Inr () then ends_once new \<and> wire_bytes new = concat (slots_iter (rs_chunks reply)) else open_sends new)"
  using queue_send_log [OF assms [unfolded responder_finish_def]]
  by (elim disjE conjE) (auto intro: exI [of _ "[SentHead reply False]"] exI [of _ "[]"])

lemma reply_chunks:
  assumes "from_http H canonical_reason status headers = (Inr reply :: 'e ResponseError + Response)"
  shows "slots_iter (rs_chunks reply) = []" "slots_iter (rs_chunks (set_header i v reply)) = []"
    "slots_iter (rs_chunks (add_body c reply)) = [c]"
proof -
  have ok: "response_ok reply" and ch: "slots_iter (rs_chunks reply) = []" using from_http_ok [OF assms] by auto
  show "slots_iter (rs_chunks reply) = []" by (rule ch)
  show "slots_iter (rs_chunks (set_header i v reply)) = []" using ch by (simp add: set_header_def)
  show "slots_iter (rs_chunks (add_body c reply)) = [c]"
    using ok ch chunk_slots.push_items [of "rs_chunks reply" c] by (simp add: add_body_def response_ok_def INLINE_CHUNKS_def)
qed

lemma send_exact_log:
  fixes body :: "('e + frame) list"
  assumes sp: "send_parts H canonical_reason Q method status headers body exact out = (r, out1)"
    and reply: "from_http H canonical_reason status headers = (Inr reply :: 'e ResponseError + Response)"
    and decl: "declared_length H headers = (Inr declared :: 'e ResponseError + nat option)"
    and body: "may_send_body method status" and agree: "\<not> (declared \<noteq> None \<and> exact \<noteq> None \<and> declared \<noteq> exact)"
    and fp: "fetch_prefix body = (Inr prefix, body1)" and len: "(if exact \<noteq> None then exact else declared) = Some n"
  shows "\<exists>new. ou_log out1 = ou_log out @ new \<and>
    (if r = Inr () then ends_once new \<and> wire_bytes new = body_data body \<and> length (wire_bytes new) = n
     else open_sends new)"
proof -
  let ?sum = "sum_list (map length prefix)"
  note pd = fetch_prefix_data [OF fp]
  have sum: "?sum = length (concat prefix)" by (simp add: length_concat)
  consider (empty) "n = 0" "?sum = 0" | (refused) "n = 0" "?sum \<noteq> 0" | (one) "n \<noteq> 0" "length prefix < 2 \<and> ?sum = n"
    | (many) "n \<noteq> 0" "\<not> (length prefix < 2 \<and> ?sum = n)" by blast
  then show ?thesis
  proof cases
    case empty
    then have p: "prefix = []" using pd sum by (cases prefix) auto
    have "responder_finish Q (set_header SLOT_CONTENT_LENGTH [48] reply) out = (r, out1)"
      using sp reply decl body agree fp len empty p by (auto simp: send_parts_def Let_def split: if_splits)
    from responder_finish_log [OF this] pd p empty reply_chunks [OF reply] show ?thesis by auto
  next
    case refused
    have "r \<noteq> Inr ()" "out1 = out"
      using sp reply decl body agree fp len refused by (auto simp: send_parts_def Let_def split: if_splits)
    then show ?thesis by (auto intro: exI [of _ "[]"])
  next
    case one
    then obtain c where p: "prefix = [c]" by (cases prefix) auto
    have "responder_finish Q (add_body c reply) out = (r, out1)"
      using sp reply decl body agree fp len one p by (auto simp: send_parts_def Let_def split: if_splits)
    from responder_finish_log [OF this] pd p one sum reply_chunks [OF reply] show ?thesis by auto
  next
    case many
    have "stream Q (set_header SLOT_CONTENT_LENGTH (dec_digits n) reply) body1 prefix (Exact n) out = (r, out1)"
      using sp reply decl body agree fp len many by (auto simp: send_parts_def Let_def split: if_splits)
    from stream_log [OF this _ _ reply_chunks(2) [OF reply]] pd show ?thesis by (auto split: if_splits)
  qed
qed

section \<open>Properties\<close>

text \<open>
  Property C2. A response is complete exactly when it is reported as sent, whatever the queue accepts or
  refuses: on success the accepted sends end with the only one that carries no more data, and their bytes
  are the data of the body, of exactly the length that was declared or hinted, or, without a length, a
  chunked message that decodes to it; a response that may have no body carries none. On every error, a
  length that does not match among them, no terminating send was accepted, so the peer sees a broken
  response and never a shorter one that looks whole.
\<close>

theorem server_response_complete:
  fixes body :: "('e + frame) list"
  assumes sp: "send_parts H canonical_reason Q method status headers body exact out = (r, out1)"
  shows "\<exists>new. ou_log out1 = ou_log out @ new \<and>
    (if r = Inr () then ends_once new \<and>
       (if \<not> may_send_body method status then wire_bytes new = []
        else case declared_length H headers :: 'e ResponseError + nat option of
            Inl _ \<Rightarrow> False
          | Inr declared \<Rightarrow>
              (case (if exact \<noteq> None then exact else declared) of
                 Some n \<Rightarrow> wire_bytes new = body_data body \<and> length (wire_bytes new) = n
               | None \<Rightarrow> dechunk (wire_bytes new) = Some (body_data body)))
     else open_sends new)"
proof (cases "from_http H canonical_reason status headers :: 'e ResponseError + Response")
  case (Inl e)
  with sp show ?thesis by (auto simp: send_parts_def intro: exI [of _ "[]"])
next
  case reply: (Inr reply)
  show ?thesis
  proof (cases "declared_length H headers :: 'e ResponseError + nat option")
    case (Inl e)
    with sp reply show ?thesis by (auto simp: send_parts_def intro: exI [of _ "[]"])
  next
    case decl: (Inr declared)
    show ?thesis
    proof (cases "may_send_body method status")
      case False
      then obtain reply1 where f: "responder_finish Q reply1 out = (r, out1)" "slots_iter (rs_chunks reply1) = []"
        using sp reply decl reply_chunks [OF reply]
        by (auto simp: send_parts_def split: option.splits if_splits)
      with responder_finish_log [OF f(1)] False show ?thesis by auto
    next
      case body: True
      show ?thesis
      proof (cases "declared \<noteq> None \<and> exact \<noteq> None \<and> declared \<noteq> exact \<or> isl (fst (fetch_prefix body))")
        case True
        then have "r \<noteq> Inr ()" "out1 = out"
          using sp reply decl body by (auto simp: send_parts_def split: if_splits sum.splits prod.splits)
        then show ?thesis by (auto intro: exI [of _ "[]"])
      next
        case False
        then obtain prefix body1 where fp: "fetch_prefix body = (Inr prefix, body1)"
          by (cases "fetch_prefix body"; cases "fst (fetch_prefix body)") auto
        show ?thesis
        proof (cases "if exact \<noteq> None then exact else declared")
          case None
          with sp reply decl body False fp have
            "stream Q (set_header SLOT_TRANSFER_ENCODING (lit ''chunked'') reply) body1 prefix Chunked out = (r, out1)"
            by (auto simp: send_parts_def Let_def split: if_splits)
          from stream_log [OF this _ _ reply_chunks(2) [OF reply]] fetch_prefix_data [OF fp] show ?thesis using None decl body by (auto split: if_splits)
        next
          case (Some n)
          have agree: "\<not> (declared \<noteq> None \<and> exact \<noteq> None \<and> declared \<noteq> exact)" using False by blast
          from send_exact_log [OF sp reply decl body agree fp Some] Some decl body show ?thesis by (auto split: if_splits)
        qed
      qed
    qed
  qed
qed

text \<open>A queue that accepts everything, and a body of two frames without a known length.\<close>

theorem server_response_complete_witness:
  "\<exists>out1 new. send_parts list_http (\<lambda>_. None) (\<lambda>_ _. Inr 0) (lit ''GET'') 200 []
      [Inr (DataFrame [1]), Inr (DataFrame [2]) :: unit + frame] None \<lparr>ou_calls = 0, ou_log = []\<rparr> = (Inr (), out1) \<and>
    ou_log out1 = new \<and> ends_once new \<and> dechunk (wire_bytes new) = Some [1, 2]"
proof -
  let ?body = "[Inr (DataFrame [1]), Inr (DataFrame [2]) :: unit + frame]"
  have w: "responder_write (\<lambda>_ _. Inr 0) b l out = (queue_send (\<lambda>_ _. Inr 0) SendBodyPart (SentBody b l) out :: (unit ResponseError + unit) \<times> outbox)"
    if "length b \<le> MAX_SEND" for b l out
    using that by (subst responder_write.simps) simp
  have n: "next_piece [] ([] :: (unit + frame) list) = (Inr None, [], [])"
    "next_piece [[2]] ([] :: (unit + frame) list) = (Inr (Some [2]), [], [])" by (simp_all add: next_piece_def)
  have d: "declared_length list_http [] = (Inr None :: unit ResponseError + nat option)"
    by (simp add: declared_length_def hm_get_all_def list_http_def)
  have m: "may_send_body (lit ''GET'') 200"
    by (simp add: may_send_body_def METHOD_HEAD_def lit_def is_informational_def)
  obtain out1 where s: "send_parts list_http (\<lambda>_. None) (\<lambda>_ _. Inr 0) (lit ''GET'') 200 [] ?body None
      \<lparr>ou_calls = 0, ou_log = []\<rparr> = (Inr (), out1)"
    using m d n w
    by (simp add: send_parts_def from_http_def list_http_def fetch_prefix_def stream_def
        stream_loop.simps queue_send_def framed_def chunk_of_def crlf_def hex_digits.simps last_chunk_def MAX_SEND_def)
  from server_response_complete [OF s] m d s show ?thesis by auto
qed

end
