(* ===== verification/Resource_Log.thy ===== *)
theory Resource_Log
  imports Prelude "HOL-Library.Multiset"
begin

text \<open>
  Operating-system handles with shared owners. A handle is opened and closed by calls the program makes;
  the log holds the calls in order. \<^verbatim>\<open>Handle\<close> of \<^verbatim>\<open>iocp/handle.rs\<close>, \<^verbatim>\<open>Socket\<close> of \<^verbatim>\<open>net/socket.rs\<close> and the
  session handle of \<^verbatim>\<open>winhttp/mod.rs\<close> are an \<^verbatim>\<open>Arc\<close> around an owner that closes it when the last clone goes;
  the world keeps the strong count of each.

  \<open>world_ok\<close> is what every operation of the components above keeps: no handle was closed twice or opened while
  open, and the open handles are exactly those with an owner left. The locale \<open>handle_log\<close> proves it once, for
  any vocabulary of events.
\<close>

section \<open>Sequences of fallible steps\<close>

text \<open>The operator \<^verbatim>\<open>?\<close>: an error leaves through \<open>fail\<close>, which drops what the function owns by then.\<close>

definition try_or ::
  "('e + 'a) \<times> 'w \<Rightarrow> ('e \<Rightarrow> 'w \<Rightarrow> ('f + 'b) \<times> 'w) \<Rightarrow> ('a \<Rightarrow> 'w \<Rightarrow> ('f + 'b) \<times> 'w) \<Rightarrow> ('f + 'b) \<times> 'w" where
  "try_or x fail k = (case x of (Inl e, w) \<Rightarrow> fail e w | (Inr a, w) \<Rightarrow> k a w)"

lemma try_or_simps [simp]:
  "try_or (Inl e, w) fail k = fail e w"
  "try_or (Inr a, w) fail k = k a w"
  by (simp_all add: try_or_def)

lemma try_or_Inr:
  assumes "try_or x fail k = (Inr b, w')" "\<And>e w. isl (fst (fail e w))"
  obtains a w where "x = (Inr a, w)" "k a w = (Inr b, w')"
proof (cases x)
  case (Pair r v)
  show thesis
  proof (cases r)
    case (Inl e)
    with Pair assms(1) assms(2) [of e v] show thesis by simp
  next
    case (Inr a)
    with Pair assms(1) that [of a v] show thesis by simp
  qed
qed

section \<open>Objects a program holds\<close>

text \<open>Dropping the \<open>i\<close>-th of them.\<close>

definition remove_at :: "nat \<Rightarrow> 'a list \<Rightarrow> 'a list" where
  "remove_at i xs = take i xs @ drop (Suc i) xs"

lemma mset_remove_at: "i < length xs \<Longrightarrow> mset xs = add_mset (xs ! i) (mset (remove_at i xs))"
  unfolding remove_at_def by (subst id_take_nth_drop [of i xs]) simp_all

lemma set_remove_at: "set (remove_at i xs) \<subseteq> set xs"
  unfolding remove_at_def by (auto dest: in_set_takeD in_set_dropD)

section \<open>The handles a log leaves open\<close>

definition handle_step :: "('ev \<Rightarrow> nat option) \<Rightarrow> ('ev \<Rightarrow> nat option) \<Rightarrow> 'ev \<Rightarrow> nat set option \<Rightarrow> nat set option" where
  "handle_step opens closes e S =
     (case S of
        None \<Rightarrow> None
      | Some H \<Rightarrow>
          (case opens e of
             Some h \<Rightarrow> if h \<in> H then None else Some (insert h H)
           | None \<Rightarrow>
               (case closes e of
                  Some h \<Rightarrow> if h \<in> H then Some (H - {h}) else None
                | None \<Rightarrow> Some H)))"

text \<open>\<open>None\<close>: some handle was closed while not open, or opened while open.\<close>

definition open_after :: "('ev \<Rightarrow> nat option) \<Rightarrow> ('ev \<Rightarrow> nat option) \<Rightarrow> 'ev list \<Rightarrow> nat set option" where
  "open_after opens closes log = fold (handle_step opens closes) log (Some {})"

lemma open_after_Nil [simp]: "open_after opens closes [] = Some {}"
  by (simp add: open_after_def)

lemma open_after_snoc: "open_after opens closes (log @ [e]) = handle_step opens closes e (open_after opens closes log)"
  by (simp add: open_after_def)

lemma open_after_opened:
  "open_after opens closes log = Some H \<Longrightarrow> h \<in> H \<Longrightarrow> \<exists>e \<in> set log. opens e = Some h"
proof (induction log arbitrary: H rule: rev_induct)
  case (snoc e log)
  from snoc.prems(1) obtain H0 where H0: "open_after opens closes log = Some H0"
    by (auto simp: open_after_snoc handle_step_def split: option.splits)
  with snoc.prems have "h \<in> H0 \<or> opens e = Some h"
    by (auto simp: open_after_snoc handle_step_def split: option.splits if_splits)
  with snoc.IH [OF H0] show ?case by auto
qed simp

text \<open>A call that names a handle comes while it is open.\<close>

definition used_open ::
  "('ev \<Rightarrow> nat option) \<Rightarrow> ('ev \<Rightarrow> nat option) \<Rightarrow> ('ev \<Rightarrow> nat option) \<Rightarrow> 'ev list \<Rightarrow> bool" where
  "used_open opens closes uses log \<longleftrightarrow>
     (\<forall>n < length log. case uses (log ! n) of
        None \<Rightarrow> True
      | Some h \<Rightarrow> (case open_after opens closes (take n log) of None \<Rightarrow> False | Some H \<Rightarrow> h \<in> H))"

lemma used_open_Nil [simp]: "used_open opens closes uses []"
  by (simp add: used_open_def)

lemma used_open_snoc:
  "used_open opens closes uses (log @ [e]) \<longleftrightarrow>
     used_open opens closes uses log \<and>
     (case uses e of None \<Rightarrow> True | Some h \<Rightarrow> (case open_after opens closes log of None \<Rightarrow> False | Some H \<Rightarrow> h \<in> H))"
proof -
  let ?ok = "\<lambda>e log. case uses e of
    None \<Rightarrow> True | Some h \<Rightarrow> (case open_after opens closes log of None \<Rightarrow> False | Some H \<Rightarrow> h \<in> H)"
  have "?ok ((log @ [e]) ! n) (take n (log @ [e])) = ?ok (log ! n) (take n log)" if "n < length log" for n
  proof -
    from that have "take n (log @ [e]) = take n log" "(log @ [e]) ! n = log ! n" by (simp_all add: nth_append)
    then show ?thesis by (simp only:)
  qed
  moreover have "?ok ((log @ [e]) ! length log) (take (length log) (log @ [e])) = ?ok e log"
    by (simp only: nth_append_length) (simp split: option.splits)
  ultimately show ?thesis unfolding used_open_def length_append_singleton All_less_Suc by blast
qed

section \<open>Owners\<close>

record 'ev world =
  w_log :: "'ev list"
  w_refs :: "nat \<Rightarrow> nat"

definition emit :: "'ev \<Rightarrow> ('ev, 'z) world_scheme \<Rightarrow> ('ev, 'z) world_scheme" where
  "emit e w = w\<lparr>w_log := w_log w @ [e]\<rparr>"

definition handle_from_raw :: "nat \<Rightarrow> ('ev, 'z) world_scheme \<Rightarrow> ('ev, 'z) world_scheme" where
  "handle_from_raw h w = w\<lparr>w_refs := (w_refs w)(h := 1)\<rparr>"

definition handle_clone :: "nat \<Rightarrow> ('ev, 'z) world_scheme \<Rightarrow> ('ev, 'z) world_scheme" where
  "handle_clone h w = w\<lparr>w_refs := (w_refs w)(h := w_refs w h + 1)\<rparr>"

text \<open>Dropping an owner; the last one closes the handle, unless it is an invalid value of the platform.\<close>

definition handle_drop :: "(nat \<Rightarrow> bool) \<Rightarrow> (nat \<Rightarrow> 'ev) \<Rightarrow> nat \<Rightarrow> ('ev, 'z) world_scheme \<Rightarrow> ('ev, 'z) world_scheme" where
  "handle_drop invalid close h w =
     (let w1 = w\<lparr>w_refs := (w_refs w)(h := w_refs w h - 1)\<rparr>
      in if w_refs w h \<le> 1 \<and> \<not> invalid h then emit (close h) w1 else w1)"

definition world_ok :: "('ev \<Rightarrow> nat option) \<Rightarrow> ('ev \<Rightarrow> nat option) \<Rightarrow> ('ev, 'z) world_scheme \<Rightarrow> bool" where
  "world_ok opens closes w \<longleftrightarrow> open_after opens closes (w_log w) = Some {h. 0 < w_refs w h}"

definition world_safe ::
  "('ev \<Rightarrow> nat option) \<Rightarrow> ('ev \<Rightarrow> nat option) \<Rightarrow> ('ev \<Rightarrow> nat option) \<Rightarrow> ('ev, 'z) world_scheme \<Rightarrow> bool" where
  "world_safe opens closes uses w \<longleftrightarrow> world_ok opens closes w \<and> used_open opens closes uses (w_log w)"

lemma refs_simps [simp]:
  "w_refs (emit e w) = w_refs w"
  "w_refs (handle_from_raw h w) = (w_refs w)(h := 1)"
  "w_refs (handle_clone h w) = (w_refs w)(h := w_refs w h + 1)"
  "w_refs (handle_drop i close h w) = (w_refs w)(h := w_refs w h - 1)"
  by (simp_all add: emit_def handle_from_raw_def handle_clone_def handle_drop_def Let_def)

lemma log_simps [simp]:
  "w_log (emit e w) = w_log w @ [e]"
  "w_log (handle_from_raw h w) = w_log w"
  "w_log (handle_clone h w) = w_log w"
  by (simp_all add: emit_def handle_from_raw_def handle_clone_def)

lemma log_drop:
  "w_log (handle_drop i close h w) = w_log w @ (if w_refs w h \<le> 1 \<and> \<not> i h then [close h] else [])"
  by (simp add: handle_drop_def Let_def emit_def)

text \<open>
  A fallible step accounts for the handles: on an error the owners are \<open>f\<close>, on success with \<open>a\<close> they are related
  to it by \<open>g\<close>.
\<close>

definition accounts ::
  "('ev \<Rightarrow> nat option) \<Rightarrow> ('ev \<Rightarrow> nat option) \<Rightarrow> (nat \<Rightarrow> nat) \<Rightarrow> ('e + 'a) \<times> ('ev, 'z) world_scheme \<Rightarrow>
   ('a \<Rightarrow> (nat \<Rightarrow> nat) \<Rightarrow> bool) \<Rightarrow> bool" where
  "accounts opens closes f x g \<longleftrightarrow>
     world_ok opens closes (snd x) \<and> (case fst x of Inl _ \<Rightarrow> w_refs (snd x) = f | Inr a \<Rightarrow> g a (w_refs (snd x)))"

lemma accounts_try_or:
  assumes "accounts opens closes f x g"
    and "\<And>e w. world_ok opens closes w \<Longrightarrow> w_refs w = f \<Longrightarrow> accounts opens closes f' (fail e w) g'"
    and "\<And>a w. world_ok opens closes w \<Longrightarrow> g a (w_refs w) \<Longrightarrow> accounts opens closes f' (k a w) g'"
  shows "accounts opens closes f' (try_or x fail k) g'"
  using assms by (cases x; cases "fst x") (auto simp: accounts_def try_or_def)

lemma accounts_Inl [simp]: "accounts opens closes f (Inl e, w) g \<longleftrightarrow> world_ok opens closes w \<and> w_refs w = f"
  by (simp add: accounts_def)

lemma accounts_Inr [simp]: "accounts opens closes f (Inr a, w) g \<longleftrightarrow> world_ok opens closes w \<and> g a (w_refs w)"
  by (simp add: accounts_def)

lemma accounts_mono:
  "accounts opens closes f x g \<Longrightarrow> (\<And>a r. g a r \<Longrightarrow> g' a r) \<Longrightarrow> accounts opens closes f x g'"
  by (auto simp: accounts_def split: sum.splits)

section \<open>The contract\<close>

text \<open>A vocabulary of events: which of them opens a handle, which closes one, and the close the owner makes.\<close>

locale handle_log =
  fixes opens closes :: "'ev \<Rightarrow> nat option"
    and close :: "nat \<Rightarrow> 'ev"
    and invalid :: "nat \<Rightarrow> bool"
  assumes close_opens: "opens (close h) = None"
    and close_closes: "closes (close h) = Some h"
begin

lemma emit_ok: "world_ok opens closes w \<Longrightarrow> opens e = None \<Longrightarrow> closes e = None \<Longrightarrow> world_ok opens closes (emit e w)"
  by (simp add: world_ok_def open_after_snoc handle_step_def)

lemma opened_ok:
  assumes "world_ok opens closes w" "opens e = Some h" "w_refs w h = 0"
  shows "world_ok opens closes (handle_from_raw h (emit e w))"
proof -
  have "insert h {h. 0 < w_refs w h} = {a. 0 < ((w_refs w)(h := 1)) a}" by auto
  with assms show ?thesis by (simp add: world_ok_def open_after_snoc handle_step_def)
qed

lemma clone_ok:
  assumes "world_ok opens closes w" "0 < w_refs w h"
  shows "world_ok opens closes (handle_clone h w)"
proof -
  have "{a. 0 < w_refs w a} = {a. 0 < ((w_refs w)(h := w_refs w h + 1)) a}" using assms(2) by auto
  with assms show ?thesis by (simp add: world_ok_def)
qed

lemma drop_ok:
  assumes "world_ok opens closes w" "0 < w_refs w h" "\<not> invalid h"
  shows "world_ok opens closes (handle_drop invalid close h w)"
proof -
  have "{a. 0 < ((w_refs w)(h := w_refs w h - 1)) a} = (if w_refs w h \<le> 1 then {a. 0 < w_refs w a} - {h} else {a. 0 < w_refs w a})"
    using assms(2) by auto
  with assms show ?thesis
    by (simp add: world_ok_def log_drop open_after_snoc handle_step_def close_opens close_closes)
qed

text \<open>Opening and closing are undone by each other: the count of every other handle is untouched.\<close>

lemma open_then_drop:
  assumes "world_ok opens closes w" "opens e = Some h" "w_refs w h = 0" "\<not> invalid h"
  shows "world_ok opens closes (handle_drop invalid close h (handle_from_raw h (emit e w)))"
    "w_refs (handle_drop invalid close h (handle_from_raw h (emit e w))) = w_refs w"
  using opened_ok [OF assms(1-3)] drop_ok [of "handle_from_raw h (emit e w)" h] assms(3,4) by auto

lemma live_is_owned:
  "world_ok opens closes w \<Longrightarrow> open_after opens closes (w_log w) = Some H \<Longrightarrow> h \<in> H \<longleftrightarrow> 0 < w_refs w h"
  by (auto simp: world_ok_def)

end

text \<open>
  Where events also use handles: the close is not a use, and the world is safe when in addition every use found
  its handle open. An object or an operation that uses a handle owns it, so that is what each step has to show.
\<close>

locale handle_use_log = handle_log opens closes close invalid
  for opens closes :: "'ev \<Rightarrow> nat option" and close :: "nat \<Rightarrow> 'ev" and invalid :: "nat \<Rightarrow> bool" +
  fixes uses :: "'ev \<Rightarrow> nat option"
  assumes close_uses: "uses (close h) = None"
    and open_uses: "opens e = Some h \<Longrightarrow> uses e = None"
begin

lemma use_safe:
  assumes "world_safe opens closes uses w" "opens e = None" "closes e = None" "\<And>h. uses e = Some h \<Longrightarrow> 0 < w_refs w h"
  shows "world_safe opens closes uses (emit e w)"
  using assms emit_ok [of w e] by (auto simp: world_safe_def used_open_snoc world_ok_def split: option.splits)

lemma opened_safe:
  assumes "world_safe opens closes uses w" "opens e = Some h" "w_refs w h = 0"
  shows "world_safe opens closes uses (handle_from_raw h (emit e w))"
  using assms opened_ok [of w e h] open_uses [of e h] by (simp add: world_safe_def used_open_snoc)

lemma clone_safe:
  "world_safe opens closes uses w \<Longrightarrow> 0 < w_refs w h \<Longrightarrow> world_safe opens closes uses (handle_clone h w)"
  by (simp add: world_safe_def clone_ok)

lemma drop_safe:
  "world_safe opens closes uses w \<Longrightarrow> 0 < w_refs w h \<Longrightarrow> \<not> invalid h \<Longrightarrow>
   world_safe opens closes uses (handle_drop invalid close h w)"
  by (auto simp: world_safe_def drop_ok log_drop used_open_snoc close_uses)

lemma open_then_drop_safe:
  assumes "world_safe opens closes uses w" "opens e = Some h" "w_refs w h = 0" "\<not> invalid h"
  shows "world_safe opens closes uses (handle_drop invalid close h (handle_from_raw h (emit e w)))"
  using opened_safe [OF assms(1-3)] drop_safe [of "handle_from_raw h (emit e w)" h] assms(4) by simp

text \<open>The world with its owners, a multiset: one rule for each of the four operations.\<close>

definition owns :: "('ev, 'z) world_scheme \<Rightarrow> nat multiset \<Rightarrow> bool" where
  "owns w M \<longleftrightarrow> world_safe opens closes uses w \<and> w_refs w = count M \<and> (\<forall>h. h \<in># M \<longrightarrow> \<not> invalid h)"

lemma owns_open:
  assumes "owns w M" "opens e = Some h" "h \<notin># M" "\<not> invalid h"
  shows "owns (handle_from_raw h (emit e w)) (add_mset h M)"
  using assms opened_safe [of w e h] by (auto simp: owns_def fun_eq_iff count_eq_zero_iff)

lemma owns_use:
  assumes "owns w M" "opens e = None" "closes e = None" "\<And>h. uses e = Some h \<Longrightarrow> h \<in># M"
  shows "owns (emit e w) M"
  using assms use_safe [of w e] by (auto simp: owns_def)

lemma owns_clone: "owns w M \<Longrightarrow> h \<in># M \<Longrightarrow> owns (handle_clone h w) (add_mset h M)"
  using clone_safe [of w h] by (auto simp: owns_def fun_eq_iff)

lemma owns_drop: "owns w (add_mset h M) \<Longrightarrow> owns (handle_drop invalid close h w) M"
  using drop_safe [of w h] by (auto simp: owns_def fun_eq_iff)

text \<open>A fallible step with the owners it leaves: \<open>M\<close> on an error, and \<open>f a\<close> more when it returns \<open>a\<close>.\<close>

definition grants :: "nat multiset \<Rightarrow> ('e + 'a) \<times> ('ev, 'z) world_scheme \<Rightarrow> ('a \<Rightarrow> nat multiset) \<Rightarrow> bool" where
  "grants M x f \<longleftrightarrow> (case fst x of Inl _ \<Rightarrow> owns (snd x) M | Inr a \<Rightarrow> owns (snd x) (f a + M))"

lemma grants_simps [simp]:
  "grants M (Inl e, w) f \<longleftrightarrow> owns w M"
  "grants M (Inr a, w) f \<longleftrightarrow> owns w (f a + M)"
  by (simp_all add: grants_def)

lemma grants_try_or:
  assumes "grants M x f"
    and "\<And>e w. owns w M \<Longrightarrow> grants N (fail e w) g"
    and "\<And>a w. owns w (f a + M) \<Longrightarrow> grants N (k a w) g"
  shows "grants N (try_or x fail k) g"
  using assms by (cases x; cases "fst x") (auto simp: grants_def try_or_def)

lemma owns_opened: "owns w M \<Longrightarrow> open_after opens closes (w_log w) = Some (set_mset M) \<and> used_open opens closes uses (w_log w)"
  by (simp add: owns_def world_safe_def world_ok_def)

end

end
