(* ===== verification/Net_Socket.thy ===== *)
theory Net_Socket
  imports Resource_Log Stream_Ops Net_Addr "HOL-Library.Multiset"
begin

text \<open>
  Sockets, listeners and streams: \<^verbatim>\<open>net/init.rs\<close>, \<^verbatim>\<open>net/ext.rs\<close>, \<^verbatim>\<open>net/socket.rs\<close>, \<^verbatim>\<open>net/ops/accept.rs\<close>,
  \<^verbatim>\<open>net/ops/connect.rs\<close>, \<^verbatim>\<open>net/listener.rs\<close>, \<^verbatim>\<open>net/stream.rs\<close>, \<^verbatim>\<open>net/unix_listener.rs\<close> and \<^verbatim>\<open>net/unix_stream.rs\<close>.

  Every Winsock call is an event of the log. What the platform answers is an argument, \<open>net_api\<close>, each answer a
  function of the log so far, so that nothing is assumed of it beyond what a theorem names. The two process-wide
  statics (\<^verbatim>\<open>WSAStartup\<close> has run, the extension functions are known) are fields of the world.
\<close>

section \<open>The platform\<close>

datatype sock_ev =
    Opened nat u16 nat | Closed nat | Startup | Bound nat SockAddrBytes | Listening nat int
  | OptionSet nat nat nat "nat option" | Shut nat nat | CancelledAll nat | Registered nat | Unregistered nat
  | NameRead nat bool | ExtensionRead nat nat | AcceptStarted nat nat | ConnectStarted nat SockAddrBytes
  | AddressesRead nat | PathRemoved "u8 list"

record net_world = "sock_ev world" +
  nw_status :: "u32 option"
  nw_ext :: bool

text \<open>
  \<open>na_call\<close> answers the calls that return zero or leave a thread error behind; \<open>na_start\<close> the two that start an
  operation, with the result its completion will deliver; \<open>na_ext\<close> whether the function pointer asked for is not
  null; \<open>na_remove\<close> is \<^verbatim>\<open>remove_file\<close>, with whether its error is \<^verbatim>\<open>NotFound\<close>.
\<close>

record net_api =
  na_startup :: "sock_ev list \<Rightarrow> u32"
  na_socket :: "sock_ev list \<Rightarrow> u16 \<Rightarrow> nat \<Rightarrow> hresult + nat"
  na_call :: "sock_ev list \<Rightarrow> sock_ev \<Rightarrow> hresult option"
  na_name :: "sock_ev list \<Rightarrow> nat \<Rightarrow> bool \<Rightarrow> hresult + SockAddrBytes"
  na_ext :: "sock_ev list \<Rightarrow> nat \<Rightarrow> nat \<Rightarrow> hresult + bool"
  na_register :: "sock_ev list \<Rightarrow> nat \<Rightarrow> RegistrationError + unit"
  na_start :: "sock_ev list \<Rightarrow> sock_ev \<Rightarrow> kcall"
  na_addrs :: "sock_ev list \<Rightarrow> (u8 list option \<times> int) \<times> (u8 list option \<times> int)"
  na_remove :: "sock_ev list \<Rightarrow> u8 list \<Rightarrow> (bool \<times> hresult) + unit"
  na_last :: "sock_ev list \<Rightarrow> hresult"

definition INVALID_SOCKET :: nat where
  "INVALID_SOCKET = usize_max"

abbreviation (input) IPPROTO_TCP :: nat where "IPPROTO_TCP \<equiv> 6"
abbreviation (input) IPPROTO_IPV6 :: nat where "IPPROTO_IPV6 \<equiv> 41"
abbreviation (input) IPV6_V6ONLY :: nat where "IPV6_V6ONLY \<equiv> 27"
abbreviation (input) SOL_SOCKET :: nat where "SOL_SOCKET \<equiv> 0xFFFF"
abbreviation (input) SO_UPDATE_ACCEPT_CONTEXT :: nat where "SO_UPDATE_ACCEPT_CONTEXT \<equiv> 0x700B"
abbreviation (input) SO_UPDATE_CONNECT_CONTEXT :: nat where "SO_UPDATE_CONNECT_CONTEXT \<equiv> 0x7010"
abbreviation (input) WSAENOTCONN :: u32 where "WSAENOTCONN \<equiv> 10057"
abbreviation (input) WSAEAFNOSUPPORT :: u32 where "WSAEAFNOSUPPORT \<equiv> 10047"
abbreviation (input) ERROR_PROC_NOT_FOUND :: u32 where "ERROR_PROC_NOT_FOUND \<equiv> 127"

section \<open>Sockets\<close>

definition ensure_winsock :: "(u32 \<Rightarrow> hresult) \<Rightarrow> net_api \<Rightarrow> net_world \<Rightarrow> (hresult + unit) \<times> net_world" where
  "ensure_winsock hr api w =
     (let w1 = (case nw_status w of
                  Some _ \<Rightarrow> w
                | None \<Rightarrow> (emit Startup w)\<lparr>nw_status := Some (na_startup api (w_log w))\<rparr>)
      in case nw_status w1 of
           Some code \<Rightarrow> if code = 0 then (Inr (), w1) else (Inl (hr code), w1)
         | None \<Rightarrow> (Inr (), w1))"

definition socket_drop :: "nat \<Rightarrow> net_world \<Rightarrow> net_world" where
  "socket_drop s w = handle_drop (\<lambda>s. s = INVALID_SOCKET) Closed s w"

definition new_overlapped_with ::
  "(u32 \<Rightarrow> hresult) \<Rightarrow> net_api \<Rightarrow> u16 \<Rightarrow> nat \<Rightarrow> net_world \<Rightarrow> (hresult + nat) \<times> net_world" where
  "new_overlapped_with hr api fam protocol w =
     try_or (ensure_winsock hr api w) (\<lambda>e w. (Inl e, w)) (\<lambda>_ w.
       case na_socket api (w_log w) fam protocol of
         Inl e \<Rightarrow> (Inl e, w)
       | Inr raw \<Rightarrow> (Inr raw, handle_from_raw raw (emit (Opened raw fam protocol) w)))"

definition new_overlapped :: "(u32 \<Rightarrow> hresult) \<Rightarrow> net_api \<Rightarrow> u16 \<Rightarrow> net_world \<Rightarrow> (hresult + nat) \<times> net_world" where
  "new_overlapped hr api fam w = new_overlapped_with hr api fam IPPROTO_TCP w"

definition new_overlapped_unix :: "(u32 \<Rightarrow> hresult) \<Rightarrow> net_api \<Rightarrow> net_world \<Rightarrow> (hresult + nat) \<times> net_world" where
  "new_overlapped_unix hr api w = new_overlapped_with hr api AF_UNIX_FAMILY 0 w"

text \<open>A call and \<^verbatim>\<open>last_error_if\<close>.\<close>

definition last_error_if :: "net_api \<Rightarrow> sock_ev \<Rightarrow> net_world \<Rightarrow> (hresult + unit) \<times> net_world" where
  "last_error_if api call w =
     (case na_call api (w_log w) call of None \<Rightarrow> Inr () | Some e \<Rightarrow> Inl e, emit call w)"

definition bind_bytes :: "net_api \<Rightarrow> nat \<Rightarrow> SockAddrBytes \<Rightarrow> net_world \<Rightarrow> (hresult + unit) \<times> net_world" where
  "bind_bytes api s encoded w = last_error_if api (Bound s encoded) w"

definition bind_to :: "net_api \<Rightarrow> nat \<Rightarrow> SocketAddr \<Rightarrow> net_world \<Rightarrow> (hresult + unit) \<times> net_world" where
  "bind_to api s addr w = bind_bytes api s (from_socket_addr addr) w"

definition listen_on :: "net_api \<Rightarrow> nat \<Rightarrow> int \<Rightarrow> net_world \<Rightarrow> (hresult + unit) \<times> net_world" where
  "listen_on api s backlog w = last_error_if api (Listening s backlog) w"

datatype Shutdown = ShutRead | ShutWrite | ShutBoth

definition shutdown_dir :: "net_api \<Rightarrow> nat \<Rightarrow> Shutdown \<Rightarrow> net_world \<Rightarrow> (hresult + unit) \<times> net_world" where
  "shutdown_dir api s how w =
     last_error_if api (Shut s (case how of ShutRead \<Rightarrow> 0 | ShutWrite \<Rightarrow> 1 | ShutBoth \<Rightarrow> 2)) w"

definition cancel_all_io :: "net_api \<Rightarrow> nat \<Rightarrow> net_world \<Rightarrow> (hresult + unit) \<times> net_world" where
  "cancel_all_io api s w = last_error_if api (CancelledAll s) w"

definition unsupported_family :: "(u32 \<Rightarrow> hresult) \<Rightarrow> hresult" where
  "unsupported_family hr = hr WSAEAFNOSUPPORT"

definition read_name ::
  "(u32 \<Rightarrow> hresult) \<Rightarrow> net_api \<Rightarrow> bool \<Rightarrow> (SockAddrBytes \<Rightarrow> 'a option) \<Rightarrow> nat \<Rightarrow> net_world \<Rightarrow> (hresult + 'a) \<times> net_world" where
  "read_name hr api peer to s w =
     (case na_name api (w_log w) s peer of
        Inl e \<Rightarrow> (Inl e, emit (NameRead s peer) w)
      | Inr bs \<Rightarrow>
          (case to bs of None \<Rightarrow> Inl (unsupported_family hr) | Some x \<Rightarrow> Inr x, emit (NameRead s peer) w))"

definition local_addr :: "(u32 \<Rightarrow> hresult) \<Rightarrow> net_api \<Rightarrow> nat \<Rightarrow> net_world \<Rightarrow> (hresult + SocketAddr) \<times> net_world" where
  "local_addr hr api s w = read_name hr api False to_socket_addr s w"

definition peer_addr :: "(u32 \<Rightarrow> hresult) \<Rightarrow> net_api \<Rightarrow> nat \<Rightarrow> net_world \<Rightarrow> (hresult + SocketAddr) \<times> net_world" where
  "peer_addr hr api s w = read_name hr api True to_socket_addr s w"

definition local_unix_addr :: "(u32 \<Rightarrow> hresult) \<Rightarrow> net_api \<Rightarrow> nat \<Rightarrow> net_world \<Rightarrow> (hresult + UnixSocketAddr) \<times> net_world" where
  "local_unix_addr hr api s w = read_name hr api False to_unix_addr s w"

definition peer_unix_addr :: "(u32 \<Rightarrow> hresult) \<Rightarrow> net_api \<Rightarrow> nat \<Rightarrow> net_world \<Rightarrow> (hresult + UnixSocketAddr) \<times> net_world" where
  "peer_unix_addr hr api s w = read_name hr api True to_unix_addr s w"

definition set_only_v6 :: "net_api \<Rightarrow> nat \<Rightarrow> bool \<Rightarrow> net_world \<Rightarrow> (hresult + unit) \<times> net_world" where
  "set_only_v6 api s v6 w = last_error_if api (OptionSet s IPPROTO_IPV6 IPV6_V6ONLY (Some (if v6 then 1 else 0))) w"

definition update_accept_context :: "net_api \<Rightarrow> nat \<Rightarrow> nat \<Rightarrow> net_world \<Rightarrow> (hresult + unit) \<times> net_world" where
  "update_accept_context api s listener w =
     last_error_if api (OptionSet s SOL_SOCKET SO_UPDATE_ACCEPT_CONTEXT (Some listener)) w"

definition update_connect_context :: "net_api \<Rightarrow> nat \<Rightarrow> net_world \<Rightarrow> (hresult + unit) \<times> net_world" where
  "update_connect_context api s w = last_error_if api (OptionSet s SOL_SOCKET SO_UPDATE_CONNECT_CONTEXT None) w"

section \<open>The extension functions\<close>

definition lookup :: "net_api \<Rightarrow> nat \<Rightarrow> nat \<Rightarrow> net_world \<Rightarrow> (hresult + bool) \<times> net_world" where
  "lookup api s guid w = (na_ext api (w_log w) s guid, emit (ExtensionRead s guid) w)"

text \<open>The three identifiers are 0, 1 and 2: \<^verbatim>\<open>AcceptEx\<close>, \<^verbatim>\<open>ConnectEx\<close>, \<^verbatim>\<open>GetAcceptExSockaddrs\<close>.\<close>

definition resolve :: "(u32 \<Rightarrow> hresult) \<Rightarrow> net_api \<Rightarrow> net_world \<Rightarrow> (hresult + unit) \<times> net_world" where
  "resolve hr api w =
     try_or (new_overlapped hr api AF_INET w) (\<lambda>e w. (Inl e, w)) (\<lambda>probe w.
       let fail = (\<lambda>e w. (Inl e, socket_drop probe w)) in
       try_or (lookup api probe 0 w) fail (\<lambda>accept_ex w.
       try_or (lookup api probe 1 w) fail (\<lambda>connect_ex w.
       try_or (lookup api probe 2 w) fail (\<lambda>get_addrs w.
         if accept_ex \<and> connect_ex \<and> get_addrs then (Inr (), socket_drop probe w)
         else fail (hr ERROR_PROC_NOT_FOUND) w))))"

definition extensions :: "(u32 \<Rightarrow> hresult) \<Rightarrow> net_api \<Rightarrow> net_world \<Rightarrow> (hresult + unit) \<times> net_world" where
  "extensions hr api w =
     (if nw_ext w then (Inr (), w)
      else try_or (resolve hr api w) (\<lambda>e w. (Inl e, w)) (\<lambda>_ w. (Inr (), w\<lparr>nw_ext := True\<rparr>)))"

section \<open>Accepting\<close>

record AcceptSocket =
  ac_listener :: nat
  ac_accepted :: nat
  ac_outcome :: "(hresult + SockAddrBytes \<times> SockAddrBytes) option"

definition accept_new :: "nat \<Rightarrow> nat \<Rightarrow> AcceptSocket" where
  "accept_new listener accepted = \<lparr>ac_listener = listener, ac_accepted = accepted, ac_outcome = None\<rparr>"

definition take_addresses ::
  "(u32 \<Rightarrow> hresult) \<Rightarrow> net_api \<Rightarrow> AcceptSocket \<Rightarrow> net_world \<Rightarrow> (hresult + SockAddrBytes \<times> SockAddrBytes) \<times> net_world" where
  "take_addresses hr api op w =
     try_or (update_accept_context api (ac_accepted op) (ac_listener op) w) (\<lambda>e w. (Inl e, w)) (\<lambda>_ w.
     try_or (extensions hr api w) (\<lambda>e w. (Inl e, w)) (\<lambda>_ w.
       case na_addrs api (w_log w) of
         ((lp, ln), (pp, pn)) \<Rightarrow>
           (case (copy_from_raw lp ln, copy_from_raw pp pn) of
              (Some l, Some p) \<Rightarrow> Inr (l, p)
            | _ \<Rightarrow> Inl (hr ERROR_INVALID_PARAMETER),
            emit (AddressesRead (ac_accepted op)) w)))"

definition accept_record_completion ::
  "(u32 \<Rightarrow> hresult) \<Rightarrow> net_api \<Rightarrow> hresult + nat \<Rightarrow> AcceptSocket \<Rightarrow> net_world \<Rightarrow> AcceptSocket \<times> net_world" where
  "accept_record_completion hr api result op w =
     (if ac_outcome op \<noteq> None \<or> isl result then (op, w)
      else case take_addresses hr api op w of (x, w') \<Rightarrow> (op\<lparr>ac_outcome := Some x\<rparr>, w'))"

definition accept_operate ::
  "(u32 \<Rightarrow> hresult) \<Rightarrow> net_api \<Rightarrow> AcceptSocket \<Rightarrow> net_world \<Rightarrow>
   (hresult + nat) poll \<times> kcall option \<times> AcceptSocket \<times> net_world" where
  "accept_operate hr api op w =
     (case extensions hr api w of
        (Inl e, w1) \<Rightarrow> (Ready (Inl e), None, op, w1)
      | (Inr _, w1) \<Rightarrow>
          let call = AcceptStarted (ac_listener op) (ac_accepted op);
              k = na_start api (w_log w1) call;
              w2 = emit call w1
          in (case win32_result hr (k_ok k) k of
                Pending \<Rightarrow> (Pending, Some k, op, w2)
              | Ready r \<Rightarrow> (case accept_record_completion hr api r op w2 of (op', w3) \<Rightarrow> (Ready r, Some k, op', w3))))"

text \<open>
  Submission and await, as for the transfers: an inline success runs the completion hook a second time, an
  inline failure does not, and a pended operation runs it once with the result it completes with.
\<close>

definition submit_accept ::
  "(u32 \<Rightarrow> hresult) \<Rightarrow> net_api \<Rightarrow> AcceptSocket \<Rightarrow> net_world \<Rightarrow> (hresult + nat) \<times> AcceptSocket \<times> net_world" where
  "submit_accept hr api op w =
     (case accept_operate hr api op w of
        (Ready (Inl e), _, op', w') \<Rightarrow> (Inl e, op', w')
      | (Ready (Inr n), _, op', w') \<Rightarrow> (Inr n, accept_record_completion hr api (Inr n) op' w')
      | (Pending, Some k, op', w') \<Rightarrow> (k_result k, accept_record_completion hr api (k_result k) op' w')
      | (Pending, None, op', w') \<Rightarrow> (Inr 0, op', w'))"

definition accept_finish ::
  "net_api \<Rightarrow> hresult + nat \<Rightarrow> AcceptSocket \<Rightarrow> net_world \<Rightarrow> (hresult + nat \<times> SockAddrBytes) \<times> net_world" where
  "accept_finish api result op w =
     (let fail = (\<lambda>e. (Inl e, socket_drop (ac_accepted op) (socket_drop (ac_listener op) w))) in
      case result of
        Inl e \<Rightarrow> fail e
      | Inr _ \<Rightarrow>
          (case ac_outcome op of
             None \<Rightarrow> fail (na_last api (w_log w))
           | Some (Inl e) \<Rightarrow> fail e
           | Some (Inr (l, p)) \<Rightarrow> (Inr (ac_accepted op, p), socket_drop (ac_listener op) w)))"

text \<open>\<^verbatim>\<open>Registrar::register\<close> of a socket, and what dropping the registration does.\<close>

definition register :: "net_api \<Rightarrow> nat \<Rightarrow> net_world \<Rightarrow> (RegistrationError + unit) \<times> net_world" where
  "register api s w =
     (case na_register api (w_log w) s of
        Inl e \<Rightarrow> (Inl e, w)
      | Inr _ \<Rightarrow> (Inr (), emit (Registered s) w))"

text \<open>
  The end of both \<^verbatim>\<open>accept\<close>s: decode the peer, register the socket, hand it to the stream. A stream is its
  socket; its submitter is registered to that socket.
\<close>

definition accept_with ::
  "(u32 \<Rightarrow> hresult) \<Rightarrow> net_api \<Rightarrow> (SockAddrBytes \<Rightarrow> 'a option) \<Rightarrow> nat \<Rightarrow> (hresult + nat) \<times> net_world \<Rightarrow>
   (SocketError + nat \<times> 'a) \<times> net_world" where
  "accept_with hr api to listener created =
     try_or created (\<lambda>e w. (Inl (socket_from_win32 e), w)) (\<lambda>accepted w.
       case submit_accept hr api (accept_new listener accepted) (handle_clone listener w) of
         (result, op, w1) \<Rightarrow>
           try_or (accept_finish api result op w1) (\<lambda>e w. (Inl (socket_from_win32 e), w)) (\<lambda>(socket, peer_bytes) w.
             case to peer_bytes of
               None \<Rightarrow> (Inl (socket_from_win32 (unsupported_family hr)), socket_drop socket w)
             | Some peer \<Rightarrow>
                 try_or (register api socket w)
                   (\<lambda>e w. (Inl (socket_from_registration e), socket_drop socket w))
                   (\<lambda>_ w. (Inr (socket, peer), w))))"

section \<open>TCP\<close>

record TcpListenerOptions =
  tl_backlog :: u32
  tl_only_v6 :: bool

definition tcp_listener_options_new :: TcpListenerOptions where
  "tcp_listener_options_new = \<lparr>tl_backlog = 128, tl_only_v6 = True\<rparr>"

definition backlog_argument :: "u32 \<Rightarrow> int" where
  "backlog_argument requested = int (min (unat requested) (2 ^ 31 - 1))"

record TcpListener =
  tcl_socket :: nat
  tcl_local :: SocketAddr

definition tcp_bind_with ::
  "(u32 \<Rightarrow> hresult) \<Rightarrow> net_api \<Rightarrow> SocketAddr \<Rightarrow> TcpListenerOptions \<Rightarrow> net_world \<Rightarrow> (SocketError + TcpListener) \<times> net_world" where
  "tcp_bind_with hr api addr options w =
     try_or (new_overlapped hr api (family_of addr) w) (\<lambda>e w. (Inl (socket_from_win32 e), w)) (\<lambda>socket w.
       let fail = (\<lambda>e w. (Inl (socket_from_win32 e), socket_drop socket w)) in
       try_or (case addr of V6 _ _ _ _ \<Rightarrow> set_only_v6 api socket (tl_only_v6 options) w | _ \<Rightarrow> (Inr (), w)) fail (\<lambda>_ w.
       try_or (bind_to api socket addr w) fail (\<lambda>_ w.
       try_or (listen_on api socket (backlog_argument (tl_backlog options)) w) fail (\<lambda>_ w.
       try_or (local_addr hr api socket w) fail (\<lambda>bound w.
       try_or (register api socket w)
         (\<lambda>e w. (Inl (socket_from_registration e), socket_drop socket w))
         (\<lambda>_ w. (Inr \<lparr>tcl_socket = socket, tcl_local = bound\<rparr>, w)))))))"

definition tcp_accept ::
  "(u32 \<Rightarrow> hresult) \<Rightarrow> net_api \<Rightarrow> TcpListener \<Rightarrow> net_world \<Rightarrow> (SocketError + nat \<times> SocketAddr) \<times> net_world" where
  "tcp_accept hr api l w =
     accept_with hr api to_socket_addr (tcl_socket l) (new_overlapped hr api (family_of (tcl_local l)) w)"

text \<open>\<^verbatim>\<open>Drop for TcpListener\<close>, then its fields: the registration, the socket.\<close>

definition listener_drop :: "net_api \<Rightarrow> nat \<Rightarrow> net_world \<Rightarrow> net_world" where
  "listener_drop api s w = socket_drop s (emit (Unregistered s) (snd (cancel_all_io api s w)))"

record ConnectSocket =
  cn_socket :: nat
  cn_addr :: SockAddrBytes
  cn_updated :: "(hresult + unit) option"

definition connect_new :: "nat \<Rightarrow> SockAddrBytes \<Rightarrow> ConnectSocket" where
  "connect_new socket addr = \<lparr>cn_socket = socket, cn_addr = addr, cn_updated = None\<rparr>"

definition connect_record_completion ::
  "net_api \<Rightarrow> hresult + nat \<Rightarrow> ConnectSocket \<Rightarrow> net_world \<Rightarrow> ConnectSocket \<times> net_world" where
  "connect_record_completion api result op w =
     (if cn_updated op \<noteq> None \<or> isl result then (op, w)
      else case update_connect_context api (cn_socket op) w of (x, w') \<Rightarrow> (op\<lparr>cn_updated := Some x\<rparr>, w'))"

definition connect_operate ::
  "(u32 \<Rightarrow> hresult) \<Rightarrow> net_api \<Rightarrow> ConnectSocket \<Rightarrow> net_world \<Rightarrow>
   (hresult + nat) poll \<times> kcall option \<times> ConnectSocket \<times> net_world" where
  "connect_operate hr api op w =
     (case extensions hr api w of
        (Inl e, w1) \<Rightarrow> (Ready (Inl e), None, op, w1)
      | (Inr _, w1) \<Rightarrow>
          let call = ConnectStarted (cn_socket op) (cn_addr op);
              k = na_start api (w_log w1) call;
              w2 = emit call w1
          in (case win32_result hr (k_ok k) k of
                Pending \<Rightarrow> (Pending, Some k, op, w2)
              | Ready r \<Rightarrow> (case connect_record_completion api r op w2 of (op', w3) \<Rightarrow> (Ready r, Some k, op', w3))))"

definition submit_connect ::
  "(u32 \<Rightarrow> hresult) \<Rightarrow> net_api \<Rightarrow> ConnectSocket \<Rightarrow> net_world \<Rightarrow> (hresult + nat) \<times> ConnectSocket \<times> net_world" where
  "submit_connect hr api op w =
     (case connect_operate hr api op w of
        (Ready (Inl e), _, op', w') \<Rightarrow> (Inl e, op', w')
      | (Ready (Inr n), _, op', w') \<Rightarrow> (Inr n, connect_record_completion api (Inr n) op' w')
      | (Pending, Some k, op', w') \<Rightarrow> (k_result k, connect_record_completion api (k_result k) op' w')
      | (Pending, None, op', w') \<Rightarrow> (Inr 0, op', w'))"

definition connect_finish ::
  "(u32 \<Rightarrow> hresult) \<Rightarrow> hresult + nat \<Rightarrow> ConnectSocket \<Rightarrow> net_world \<Rightarrow> (hresult + unit) \<times> net_world" where
  "connect_finish hr result op w =
     (case result of
        Inl e \<Rightarrow> Inl e
      | Inr _ \<Rightarrow> (case cn_updated op of Some update \<Rightarrow> update | None \<Rightarrow> Inl (hr WSAENOTCONN)),
      socket_drop (cn_socket op) w)"

text \<open>Both \<^verbatim>\<open>connect\<close>s after the socket: bind the wildcard, register, connect.\<close>

definition connect_with ::
  "(u32 \<Rightarrow> hresult) \<Rightarrow> net_api \<Rightarrow> SockAddrBytes \<Rightarrow> SockAddrBytes \<Rightarrow> (hresult + nat) \<times> net_world \<Rightarrow>
   (SocketError + nat) \<times> net_world" where
  "connect_with hr api wildcard target created =
     try_or created (\<lambda>e w. (Inl (socket_from_win32 e), w)) (\<lambda>socket w.
       try_or (bind_bytes api socket wildcard w) (\<lambda>e w. (Inl (socket_from_win32 e), socket_drop socket w)) (\<lambda>_ w.
       try_or (register api socket w) (\<lambda>e w. (Inl (socket_from_registration e), socket_drop socket w)) (\<lambda>_ w.
         case submit_connect hr api (connect_new socket target) (handle_clone socket w) of
           (result, op, w1) \<Rightarrow>
             try_or (connect_finish hr result op w1)
               (\<lambda>e w. (Inl (socket_from_win32 e), socket_drop socket (emit (Unregistered socket) w)))
               (\<lambda>_ w. (Inr socket, w)))))"

definition tcp_connect :: "(u32 \<Rightarrow> hresult) \<Rightarrow> net_api \<Rightarrow> SocketAddr \<Rightarrow> net_world \<Rightarrow> (SocketError + nat) \<times> net_world" where
  "tcp_connect hr api addr w =
     connect_with hr api (from_socket_addr (wildcard_for addr)) (from_socket_addr addr)
       (new_overlapped hr api (family_of addr) w)"

text \<open>\<^verbatim>\<open>Drop for TcpStream\<close> and for \<^verbatim>\<open>UnixStream\<close>.\<close>

definition stream_drop :: "net_api \<Rightarrow> nat \<Rightarrow> net_world \<Rightarrow> net_world" where
  "stream_drop api s w = socket_drop s (emit (Unregistered s) (snd (cancel_all_io api s w)))"

definition stream_shutdown :: "net_api \<Rightarrow> nat \<Rightarrow> Shutdown \<Rightarrow> net_world \<Rightarrow> (SocketError + unit) \<times> net_world" where
  "stream_shutdown api s how w = try_or (shutdown_dir api s how w) (\<lambda>e w. (Inl (socket_from_win32 e), w)) (\<lambda>_ w. (Inr (), w))"

text \<open>A read and a write of a stream: the operation keeps the socket open with a clone of its own.\<close>

definition stream_read ::
  "(u32 \<Rightarrow> hresult) \<Rightarrow> 'b IoBufMut \<Rightarrow> recv_call \<Rightarrow> nat \<Rightarrow> 'b \<Rightarrow> mem \<Rightarrow> net_world \<Rightarrow>
   (((hresult + ReadOutcome) \<times> 'b \<times> mem) \<times> net_world) may_panic" where
  "stream_read hr D WSARecv s buffer m w =
     map_option (\<lambda>x. (x, socket_drop s (handle_clone s w))) (submit_recv hr D WSARecv (recv_new s buffer) m)"

definition stream_write ::
  "(u32 \<Rightarrow> hresult) \<Rightarrow> ('b, 'z) IoBuf_scheme \<Rightarrow> send_call \<Rightarrow> nat \<Rightarrow> 'b \<Rightarrow> mem \<Rightarrow> net_world \<Rightarrow>
   ((hresult + nat) \<times> 'b) \<times> net_world" where
  "stream_write hr D WSASend s buffer m w =
     (submit_send hr D WSASend (send_new s buffer) m, socket_drop s (handle_clone s w))"

section \<open>Unix sockets\<close>

record UnixListenerOptions =
  ul_backlog :: u32
  ul_unlink_stale :: bool

definition unix_listener_options_new :: UnixListenerOptions where
  "unix_listener_options_new = \<lparr>ul_backlog = 128, ul_unlink_stale = False\<rparr>"

record UnixListener =
  unl_socket :: nat
  unl_local :: UnixSocketAddr

definition unlink_stale_path ::
  "(u8 list \<Rightarrow> u8 list option) \<Rightarrow> net_api \<Rightarrow> UnixSocketAddr \<Rightarrow> net_world \<Rightarrow> (SocketError + unit) \<times> net_world" where
  "unlink_stale_path utf8 api addr w =
     (case as_pathname utf8 addr of
        None \<Rightarrow> (Inr (), w)
      | Some file \<Rightarrow>
          (case na_remove api (w_log w) file of
             Inr _ \<Rightarrow> Inr ()
           | Inl (not_found, e) \<Rightarrow> if not_found then Inr () else Inl (socket_from_win32 e),
           emit (PathRemoved file) w))"

definition unix_bind_with ::
  "(u32 \<Rightarrow> hresult) \<Rightarrow> (u8 list \<Rightarrow> u8 list option) \<Rightarrow> net_api \<Rightarrow> UnixSocketAddr \<Rightarrow> UnixListenerOptions \<Rightarrow> net_world \<Rightarrow>
   (SocketError + UnixListener) \<times> net_world" where
  "unix_bind_with hr utf8 api addr options w =
     try_or (new_overlapped_unix hr api w) (\<lambda>e w. (Inl (socket_from_win32 e), w)) (\<lambda>socket w.
       let fail = (\<lambda>e w. (Inl (socket_from_win32 e), socket_drop socket w)) in
       try_or (if ul_unlink_stale options then unlink_stale_path utf8 api addr w else (Inr (), w))
         (\<lambda>e w. (Inl e, socket_drop socket w)) (\<lambda>_ w.
       try_or (bind_bytes api socket (from_unix_addr addr) w) fail (\<lambda>_ w.
       try_or (listen_on api socket (backlog_argument (ul_backlog options)) w) fail (\<lambda>_ w.
       try_or (local_unix_addr hr api socket w) fail (\<lambda>bound w.
       try_or (register api socket w)
         (\<lambda>e w. (Inl (socket_from_registration e), socket_drop socket w))
         (\<lambda>_ w. (Inr \<lparr>unl_socket = socket, unl_local = bound\<rparr>, w)))))))"

definition unix_accept ::
  "(u32 \<Rightarrow> hresult) \<Rightarrow> net_api \<Rightarrow> UnixListener \<Rightarrow> net_world \<Rightarrow> (SocketError + nat \<times> UnixSocketAddr) \<times> net_world" where
  "unix_accept hr api l w = accept_with hr api to_unix_addr (unl_socket l) (new_overlapped_unix hr api w)"

definition unix_connect :: "(u32 \<Rightarrow> hresult) \<Rightarrow> net_api \<Rightarrow> UnixSocketAddr \<Rightarrow> net_world \<Rightarrow> (SocketError + nat) \<times> net_world" where
  "unix_connect hr api addr w =
     connect_with hr api (from_unix_addr unnamed) (from_unix_addr addr) (new_overlapped_unix hr api w)"

section \<open>Every socket has its owner\<close>

fun sock_opens :: "sock_ev \<Rightarrow> nat option" where
  "sock_opens (Opened s _ _) = Some s"
| "sock_opens _ = None"

fun sock_closes :: "sock_ev \<Rightarrow> nat option" where
  "sock_closes (Closed s) = Some s"
| "sock_closes _ = None"

interpretation sock: handle_log sock_opens sock_closes Closed "\<lambda>s. s = INVALID_SOCKET"
  by unfold_locales simp_all

text \<open>What the theorems rely on: \<^verbatim>\<open>WSASocketW\<close> returns a socket that is valid and not already open.\<close>

definition fresh_sockets :: "net_api \<Rightarrow> bool" where
  "fresh_sockets api \<longleftrightarrow>
     (\<forall>log fam protocol s. na_socket api log fam protocol = Inr s \<longrightarrow>
        s \<noteq> INVALID_SOCKET \<and> (\<forall>H. open_after sock_opens sock_closes log = Some H \<longrightarrow> s \<notin> H))"

abbreviation sock_accounts ::
  "(nat \<Rightarrow> nat) \<Rightarrow> ('e + 'a) \<times> net_world \<Rightarrow> ('a \<Rightarrow> (nat \<Rightarrow> nat) \<Rightarrow> bool) \<Rightarrow> bool" where
  "sock_accounts \<equiv> accounts sock_opens sock_closes"

abbreviation net_ok :: "net_world \<Rightarrow> bool" where
  "net_ok \<equiv> world_ok sock_opens sock_closes"

lemma fields_ok [simp]:
  "net_ok (w\<lparr>nw_status := x\<rparr>) = net_ok w" "net_ok (w\<lparr>nw_ext := b\<rparr>) = net_ok w"
  by (simp_all add: world_ok_def)

lemma last_error_if_accounts [intro]:
  "net_ok w \<Longrightarrow> sock_opens c = None \<Longrightarrow> sock_closes c = None \<Longrightarrow> w_refs w = f \<Longrightarrow>
    sock_accounts f (last_error_if api c w) (\<lambda>_ r. r = f)"
  by (auto simp: accounts_def last_error_if_def intro: sock.emit_ok split: option.splits)

lemma read_name_accounts [intro]:
  "net_ok w \<Longrightarrow> w_refs w = f \<Longrightarrow> sock_accounts f (read_name hr api p to s w) (\<lambda>_ r. r = f)"
  by (auto simp: accounts_def read_name_def intro: sock.emit_ok split: sum.splits option.splits)

lemma register_accounts [intro]:
  "net_ok w \<Longrightarrow> w_refs w = f \<Longrightarrow> sock_accounts f (register api s w) (\<lambda>_ r. r = f)"
  by (auto simp: accounts_def register_def intro: sock.emit_ok split: sum.splits)

lemma socket_drop_ok [simp]:
  "net_ok w \<Longrightarrow> 0 < w_refs w s \<Longrightarrow> s \<noteq> INVALID_SOCKET \<Longrightarrow> net_ok (socket_drop s w)"
  unfolding socket_drop_def by (rule sock.drop_ok)

lemma socket_drop_refs [simp]: "w_refs (socket_drop s w) = (w_refs w)(s := w_refs w s - 1)"
  by (simp add: socket_drop_def)

lemma ensure_winsock_accounts:
  "net_ok w \<Longrightarrow> w_refs w = f \<Longrightarrow> sock_accounts f (ensure_winsock hr api w) (\<lambda>_ r. r = f)"
  by (auto simp: ensure_winsock_def Let_def intro: sock.emit_ok split: option.splits)

lemma created_accounts:
  assumes "fresh_sockets api" "net_ok w" "w_refs w = f"
  shows "sock_accounts f (new_overlapped_with hr api fam protocol w)
    (\<lambda>s r. r = f(s := 1) \<and> f s = 0 \<and> s \<noteq> INVALID_SOCKET)"
  unfolding new_overlapped_with_def
proof (rule accounts_try_or [OF ensure_winsock_accounts [OF assms(2,3)]])
  fix u :: unit and w assume w: "net_ok w" "w_refs w = f"
  have "f s = 0 \<and> s \<noteq> INVALID_SOCKET" if "na_socket api (w_log w) fam protocol = Inr s" for s
  proof -
    from assms(1) that have "s \<noteq> INVALID_SOCKET" "\<And>H. open_after sock_opens sock_closes (w_log w) = Some H \<Longrightarrow> s \<notin> H"
      unfolding fresh_sockets_def by blast+
    with w show ?thesis by (simp add: world_ok_def)
  qed
  then show "sock_accounts f
      (case na_socket api (w_log w) fam protocol of Inl e \<Rightarrow> (Inl e, w)
       | Inr raw \<Rightarrow> (Inr raw, handle_from_raw raw (emit (Opened raw fam protocol) w)))
      (\<lambda>s r. r = f(s := 1) \<and> f s = 0 \<and> s \<noteq> INVALID_SOCKET)"
    using w by (auto simp: sock.opened_ok split: sum.splits)
qed simp

lemma resolve_accounts:
  assumes "fresh_sockets api" "net_ok w" "w_refs w = f"
  shows "sock_accounts f (resolve hr api w) (\<lambda>_ r. r = f)"
proof -
  have look: "sock_accounts (f(s := 1)) (lookup api s g w) (\<lambda>_ r. r = f(s := 1))"
    if "net_ok w" "w_refs w = f(s := 1)" for s g w
    using that by (auto simp: lookup_def accounts_def intro: sock.emit_ok split: sum.splits)
  show ?thesis
    unfolding resolve_def new_overlapped_def Let_def
    by (rule accounts_try_or [OF created_accounts [OF assms]], simp,
        (rule accounts_try_or, rule look, assumption, blast, force)+) force
qed

lemma extensions_accounts:
  "fresh_sockets api \<Longrightarrow> net_ok w \<Longrightarrow> w_refs w = f \<Longrightarrow> sock_accounts f (extensions hr api w) (\<lambda>_ r. r = f)"
  by (auto simp: extensions_def intro!: accounts_try_or [OF resolve_accounts])

text \<open>The operations change no owner: their completion hooks only make calls.\<close>

lemma take_addresses_accounts:
  assumes "fresh_sockets api" "net_ok w" "w_refs w = f"
  shows "sock_accounts f (take_addresses hr api op w) (\<lambda>_ r. r = f)"
  unfolding take_addresses_def update_accept_context_def
proof (rule accounts_try_or [OF last_error_if_accounts [OF assms(2) _ _ assms(3)]])
  fix u :: unit and w assume w: "net_ok w" "w_refs w = f"
  show "sock_accounts f (try_or (extensions hr api w) (\<lambda>e w. (Inl e, w)) (\<lambda>_ w.
       case na_addrs api (w_log w) of
         ((lp, ln), (pp, pn)) \<Rightarrow>
           (case (copy_from_raw lp ln, copy_from_raw pp pn) of
              (Some l, Some p) \<Rightarrow> Inr (l, p)
            | _ \<Rightarrow> Inl (hr ERROR_INVALID_PARAMETER),
            emit (AddressesRead (ac_accepted op)) w))) (\<lambda>_ r. r = f)"
    by (rule accounts_try_or [OF extensions_accounts [OF assms(1) w]])
       (auto simp: accounts_def intro: sock.emit_ok split: option.splits prod.splits)
qed simp_all

definition same_op :: "AcceptSocket \<Rightarrow> AcceptSocket \<Rightarrow> bool" where
  "same_op op op' \<longleftrightarrow> ac_listener op' = ac_listener op \<and> ac_accepted op' = ac_accepted op"

lemma accept_record_keeps:
  assumes "fresh_sockets api" "net_ok w" "accept_record_completion hr api r op w = (op', w')"
  shows "net_ok w' \<and> w_refs w' = w_refs w \<and> same_op op op'"
  using assms take_addresses_accounts [OF assms(1,2) refl, of hr op]
  by (auto simp: accept_record_completion_def accounts_def same_op_def split: if_splits prod.splits sum.splits)

lemma accept_operate_keeps:
  assumes "fresh_sockets api" "net_ok w" "accept_operate hr api op w = (x, k, op', w')"
  shows "net_ok w' \<and> w_refs w' = w_refs w \<and> same_op op op'"
proof -
  obtain y w1 where e: "extensions hr api w = (y, w1)" by fastforce
  with extensions_accounts [OF assms(1,2) refl, of hr] have w1: "net_ok w1" "w_refs w1 = w_refs w"
    by (auto simp: accounts_def split: sum.splits)
  let ?call = "AcceptStarted (ac_listener op) (ac_accepted op)"
  have w2: "net_ok (emit ?call w1)" using w1 by (auto intro: sock.emit_ok)
  show ?thesis
  proof (cases "\<exists>r. isl y \<or> win32_result hr (k_ok (na_start api (w_log w1) ?call)) (na_start api (w_log w1) ?call) = Pending")
    case True
    with assms(3) e w1 w2 show ?thesis by (auto simp: accept_operate_def same_op_def Let_def split: sum.splits)
  next
    case False
    then obtain r op1 w3 where "win32_result hr (k_ok (na_start api (w_log w1) ?call)) (na_start api (w_log w1) ?call) = Ready r"
      "accept_record_completion hr api r op (emit ?call w1) = (op1, w3)" "\<exists>u. y = Inr u"
      by (cases "win32_result hr (k_ok (na_start api (w_log w1) ?call)) (na_start api (w_log w1) ?call)";
          cases y) fastforce+
    with assms(3) e accept_record_keeps [OF assms(1) w2] w1 show ?thesis
      by (auto simp: accept_operate_def Let_def)
  qed
qed

lemma submit_accept_keeps:
  assumes "fresh_sockets api" "net_ok w" "submit_accept hr api op w = (r, op', w')"
  shows "net_ok w' \<and> w_refs w' = w_refs w \<and> same_op op op'"
proof -
  obtain x k op1 w1 where o: "accept_operate hr api op w = (x, k, op1, w1)" by (cases "accept_operate hr api op w") blast
  note w1 = accept_operate_keeps [OF assms(1,2) o]
  show ?thesis
  proof (cases "\<exists>res. accept_record_completion hr api res op1 w1 = (op', w')")
    case True
    with accept_record_keeps [OF assms(1)] w1 show ?thesis by (auto simp: same_op_def)
  next
    case False
    with assms(3) o have "op' = op1" "w' = w1"
      by (auto simp: submit_accept_def split: poll.splits sum.splits option.splits)
    with w1 show ?thesis by simp
  qed
qed

lemma accept_tail_accounts:
  assumes w: "net_ok w" "w_refs w = f(s := 1)" "f s = 0" "s \<noteq> INVALID_SOCKET"
  shows "sock_accounts f
    (case to peer_bytes of
       None \<Rightarrow> (Inl (socket_from_win32 (unsupported_family hr)), socket_drop s w)
     | Some peer \<Rightarrow>
         try_or (register api s w)
           (\<lambda>e w. (Inl (socket_from_registration e), socket_drop s w)) (\<lambda>_ w. (Inr (s, peer), w)))
    (\<lambda>(s, _) r. r = f(s := 1) \<and> f s = 0 \<and> s \<noteq> INVALID_SOCKET)"
proof (cases "to peer_bytes")
  case None
  then show ?thesis using w by auto
next
  case (Some peer)
  have "sock_accounts f (try_or (register api s w)
      (\<lambda>e w. (Inl (socket_from_registration e), socket_drop s w)) (\<lambda>_ w. (Inr (s, peer), w)))
      (\<lambda>(s, _) r. r = f(s := 1) \<and> f s = 0 \<and> s \<noteq> INVALID_SOCKET)"
    by (rule accounts_try_or [OF register_accounts [OF w(1,2)]]) (use w(3,4) in auto)
  with Some show ?thesis by simp
qed

lemma accept_with_accounts:
  assumes fresh: "fresh_sockets api" and ok: "net_ok w" "w_refs w = f"
    and l: "0 < f l" "l \<noteq> INVALID_SOCKET"
  shows "sock_accounts f (accept_with hr api to l (new_overlapped_with hr api fam protocol w))
    (\<lambda>(s, _) r. r = f(s := 1) \<and> f s = 0 \<and> s \<noteq> INVALID_SOCKET)"
  unfolding accept_with_def
proof (rule accounts_try_or [OF created_accounts [OF fresh ok]])
  fix s w assume w: "net_ok w" "w_refs w = f(s := 1) \<and> f s = 0 \<and> s \<noteq> INVALID_SOCKET"
  have ne: "l \<noteq> s" using l w by auto
  obtain r op w1 where sub: "submit_accept hr api (accept_new l s) (handle_clone l w) = (r, op, w1)"
    by (cases "submit_accept hr api (accept_new l s) (handle_clone l w)") blast
  have "net_ok (handle_clone l w)" using w l ne by (simp add: sock.clone_ok)
  from submit_accept_keeps [OF fresh this sub] w ne
  have w1: "net_ok w1" "w_refs w1 = f(s := 1, l := f l + 1)" and op: "ac_listener op = l" "ac_accepted op = s"
    by (auto simp: same_op_def accept_new_def)
  have fin: "sock_accounts f (accept_finish api r op w1) (\<lambda>(s', _) rf. s' = s \<and> rf = f(s := 1))"
    using w1 op l w ne
    by (auto simp: accept_finish_def Let_def fun_upd_twist split: sum.splits option.splits)
  show "sock_accounts f
      (case submit_accept hr api (accept_new l s) (handle_clone l w) of
         (result, op, w1) \<Rightarrow>
           try_or (accept_finish api result op w1) (\<lambda>e w. (Inl (socket_from_win32 e), w)) (\<lambda>(socket, peer_bytes) w.
             case to peer_bytes of
               None \<Rightarrow> (Inl (socket_from_win32 (unsupported_family hr)), socket_drop socket w)
             | Some peer \<Rightarrow>
                 try_or (register api socket w)
                   (\<lambda>e w. (Inl (socket_from_registration e), socket_drop socket w))
                   (\<lambda>_ w. (Inr (socket, peer), w))))
      (\<lambda>(s, _) r. r = f(s := 1) \<and> f s = 0 \<and> s \<noteq> INVALID_SOCKET)"
    unfolding sub prod.case
    by (rule accounts_try_or [OF fin]) (use w(2) in \<open>auto simp del: One_nat_def intro: accept_tail_accounts\<close>)
qed simp

section \<open>Connecting\<close>

lemma connect_record_keeps:
  assumes "net_ok w" "connect_record_completion api r op w = (op', w')"
  shows "net_ok w' \<and> w_refs w' = w_refs w \<and> cn_socket op' = cn_socket op"
  using assms last_error_if_accounts [OF assms(1) _ _ refl, of "OptionSet (cn_socket op) SOL_SOCKET SO_UPDATE_CONNECT_CONTEXT None" api]
  by (auto simp: connect_record_completion_def update_connect_context_def accounts_def split: if_splits prod.splits sum.splits)

lemma connect_operate_keeps:
  assumes "fresh_sockets api" "net_ok w" "connect_operate hr api op w = (x, k, op', w')"
  shows "net_ok w' \<and> w_refs w' = w_refs w \<and> cn_socket op' = cn_socket op"
proof -
  obtain y w1 where e: "extensions hr api w = (y, w1)" by fastforce
  with extensions_accounts [OF assms(1,2) refl, of hr] have w1: "net_ok w1" "w_refs w1 = w_refs w"
    by (auto simp: accounts_def split: sum.splits)
  let ?call = "ConnectStarted (cn_socket op) (cn_addr op)"
  let ?k = "na_start api (w_log w1) ?call"
  have w2: "net_ok (emit ?call w1)" using w1 by (auto intro: sock.emit_ok)
  show ?thesis
  proof (cases "\<exists>u r. y = Inr u \<and> win32_result hr (k_ok ?k) ?k = Ready r")
    case False
    with assms(3) e w1 w2 show ?thesis
      by (auto simp: connect_operate_def Let_def split: sum.splits poll.splits)
  next
    case True
    then obtain r op1 w3 u where "win32_result hr (k_ok ?k) ?k = Ready r"
      "connect_record_completion api r op (emit ?call w1) = (op1, w3)" "y = Inr u" by fastforce
    with assms(3) e connect_record_keeps [OF w2] w1 show ?thesis by (auto simp: connect_operate_def Let_def)
  qed
qed

lemma submit_connect_keeps:
  assumes "fresh_sockets api" "net_ok w" "submit_connect hr api op w = (r, op', w')"
  shows "net_ok w' \<and> w_refs w' = w_refs w \<and> cn_socket op' = cn_socket op"
proof -
  obtain x k op1 w1 where o: "connect_operate hr api op w = (x, k, op1, w1)" by (cases "connect_operate hr api op w") blast
  note w1 = connect_operate_keeps [OF assms(1,2) o]
  show ?thesis
  proof (cases "\<exists>res. connect_record_completion api res op1 w1 = (op', w')")
    case True
    with connect_record_keeps w1 show ?thesis by metis
  next
    case False
    with assms(3) o have "op' = op1" "w' = w1"
      by (auto simp: submit_connect_def split: poll.splits sum.splits option.splits)
    with w1 show ?thesis by simp
  qed
qed

lemma connect_with_accounts:
  assumes fresh: "fresh_sockets api" and ok: "net_ok w" "w_refs w = f"
  shows "sock_accounts f (connect_with hr api wild target (new_overlapped_with hr api fam protocol w))
    (\<lambda>s r. r = f(s := 1) \<and> f s = 0 \<and> s \<noteq> INVALID_SOCKET)"
  unfolding connect_with_def
proof (rule accounts_try_or [OF created_accounts [OF fresh ok]])
  fix s w assume w: "net_ok w" "w_refs w = f(s := 1) \<and> f s = 0 \<and> s \<noteq> INVALID_SOCKET"
  let ?Q = "\<lambda>s r. r = f(s := 1) \<and> f s = 0 \<and> s \<noteq> INVALID_SOCKET"
  have conn: "sock_accounts f
      (case submit_connect hr api (connect_new s target) (handle_clone s w) of
         (result, op, w1) \<Rightarrow>
           try_or (connect_finish hr result op w1)
             (\<lambda>e w. (Inl (socket_from_win32 e), socket_drop s (emit (Unregistered s) w)))
             (\<lambda>_ w. (Inr s, w))) ?Q"
    if v: "net_ok w" "w_refs w = f(s := 1)" for w
  proof -
    obtain r op w1 where sub: "submit_connect hr api (connect_new s target) (handle_clone s w) = (r, op, w1)"
      by (cases "submit_connect hr api (connect_new s target) (handle_clone s w)") blast
    have "net_ok (handle_clone s w)" using v by (simp add: sock.clone_ok)
    from submit_connect_keeps [OF fresh this sub] v
    have "net_ok w1" "w_refs w1 = f(s := 2)" "cn_socket op = s" by (auto simp: connect_new_def)
    then have "sock_accounts (f(s := 1)) (connect_finish hr r op w1) (\<lambda>_ rf. rf = f(s := 1))"
      using w(2) by (auto simp: connect_finish_def accounts_def split: sum.splits option.splits)
    then show ?thesis
      unfolding sub prod.case
      by (rule accounts_try_or) (use w(2) in \<open>auto simp: fun_upd_idem intro!: socket_drop_ok sock.emit_ok\<close>)
  qed
  show "sock_accounts f
      (try_or (bind_bytes api s wild w) (\<lambda>e w. (Inl (socket_from_win32 e), socket_drop s w)) (\<lambda>_ w.
       try_or (register api s w) (\<lambda>e w. (Inl (socket_from_registration e), socket_drop s w)) (\<lambda>_ w.
         case submit_connect hr api (connect_new s target) (handle_clone s w) of
           (result, op, w1) \<Rightarrow>
             try_or (connect_finish hr result op w1)
               (\<lambda>e w. (Inl (socket_from_win32 e), socket_drop s (emit (Unregistered s) w)))
               (\<lambda>_ w. (Inr s, w))))) ?Q"
    unfolding bind_bytes_def
    by (rule accounts_try_or [OF last_error_if_accounts [of _ _ "f(s := 1)"]],
        (use w in auto)[5], rule accounts_try_or [OF register_accounts [of _ "f(s := 1)"]])
       (use w(2) conn in auto)
qed simp

section \<open>Binding\<close>

text \<open>A step of a function that owns one new socket and drops it on every error.\<close>

lemma guarded_accounts:
  assumes "sock_accounts (f(s := 1)) x (\<lambda>_ r. r = f(s := 1))" "f s = 0" "s \<noteq> INVALID_SOCKET"
    and "\<And>e w. w_refs (snd (fail e w)) = (w_refs w)(s := w_refs w s - 1) \<and> isl (fst (fail e w)) \<and>
      (net_ok w \<and> 0 < w_refs w s \<longrightarrow> net_ok (snd (fail e w)))"
    and "\<And>a w. net_ok w \<Longrightarrow> w_refs w = f(s := 1) \<Longrightarrow> sock_accounts f (k a w) g"
  shows "sock_accounts f (try_or x fail k) g"
proof (rule accounts_try_or [OF assms(1)])
  fix e w assume w: "net_ok w" "w_refs w = f(s := 1)"
  have "w_refs (snd (fail e w)) = f" using assms(4) [of e w] w(2) assms(2) by auto
  moreover have "net_ok (snd (fail e w))" "isl (fst (fail e w))" using assms(4) [of e w] w by auto
  ultimately show "sock_accounts f (fail e w) g" by (auto simp: accounts_def split: sum.splits)
qed (use assms(5) in blast)

lemma tcp_bind_accounts:
  assumes fresh: "fresh_sockets api" and ok: "net_ok w" "w_refs w = f"
  shows "sock_accounts f (tcp_bind_with hr api addr options w)
    (\<lambda>l r. r = f(tcl_socket l := 1) \<and> f (tcl_socket l) = 0 \<and> tcl_socket l \<noteq> INVALID_SOCKET)"
  unfolding tcp_bind_with_def new_overlapped_def Let_def
proof (rule accounts_try_or [OF created_accounts [OF fresh ok]], simp, elim conjE)
  fix s w assume w: "net_ok w" "w_refs w = f(s := 1)" "f s = 0" "s \<noteq> INVALID_SOCKET"
  note g = guarded_accounts [where f = f and s = s, OF _ w(3,4)]
  have v6: "sock_accounts (f(s := 1))
      (case addr of V6 _ _ _ _ \<Rightarrow> set_only_v6 api s (tl_only_v6 options) w | _ \<Rightarrow> (Inr (), w)) (\<lambda>_ r. r = f(s := 1))"
    using w by (auto simp: set_only_v6_def simp del: One_nat_def split: SocketAddr.splits)
  show "sock_accounts f
      (try_or (case addr of V6 _ _ _ _ \<Rightarrow> set_only_v6 api s (tl_only_v6 options) w | _ \<Rightarrow> (Inr (), w))
         (\<lambda>e w. (Inl (socket_from_win32 e), socket_drop s w)) (\<lambda>_ w.
       try_or (bind_to api s addr w) (\<lambda>e w. (Inl (socket_from_win32 e), socket_drop s w)) (\<lambda>_ w.
       try_or (listen_on api s (backlog_argument (tl_backlog options)) w)
         (\<lambda>e w. (Inl (socket_from_win32 e), socket_drop s w)) (\<lambda>_ w.
       try_or (local_addr hr api s w) (\<lambda>e w. (Inl (socket_from_win32 e), socket_drop s w)) (\<lambda>bound w.
       try_or (register api s w) (\<lambda>e w. (Inl (socket_from_registration e), socket_drop s w))
         (\<lambda>_ w. (Inr \<lparr>tcl_socket = s, tcl_local = bound\<rparr>, w)))))))
      (\<lambda>l r. r = f(tcl_socket l := 1) \<and> f (tcl_socket l) = 0 \<and> tcl_socket l \<noteq> INVALID_SOCKET)"
    by (rule g [OF v6], simp add: w(4),
        rule g, force simp: bind_to_def bind_bytes_def, simp add: w(4),
        rule g, force simp: listen_on_def, simp add: w(4),
        rule g, force simp: local_addr_def, simp add: w(4),
        rule g, force, simp add: w(4))
       (use w(3,4) in simp)
qed

lemma unix_bind_accounts:
  assumes fresh: "fresh_sockets api" and ok: "net_ok w" "w_refs w = f"
  shows "sock_accounts f (unix_bind_with hr utf8 api addr options w)
    (\<lambda>l r. r = f(unl_socket l := 1) \<and> f (unl_socket l) = 0 \<and> unl_socket l \<noteq> INVALID_SOCKET)"
  unfolding unix_bind_with_def new_overlapped_unix_def Let_def
proof (rule accounts_try_or [OF created_accounts [OF fresh ok]], simp, elim conjE)
  fix s w assume w: "net_ok w" "w_refs w = f(s := 1)" "f s = 0" "s \<noteq> INVALID_SOCKET"
  note g = guarded_accounts [where f = f and s = s, OF _ w(3,4)]
  have un: "sock_accounts (f(s := 1))
      (if ul_unlink_stale options then unlink_stale_path utf8 api addr w else (Inr (), w)) (\<lambda>_ r. r = f(s := 1))"
    using w by (auto simp: unlink_stale_path_def accounts_def intro: sock.emit_ok split: option.splits sum.splits)
  show "sock_accounts f
      (try_or (if ul_unlink_stale options then unlink_stale_path utf8 api addr w else (Inr (), w))
         (\<lambda>e w. (Inl e, socket_drop s w)) (\<lambda>_ w.
       try_or (bind_bytes api s (from_unix_addr addr) w) (\<lambda>e w. (Inl (socket_from_win32 e), socket_drop s w)) (\<lambda>_ w.
       try_or (listen_on api s (backlog_argument (ul_backlog options)) w)
         (\<lambda>e w. (Inl (socket_from_win32 e), socket_drop s w)) (\<lambda>_ w.
       try_or (local_unix_addr hr api s w) (\<lambda>e w. (Inl (socket_from_win32 e), socket_drop s w)) (\<lambda>bound w.
       try_or (register api s w) (\<lambda>e w. (Inl (socket_from_registration e), socket_drop s w))
         (\<lambda>_ w. (Inr \<lparr>unl_socket = s, unl_local = bound\<rparr>, w)))))))
      (\<lambda>l r. r = f(unl_socket l := 1) \<and> f (unl_socket l) = 0 \<and> unl_socket l \<noteq> INVALID_SOCKET)"
    by (rule g [OF un], simp add: w(4),
        rule g, force simp: bind_bytes_def, simp add: w(4),
        rule g, force simp: listen_on_def, simp add: w(4),
        rule g, force simp: local_unix_addr_def, simp add: w(4),
        rule g, force, simp add: w(4))
       (use w(3,4) in simp)
qed

section \<open>Programs\<close>

text \<open>The objects a program holds, and what it can do with them; an index past the end does nothing.\<close>

record net_prog =
  np_streams :: "nat list"
  np_tcp :: "TcpListener list"
  np_unix :: "UnixListener list"
  np_world :: net_world

datatype net_act =
    BindTcp SocketAddr TcpListenerOptions | BindUnix UnixSocketAddr UnixListenerOptions
  | AcceptTcp nat | AcceptUnix nat | ConnectTcp SocketAddr | ConnectUnix UnixSocketAddr
  | ShutdownStream nat Shutdown | DropStream nat | DropTcp nat | DropUnix nat

definition without :: "nat \<Rightarrow> 'a list \<Rightarrow> 'a list" where
  "without i xs = take i xs @ drop (Suc i) xs"

fun net_do :: "(u32 \<Rightarrow> hresult) \<Rightarrow> (u8 list \<Rightarrow> u8 list option) \<Rightarrow> net_api \<Rightarrow> net_act \<Rightarrow> net_prog \<Rightarrow> net_prog" where
  "net_do hr utf8 api (BindTcp addr options) p =
     (case tcp_bind_with hr api addr options (np_world p) of
        (Inl _, w) \<Rightarrow> p\<lparr>np_world := w\<rparr>
      | (Inr l, w) \<Rightarrow> p\<lparr>np_tcp := l # np_tcp p, np_world := w\<rparr>)"
| "net_do hr utf8 api (BindUnix addr options) p =
     (case unix_bind_with hr utf8 api addr options (np_world p) of
        (Inl _, w) \<Rightarrow> p\<lparr>np_world := w\<rparr>
      | (Inr l, w) \<Rightarrow> p\<lparr>np_unix := l # np_unix p, np_world := w\<rparr>)"
| "net_do hr utf8 api (AcceptTcp i) p =
     (if i < length (np_tcp p)
      then case tcp_accept hr api (np_tcp p ! i) (np_world p) of
          (Inl _, w) \<Rightarrow> p\<lparr>np_world := w\<rparr>
        | (Inr (s, _), w) \<Rightarrow> p\<lparr>np_streams := s # np_streams p, np_world := w\<rparr>
      else p)"
| "net_do hr utf8 api (AcceptUnix i) p =
     (if i < length (np_unix p)
      then case unix_accept hr api (np_unix p ! i) (np_world p) of
          (Inl _, w) \<Rightarrow> p\<lparr>np_world := w\<rparr>
        | (Inr (s, _), w) \<Rightarrow> p\<lparr>np_streams := s # np_streams p, np_world := w\<rparr>
      else p)"
| "net_do hr utf8 api (ConnectTcp addr) p =
     (case tcp_connect hr api addr (np_world p) of
        (Inl _, w) \<Rightarrow> p\<lparr>np_world := w\<rparr>
      | (Inr s, w) \<Rightarrow> p\<lparr>np_streams := s # np_streams p, np_world := w\<rparr>)"
| "net_do hr utf8 api (ConnectUnix addr) p =
     (case unix_connect hr api addr (np_world p) of
        (Inl _, w) \<Rightarrow> p\<lparr>np_world := w\<rparr>
      | (Inr s, w) \<Rightarrow> p\<lparr>np_streams := s # np_streams p, np_world := w\<rparr>)"
| "net_do hr utf8 api (ShutdownStream i how) p =
     (if i < length (np_streams p)
      then p\<lparr>np_world := snd (stream_shutdown api (np_streams p ! i) how (np_world p))\<rparr> else p)"
| "net_do hr utf8 api (DropStream i) p =
     (if i < length (np_streams p)
      then p\<lparr>np_streams := without i (np_streams p), np_world := stream_drop api (np_streams p ! i) (np_world p)\<rparr>
      else p)"
| "net_do hr utf8 api (DropTcp i) p =
     (if i < length (np_tcp p)
      then p\<lparr>np_tcp := without i (np_tcp p), np_world := listener_drop api (tcl_socket (np_tcp p ! i)) (np_world p)\<rparr>
      else p)"
| "net_do hr utf8 api (DropUnix i) p =
     (if i < length (np_unix p)
      then p\<lparr>np_unix := without i (np_unix p), np_world := listener_drop api (unl_socket (np_unix p ! i)) (np_world p)\<rparr>
      else p)"

definition net_run ::
  "(u32 \<Rightarrow> hresult) \<Rightarrow> (u8 list \<Rightarrow> u8 list option) \<Rightarrow> net_api \<Rightarrow> net_act list \<Rightarrow> net_prog \<Rightarrow> net_prog" where
  "net_run hr utf8 api acts p = fold (net_do hr utf8 api) acts p"

definition net_start :: net_prog where
  "net_start = \<lparr>np_streams = [], np_tcp = [], np_unix = [],
     np_world = \<lparr>w_log = [], w_refs = (\<lambda>_. 0), nw_status = None, nw_ext = False\<rparr>\<rparr>"

definition held :: "net_prog \<Rightarrow> nat list" where
  "held p = np_streams p @ map tcl_socket (np_tcp p) @ map unl_socket (np_unix p)"

definition prog_ok :: "net_prog \<Rightarrow> bool" where
  "prog_ok p \<longleftrightarrow> net_ok (np_world p) \<and> distinct (held p) \<and> INVALID_SOCKET \<notin> set (held p) \<and>
     w_refs (np_world p) = (\<lambda>s. if s \<in> set (held p) then 1 else 0)"

lemma prog_ok_world:
  assumes "prog_ok p" "net_ok w" "w_refs w = w_refs (np_world p)"
  shows "prog_ok (p\<lparr>np_world := w\<rparr>)"
  using assms by (simp add: prog_ok_def held_def)

text \<open>One more owner, and one less.\<close>

lemma prog_ok_gain:
  assumes "prog_ok p" "net_ok w" "w_refs w = (w_refs (np_world p))(s := 1)" "w_refs (np_world p) s = 0"
    and "s \<noteq> INVALID_SOCKET" "mset (held p') = add_mset s (mset (held p))" "np_world p' = w"
  shows "prog_ok p'"
proof -
  have s: "s \<notin> set (held p)" using assms(1,4) by (auto simp: prog_ok_def split: if_splits)
  have set': "set (held p') = insert s (set (held p))" using assms(6) by (metis set_mset_add_mset_insert set_mset_mset)
  have "distinct (held p')"
    using assms(1,6) s by (simp add: prog_ok_def distinct_count_atmost_1 set' flip: set_mset_mset)
  then show ?thesis using assms s by (auto simp: prog_ok_def set' fun_eq_iff)
qed

lemma prog_ok_lose:
  assumes "prog_ok p" "net_ok w" "w_refs w = (w_refs (np_world p))(s := w_refs (np_world p) s - 1)"
    and "mset (held p) = add_mset s (mset (held p'))" "np_world p' = w"
  shows "prog_ok p'"
proof -
  have set': "set (held p) = insert s (set (held p'))" using assms(4) by (metis set_mset_add_mset_insert set_mset_mset)
  have "distinct (s # held p')" using assms(1,4) by (metis distinct_count_atmost_1 mset.simps(2) prog_ok_def set_mset_mset)
  then show ?thesis using assms by (auto simp: prog_ok_def set' fun_eq_iff)
qed

lemma mset_without: "i < length xs \<Longrightarrow> mset xs = add_mset (xs ! i) (mset (without i xs))"
  by (subst id_take_nth_drop) (simp_all add: without_def)

lemma map_without: "map f (without i xs) = without i (map f xs)"
  by (simp add: without_def take_map drop_map)

lemma teardown_ok:
  assumes "net_ok w" "0 < w_refs w s" "s \<noteq> INVALID_SOCKET"
  shows "net_ok (socket_drop s (emit (Unregistered s) (snd (cancel_all_io api s w))))"
    "w_refs (socket_drop s (emit (Unregistered s) (snd (cancel_all_io api s w)))) = (w_refs w)(s := w_refs w s - 1)"
  using assms
  by (auto simp: cancel_all_io_def last_error_if_def intro!: socket_drop_ok sock.emit_ok)

lemma gain_step:
  assumes ok: "prog_ok p"
    and acc: "sock_accounts (w_refs (np_world p)) x (\<lambda>a r. r = (w_refs (np_world p))(sock a := 1) \<and>
      w_refs (np_world p) (sock a) = 0 \<and> sock a \<noteq> INVALID_SOCKET)"
    and gain: "\<And>a w. mset (held (add a w)) = add_mset (sock a) (mset (held p)) \<and> np_world (add a w) = w"
  shows "prog_ok (case x of (Inl _, w) \<Rightarrow> p\<lparr>np_world := w\<rparr> | (Inr a, w) \<Rightarrow> add a w)"
proof (cases x)
  case (Pair r w)
  show ?thesis
  proof (cases r)
    case (Inl e)
    with Pair acc ok show ?thesis by (auto intro: prog_ok_world)
  next
    case (Inr a)
    with Pair acc have "net_ok w" "w_refs w = (w_refs (np_world p))(sock a := 1)" "w_refs (np_world p) (sock a) = 0"
      "sock a \<noteq> INVALID_SOCKET" by auto
    from prog_ok_gain [OF ok this] gain [of a w] Pair Inr show ?thesis by simp
  qed
qed

lemma lose_step:
  assumes ok: "prog_ok p" and m: "mset (held p) = add_mset s (mset (held p'))"
    and w: "np_world p' = socket_drop s (emit (Unregistered s) (snd (cancel_all_io api s (np_world p))))"
  shows "prog_ok p'"
proof -
  have "s \<in> set (held p)" using m by (metis set_mset_mset union_single_eq_member)
  then have "0 < w_refs (np_world p) s" "s \<noteq> INVALID_SOCKET" "net_ok (np_world p)" using ok by (auto simp: prog_ok_def)
  with teardown_ok [of "np_world p" s api] prog_ok_lose [OF ok _ _ m] w show ?thesis by simp
qed

lemma held_owned: "prog_ok p \<Longrightarrow> s \<in> set (held p) \<Longrightarrow> 0 < w_refs (np_world p) s \<and> s \<noteq> INVALID_SOCKET"
  by (auto simp: prog_ok_def)

lemma net_do_ok:
  assumes fresh: "fresh_sockets api" and ok: "prog_ok p"
  shows "prog_ok (net_do hr utf8 api act p)"
proof -
  have w: "net_ok (np_world p)" using ok by (simp add: prog_ok_def)
  note acc = fresh w refl
  have stream: "mset (held (p\<lparr>np_streams := s # np_streams p, np_world := v\<rparr>)) = add_mset s (mset (held p))" for s v
    by (simp add: held_def)
  show ?thesis
  proof (cases act)
    case (BindTcp addr options)
    show ?thesis unfolding BindTcp net_do.simps
      by (rule gain_step [where sock = tcl_socket, OF ok tcp_bind_accounts [OF acc]]) (simp add: held_def)
  next
    case (BindUnix addr options)
    show ?thesis unfolding BindUnix net_do.simps
      by (rule gain_step [where sock = unl_socket, OF ok unix_bind_accounts [OF acc]]) (simp add: held_def)
  next
    case (AcceptTcp i)
    have "prog_ok (case tcp_accept hr api (np_tcp p ! i) (np_world p) of (Inl _, w) \<Rightarrow> p\<lparr>np_world := w\<rparr>
        | (Inr a, w) \<Rightarrow> p\<lparr>np_streams := fst a # np_streams p, np_world := w\<rparr>)" if "i < length (np_tcp p)"
      unfolding tcp_accept_def new_overlapped_def
      by (rule gain_step [where sock = fst, OF ok accounts_mono [OF accept_with_accounts [OF acc]]])
         (use held_owned [OF ok, of "tcl_socket (np_tcp p ! i)"] that stream in \<open>auto simp: held_def\<close>)
    then show ?thesis using ok by (auto simp: AcceptTcp split: prod.splits sum.splits)
  next
    case (AcceptUnix i)
    have "prog_ok (case unix_accept hr api (np_unix p ! i) (np_world p) of (Inl _, w) \<Rightarrow> p\<lparr>np_world := w\<rparr>
        | (Inr a, w) \<Rightarrow> p\<lparr>np_streams := fst a # np_streams p, np_world := w\<rparr>)" if "i < length (np_unix p)"
      unfolding unix_accept_def new_overlapped_unix_def
      by (rule gain_step [where sock = fst, OF ok accounts_mono [OF accept_with_accounts [OF acc]]])
         (use held_owned [OF ok, of "unl_socket (np_unix p ! i)"] that stream in \<open>auto simp: held_def\<close>)
    then show ?thesis using ok by (auto simp: AcceptUnix split: prod.splits sum.splits)
  next
    case (ConnectTcp addr)
    show ?thesis unfolding ConnectTcp net_do.simps tcp_connect_def new_overlapped_def
      by (rule gain_step [where sock = "\<lambda>s. s", OF ok connect_with_accounts [OF acc]]) (simp add: stream)
  next
    case (ConnectUnix addr)
    show ?thesis unfolding ConnectUnix net_do.simps unix_connect_def new_overlapped_unix_def
      by (rule gain_step [where sock = "\<lambda>s. s", OF ok connect_with_accounts [OF acc]]) (simp add: stream)
  next
    case (ShutdownStream i how)
    have "sock_accounts (w_refs (np_world p)) (stream_shutdown api s how (np_world p)) (\<lambda>_ r. r = w_refs (np_world p))" for s
      unfolding stream_shutdown_def shutdown_dir_def
      by (rule accounts_try_or [OF last_error_if_accounts [OF w _ _ refl]]) simp_all
    then show ?thesis using ok by (auto simp: ShutdownStream accounts_def intro: prog_ok_world split: sum.splits)
  next
    case (DropStream i)
    then show ?thesis using ok mset_without [of i "np_streams p"]
      by (auto simp: stream_drop_def held_def intro: lose_step [OF ok])
  next
    case (DropTcp i)
    then show ?thesis using ok mset_without [of i "map tcl_socket (np_tcp p)"]
      by (auto simp: listener_drop_def held_def map_without intro!: lose_step [OF ok])
  next
    case (DropUnix i)
    then show ?thesis using ok mset_without [of i "map unl_socket (np_unix p)"]
      by (auto simp: listener_drop_def held_def map_without intro!: lose_step [OF ok])
  qed
qed

lemma net_run_ok: "fresh_sockets api \<Longrightarrow> prog_ok p \<Longrightarrow> prog_ok (net_run hr utf8 api acts p)"
  by (induction acts arbitrary: p) (simp_all add: net_run_def net_do_ok)

lemma net_start_ok: "prog_ok net_start"
  by (simp add: prog_ok_def net_start_def held_def world_ok_def)

section \<open>What happened to one socket\<close>

fun about :: "nat \<Rightarrow> sock_ev \<Rightarrow> bool" where
  "about s (Opened x _ _) \<longleftrightarrow> x = s"
| "about s (Closed x) \<longleftrightarrow> x = s"
| "about s (Bound x _) \<longleftrightarrow> x = s"
| "about s (Listening x _) \<longleftrightarrow> x = s"
| "about s (OptionSet x _ _ _) \<longleftrightarrow> x = s"
| "about s (Shut x _) \<longleftrightarrow> x = s"
| "about s (CancelledAll x) \<longleftrightarrow> x = s"
| "about s (Registered x) \<longleftrightarrow> x = s"
| "about s (Unregistered x) \<longleftrightarrow> x = s"
| "about s (NameRead x _) \<longleftrightarrow> x = s"
| "about s (ExtensionRead x _) \<longleftrightarrow> x = s"
| "about s (AcceptStarted _ x) \<longleftrightarrow> x = s"
| "about s (ConnectStarted x _) \<longleftrightarrow> x = s"
| "about s (AddressesRead x) \<longleftrightarrow> x = s"
| "about s Startup \<longleftrightarrow> False"
| "about s (PathRemoved _) \<longleftrightarrow> False"

definition happened :: "nat \<Rightarrow> net_world \<Rightarrow> net_world \<Rightarrow> sock_ev list \<Rightarrow> bool" where
  "happened s w w' es \<longleftrightarrow> (\<exists>new. w_log w' = w_log w @ new \<and> filter (about s) new = es)"

lemma happened_same: "w_log w' = w_log w \<Longrightarrow> happened s w w' []"
  by (simp add: happened_def)

lemma happened_emit: "happened s w (emit e w) (if about s e then [e] else [])"
  by (simp add: happened_def)

lemma happened_trans: "happened s w w1 a \<Longrightarrow> happened s w1 w2 b \<Longrightarrow> happened s w w2 (a @ b)"
  by (auto simp: happened_def)

lemma happened_drop_other: "x \<noteq> s \<Longrightarrow> happened s w (socket_drop x w) []"
  by (auto simp: happened_def socket_drop_def log_drop)

lemma happened_keep: "1 < w_refs w s \<Longrightarrow> happened s w (socket_drop s w) []"
  by (auto simp: happened_def socket_drop_def log_drop)

lemma quiet_emit: "happened s w v [] \<Longrightarrow> \<not> about s e \<Longrightarrow> happened s w (emit e v) []"
  using happened_trans [OF _ happened_emit, of s w v "[]" e] by simp

lemma quiet_drop: "happened s w v [] \<Longrightarrow> x \<noteq> s \<Longrightarrow> happened s w (socket_drop x v) []"
  using happened_trans [OF _ happened_drop_other, of s w v "[]" x] by simp

lemma ensure_happened:
  assumes "ensure_winsock hr api w = (x, w')"
  shows "happened s w w' []"
proof -
  have "w_log w' = w_log w \<or> w_log w' = w_log w @ [Startup]"
    using assms by (auto simp: ensure_winsock_def Let_def split: option.splits if_splits)
  then show ?thesis by (auto simp: happened_def)
qed

text \<open>
  Events are logged whether or not the call succeeded. \<open>call_succeeded\<close> is what the platform answered to a call made
  after a given log; a started operation succeeds by the result it completes with, inline or later. \<open>made_calls\<close> is
  \<open>happened\<close> with every one of the events of the socket a success.
\<close>

definition start_outcome :: "(u32 \<Rightarrow> hresult) \<Rightarrow> net_api \<Rightarrow> sock_ev list \<Rightarrow> sock_ev \<Rightarrow> hresult + nat" where
  "start_outcome hr api log call =
     (let k = na_start api log call
      in case win32_result hr (k_ok k) k of Ready r \<Rightarrow> r | Pending \<Rightarrow> k_result k)"

fun call_succeeded :: "(u32 \<Rightarrow> hresult) \<Rightarrow> net_api \<Rightarrow> sock_ev list \<Rightarrow> sock_ev \<Rightarrow> bool" where
  "call_succeeded hr api log (Opened s fam protocol) \<longleftrightarrow> na_socket api log fam protocol = Inr s"
| "call_succeeded hr api log (Registered s) \<longleftrightarrow> na_register api log s = Inr ()"
| "call_succeeded hr api log (AcceptStarted l s) \<longleftrightarrow> \<not> isl (start_outcome hr api log (AcceptStarted l s))"
| "call_succeeded hr api log (ConnectStarted s a) \<longleftrightarrow> \<not> isl (start_outcome hr api log (ConnectStarted s a))"
| "call_succeeded hr api log (AddressesRead s) \<longleftrightarrow>
     (case na_addrs api log of ((lp, ln), (pp, pn)) \<Rightarrow> copy_from_raw lp ln \<noteq> None \<and> copy_from_raw pp pn \<noteq> None)"
| "call_succeeded hr api log call \<longleftrightarrow> na_call api log call = None"

fun all_succeeded :: "(u32 \<Rightarrow> hresult) \<Rightarrow> net_api \<Rightarrow> nat \<Rightarrow> sock_ev list \<Rightarrow> sock_ev list \<Rightarrow> bool" where
  "all_succeeded hr api s log [] = True"
| "all_succeeded hr api s log (e # new) \<longleftrightarrow>
     (about s e \<longrightarrow> call_succeeded hr api log e) \<and> all_succeeded hr api s (log @ [e]) new"

definition made_calls :: "(u32 \<Rightarrow> hresult) \<Rightarrow> net_api \<Rightarrow> nat \<Rightarrow> net_world \<Rightarrow> net_world \<Rightarrow> sock_ev list \<Rightarrow> bool" where
  "made_calls hr api s w w' es \<longleftrightarrow>
     (\<exists>new. w_log w' = w_log w @ new \<and> filter (about s) new = es \<and> all_succeeded hr api s (w_log w) new)"

lemma all_succeeded_append:
  "all_succeeded hr api s log (a @ b) \<longleftrightarrow> all_succeeded hr api s log a \<and> all_succeeded hr api s (log @ a) b"
  by (induction a arbitrary: log) auto

lemma all_succeeded_quiet: "filter (about s) new = [] \<Longrightarrow> all_succeeded hr api s log new"
  by (induction new arbitrary: log) (auto split: if_splits)

lemma made_quiet: "happened s w w' [] \<Longrightarrow> made_calls hr api s w w' []"
  by (auto simp: happened_def made_calls_def all_succeeded_quiet)

lemma made_trans: "made_calls hr api s w w1 a \<Longrightarrow> made_calls hr api s w1 w2 b \<Longrightarrow> made_calls hr api s w w2 (a @ b)"
  by (auto simp: made_calls_def all_succeeded_append)

lemma made_emit:
  "about s e \<Longrightarrow> call_succeeded hr api (w_log w) e \<Longrightarrow> w_log w' = w_log w @ [e] \<Longrightarrow> made_calls hr api s w w' [e]"
  by (simp add: made_calls_def)

lemma created_made:
  assumes "new_overlapped_with hr api fam protocol w = (Inr s, w')"
  shows "made_calls hr api s w w' [Opened s fam protocol]"
proof -
  from assms obtain w1 where w1: "ensure_winsock hr api w = (Inr (), w1)" "na_socket api (w_log w1) fam protocol = Inr s"
    "w' = handle_from_raw s (emit (Opened s fam protocol) w1)"
    unfolding new_overlapped_with_def by (elim try_or_Inr) (auto split: sum.splits)
  have "made_calls hr api s w1 w' [Opened s fam protocol]" by (rule made_emit) (simp_all add: w1(2,3))
  with made_trans [OF made_quiet [OF ensure_happened [OF w1(1)]]] show ?thesis by fastforce
qed

text \<open>Looking up the extension functions touches a probe of its own, and no socket that is open.\<close>

lemma created_other:
  assumes "fresh_sockets api" "net_ok w" "0 < w_refs w s" "new_overlapped_with hr api fam protocol w = (x, w')"
  shows "happened s w w' [] \<and> net_ok w' \<and> (\<forall>p. x = Inr p \<longrightarrow> p \<noteq> s)"
proof -
  have ok: "net_ok w'" "\<And>p. x = Inr p \<Longrightarrow> p \<noteq> s"
    using created_accounts [OF assms(1,2) refl, of hr fam protocol] assms(3,4) by (auto simp: accounts_def split: sum.splits)
  obtain y w1 where e: "ensure_winsock hr api w = (y, w1)" by fastforce
  have "happened s w w' []"
  proof (cases "\<exists>p. x = Inr p")
    case True
    then obtain p where p: "x = Inr p" by blast
    then have "w_log w' = w_log w1 @ [Opened p fam protocol]"
      using assms(4) e by (auto simp: new_overlapped_with_def try_or_def split: sum.splits)
    with ensure_happened [OF e, of s] ok(2) [OF p] show ?thesis by (auto simp: happened_def)
  next
    case False
    then have "w' = w1"
      using assms(4) e unfolding new_overlapped_with_def
      by (cases "na_socket api (w_log w1) fam protocol"; cases y; simp; metis prod.inject)
    with ensure_happened [OF e] show ?thesis by simp
  qed
  with ok show ?thesis by blast
qed

lemma resolve_happened:
  assumes "fresh_sockets api" "net_ok w" "0 < w_refs w s" "resolve hr api w = (x, w')"
  shows "happened s w w' []"
proof -
  obtain y w1 where c: "new_overlapped hr api AF_INET w = (y, w1)" by fastforce
  note w1 = created_other [OF assms(1-3) c [unfolded new_overlapped_def]]
  show ?thesis
  proof (cases y)
    case (Inl e)
    with assms(4) c w1 show ?thesis by (simp add: resolve_def)
  next
    case (Inr p)
    then have ne: "p \<noteq> s" using w1 by blast
    let ?a = "emit (ExtensionRead p 0) w1"
    let ?b = "emit (ExtensionRead p 1) ?a"
    have "w' \<in> socket_drop p ` {?a, ?b, emit (ExtensionRead p 2) ?b}"
      using assms(4) c Inr unfolding resolve_def lookup_def try_or_def Let_def by (auto split: sum.splits if_splits)
    then show ?thesis
      using w1 ne by (auto intro!: quiet_drop quiet_emit)
  qed
qed

lemma extensions_happened:
  assumes "fresh_sockets api" "net_ok w" "0 < w_refs w s" "extensions hr api w = (x, w')"
  shows "happened s w w' [] \<and> net_ok w' \<and> w_refs w' = w_refs w"
proof -
  have "net_ok w' \<and> w_refs w' = w_refs w"
    using extensions_accounts [OF assms(1,2) refl, of hr] assms(4) by (auto simp: accounts_def split: sum.splits)
  moreover have "happened s w w' []"
  proof (cases "nw_ext w")
    case True
    with assms(4) show ?thesis by (simp add: extensions_def happened_same)
  next
    case False
    obtain y w1 where r: "resolve hr api w = (y, w1)" by fastforce
    with False assms(4) have "w_log w' = w_log w1" by (auto simp: extensions_def try_or_def split: sum.splits)
    with resolve_happened [OF assms(1-3) r] show ?thesis by (simp add: happened_def)
  qed
  ultimately show ?thesis by blast
qed

text \<open>The completion hook makes its call exactly once, though an inline success runs it twice.\<close>

lemma submit_connect_once:
  assumes "submit_connect hr api (connect_new s target) w = (Inr n, op', w')"
  shows "\<exists>w1 x. extensions hr api w = (Inr (), w1) \<and> op' = (connect_new s target)\<lparr>cn_updated := Some x\<rparr> \<and>
    w' = emit (OptionSet s SOL_SOCKET SO_UPDATE_CONNECT_CONTEXT None) (emit (ConnectStarted s target) w1) \<and>
    \<not> isl (start_outcome hr api (w_log w1) (ConnectStarted s target)) \<and>
    (x = Inr () \<longrightarrow> na_call api (w_log w1 @ [ConnectStarted s target])
       (OptionSet s SOL_SOCKET SO_UPDATE_CONNECT_CONTEXT None) = None)"
  using assms
  by (auto simp: submit_connect_def connect_operate_def connect_record_completion_def update_connect_context_def
      last_error_if_def connect_new_def start_outcome_def Let_def
      split: sum.splits prod.splits poll.splits option.splits if_splits)

lemma submit_accept_once:
  assumes "submit_accept hr api (accept_new l s) w = (Inr n, op', w')" "ac_outcome op' = Some (Inr (la, pa))"
  shows "\<exists>w1 w2. extensions hr api w = (Inr (), w1) \<and> ac_accepted op' = s \<and> ac_listener op' = l \<and>
    extensions hr api (emit (OptionSet s SOL_SOCKET SO_UPDATE_ACCEPT_CONTEXT (Some l)) (emit (AcceptStarted l s) w1)) = (Inr (), w2) \<and>
    w' = emit (AddressesRead s) w2 \<and>
    (case na_addrs api (w_log w2) of ((lp, ln), (pp, pn)) \<Rightarrow> copy_from_raw lp ln = Some la \<and> copy_from_raw pp pn = Some pa) \<and>
    \<not> isl (start_outcome hr api (w_log w1) (AcceptStarted l s)) \<and>
    na_call api (w_log w1 @ [AcceptStarted l s]) (OptionSet s SOL_SOCKET SO_UPDATE_ACCEPT_CONTEXT (Some l)) = None"
  using assms
  by (auto simp: submit_accept_def accept_operate_def accept_record_completion_def take_addresses_def
      update_accept_context_def last_error_if_def accept_new_def try_or_def start_outcome_def Let_def
      split: sum.splits prod.splits poll.splits option.splits if_splits)

text \<open>The two calls of the completion, one after the other.\<close>

lemma made_two:
  assumes "about s a" "about s b" "call_succeeded hr api (w_log w) a" "call_succeeded hr api (w_log w @ [a]) b"
    and "w_log w' = w_log w @ [a, b]"
  shows "made_calls hr api s w w' [a, b]"
  using assms by (simp add: made_calls_def)

lemma connected_happened:
  assumes fresh: "fresh_sockets api" and ok: "net_ok w"
    and c: "connect_with hr api wild target (new_overlapped_with hr api fam protocol w) = (Inr s, w')"
  shows "made_calls hr api s w w' [Opened s fam protocol, Bound s wild, Registered s, ConnectStarted s target,
    OptionSet s SOL_SOCKET SO_UPDATE_CONNECT_CONTEXT None]"
proof -
  from c obtain w1 where w1: "new_overlapped_with hr api fam protocol w = (Inr s, w1)"
    "try_or (bind_bytes api s wild w1) (\<lambda>e w. (Inl (socket_from_win32 e), socket_drop s w)) (\<lambda>_ w.
       try_or (register api s w) (\<lambda>e w. (Inl (socket_from_registration e), socket_drop s w)) (\<lambda>_ w.
         case submit_connect hr api (connect_new s target) (handle_clone s w) of
           (result, op, w1) \<Rightarrow>
             try_or (connect_finish hr result op w1)
               (\<lambda>e w. (Inl (socket_from_win32 e), socket_drop s (emit (Unregistered s) w)))
               (\<lambda>_ w. (Inr s, w)))) = (Inr s, w')"
    unfolding connect_with_def
    by (elim try_or_Inr) (simp_all split: prod.splits, elim try_or_Inr, auto split: prod.splits elim!: try_or_Inr)
  have ok1: "net_ok w1" "w_refs w1 s = 1"
    using created_accounts [OF fresh ok refl, of hr fam protocol] w1(1) by auto
  from w1(2) obtain w2 r op w5 where w2: "bind_bytes api s wild w1 = (Inr (), w2)"
    "register api s w2 = (Inr (), emit (Registered s) w2)" "na_register api (w_log w2) s = Inr ()"
    "submit_connect hr api (connect_new s target) (handle_clone s (emit (Registered s) w2)) = (r, op, w5)"
    "connect_finish hr r op w5 = (Inr (), w')"
    by (elim try_or_Inr) (auto simp: register_def split: prod.splits sum.splits elim!: try_or_Inr)
  have e2: "w2 = emit (Bound s wild) w1" "na_call api (w_log w1) (Bound s wild) = None"
    using w2(1) by (auto simp: bind_bytes_def last_error_if_def split: option.splits)
  let ?w3 = "handle_clone s (emit (Registered s) w2)"
  have ok3: "net_ok ?w3" "0 < w_refs ?w3 s" using ok1 e2 by (auto intro!: sock.clone_ok sock.emit_ok)
  from w2(5) obtain n where n: "r = Inr n" by (auto simp: connect_finish_def split: sum.splits)
  from submit_connect_once [OF w2(4) [unfolded n]] obtain w4 x where
    w4: "extensions hr api ?w3 = (Inr (), w4)" "op = (connect_new s target)\<lparr>cn_updated := Some x\<rparr>"
      "w5 = emit (OptionSet s SOL_SOCKET SO_UPDATE_CONNECT_CONTEXT None) (emit (ConnectStarted s target) w4)"
      "\<not> isl (start_outcome hr api (w_log w4) (ConnectStarted s target))"
      "x = Inr () \<longrightarrow> na_call api (w_log w4 @ [ConnectStarted s target])
         (OptionSet s SOL_SOCKET SO_UPDATE_CONNECT_CONTEXT None) = None" by blast
  have x: "x = Inr ()" using w2(5) w4(2) n by (simp add: connect_finish_def)
  note q = extensions_happened [OF fresh ok3 w4(1)]
  have "w' = socket_drop s w5" "1 < w_refs w5 s"
    using w2(5) w4(2,3) q ok1 e2 by (auto simp: connect_finish_def connect_new_def)
  then have last: "made_calls hr api s w5 w' []" by (simp add: made_quiet happened_keep)
  have bind: "made_calls hr api s w1 ?w3 [Bound s wild, Registered s]"
    by (rule made_two) (use e2 w2(3) in simp_all)
  have mid: "made_calls hr api s w4 w5 [ConnectStarted s target, OptionSet s SOL_SOCKET SO_UPDATE_CONNECT_CONTEXT None]"
    by (rule made_two) (use w4(3-5) x in simp_all)
  from made_trans [OF made_trans [OF made_trans [OF created_made [OF w1(1)] bind] made_quiet [OF conjunct1 [OF q]]]
      made_trans [OF mid last]] show ?thesis by simp
qed

lemma accepted_happened:
  assumes fresh: "fresh_sockets api" and ok: "net_ok w" and l: "0 < w_refs w l"
    and c: "accept_with hr api to l (new_overlapped_with hr api fam protocol w) = (Inr (s, peer), w')"
  shows "made_calls hr api s w w' [Opened s fam protocol, AcceptStarted l s,
      OptionSet s SOL_SOCKET SO_UPDATE_ACCEPT_CONTEXT (Some l), AddressesRead s, Registered s] \<and>
    (\<exists>pre post local pp pn. w_log w' = w_log w @ pre @ AddressesRead s # post \<and>
       na_addrs api (w_log w @ pre) = (local, (pp, pn)) \<and> Option.bind (copy_from_raw pp pn) to = Some peer)"
proof -
  from c obtain s' w1 where w1: "new_overlapped_with hr api fam protocol w = (Inr s', w1)"
    "(case submit_accept hr api (accept_new l s') (handle_clone l w1) of
         (result, op, w1) \<Rightarrow>
           try_or (accept_finish api result op w1) (\<lambda>e w. (Inl (socket_from_win32 e), w)) (\<lambda>(socket, peer_bytes) w.
             case to peer_bytes of
               None \<Rightarrow> (Inl (socket_from_win32 (unsupported_family hr)), socket_drop socket w)
             | Some peer \<Rightarrow>
                 try_or (register api socket w)
                   (\<lambda>e w. (Inl (socket_from_registration e), socket_drop socket w))
                   (\<lambda>_ w. (Inr (socket, peer), w)))) = (Inr (s, peer), w')"
    unfolding accept_with_def by (elim try_or_Inr) auto
  have ok1: "net_ok w1" "w_refs w1 s' = 1" "w_refs w1 l = w_refs w l" "l \<noteq> s'"
    using created_accounts [OF fresh ok refl, of hr fam protocol] w1(1) l by auto
  obtain r op w4 where sub: "submit_accept hr api (accept_new l s') (handle_clone l w1) = (r, op, w4)"
    by (cases "submit_accept hr api (accept_new l s') (handle_clone l w1)") blast
  from w1(2) [unfolded sub prod.case] obtain sk pb w5 where f: "accept_finish api r op w4 = (Inr (sk, pb), w5)"
    "(case to pb of None \<Rightarrow> (Inl (socket_from_win32 (unsupported_family hr)), socket_drop sk w5)
      | Some peer \<Rightarrow> try_or (register api sk w5) (\<lambda>e w. (Inl (socket_from_registration e), socket_drop sk w))
          (\<lambda>_ w. (Inr (sk, peer), w))) = (Inr (s, peer), w')"
    by (elim try_or_Inr) auto
  from f(2) have g: "to pb = Some peer" "sk = s" "w' = emit (Registered s) w5" "na_register api (w_log w5) s = Inr ()"
    by (auto simp: register_def split: option.splits sum.splits)
  from f(1) obtain n la where n: "r = Inr n" "ac_outcome op = Some (Inr (la, pb))" "sk = ac_accepted op"
    "w5 = socket_drop (ac_listener op) w4"
    by (auto simp: accept_finish_def Let_def split: sum.splits option.splits)
  from submit_accept_once [OF sub [unfolded n(1)] n(2)] obtain w2 w3 where
    e: "extensions hr api (handle_clone l w1) = (Inr (), w2)" "ac_accepted op = s'" "ac_listener op = l"
      "extensions hr api (emit (OptionSet s' SOL_SOCKET SO_UPDATE_ACCEPT_CONTEXT (Some l)) (emit (AcceptStarted l s') w2)) = (Inr (), w3)"
      "w4 = emit (AddressesRead s') w3"
      "case na_addrs api (w_log w3) of ((lp, ln), (pp, pn)) \<Rightarrow> copy_from_raw lp ln = Some la \<and> copy_from_raw pp pn = Some pb"
      "\<not> isl (start_outcome hr api (w_log w2) (AcceptStarted l s'))"
      "na_call api (w_log w2 @ [AcceptStarted l s']) (OptionSet s' SOL_SOCKET SO_UPDATE_ACCEPT_CONTEXT (Some l)) = None"
    by (elim exE conjE) (rule that)
  have s: "s' = s" using n(3) g(2) e(2) by simp
  have okc: "net_ok (handle_clone l w1)" "0 < w_refs (handle_clone l w1) s" using ok1 l s by (auto intro!: sock.clone_ok)
  note q1 = extensions_happened [OF fresh okc e(1)]
  let ?m = "emit (OptionSet s SOL_SOCKET SO_UPDATE_ACCEPT_CONTEXT (Some l)) (emit (AcceptStarted l s) w2)"
  have okm: "net_ok ?m" "0 < w_refs ?m s" using q1 okc by (auto intro!: sock.emit_ok)
  note q2 = extensions_happened [OF fresh okm e(4) [unfolded s]]
  have last: "made_calls hr api s w5 w' [Registered s]" by (rule made_emit) (use g(3,4) in simp_all)
  have drop: "made_calls hr api s w4 w5 []" using n(4) e(3) ok1(4) s happened_drop_other [of l s] by (auto intro!: made_quiet)
  have first: "made_calls hr api s w w1 [Opened s fam protocol]" by (rule created_made) (use w1(1) s in simp)
  have clone: "made_calls hr api s w1 (handle_clone l w1) []" by (intro made_quiet happened_same) simp
  have start: "made_calls hr api s w2 ?m [AcceptStarted l s, OptionSet s SOL_SOCKET SO_UPDATE_ACCEPT_CONTEXT (Some l)]"
    by (rule made_two) (use e(7,8) s in simp_all)
  have rd: "made_calls hr api s w3 w4 [AddressesRead s]"
    by (rule made_emit) (use e(5,6) s in \<open>auto split: prod.splits\<close>)
  note before = made_trans [OF made_trans [OF made_trans [OF first clone] made_quiet [OF conjunct1 [OF q1]]]
      made_trans [OF start made_quiet [OF conjunct1 [OF q2]]]]
  note after = made_trans [OF drop last]
  obtain pre where pre: "w_log w3 = w_log w @ pre" using before by (auto simp: made_calls_def)
  obtain post where post: "w_log w' = w_log w4 @ post" using after by (auto simp: made_calls_def)
  have log: "w_log w' = w_log w @ pre @ AddressesRead s # post" using pre post e(5) s by simp
  obtain local pp pn where addrs: "na_addrs api (w_log w @ pre) = (local, (pp, pn))" by (metis prod_cases3)
  have peer: "Option.bind (copy_from_raw pp pn) to = Some peer"
    using e(6) addrs g(1) unfolding pre by (cases local) simp
  from made_trans [OF made_trans [OF before rd] after] log addrs peer show ?thesis by auto
qed

section \<open>Properties\<close>

text \<open>
  Property C21. No socket is leaked and none is closed twice, whatever the platform answers: after any program
  of binds, accepts, connects, shutdowns and drops, however each of them succeeded or failed, the sockets that
  are open are exactly those of the streams and listeners the program still holds, each held once. On the way no
  socket was closed while not open, the probe that looks up the extension functions and the sockets of failed
  accepts and connects included.
\<close>

theorem sockets_accounted:
  assumes "fresh_sockets api"
  shows "let p = net_run hr utf8 api acts net_start
    in open_after sock_opens sock_closes (w_log (np_world p)) = Some (set (held p)) \<and> distinct (held p)"
  using net_run_ok [OF assms net_start_ok, of hr utf8 acts] by (simp add: prog_ok_def world_ok_def Let_def)

text \<open>
  Property C22. A stream is handed out only when it can be used, and its calls come in the order Winsock asks
  for, whatever the platform answers: a connected socket was created for the family of its target, bound to the
  wildcard, registered, connected, and then told of it (\<^verbatim>\<open>SO_UPDATE_CONNECT_CONTEXT\<close>); an accepted one was
  created, accepted, told of its listener (\<^verbatim>\<open>SO_UPDATE_ACCEPT_CONTEXT\<close>) before its addresses were read, and then
  registered. Each of these succeeded, the started operation by the result it completed with, and happened exactly
  once, though the completion hook runs twice when the operation completes at once; nothing else happened to the
  socket in between; and the peer that is returned is the one the platform wrote when the addresses were read.
\<close>

theorem streams_ready_in_order:
  assumes "fresh_sockets api" "net_ok w" "0 < w_refs w (tcl_socket l)"
  shows "(\<forall>s w'. tcp_connect hr api addr w = (Inr s, w') \<longrightarrow>
      made_calls hr api s w w' [Opened s (family_of addr) IPPROTO_TCP, Bound s (from_socket_addr (wildcard_for addr)),
        Registered s, ConnectStarted s (from_socket_addr addr), OptionSet s SOL_SOCKET SO_UPDATE_CONNECT_CONTEXT None]) \<and>
    (\<forall>s peer w'. tcp_accept hr api l w = (Inr (s, peer), w') \<longrightarrow>
      made_calls hr api s w w' [Opened s (family_of (tcl_local l)) IPPROTO_TCP, AcceptStarted (tcl_socket l) s,
        OptionSet s SOL_SOCKET SO_UPDATE_ACCEPT_CONTEXT (Some (tcl_socket l)), AddressesRead s, Registered s] \<and>
      (\<exists>pre post local pp pn. w_log w' = w_log w @ pre @ AddressesRead s # post \<and>
        na_addrs api (w_log w @ pre) = (local, (pp, pn)) \<and>
        Option.bind (copy_from_raw pp pn) to_socket_addr = Some peer))"
  unfolding tcp_connect_def tcp_accept_def new_overlapped_def
  by (intro conjI [OF allI [OF allI]] allI impI, erule connected_happened [OF assms(1,2)], erule accepted_happened [OF assms])

text \<open>A platform that numbers its sockets upwards and completes every call.\<close>

definition next_socket :: "sock_ev list \<Rightarrow> nat" where
  "next_socket log = Suc (sum_list (map (\<lambda>e. case sock_opens e of Some s \<Rightarrow> s | None \<Rightarrow> 0) log))"

definition counting_api :: net_api where
  "counting_api = \<lparr>na_startup = (\<lambda>_. 0),
     na_socket = (\<lambda>log _ _. if next_socket log = INVALID_SOCKET then Inl 0 else Inr (next_socket log)),
     na_call = (\<lambda>_ _. None), na_name = (\<lambda>_ _ _. Inr zeroed), na_ext = (\<lambda>_ _ _. Inr True),
     na_register = (\<lambda>_ _. Inr ()),
     na_start = (\<lambda>_ _. \<lparr>k_ok = True, k_high = 0, k_err = 0, k_mem = (\<lambda>_. None), k_result = Inr 0,
       k_transferred = 0, k_done_mem = (\<lambda>_. None)\<rparr>),
     na_addrs = (\<lambda>_. ((None, 0), (None, 0))), na_remove = (\<lambda>_ _. Inr ()), na_last = (\<lambda>_. 0)\<rparr>"

lemma counting_fresh: "fresh_sockets counting_api"
proof -
  have less: "s < next_socket log" if "e \<in> set log" "sock_opens e = Some s" for s e log
    using member_le_sum_list [of s "map (\<lambda>e. case sock_opens e of Some s \<Rightarrow> s | None \<Rightarrow> 0) log"] that
    by (force simp: next_socket_def less_Suc_eq_le image_iff)
  then have "next_socket log \<notin> H" if "open_after sock_opens sock_closes log = Some H" for log H
    using open_after_opened [OF that] by blast
  then show ?thesis by (auto simp: fresh_sockets_def counting_api_def split: if_splits)
qed

theorem sockets_accounted_witness:
  "fresh_sockets counting_api \<and>
   (let p = net_run hr_win32 Some counting_api
        [ConnectTcp (V4 [127, 0, 0, 1] 80), ConnectTcp (V4 [127, 0, 0, 1] 81), DropStream 1] net_start
    in held p = [4] \<and> open_after sock_opens sock_closes (w_log (np_world p)) = Some {4})"
proof -
  let ?p = "net_run hr_win32 Some counting_api
    [ConnectTcp (V4 [127, 0, 0, 1] 80), ConnectTcp (V4 [127, 0, 0, 1] 81), DropStream 1] net_start"
  have "held ?p = [4]"
    by (simp add: net_run_def held_def net_start_def tcp_connect_def connect_with_def new_overlapped_def
        new_overlapped_with_def ensure_winsock_def counting_api_def next_socket_def INVALID_SOCKET_def bind_bytes_def
        last_error_if_def register_def submit_connect_def connect_operate_def connect_new_def extensions_def
        resolve_def lookup_def win32_result_def connect_record_completion_def update_connect_context_def
        connect_finish_def socket_drop_def handle_drop_def emit_def handle_from_raw_def handle_clone_def Let_def
        without_def stream_drop_def cancel_all_io_def)
  with sockets_accounted [OF counting_fresh] counting_fresh show ?thesis by (auto simp: Let_def)
qed

text \<open>The same platform, with a listener on its first socket.\<close>

definition listening_world :: net_world where
  "listening_world = \<lparr>w_log = [Opened 1 AF_INET IPPROTO_TCP], w_refs = (\<lambda>s. if s = 1 then 1 else 0),
     nw_status = Some 0, nw_ext = True\<rparr>"

theorem streams_ready_in_order_witness:
  "\<exists>w'. tcp_connect hr_win32 counting_api (V4 [127, 0, 0, 1] 80) listening_world = (Inr 2, w') \<and>
    made_calls hr_win32 counting_api 2 listening_world w' [Opened 2 AF_INET IPPROTO_TCP,
      Bound 2 (from_socket_addr (wildcard_for (V4 [127, 0, 0, 1] 80))), Registered 2,
      ConnectStarted 2 (from_socket_addr (V4 [127, 0, 0, 1] 80)), OptionSet 2 SOL_SOCKET SO_UPDATE_CONNECT_CONTEXT None]"
proof -
  have ok: "net_ok listening_world"
    by (simp add: world_ok_def listening_world_def open_after_def handle_step_def)
  have l: "0 < w_refs listening_world (tcl_socket \<lparr>tcl_socket = 1, tcl_local = V4 [127, 0, 0, 1] 80\<rparr>)"
    by (simp add: listening_world_def)
  obtain w' where "tcp_connect hr_win32 counting_api (V4 [127, 0, 0, 1] 80) listening_world = (Inr 2, w')"
    by (simp add: listening_world_def tcp_connect_def connect_with_def new_overlapped_def
        new_overlapped_with_def ensure_winsock_def counting_api_def next_socket_def INVALID_SOCKET_def bind_bytes_def
        last_error_if_def register_def submit_connect_def connect_operate_def connect_new_def extensions_def
        win32_result_def connect_record_completion_def update_connect_context_def
        connect_finish_def socket_drop_def handle_drop_def emit_def handle_from_raw_def handle_clone_def Let_def)
  with streams_ready_in_order [OF counting_fresh ok l, of hr_win32 "V4 [127, 0, 0, 1] 80"] show ?thesis
    by (auto simp: family_of_def)
qed

end
