(* ===== verification/Utf.thy ===== *)
theory Utf
  imports Prelude
begin

text \<open>
  Strings of the language and of the platform. A \<^verbatim>\<open>str\<close> is its Unicode scalar values; \<^verbatim>\<open>len\<close> and \<^verbatim>\<open>as_bytes\<close>
  speak of its UTF-8 encoding, an \<^verbatim>\<open>HSTRING\<close> and \<^verbatim>\<open>encode_utf16\<close> are its UTF-16 encoding, and
  \<^verbatim>\<open>String::from_utf16_lossy\<close> reads that back, with the replacement character for a surrogate without its partner.
\<close>

definition scalar :: "nat \<Rightarrow> bool" where
  "scalar c \<longleftrightarrow> c < 0xD800 \<or> (0xE000 \<le> c \<and> c < 0x110000)"

definition utf8_char :: "nat \<Rightarrow> u8 list" where
  "utf8_char c =
     (if c < 0x80 then [of_nat c]
      else if c < 0x800 then [of_nat (0xC0 + c div 64), of_nat (0x80 + c mod 64)]
      else if c < 0x10000 then [of_nat (0xE0 + c div 4096), of_nat (0x80 + c div 64 mod 64), of_nat (0x80 + c mod 64)]
      else [of_nat (0xF0 + c div 262144), of_nat (0x80 + c div 4096 mod 64), of_nat (0x80 + c div 64 mod 64),
            of_nat (0x80 + c mod 64)])"

definition utf16_char :: "nat \<Rightarrow> u16 list" where
  "utf16_char c =
     (if c < 0x10000 then [of_nat c]
      else [of_nat (0xD800 + (c - 0x10000) div 1024), of_nat (0xDC00 + (c - 0x10000) mod 1024)])"

definition utf8 :: "nat list \<Rightarrow> u8 list" where
  "utf8 s = concat (map utf8_char s)"

definition utf16 :: "nat list \<Rightarrow> u16 list" where
  "utf16 s = concat (map utf16_char s)"

fun from_utf16_lossy :: "u16 list \<Rightarrow> nat list" where
  "from_utf16_lossy [] = []"
| "from_utf16_lossy (u # us) =
     (if unat u < 0xD800 \<or> 0xE000 \<le> unat u then unat u # from_utf16_lossy us
      else if 0xDC00 \<le> unat u then 0xFFFD # from_utf16_lossy us
      else case us of
          [] \<Rightarrow> [0xFFFD]
        | v # vs \<Rightarrow>
            if 0xDC00 \<le> unat v \<and> unat v < 0xE000
            then (0x10000 + (unat u - 0xD800) * 1024 + (unat v - 0xDC00)) # from_utf16_lossy vs
            else 0xFFFD # from_utf16_lossy us)"

lemma utf16_length: "length (utf16_char c) \<le> length (utf8_char c)"
  by (simp add: utf16_char_def utf8_char_def)

lemma utf16_le_utf8: "length (utf16 s) \<le> length (utf8 s)"
  by (induction s) (auto simp: utf16_def utf8_def intro: add_mono utf16_length)

lemma word16_of_nat: "m < 65536 \<Longrightarrow> n < 65536 \<Longrightarrow> (of_nat m :: u16) = of_nat n \<longleftrightarrow> m = n"
  by (auto dest!: arg_cong [where f = unat] simp: unat_of_nat)

text \<open>The units of one scalar value: itself, or a pair of surrogates, which no scalar value is.\<close>

lemma utf16_char_unit:
  assumes "scalar c" "u \<in> set (utf16_char c)" "unat u < 0xD800 \<or> 0xE000 \<le> unat u"
  shows "c = unat u"
proof (cases "c < 0x10000")
  case True
  with assms(2) show ?thesis by (simp add: utf16_char_def unat_of_nat)
next
  case False
  with assms(1) have "(c - 0x10000) div 1024 < 1024" "(c - 0x10000) mod 1024 < 1024" by (auto simp: scalar_def)
  with False assms(2,3) show ?thesis by (auto simp: utf16_char_def unat_of_nat simp del: of_nat_add)
qed

lemma utf16_unit: "\<forall>c \<in> set s. scalar c \<Longrightarrow> u \<in> set (utf16 s) \<Longrightarrow> unat u < 0xD800 \<Longrightarrow> unat u \<in> set s"
  using utf16_char_unit by (fastforce simp: utf16_def)

lemma utf16_char_app:
  assumes "scalar c" "scalar d" "utf16_char c @ xs = utf16_char d @ ys"
  shows "c = d \<and> xs = ys"
proof -
  let ?q = "\<lambda>c::nat. (c - 0x10000) div 1024" let ?r = "\<lambda>c::nat. (c - 0x10000) mod 1024"
  have q: "?q c < 1024" "?q d < 1024" using assms(1,2) by (auto simp: scalar_def)
  have e: "?q c * 1024 + ?r c = c - 0x10000" "?q d * 1024 + ?r d = d - 0x10000" by simp_all
  show ?thesis
  proof (cases "c < 0x10000"; cases "d < 0x10000")
    assume cd: "\<not> c < 0x10000" "\<not> d < 0x10000"
    with assms(3) q have "0xD800 + ?q c = 0xD800 + ?q d" "0xDC00 + ?r c = 0xDC00 + ?r d" "xs = ys"
      by (auto simp: utf16_char_def word16_of_nat simp del: of_nat_add)
    with e cd show ?thesis by (metis add_left_imp_eq eq_diff_iff not_less)
  qed (use assms q in \<open>auto simp: utf16_char_def word16_of_nat scalar_def simp del: of_nat_add\<close>)
qed

lemma utf16_inj: "\<forall>c \<in> set s. scalar c \<Longrightarrow> \<forall>c \<in> set t. scalar c \<Longrightarrow> utf16 s = utf16 t \<Longrightarrow> s = t"
proof (induction s arbitrary: t)
  case Nil
  then show ?case by (cases t) (auto simp: utf16_def utf16_char_def split: if_splits)
next
  case (Cons c s)
  then obtain d u where t: "t = d # u" by (cases t) (auto simp: utf16_def utf16_char_def split: if_splits)
  with Cons.prems utf16_char_app [of c d "utf16 s" "utf16 u"] have e: "c = d" "utf16 s = utf16 u" by (auto simp: utf16_def)
  have "s = u" using Cons.prems(1,2) t e(2) by (intro Cons.IH) simp_all
  with t e(1) show ?case by simp
qed

lemma utf8_nul: "scalar c \<Longrightarrow> 0 \<in> set (utf8_char c) \<longleftrightarrow> c = 0"
proof
  assume c: "scalar c" and "0 \<in> set (utf8_char c)"
  moreover have "(of_nat n :: u8) = 0 \<longleftrightarrow> n mod 256 = 0" for n
    using word_of_nat_eq_0_iff [where 'a = 8, of n] by (simp add: dvd_eq_mod_eq_0)
  moreover have "c div 64 < 32" if "c < 0x800" using that by simp
  moreover have "c div 4096 < 16" if "c < 0x10000" using that by simp
  moreover have "c div 262144 < 8" using c by (auto simp: scalar_def)
  moreover have "c mod 64 < 64" "c div 64 mod 64 < 64" "c div 4096 mod 64 < 64" by simp_all
  ultimately show "c = 0" by (auto simp: utf8_char_def simp del: of_nat_add split: if_splits)
qed (simp add: utf8_char_def)

lemma utf16_append: "utf16 (s @ t) = utf16 s @ utf16 t"
  by (simp add: utf16_def)

lemma from_utf16_lossy_char:
  assumes "scalar c"
  shows "from_utf16_lossy (utf16_char c @ us) = c # from_utf16_lossy us"
proof (cases "c < 0x10000")
  case True
  with assms show ?thesis by (auto simp: utf16_char_def unat_of_nat scalar_def)
next
  case False
  let ?q = "(c - 0x10000) div 1024" let ?r = "(c - 0x10000) mod 1024"
  have "?q < 1024" "?r < 1024" "0x10000 + ?q * 1024 + ?r = c" using assms False by (auto simp: scalar_def)
  moreover from this have "unat (of_nat (0xD800 + ?q) :: u16) = 0xD800 + ?q" "unat (of_nat (0xDC00 + ?r) :: u16) = 0xDC00 + ?r"
    by (simp_all only: unat_of_nat) simp_all
  ultimately show ?thesis using False by (simp add: utf16_char_def del: of_nat_add)
qed

lemma from_utf16_lossy_utf16: "\<forall>c \<in> set s. scalar c \<Longrightarrow> from_utf16_lossy (utf16 s) = s"
  by (induction s) (simp_all add: utf16_def from_utf16_lossy_char)

end
