(* ===== verification/File_Pipe.thy ===== *)
theory File_Pipe
  imports Resource_Log Stream_Ops Utf "HOL-Library.Multiset"
begin

text \<open>
  Files and named pipes: \<^verbatim>\<open>fs/options.rs\<close>, \<^verbatim>\<open>fs/file.rs\<close>, \<^verbatim>\<open>pipe/name.rs\<close>, \<^verbatim>\<open>pipe/client.rs\<close>,
  \<^verbatim>\<open>pipe/server.rs\<close>, \<^verbatim>\<open>pipe/connected.rs\<close>, and \<^verbatim>\<open>ConnectPipe\<close> of \<^verbatim>\<open>iocp/ops/stream.rs\<close>.

  A file, a server instance and a connected pipe are a handle and its registration, and the model names them by
  the handle. Every call that makes, uses or closes a handle is an event of the log; the platform is an argument,
  \<open>fs_api\<close>, each answer a function of the log so far. A program holds objects, futures of \<^verbatim>\<open>connect\<close> and
  operations the kernel has not completed, each of them an owner of its handle.
\<close>

unbundle bit_operations_syntax

section \<open>The platform\<close>

datatype fs_ev =
    FileOpened nat "u16 list" u32 u32 u32 u32
  | PipeCreated nat "u16 list" u32 u32 u32 u32 u32 u32
  | HandleMade nat
  | HandleClosed nat
  | HandleRegistered nat
  | HandleUnregistered nat
  | AllCancelled nat
  | OneCancelled nat
  | ReadModeSet nat u32
  | PipeConnecting nat
  | PipeDisconnected nat
  | TransferStarted nat

type_synonym fs_world = "fs_ev world"

text \<open>
  \<open>fa_call\<close> answers the calls that succeed or leave an error; \<open>fa_connect\<close> is \<^verbatim>\<open>ConnectNamedPipe\<close>, \<open>fa_last\<close> the
  thread's last error and \<open>fa_invalid\<close> is \<^verbatim>\<open>HANDLE::is_invalid\<close>.
\<close>

record fs_api =
  fa_create :: "fs_ev list \<Rightarrow> u16 list \<Rightarrow> u32 \<Rightarrow> u32 \<Rightarrow> u32 \<Rightarrow> u32 \<Rightarrow> hresult + nat"
  fa_pipe :: "fs_ev list \<Rightarrow> u16 list \<Rightarrow> u32 \<Rightarrow> u32 \<Rightarrow> u32 \<Rightarrow> u32 \<Rightarrow> u32 \<Rightarrow> u32 \<Rightarrow> nat"
  fa_last :: "fs_ev list \<Rightarrow> hresult"
  fa_call :: "fs_ev list \<Rightarrow> fs_ev \<Rightarrow> hresult option"
  fa_register :: "fs_ev list \<Rightarrow> nat \<Rightarrow> RegistrationError + unit"
  fa_connect :: "fs_ev list \<Rightarrow> nat \<Rightarrow> kcall"
  fa_invalid :: "nat \<Rightarrow> bool"

definition INVALID_HANDLE_VALUE :: nat where
  "INVALID_HANDLE_VALUE = 2 ^ 64 - 1"

abbreviation (input) FILE_GENERIC_READ :: u32 where "FILE_GENERIC_READ \<equiv> 0x120089"
abbreviation (input) FILE_GENERIC_WRITE :: u32 where "FILE_GENERIC_WRITE \<equiv> 0x120116"
abbreviation (input) GENERIC_WRITE :: u32 where "GENERIC_WRITE \<equiv> 0x40000000"
abbreviation (input) CREATE_NEW :: u32 where "CREATE_NEW \<equiv> 1"
abbreviation (input) CREATE_ALWAYS :: u32 where "CREATE_ALWAYS \<equiv> 2"
abbreviation (input) OPEN_EXISTING :: u32 where "OPEN_EXISTING \<equiv> 3"
abbreviation (input) OPEN_ALWAYS :: u32 where "OPEN_ALWAYS \<equiv> 4"
abbreviation (input) TRUNCATE_EXISTING :: u32 where "TRUNCATE_EXISTING \<equiv> 5"
abbreviation (input) FILE_SHARE_NONE :: u32 where "FILE_SHARE_NONE \<equiv> 0"
abbreviation (input) FILE_SHARE_READ :: u32 where "FILE_SHARE_READ \<equiv> 1"
abbreviation (input) FILE_SHARE_WRITE :: u32 where "FILE_SHARE_WRITE \<equiv> 2"
abbreviation (input) FILE_SHARE_DELETE :: u32 where "FILE_SHARE_DELETE \<equiv> 4"
abbreviation (input) FILE_ATTRIBUTE_NORMAL :: u32 where "FILE_ATTRIBUTE_NORMAL \<equiv> 0x80"
abbreviation (input) FILE_FLAG_OVERLAPPED :: u32 where "FILE_FLAG_OVERLAPPED \<equiv> 0x40000000"
abbreviation (input) FILE_FLAG_FIRST_PIPE_INSTANCE :: u32 where "FILE_FLAG_FIRST_PIPE_INSTANCE \<equiv> 0x80000"
abbreviation (input) PIPE_ACCESS_INBOUND :: u32 where "PIPE_ACCESS_INBOUND \<equiv> 1"
abbreviation (input) PIPE_ACCESS_OUTBOUND :: u32 where "PIPE_ACCESS_OUTBOUND \<equiv> 2"
abbreviation (input) PIPE_ACCESS_DUPLEX :: u32 where "PIPE_ACCESS_DUPLEX \<equiv> 3"
abbreviation (input) PIPE_TYPE_BYTE :: u32 where "PIPE_TYPE_BYTE \<equiv> 0"
abbreviation (input) PIPE_TYPE_MESSAGE :: u32 where "PIPE_TYPE_MESSAGE \<equiv> 4"
abbreviation (input) PIPE_READMODE_BYTE :: u32 where "PIPE_READMODE_BYTE \<equiv> 0"
abbreviation (input) PIPE_READMODE_MESSAGE :: u32 where "PIPE_READMODE_MESSAGE \<equiv> 2"
abbreviation (input) PIPE_WAIT :: u32 where "PIPE_WAIT \<equiv> 0"

section \<open>Handles\<close>

text \<open>\<^verbatim>\<open>Drop\<close> of a \<^verbatim>\<open>Handle\<close>, and \<^verbatim>\<open>Registrar::register\<close> of one.\<close>

definition fs_drop :: "fs_api \<Rightarrow> nat \<Rightarrow> fs_world \<Rightarrow> fs_world" where
  "fs_drop api h w = handle_drop (fa_invalid api) HandleClosed h w"

definition register_handle :: "fs_api \<Rightarrow> nat \<Rightarrow> fs_world \<Rightarrow> (RegistrationError + unit) \<times> fs_world" where
  "register_handle api h w =
     (case fa_register api (w_log w) h of
        Inl e \<Rightarrow> (Inl e, w)
      | Inr _ \<Rightarrow> (Inr (), emit (HandleRegistered h) w))"

text \<open>A handle just made: registered and given out, or dropped.\<close>

definition register_or_drop :: "fs_api \<Rightarrow> nat \<Rightarrow> fs_world \<Rightarrow> (SetupError + nat) \<times> fs_world" where
  "register_or_drop api h w =
     try_or (register_handle api h w)
       (\<lambda>e w. (Inl (setup_from_registration e), fs_drop api h w))
       (\<lambda>_ w. (Inr h, w))"

section \<open>Files\<close>

record OpenOptions =
  oo_read :: bool
  oo_write :: bool
  oo_create :: bool
  oo_create_new :: bool
  oo_truncate :: bool
  oo_share_mode :: u32
  oo_flags :: u32

definition open_options_new :: OpenOptions where
  "open_options_new =
     \<lparr>oo_read = False, oo_write = False, oo_create = False, oo_create_new = False, oo_truncate = False,
      oo_share_mode = FILE_SHARE_READ OR FILE_SHARE_WRITE OR FILE_SHARE_DELETE, oo_flags = FILE_ATTRIBUTE_NORMAL\<rparr>"

definition desired_access :: "OpenOptions \<Rightarrow> u32" where
  "desired_access opts =
     (let access = 0;
          access = (if oo_read opts then access OR FILE_GENERIC_READ else access);
          access = (if oo_write opts then access OR (FILE_GENERIC_WRITE OR GENERIC_WRITE) else access)
      in access)"

definition creation_disposition :: "OpenOptions \<Rightarrow> u32" where
  "creation_disposition opts =
     (if oo_create_new opts then CREATE_NEW
      else if oo_create opts \<and> oo_truncate opts then CREATE_ALWAYS
      else if oo_create opts then OPEN_ALWAYS
      else if oo_truncate opts then TRUNCATE_EXISTING
      else OPEN_EXISTING)"

text \<open>A path is given by the units \<^verbatim>\<open>encode_wide\<close> makes of it.\<close>

definition wide_null :: "u16 list \<Rightarrow> SetupError + u16 list" where
  "wide_null file = (if 0 \<in> set file then Inl SetupInvalidName else Inr (file @ [0]))"

definition file_open :: "fs_api \<Rightarrow> OpenOptions \<Rightarrow> u16 list \<Rightarrow> fs_world \<Rightarrow> (SetupError + nat) \<times> fs_world" where
  "file_open api opts file w =
     (case wide_null file of
        Inl e \<Rightarrow> (Inl e, w)
      | Inr wide \<Rightarrow>
          let access = desired_access opts; creation = creation_disposition opts;
              flags = oo_flags opts OR FILE_FLAG_OVERLAPPED
          in case fa_create api (w_log w) wide access (oo_share_mode opts) creation flags of
               Inl e \<Rightarrow> (Inl (setup_from_windows e), w)
             | Inr raw \<Rightarrow>
                 register_or_drop api raw
                   (handle_from_raw raw (emit (FileOpened raw wide access (oo_share_mode opts) creation flags) w)))"

definition file_from_handle :: "fs_api \<Rightarrow> nat \<Rightarrow> fs_world \<Rightarrow> (SetupError + nat) \<times> fs_world" where
  "file_from_handle api raw w = register_or_drop api raw (handle_from_raw raw w)"

text \<open>A read or a write of a file or a pipe is started with a clone of the handle, which the operation keeps.\<close>

definition start_transfer :: "nat \<Rightarrow> fs_world \<Rightarrow> fs_world" where
  "start_transfer h w = emit (TransferStarted h) (handle_clone h w)"

definition file_read_at ::
  "(u32 \<Rightarrow> hresult) \<Rightarrow> 'b IoBufMut \<Rightarrow> read_call \<Rightarrow> nat \<Rightarrow> u64 \<Rightarrow> 'b \<Rightarrow> mem \<Rightarrow> ((hresult + ReadOutcome) \<times> 'b \<times> mem) may_panic" where
  "file_read_at hr D ReadFile h off buffer m = submit_read hr D ReadFile (read_handle_at_new h off buffer) m"

definition file_write_at ::
  "(u32 \<Rightarrow> hresult) \<Rightarrow> ('b, 'z) IoBuf_scheme \<Rightarrow> write_call \<Rightarrow> nat \<Rightarrow> u64 \<Rightarrow> 'b \<Rightarrow> mem \<Rightarrow> (hresult + nat) \<times> 'b" where
  "file_write_at hr D WriteFile h off buffer m = submit_write hr D WriteFile (write_handle_at_new h off buffer) m"

definition file_drop :: "fs_api \<Rightarrow> nat \<Rightarrow> fs_world \<Rightarrow> fs_world" where
  "file_drop api h w = fs_drop api h (emit (HandleUnregistered h) (emit (AllCancelled h) w))"

section \<open>Pipe names\<close>

definition LOCAL_PIPE_PREFIX :: "nat list" where
  "LOCAL_PIPE_PREFIX = [92, 92, 46, 92, 112, 105, 112, 101, 92]"

definition MAX_NAME_COMPONENT_LEN :: nat where
  "MAX_NAME_COMPONENT_LEN = 256 - length (utf8 LOCAL_PIPE_PREFIX)"

definition validate_bare_name :: "nat list \<Rightarrow> SetupError + unit" where
  "validate_bare_name name =
     (if name = [] \<or> MAX_NAME_COMPONENT_LEN < length (utf8 name) \<or> 92 \<in> set name \<or> 47 \<in> set name \<or> 0 \<in> set (utf8 name)
      then Inl SetupInvalidName else Inr ())"

definition local_pipe_path :: "nat list \<Rightarrow> SetupError + u16 list" where
  "local_pipe_path name =
     (case validate_bare_name name of
        Inl e \<Rightarrow> Inl e
      | Inr _ \<Rightarrow> Inr (utf16 (LOCAL_PIPE_PREFIX @ name)))"

section \<open>Pipes\<close>

datatype AccessDirection = Inbound | Outbound | Duplex

datatype PipeMode = Byte | Message

definition drop_inner :: "fs_api \<Rightarrow> nat \<Rightarrow> fs_world \<Rightarrow> fs_world" where
  "drop_inner api h w = fs_drop api h (emit (HandleUnregistered h) (emit (AllCancelled h) w))"

record ClientOptions =
  co_name :: "nat list"
  co_access :: AccessDirection
  co_read_mode :: PipeMode

definition client_options_new :: "nat list \<Rightarrow> ClientOptions" where
  "client_options_new name = \<lparr>co_name = name, co_access = Duplex, co_read_mode = Byte\<rparr>"

definition client_desired_access :: "ClientOptions \<Rightarrow> u32" where
  "client_desired_access opts =
     (case co_access opts of
        Inbound \<Rightarrow> FILE_GENERIC_READ
      | Outbound \<Rightarrow> FILE_GENERIC_WRITE
      | Duplex \<Rightarrow> FILE_GENERIC_READ OR FILE_GENERIC_WRITE)"

definition apply_read_mode :: "fs_api \<Rightarrow> ClientOptions \<Rightarrow> nat \<Rightarrow> fs_world \<Rightarrow> (hresult + unit) \<times> fs_world" where
  "apply_read_mode api opts h w =
     (let mode = (case co_read_mode opts of Byte \<Rightarrow> PIPE_READMODE_BYTE | Message \<Rightarrow> PIPE_READMODE_MESSAGE)
      in if mode = PIPE_READMODE_BYTE then (Inr (), w)
         else (case fa_call api (w_log w) (ReadModeSet h mode) of None \<Rightarrow> Inr () | Some e \<Rightarrow> Inl e,
               emit (ReadModeSet h mode) w))"

definition client_connect :: "fs_api \<Rightarrow> ClientOptions \<Rightarrow> fs_world \<Rightarrow> (SetupError + nat) \<times> fs_world" where
  "client_connect api opts w =
     (case local_pipe_path (co_name opts) of
        Inl e \<Rightarrow> (Inl e, w)
      | Inr name \<Rightarrow>
          (case fa_create api (w_log w) name (client_desired_access opts) FILE_SHARE_NONE OPEN_EXISTING FILE_FLAG_OVERLAPPED of
             Inl e \<Rightarrow> (Inl (setup_from_windows e), w)
           | Inr raw \<Rightarrow>
               try_or
                 (apply_read_mode api opts raw (handle_from_raw raw
                    (emit (FileOpened raw name (client_desired_access opts) FILE_SHARE_NONE OPEN_EXISTING FILE_FLAG_OVERLAPPED) w)))
                 (\<lambda>e w. (Inl (setup_from_windows e), fs_drop api raw w))
                 (\<lambda>_ w. register_or_drop api raw w)))"

record ServerOptions =
  so_name :: "nat list"
  so_access :: AccessDirection
  so_pipe_type :: PipeMode
  so_max_instances :: u32
  so_in_buffer_size :: u32
  so_out_buffer_size :: u32
  so_default_timeout :: u32
  so_first_instance :: bool

definition server_options_new :: "nat list \<Rightarrow> ServerOptions" where
  "server_options_new name =
     \<lparr>so_name = name, so_access = Duplex, so_pipe_type = Byte, so_max_instances = 1, so_in_buffer_size = 4096,
      so_out_buffer_size = 4096, so_default_timeout = 0, so_first_instance = False\<rparr>"

definition server_access_mode :: "ServerOptions \<Rightarrow> u32" where
  "server_access_mode opts =
     (case so_access opts of
        Inbound \<Rightarrow> PIPE_ACCESS_INBOUND | Outbound \<Rightarrow> PIPE_ACCESS_OUTBOUND | Duplex \<Rightarrow> PIPE_ACCESS_DUPLEX)"

definition pipe_mode :: "ServerOptions \<Rightarrow> u32" where
  "pipe_mode opts =
     (case so_pipe_type opts of
        Byte \<Rightarrow> PIPE_TYPE_BYTE OR PIPE_READMODE_BYTE
      | Message \<Rightarrow> PIPE_TYPE_MESSAGE OR PIPE_READMODE_MESSAGE)"

definition server_create :: "fs_api \<Rightarrow> ServerOptions \<Rightarrow> fs_world \<Rightarrow> (SetupError + nat) \<times> fs_world" where
  "server_create api opts w =
     (case local_pipe_path (so_name opts) of
        Inl e \<Rightarrow> (Inl e, w)
      | Inr name \<Rightarrow>
          let open_mode = server_access_mode opts OR FILE_FLAG_OVERLAPPED;
              open_mode = (if so_first_instance opts then open_mode OR FILE_FLAG_FIRST_PIPE_INSTANCE else open_mode);
              mode = pipe_mode opts OR PIPE_WAIT;
              raw = fa_pipe api (w_log w) name open_mode mode (so_max_instances opts) (so_out_buffer_size opts)
                      (so_in_buffer_size opts) (so_default_timeout opts)
          in if raw = INVALID_HANDLE_VALUE then (Inl (setup_from_windows (fa_last api (w_log w))), w)
             else register_or_drop api raw (handle_from_raw raw
               (emit (PipeCreated raw name open_mode mode (so_max_instances opts) (so_out_buffer_size opts)
                  (so_in_buffer_size opts) (so_default_timeout opts)) w)))"

text \<open>\<^verbatim>\<open>ConnectPipe\<close>: a client that came before the call is success, and no packet follows.\<close>

definition connect_pipe_operate ::
  "(u32 \<Rightarrow> hresult) \<Rightarrow> fs_api \<Rightarrow> nat \<Rightarrow> fs_world \<Rightarrow> (hresult + nat) poll \<times> fs_world" where
  "connect_pipe_operate hr api h w =
     (let k = fa_connect api (w_log w) h
      in (if k_ok k then win32_result hr True k
          else if k_err k = hr ERROR_PIPE_CONNECTED then Ready (Inr 0)
          else win32_result hr False k,
          emit (PipeConnecting h) w))"

text \<open>
  \<^verbatim>\<open>NamedPipeServer::connect\<close> consumes the server. Its future has the operation, with a clone of the handle, and
  the guard around the state; resolved, it drops the operation and gives the state to the pipe or tears it down.
\<close>

definition server_connect ::
  "(u32 \<Rightarrow> hresult) \<Rightarrow> fs_api \<Rightarrow> nat \<Rightarrow> fs_world \<Rightarrow> (hresult + nat) poll \<times> fs_world" where
  "server_connect hr api h w = connect_pipe_operate hr api h (handle_clone h w)"

definition connect_resolved :: "fs_api \<Rightarrow> nat \<Rightarrow> hresult + nat \<Rightarrow> fs_world \<Rightarrow> (hresult + nat) \<times> fs_world" where
  "connect_resolved api h result w =
     (let w1 = fs_drop api h w
      in case result of Inr _ \<Rightarrow> (Inr h, w1) | Inl e \<Rightarrow> (Inl e, drop_inner api h w1))"

text \<open>
  The future dropped: the operation's future goes first, which asks for cancellation when the kernel still has the
  operation and drops it otherwise; then the guard.
\<close>

definition connect_dropped :: "fs_api \<Rightarrow> nat \<Rightarrow> (hresult + nat) poll \<Rightarrow> fs_world \<Rightarrow> fs_world" where
  "connect_dropped api h submitted w =
     drop_inner api h (case submitted of Pending \<Rightarrow> emit (OneCancelled h) w | Ready _ \<Rightarrow> fs_drop api h w)"

definition disconnect :: "fs_api \<Rightarrow> nat \<Rightarrow> fs_world \<Rightarrow> (hresult + nat) \<times> fs_world" where
  "disconnect api h w =
     (case fa_call api (w_log w) (PipeDisconnected h) of
        None \<Rightarrow> (Inr h, emit (PipeDisconnected h) w)
      | Some e \<Rightarrow> (Inl e, drop_inner api h (emit (PipeDisconnected h) w)))"

text \<open>The transfers of a pipe, which have no position.\<close>

definition pipe_read ::
  "(u32 \<Rightarrow> hresult) \<Rightarrow> 'b IoBufMut \<Rightarrow> read_call \<Rightarrow> nat \<Rightarrow> 'b \<Rightarrow> mem \<Rightarrow> ((hresult + ReadOutcome) \<times> 'b \<times> mem) may_panic" where
  "pipe_read hr D ReadFile h buffer m = submit_read hr D ReadFile (rd_inner (read_handle_new h buffer)) m"

definition pipe_write ::
  "(u32 \<Rightarrow> hresult) \<Rightarrow> ('b, 'z) IoBuf_scheme \<Rightarrow> write_call \<Rightarrow> nat \<Rightarrow> 'b \<Rightarrow> mem \<Rightarrow> (hresult + nat) \<times> 'b" where
  "pipe_write hr D WriteFile h buffer m =
     (await_write (write_handle_operate hr D WriteFile (write_handle_new h buffer) \<lparr>Offset = 0, OffsetHigh = 0\<rparr> m), buffer)"

definition pipe_drop :: "fs_api \<Rightarrow> nat \<Rightarrow> fs_world \<Rightarrow> fs_world" where
  "pipe_drop api h w = drop_inner api h w"

section \<open>Programs\<close>

text \<open>
  What a program holds: files, server instances, connected pipes, futures of \<^verbatim>\<open>connect\<close> with their operation's
  state, and operations the kernel has. Its actions take objects by their place in the list; one past the end does
  nothing. A handle is adopted only as \<^verbatim>\<open>from_handle\<close> demands: valid, the caller's, and owned by nobody else.
\<close>

record fs_prog =
  fp_files :: "nat list"
  fp_servers :: "nat list"
  fp_pipes :: "nat list"
  fp_connecting :: "(nat \<times> (hresult + nat) poll) list"
  fp_ops :: "nat list"
  fp_world :: fs_world

datatype fs_act =
    OpenFile OpenOptions "u16 list" | AdoptHandle nat | CreateServer ServerOptions | ConnectClient ClientOptions
  | StartConnect nat | CompleteConnect nat "hresult + nat" | PollConnect nat | DropConnect nat
  | Disconnect nat | FileTransfer nat | PipeTransfer nat | CancelOp nat | CompleteOp nat
  | DropFile nat | DropServer nat | DropPipe nat

definition but :: "nat \<Rightarrow> 'a list \<Rightarrow> 'a list" where
  "but i xs = take i xs @ drop (Suc i) xs"

definition gained :: "(SetupError + nat) \<times> fs_world \<Rightarrow> fs_prog \<Rightarrow> (nat \<Rightarrow> fs_prog \<Rightarrow> fs_prog) \<Rightarrow> fs_prog" where
  "gained made p put = (case made of (Inl _, w) \<Rightarrow> p\<lparr>fp_world := w\<rparr> | (Inr h, w) \<Rightarrow> put h (p\<lparr>fp_world := w\<rparr>))"

fun fs_do :: "(u32 \<Rightarrow> hresult) \<Rightarrow> fs_api \<Rightarrow> fs_act \<Rightarrow> fs_prog \<Rightarrow> fs_prog" where
  "fs_do hr api (OpenFile opts file) p =
     gained (file_open api opts file (fp_world p)) p (\<lambda>h p. p\<lparr>fp_files := h # fp_files p\<rparr>)"
| "fs_do hr api (AdoptHandle h) p =
     (if w_refs (fp_world p) h = 0 \<and> \<not> fa_invalid api h
      then gained (file_from_handle api h (emit (HandleMade h) (fp_world p))) p (\<lambda>h p. p\<lparr>fp_files := h # fp_files p\<rparr>)
      else p)"
| "fs_do hr api (CreateServer opts) p =
     gained (server_create api opts (fp_world p)) p (\<lambda>h p. p\<lparr>fp_servers := h # fp_servers p\<rparr>)"
| "fs_do hr api (ConnectClient opts) p =
     gained (client_connect api opts (fp_world p)) p (\<lambda>h p. p\<lparr>fp_pipes := h # fp_pipes p\<rparr>)"
| "fs_do hr api (StartConnect i) p =
     (if i < length (fp_servers p)
      then let h = fp_servers p ! i in
        case server_connect hr api h (fp_world p) of
          (submitted, w) \<Rightarrow>
            p\<lparr>fp_servers := but i (fp_servers p), fp_connecting := (h, submitted) # fp_connecting p, fp_world := w\<rparr>
      else p)"
| "fs_do hr api (CompleteConnect i r) p =
     (if i < length (fp_connecting p)
      then case fp_connecting p ! i of
          (h, Pending) \<Rightarrow> p\<lparr>fp_connecting := (fp_connecting p)[i := (h, Ready r)]\<rparr>
        | (h, Ready _) \<Rightarrow> p
      else p)"
| "fs_do hr api (PollConnect i) p =
     (if i < length (fp_connecting p)
      then case fp_connecting p ! i of
          (h, Pending) \<Rightarrow> p
        | (h, Ready r) \<Rightarrow>
            let p1 = p\<lparr>fp_connecting := but i (fp_connecting p)\<rparr> in
            case connect_resolved api h r (fp_world p) of
              (Inl _, w) \<Rightarrow> p1\<lparr>fp_world := w\<rparr>
            | (Inr h, w) \<Rightarrow> p1\<lparr>fp_pipes := h # fp_pipes p, fp_world := w\<rparr>
      else p)"
| "fs_do hr api (DropConnect i) p =
     (if i < length (fp_connecting p)
      then case fp_connecting p ! i of
          (h, submitted) \<Rightarrow>
            p\<lparr>fp_connecting := but i (fp_connecting p),
              fp_ops := (case submitted of Pending \<Rightarrow> h # fp_ops p | Ready _ \<Rightarrow> fp_ops p),
              fp_world := connect_dropped api h submitted (fp_world p)\<rparr>
      else p)"
| "fs_do hr api (Disconnect i) p =
     (if i < length (fp_pipes p)
      then let p1 = p\<lparr>fp_pipes := but i (fp_pipes p)\<rparr> in
        case disconnect api (fp_pipes p ! i) (fp_world p) of
          (Inl _, w) \<Rightarrow> p1\<lparr>fp_world := w\<rparr>
        | (Inr h, w) \<Rightarrow> p1\<lparr>fp_servers := h # fp_servers p, fp_world := w\<rparr>
      else p)"
| "fs_do hr api (FileTransfer i) p =
     (if i < length (fp_files p)
      then p\<lparr>fp_ops := fp_files p ! i # fp_ops p, fp_world := start_transfer (fp_files p ! i) (fp_world p)\<rparr> else p)"
| "fs_do hr api (PipeTransfer i) p =
     (if i < length (fp_pipes p)
      then p\<lparr>fp_ops := fp_pipes p ! i # fp_ops p, fp_world := start_transfer (fp_pipes p ! i) (fp_world p)\<rparr> else p)"
| "fs_do hr api (CancelOp i) p =
     (if i < length (fp_ops p) then p\<lparr>fp_world := emit (OneCancelled (fp_ops p ! i)) (fp_world p)\<rparr> else p)"
| "fs_do hr api (CompleteOp i) p =
     (if i < length (fp_ops p)
      then p\<lparr>fp_ops := but i (fp_ops p), fp_world := fs_drop api (fp_ops p ! i) (fp_world p)\<rparr> else p)"
| "fs_do hr api (DropFile i) p =
     (if i < length (fp_files p)
      then p\<lparr>fp_files := but i (fp_files p), fp_world := file_drop api (fp_files p ! i) (fp_world p)\<rparr> else p)"
| "fs_do hr api (DropServer i) p =
     (if i < length (fp_servers p)
      then p\<lparr>fp_servers := but i (fp_servers p), fp_world := pipe_drop api (fp_servers p ! i) (fp_world p)\<rparr> else p)"
| "fs_do hr api (DropPipe i) p =
     (if i < length (fp_pipes p)
      then p\<lparr>fp_pipes := but i (fp_pipes p), fp_world := pipe_drop api (fp_pipes p ! i) (fp_world p)\<rparr> else p)"

definition fs_run :: "(u32 \<Rightarrow> hresult) \<Rightarrow> fs_api \<Rightarrow> fs_act list \<Rightarrow> fs_prog \<Rightarrow> fs_prog" where
  "fs_run hr api acts p = fold (fs_do hr api) acts p"

definition fs_start :: fs_prog where
  "fs_start = \<lparr>fp_files = [], fp_servers = [], fp_pipes = [], fp_connecting = [], fp_ops = [],
     fp_world = \<lparr>w_log = [], w_refs = (\<lambda>_. 0)\<rparr>\<rparr>"

text \<open>The owners of handles, one entry each; a future of \<^verbatim>\<open>connect\<close> is two of them, the operation and the guard.\<close>

definition owners :: "fs_prog \<Rightarrow> nat multiset" where
  "owners p = mset (fp_files p) + mset (fp_servers p) + mset (fp_pipes p) + mset (map fst (fp_connecting p)) +
     mset (map fst (fp_connecting p)) + mset (fp_ops p)"

section \<open>Every handle has its owner\<close>

fun fs_opens :: "fs_ev \<Rightarrow> nat option" where
  "fs_opens (FileOpened h _ _ _ _ _) = Some h"
| "fs_opens (PipeCreated h _ _ _ _ _ _ _) = Some h"
| "fs_opens (HandleMade h) = Some h"
| "fs_opens _ = None"

fun fs_closes :: "fs_ev \<Rightarrow> nat option" where
  "fs_closes (HandleClosed h) = Some h"
| "fs_closes _ = None"

fun fs_uses :: "fs_ev \<Rightarrow> nat option" where
  "fs_uses (HandleRegistered h) = Some h"
| "fs_uses (HandleUnregistered h) = Some h"
| "fs_uses (AllCancelled h) = Some h"
| "fs_uses (OneCancelled h) = Some h"
| "fs_uses (ReadModeSet h _) = Some h"
| "fs_uses (PipeConnecting h) = Some h"
| "fs_uses (PipeDisconnected h) = Some h"
| "fs_uses (TransferStarted h) = Some h"
| "fs_uses _ = None"

lemma fs_vocabulary: "handle_use_log fs_opens fs_closes HandleClosed fs_uses"
proof unfold_locales
  show "fs_opens e = Some h \<Longrightarrow> fs_uses e = None" for e h by (cases e) simp_all
qed simp_all

interpretation fsl: handle_use_log fs_opens fs_closes HandleClosed "fa_invalid api" fs_uses for api
  by (rule fs_vocabulary)

abbreviation fs_safe :: "fs_world \<Rightarrow> bool" where
  "fs_safe \<equiv> world_safe fs_opens fs_closes fs_uses"

text \<open>What the theorems rely on: a handle the platform makes is valid and not already open.\<close>

definition fresh_handles :: "fs_api \<Rightarrow> bool" where
  "fresh_handles api \<longleftrightarrow>
     (\<forall>log H. open_after fs_opens fs_closes log = Some H \<longrightarrow>
        (\<forall>n a sh c fl h. fa_create api log n a sh c fl = Inr h \<longrightarrow> \<not> fa_invalid api h \<and> h \<notin> H) \<and>
        (\<forall>n om pm mx ob ib t h. fa_pipe api log n om pm mx ob ib t = h \<longrightarrow> h \<noteq> INVALID_HANDLE_VALUE \<longrightarrow>
           \<not> fa_invalid api h \<and> h \<notin> H))"

lemma fresh_create:
  "fresh_handles api \<Longrightarrow> fs_safe w \<Longrightarrow> fa_create api (w_log w) n a sh c fl = Inr h \<Longrightarrow>
    \<not> fa_invalid api h \<and> w_refs w h = 0"
  unfolding fresh_handles_def world_safe_def world_ok_def by fastforce

lemma fresh_pipe:
  "fresh_handles api \<Longrightarrow> fs_safe w \<Longrightarrow> fa_pipe api (w_log w) n om pm mx ob ib t \<noteq> INVALID_HANDLE_VALUE \<Longrightarrow>
    \<not> fa_invalid api (fa_pipe api (w_log w) n om pm mx ob ib t) \<and>
    w_refs w (fa_pipe api (w_log w) n om pm mx ob ib t) = 0"
  unfolding fresh_handles_def world_safe_def world_ok_def by fastforce

text \<open>
  A constructor either leaves the owners as they were or gives one handle, fresh and valid, one owner.
\<close>

definition makes :: "fs_api \<Rightarrow> (nat \<Rightarrow> nat) \<Rightarrow> (SetupError + nat) \<times> fs_world \<Rightarrow> bool" where
  "makes api f made \<longleftrightarrow>
     fs_safe (snd made) \<and>
     (case fst made of
        Inl _ \<Rightarrow> w_refs (snd made) = f
      | Inr h \<Rightarrow> \<not> fa_invalid api h \<and> f h = 0 \<and> w_refs (snd made) = f(h := 1))"

lemma fs_use_safe: "fs_safe w \<Longrightarrow> fs_uses e = Some h \<Longrightarrow> 0 < w_refs w h \<Longrightarrow> fs_safe (emit e w)"
  by (cases e) (auto intro!: fsl.use_safe)

lemma fs_drop_safe: "fs_safe w \<Longrightarrow> 0 < w_refs w h \<Longrightarrow> \<not> fa_invalid api h \<Longrightarrow> fs_safe (fs_drop api h w)"
  unfolding fs_drop_def by (rule fsl.drop_safe)

lemma fs_drop_refs [simp]: "w_refs (fs_drop api h w) = (w_refs w)(h := w_refs w h - 1)"
  by (simp add: fs_drop_def)

lemma drop_inner_safe: "fs_safe w \<Longrightarrow> 0 < w_refs w h \<Longrightarrow> \<not> fa_invalid api h \<Longrightarrow> fs_safe (drop_inner api h w)"
  unfolding drop_inner_def by (intro fs_drop_safe fs_use_safe) simp_all

lemma drop_inner_refs [simp]: "w_refs (drop_inner api h w) = (w_refs w)(h := w_refs w h - 1)"
  by (simp add: drop_inner_def)

lemma file_drop_inner: "file_drop api h w = drop_inner api h w"
  by (simp add: file_drop_def drop_inner_def)

lemma register_or_drop_makes:
  assumes "fs_safe w" "\<not> fa_invalid api h" "w_refs w = f(h := 1)" "f h = 0"
  shows "makes api f (register_or_drop api h w)"
proof (cases "fa_register api (w_log w) h")
  case (Inl e)
  then show ?thesis
    using assms fs_drop_safe [of w h api] by (auto simp: makes_def register_or_drop_def register_handle_def)
next
  case (Inr _)
  then show ?thesis
    using assms fs_use_safe [of w "HandleRegistered h" h] by (simp add: makes_def register_or_drop_def register_handle_def)
qed

lemma fs_opened_safe:
  "fs_safe w \<Longrightarrow> fs_opens e = Some h \<Longrightarrow> w_refs w h = 0 \<Longrightarrow> fs_safe (handle_from_raw h (emit e w))"
  by (rule fsl.opened_safe)

lemma file_open_makes:
  assumes "fresh_handles api" "fs_safe w"
  shows "makes api (w_refs w) (file_open api opts file w)"
  using assms fresh_create [OF assms]
  by (auto simp: file_open_def Let_def makes_def [of _ _ "(Inl _, _)"] intro!: register_or_drop_makes fs_opened_safe
      split: sum.splits)

lemma file_from_handle_makes:
  assumes "fs_safe w" "\<not> fa_invalid api h" "w_refs w h = 0"
  shows "makes api (w_refs w) (file_from_handle api h (emit (HandleMade h) w))"
  unfolding file_from_handle_def using assms by (intro register_or_drop_makes fs_opened_safe) simp_all

lemma server_create_makes:
  assumes "fresh_handles api" "fs_safe w"
  shows "makes api (w_refs w) (server_create api opts w)"
  using assms fresh_pipe [OF assms]
  by (auto simp: server_create_def Let_def makes_def [of _ _ "(Inl _, _)"] intro!: register_or_drop_makes fs_opened_safe
      split: sum.splits)

lemma client_connect_makes:
  assumes "fresh_handles api" "fs_safe w"
  shows "makes api (w_refs w) (client_connect api opts w)"
proof (cases "local_pipe_path (co_name opts)")
  case (Inr name)
  let ?a = "client_desired_access opts"
  show ?thesis
  proof (cases "fa_create api (w_log w) name ?a FILE_SHARE_NONE OPEN_EXISTING FILE_FLAG_OVERLAPPED")
    case made: (Inr h)
    let ?w = "handle_from_raw h (emit (FileOpened h name ?a FILE_SHARE_NONE OPEN_EXISTING FILE_FLAG_OVERLAPPED) w)"
    note h = fresh_create [OF assms made]
    have w: "fs_safe ?w" "w_refs ?w = (w_refs w)(h := 1)" using h assms(2) by (simp_all add: fs_opened_safe)
    obtain r w1 where r: "apply_read_mode api opts h ?w = (r, w1)" by force
    have "fs_safe w1 \<and> w_refs w1 = (w_refs w)(h := 1)"
      using r w h fs_use_safe [OF w(1), of "ReadModeSet h PIPE_READMODE_MESSAGE" h]
      by (auto simp: apply_read_mode_def Let_def split: if_splits PipeMode.splits)
    then show ?thesis using Inr made r h
      by (cases r) (auto simp: client_connect_def makes_def [of _ _ "(Inl _, _)"] intro!: register_or_drop_makes fs_drop_safe)
  qed (use Inr assms(2) in \<open>simp add: client_connect_def makes_def\<close>)
qed (use assms(2) in \<open>simp add: client_connect_def makes_def\<close>)

text \<open>
  The invariant of a program: its world is safe and the count of every handle is the number of its owners, all of
  them valid.
\<close>

definition fs_prog_ok :: "fs_api \<Rightarrow> fs_prog \<Rightarrow> bool" where
  "fs_prog_ok api p \<longleftrightarrow>
     fs_safe (fp_world p) \<and> w_refs (fp_world p) = count (owners p) \<and> (\<forall>h \<in># owners p. \<not> fa_invalid api h)"

lemma mset_but: "i < length xs \<Longrightarrow> mset (but i xs) = mset xs - {#xs ! i#}"
  by (subst (2) id_take_nth_drop [of i xs]) (simp_all add: but_def)

lemma map_but: "map f (but i xs) = but i (map f xs)"
  by (simp add: but_def take_map drop_map)

lemma owners_simps:
  "i < length (fp_files p) \<Longrightarrow> fp_files p ! i \<in># owners p"
  "i < length (fp_servers p) \<Longrightarrow> fp_servers p ! i \<in># owners p"
  "i < length (fp_pipes p) \<Longrightarrow> fp_pipes p ! i \<in># owners p"
  "i < length (fp_connecting p) \<Longrightarrow> fp_connecting p ! i = (h, x) \<Longrightarrow> h \<in># owners p"
  "i < length (fp_ops p) \<Longrightarrow> fp_ops p ! i \<in># owners p"
  using nth_mem [of i "fp_connecting p"] by (force simp: owners_def)+

lemma owned: "fs_prog_ok api p \<Longrightarrow> h \<in># owners p \<Longrightarrow> 0 < w_refs (fp_world p) h \<and> \<not> fa_invalid api h"
  by (simp add: fs_prog_ok_def)

text \<open>Owners come and go: nothing but the multiset and the counts has to be compared.\<close>

lemma prog_add:
  assumes "fs_prog_ok api p" "fs_safe w" "w_refs w = (w_refs (fp_world p))(h := w_refs (fp_world p) h + 1)"
    and "\<not> fa_invalid api h" "owners p' = add_mset h (owners p)" "fp_world p' = w"
  shows "fs_prog_ok api p'"
  using assms by (auto simp: fs_prog_ok_def)

lemma prog_keep:
  assumes "fs_prog_ok api p" "fs_safe w" "w_refs w = w_refs (fp_world p)" "owners p' = owners p" "fp_world p' = w"
  shows "fs_prog_ok api p'"
  using assms by (auto simp: fs_prog_ok_def)

lemma prog_remove:
  assumes "fs_prog_ok api p" "fs_safe w" "w_refs w = (w_refs (fp_world p))(h := w_refs (fp_world p) h - 1)"
    and "owners p = add_mset h (owners p')" "fp_world p' = w"
  shows "fs_prog_ok api p'"
  using assms by (auto simp: fs_prog_ok_def fun_eq_iff)

lemma prog_remove2:
  assumes "fs_prog_ok api p" "fs_safe w" "w_refs w = (w_refs (fp_world p))(h := w_refs (fp_world p) h - 2)"
    and "owners p = add_mset h (add_mset h (owners p'))" "fp_world p' = w"
  shows "fs_prog_ok api p'"
  using assms by (auto simp: fs_prog_ok_def fun_eq_iff)

lemma gained_ok:
  assumes "fs_prog_ok api p" "makes api (w_refs (fp_world p)) made"
    and "\<And>h q. owners (put h q) = add_mset h (owners q) \<and> fp_world (put h q) = fp_world q"
  shows "fs_prog_ok api (gained made p put)"
proof (cases made)
  case (Pair r w)
  show ?thesis
  proof (cases r)
    case (Inl e)
    with Pair assms(2) show ?thesis
      by (intro prog_keep [OF assms(1), of w]) (auto simp: makes_def gained_def owners_def)
  next
    case (Inr h)
    with Pair assms(2,3) show ?thesis
      by (intro prog_add [OF assms(1), of w h]) (auto simp: makes_def gained_def owners_def)
  qed
qed

lemma but_split: "i < length xs \<Longrightarrow> mset xs = add_mset (xs ! i) (mset (but i xs))"
  by (simp add: mset_but)

lemma connecting_split:
  "i < length (fp_connecting p) \<Longrightarrow> fp_connecting p ! i = (h, x) \<Longrightarrow>
    mset (map fst (fp_connecting p)) = add_mset h (mset (map fst (but i (fp_connecting p))))"
  using but_split [of i "map fst (fp_connecting p)"] by (simp add: map_but)

lemma drop_object:
  assumes "fs_prog_ok api p" "owners p = add_mset h (owners p')" "fp_world p' = drop_inner api h (fp_world p)"
  shows "fs_prog_ok api p'"
proof (rule prog_remove [OF assms(1) _ _ assms(2,3)])
  show "fs_safe (drop_inner api h (fp_world p))"
    using assms(1,2) owned [OF assms(1), of h] by (intro drop_inner_safe) (simp_all add: fs_prog_ok_def)
qed simp

lemma transfer_ok:
  assumes "fs_prog_ok api p" "h \<in># owners p" "owners p' = add_mset h (owners p)"
    and "fp_world p' = start_transfer h (fp_world p)"
  shows "fs_prog_ok api p'"
proof (rule prog_add [OF assms(1) _ _ _ assms(3,4)])
  note h = owned [OF assms(1,2)]
  show "fs_safe (start_transfer h (fp_world p))"
    using assms(1) h unfolding start_transfer_def
    by (intro fs_use_safe [of _ _ h] fsl.clone_safe) (simp_all add: fs_prog_ok_def)
  show "\<not> fa_invalid api h" using h ..
qed (simp add: start_transfer_def)

lemma start_connect_ok:
  assumes "fs_prog_ok api p"
  shows "fs_prog_ok api (fs_do hr api (StartConnect i) p)"
proof (cases "i < length (fp_servers p)")
  case True
  let ?h = "fp_servers p ! i"
  obtain x w where c: "server_connect hr api ?h (fp_world p) = (x, w)" by force
  then have w: "w = emit (PipeConnecting ?h) (handle_clone ?h (fp_world p))"
    by (auto simp: server_connect_def connect_pipe_operate_def Let_def)
  note h = owned [OF assms owners_simps(2) [OF True]]
  show ?thesis
  proof (rule prog_add [OF assms, of w ?h])
    show "fs_safe w" unfolding w using assms h
      by (intro fs_use_safe [of _ _ ?h] fsl.clone_safe) (simp_all add: fs_prog_ok_def)
  qed (use True c w h in \<open>simp_all add: owners_def but_split Let_def\<close>)
qed (use assms in simp)

lemma poll_connect_ok:
  assumes "fs_prog_ok api p"
  shows "fs_prog_ok api (fs_do hr api (PollConnect i) p)"
proof (cases "i < length (fp_connecting p) \<and> snd (fp_connecting p ! i) \<noteq> Pending")
  case True
  then obtain h r where c: "fp_connecting p ! i = (h, Ready r)"
    by (metis poll.exhaust prod.collapse)
  note i = conjunct1 [OF True]
  note h = owned [OF assms owners_simps(4) [OF i c]]
  have two: "1 < w_refs (fp_world p) h"
    using assms connecting_split [OF i c] by (simp add: fs_prog_ok_def owners_def)
  let ?w = "fs_drop api h (fp_world p)"
  have w: "fs_safe ?w" using assms h by (intro fs_drop_safe) (simp_all add: fs_prog_ok_def)
  show ?thesis
  proof (cases r)
    case (Inl e)
    then show ?thesis using i c two h
      by (intro prog_remove2 [OF assms, of "drop_inner api h ?w" h])
        (auto simp: connect_resolved_def Let_def owners_def connecting_split numeral_2_eq_2 simp del: mset_map intro!: drop_inner_safe [OF w])
  next
    case (Inr n)
    then show ?thesis using i c w
      by (intro prog_remove [OF assms, of ?w h]) (auto simp: connect_resolved_def Let_def owners_def connecting_split simp del: mset_map)
  qed
next
  case False
  then show ?thesis using assms by (auto split: prod.splits poll.splits)
qed

lemma drop_connect_ok:
  assumes "fs_prog_ok api p"
  shows "fs_prog_ok api (fs_do hr api (DropConnect i) p)"
proof (cases "i < length (fp_connecting p)")
  case i: True
  obtain h x where c: "fp_connecting p ! i = (h, x)" by force
  note h = owned [OF assms owners_simps(4) [OF i c]]
  have two: "1 < w_refs (fp_world p) h"
    using assms connecting_split [OF i c] by (simp add: fs_prog_ok_def owners_def)
  have safe: "fs_safe (fp_world p)" using assms by (simp add: fs_prog_ok_def)
  show ?thesis
  proof (cases x)
    case Pending
    have "fs_safe (emit (OneCancelled h) (fp_world p))" using safe h by (simp add: fs_use_safe)
    then show ?thesis using Pending i c h
      by (intro prog_remove [OF assms, of "connect_dropped api h x (fp_world p)" h])
        (auto simp: connect_dropped_def owners_def connecting_split numeral_2_eq_2 simp del: mset_map intro!: drop_inner_safe)
  next
    case (Ready r)
    have "fs_safe (fs_drop api h (fp_world p))" using safe h by (simp add: fs_drop_safe)
    then show ?thesis using Ready i c h two
      by (intro prog_remove2 [OF assms, of "connect_dropped api h x (fp_world p)" h])
        (auto simp: connect_dropped_def owners_def connecting_split numeral_2_eq_2 simp del: mset_map intro!: drop_inner_safe)
  qed
qed (use assms in simp)

lemma disconnect_ok:
  assumes "fs_prog_ok api p"
  shows "fs_prog_ok api (fs_do hr api (Disconnect i) p)"
proof (cases "i < length (fp_pipes p)")
  case i: True
  let ?h = "fp_pipes p ! i" let ?w = "emit (PipeDisconnected ?h) (fp_world p)"
  note h = owned [OF assms owners_simps(3) [OF i]]
  have w: "fs_safe ?w" using assms h by (intro fs_use_safe [of _ _ ?h]) (simp_all add: fs_prog_ok_def)
  show ?thesis
  proof (cases "fa_call api (w_log (fp_world p)) (PipeDisconnected ?h)")
    case None
    then show ?thesis using i w
      by (intro prog_keep [OF assms, of ?w]) (simp_all add: disconnect_def Let_def owners_def but_split)
  next
    case (Some e)
    then show ?thesis using i w h
      by (intro prog_remove [OF assms, of "drop_inner api ?h ?w" ?h])
        (simp_all add: disconnect_def Let_def owners_def but_split drop_inner_safe)
  qed
qed (use assms in simp)

lemma complete_connect_ok:
  assumes "fs_prog_ok api p"
  shows "fs_prog_ok api (fs_do hr api (CompleteConnect i r) p)"
proof (cases "i < length (fp_connecting p)")
  case True
  have "map fst ((fp_connecting p)[i := (h, Ready r)]) = map fst (fp_connecting p)" if "fp_connecting p ! i = (h, x)" for h x
    using that True by (simp add: map_update list_update_same_conv)
  then have "owners (p\<lparr>fp_connecting := (fp_connecting p)[i := (h, Ready r)]\<rparr>) = owners p"
    if "fp_connecting p ! i = (h, x)" for h x
    using that by (simp add: owners_def del: mset_map)
  then show ?thesis using assms True by (auto simp: fs_prog_ok_def split: prod.splits poll.splits)
qed (use assms in simp)

lemma op_ok:
  assumes "fs_prog_ok api p"
  shows "fs_prog_ok api (fs_do hr api (CompleteOp i) p)" "fs_prog_ok api (fs_do hr api (CancelOp i) p)"
proof -
  let ?h = "fp_ops p ! i"
  have safe: "fs_safe (fp_world p)" using assms by (simp add: fs_prog_ok_def)
  show "fs_prog_ok api (fs_do hr api (CompleteOp i) p)"
  proof (cases "i < length (fp_ops p)")
    case True
    with safe owned [OF assms owners_simps(5) [OF True]] show ?thesis
      by (intro prog_remove [OF assms, of "fs_drop api ?h (fp_world p)" ?h]) (simp_all add: owners_def but_split fs_drop_safe)
  qed (use assms in simp)
  show "fs_prog_ok api (fs_do hr api (CancelOp i) p)"
  proof (cases "i < length (fp_ops p)")
    case True
    with safe owned [OF assms owners_simps(5) [OF True]] show ?thesis
      by (intro prog_keep [OF assms, of "emit (OneCancelled ?h) (fp_world p)"]) (simp_all add: owners_def fs_use_safe)
  qed (use assms in simp)
qed

lemma fs_do_ok:
  assumes "fresh_handles api" "fs_prog_ok api p"
  shows "fs_prog_ok api (fs_do hr api act p)"
proof -
  have safe: "fs_safe (fp_world p)" using assms(2) by (simp add: fs_prog_ok_def)
  note made = gained_ok [OF assms(2)] gained_ok [OF assms(2) file_open_makes [OF assms(1) safe]]
    gained_ok [OF assms(2) server_create_makes [OF assms(1) safe]] gained_ok [OF assms(2) client_connect_makes [OF assms(1) safe]]
  show ?thesis
  proof (cases act)
    case (AdoptHandle h)
    then show ?thesis using assms(2) made(1) [OF file_from_handle_makes [OF safe, of api h]] by (simp add: owners_def)
  next
    case (FileTransfer i)
    then show ?thesis using assms(2) transfer_ok [OF assms(2) owners_simps(1)] by (auto simp: owners_def)
  next
    case (PipeTransfer i)
    then show ?thesis using assms(2) transfer_ok [OF assms(2) owners_simps(3)] by (auto simp: owners_def)
  next
    case (DropFile i)
    then show ?thesis using assms(2) drop_object [OF assms(2), of "fp_files p ! i"] by (simp add: owners_def but_split file_drop_inner)
  next
    case (DropServer i)
    then show ?thesis using assms(2) drop_object [OF assms(2), of "fp_servers p ! i"] by (simp add: owners_def but_split pipe_drop_def)
  next
    case (DropPipe i)
    then show ?thesis using assms(2) drop_object [OF assms(2), of "fp_pipes p ! i"] by (simp add: owners_def but_split pipe_drop_def)
  qed (simp_all only: start_connect_ok [OF assms(2)] poll_connect_ok [OF assms(2)] drop_connect_ok [OF assms(2)]
      disconnect_ok [OF assms(2)] complete_connect_ok [OF assms(2)] op_ok [OF assms(2)],
      simp_all add: made owners_def)
qed

lemma fs_run_ok: "fresh_handles api \<Longrightarrow> fs_prog_ok api p \<Longrightarrow> fs_prog_ok api (fs_run hr api acts p)"
  unfolding fs_run_def by (induction acts arbitrary: p) (simp_all add: fs_do_ok)

lemma fs_start_ok: "fs_prog_ok api fs_start"
  by (simp add: fs_prog_ok_def fs_start_def owners_def world_safe_def world_ok_def fun_eq_iff)

section \<open>Names\<close>

lemma prefix_utf: "utf16 LOCAL_PIPE_PREFIX = map of_nat LOCAL_PIPE_PREFIX" "length (utf8 LOCAL_PIPE_PREFIX) = 9"
  by (simp_all add: utf16_def utf16_char_def utf8_def utf8_char_def LOCAL_PIPE_PREFIX_def)

lemma max_name: "MAX_NAME_COMPONENT_LEN = 247"
  by (simp add: MAX_NAME_COMPONENT_LEN_def prefix_utf)

section \<open>Opening a file\<close>

text \<open>
  What \<^verbatim>\<open>CreateFileW\<close> is documented to do to the file itself, by disposition: the content it finds, if the file
  exists, and the content of the file it opens, or its error.
\<close>

abbreviation (input) ERROR_FILE_EXISTS :: u32 where "ERROR_FILE_EXISTS \<equiv> 80"

definition create_file_documented :: "(u32 \<Rightarrow> u32 \<Rightarrow> u8 list option \<Rightarrow> u32 + u8 list) \<Rightarrow> bool" where
  "create_file_documented effect \<longleftrightarrow>
     (\<forall>access found.
        effect access CREATE_NEW found = (if found = None then Inr [] else Inl ERROR_FILE_EXISTS) \<and>
        effect access CREATE_ALWAYS found = Inr [] \<and>
        effect access OPEN_EXISTING found = (case found of None \<Rightarrow> Inl ERROR_FILE_NOT_FOUND | Some c \<Rightarrow> Inr c) \<and>
        effect access OPEN_ALWAYS found = (case found of None \<Rightarrow> Inr [] | Some c \<Rightarrow> Inr c) \<and>
        effect access TRUNCATE_EXISTING found =
          (if access AND GENERIC_WRITE = 0 then Inl ERROR_INVALID_PARAMETER
           else case found of None \<Rightarrow> Inl ERROR_FILE_NOT_FOUND | Some _ \<Rightarrow> Inr []))"

text \<open>What the options mean, each for itself.\<close>

definition options_meaning :: "OpenOptions \<Rightarrow> u8 list option \<Rightarrow> u32 + u8 list" where
  "options_meaning opts found =
     (if oo_create_new opts then (case found of None \<Rightarrow> Inr [] | Some _ \<Rightarrow> Inl ERROR_FILE_EXISTS)
      else if oo_truncate opts \<and> \<not> oo_write opts \<and> \<not> oo_create opts then Inl ERROR_INVALID_PARAMETER
      else case found of
          None \<Rightarrow> if oo_create opts then Inr [] else Inl ERROR_FILE_NOT_FOUND
        | Some c \<Rightarrow> Inr (if oo_truncate opts then [] else c))"

lemma disposition_meaning:
  "create_file_documented effect \<Longrightarrow> effect (desired_access opts) (creation_disposition opts) found = options_meaning opts found"
  by (auto simp: create_file_documented_def options_meaning_def creation_disposition_def desired_access_def Let_def
      split: option.splits)

lemma file_open_log:
  "file_open api opts file w = (Inr h, w') \<Longrightarrow> 0 \<notin> set file \<and>
    w_log w' = w_log w @ [FileOpened h (file @ [0]) (desired_access opts) (oo_share_mode opts) (creation_disposition opts)
      (oo_flags opts OR FILE_FLAG_OVERLAPPED), HandleRegistered h]"
  by (auto simp: file_open_def wide_null_def Let_def register_or_drop_def register_handle_def split: if_splits sum.splits)

section \<open>Properties\<close>

text \<open>
  Property C23. No handle of a file or a pipe is used after it was closed, none is closed twice and none is leaked,
  whatever the platform answers and in whatever order things end: after any program of opens, adoptions, creations,
  connects, transfers, cancellations, disconnects and drops, the open handles are exactly those with an owner left,
  be it an object, a \<^verbatim>\<open>connect\<close> future or an operation the kernel still has, and every registration, cancellation
  and call on the way found its handle open. So a cancellation that comes after its object was dropped still names
  the handle the operation was started on.
\<close>

theorem handles_never_used_closed:
  assumes "fresh_handles api"
  shows "let p = fs_run hr api acts fs_start; log = w_log (fp_world p)
    in open_after fs_opens fs_closes log = Some (set_mset (owners p)) \<and> used_open fs_opens fs_closes fs_uses log"
proof -
  have "fs_prog_ok api (fs_run hr api acts fs_start)" by (rule fs_run_ok [OF assms fs_start_ok])
  then show ?thesis by (simp add: fs_prog_ok_def world_safe_def world_ok_def Let_def)
qed

text \<open>
  Property C24. A file that was opened is the file that was asked for: the platform reads the whole path, which has
  no NUL inside, it does to the file what the options say one by one (fail, create, keep or empty it), it grants
  reading and writing exactly as asked, and the handle is opened for overlapped use, whatever flags the caller set.
\<close>

theorem open_options_meaning:
  assumes "create_file_documented effect" "file_open api opts file w = (Inr h, w')"
  shows "\<exists>access creation flags.
    w_log w' = w_log w @ [FileOpened h (file @ [0]) access (oo_share_mode opts) creation flags, HandleRegistered h] \<and>
    takeWhile (\<lambda>u. u \<noteq> 0) (file @ [0]) = file \<and>
    (\<forall>found. effect access creation found = options_meaning opts found) \<and>
    (access AND 1 \<noteq> 0 \<longleftrightarrow> oo_read opts) \<and> (access AND 2 \<noteq> 0 \<longleftrightarrow> oo_write opts) \<and> flags AND FILE_FLAG_OVERLAPPED \<noteq> 0"
proof -
  note opened = file_open_log [OF assms(2)]
  have "takeWhile (\<lambda>u. u \<noteq> 0) (file @ [0]) = file" using opened by (subst takeWhile_append2) auto
  moreover have "(oo_flags opts OR FILE_FLAG_OVERLAPPED) AND FILE_FLAG_OVERLAPPED \<noteq> 0"
    by (simp only: word_ao_absorbs) simp
  ultimately show ?thesis using opened disposition_meaning [OF assms(1)]
    by (intro exI [of _ "desired_access opts"] exI [of _ "creation_disposition opts"]
        exI [of _ "oo_flags opts OR FILE_FLAG_OVERLAPPED"]) (simp add: desired_access_def)
qed

text \<open>
  Property C25. A pipe name stays where it belongs: a name is accepted exactly when it is not empty, at most 247
  bytes long and free of separators and NULs, and then the path the platform gets is the local pipe prefix and the
  name in at most 256 units, with no separator or NUL after the prefix, so that it names a local pipe of that name
  and nothing else; and no two names give the same path.
\<close>

theorem pipe_path_stays_local:
  assumes "\<forall>c \<in> set name. scalar c" "\<forall>c \<in> set other. scalar c"
  shows "case local_pipe_path name of
      Inl e \<Rightarrow> e = SetupInvalidName \<and> (name = [] \<or> 247 < length (utf8 name) \<or> {92, 47, 0} \<inter> set name \<noteq> {})
    | Inr units \<Rightarrow> \<exists>rest. units = map of_nat LOCAL_PIPE_PREFIX @ rest \<and> rest \<noteq> [] \<and> length (utf8 name) \<le> 247 \<and> length units \<le> 256 \<and>
        {92, 47, 0} \<inter> set rest = {} \<and> (local_pipe_path other = Inr units \<longleftrightarrow> other = name)"
proof (cases "local_pipe_path name")
  case (Inl e)
  with assms(1) show ?thesis
    by (auto simp: local_pipe_path_def validate_bare_name_def max_name utf8_def utf8_nul split: if_splits)
next
  case (Inr units)
  then have v: "name \<noteq> []" "length (utf8 name) \<le> 247" "92 \<notin> set name" "47 \<notin> set name" "0 \<notin> set name"
    and whole: "units = map of_nat LOCAL_PIPE_PREFIX @ utf16 name"
    using assms(1) utf8_nul
    by (auto simp: local_pipe_path_def validate_bare_name_def max_name utf16_append prefix_utf utf8_def not_less split: if_splits)
  have "{92, 47, 0} \<inter> set (utf16 name) = {}"
    using utf16_unit [OF assms(1), of 92] utf16_unit [OF assms(1), of 47] utf16_unit [OF assms(1), of 0] v by auto
  moreover have "length units \<le> 256" using v(2) utf16_le_utf8 [of name] by (simp add: whole LOCAL_PIPE_PREFIX_def)
  moreover have "utf16 name \<noteq> []" using v(1) by (cases name) (auto simp: utf16_def utf16_char_def)
  moreover have "local_pipe_path other = Inr units \<longleftrightarrow> other = name"
    using Inr utf16_inj [OF assms(2,1)]
    by (auto simp: local_pipe_path_def utf16_append prefix_utf whole split: sum.splits)
  ultimately show ?thesis using Inr whole v(2) by auto
qed

text \<open>A platform that numbers its handles upwards from one, and whose pipes wait for a client.\<close>

definition next_handle :: "fs_ev list \<Rightarrow> nat" where
  "next_handle log = Suc (sum_list (map (\<lambda>e. case fs_opens e of Some h \<Rightarrow> h | None \<Rightarrow> 0) log))"

definition counting_fs :: fs_api where
  "counting_fs =
     \<lparr>fa_create = (\<lambda>log _ _ _ _ _. Inr (next_handle log)),
      fa_pipe = (\<lambda>log _ _ _ _ _ _ _. next_handle log),
      fa_last = (\<lambda>_. 0), fa_call = (\<lambda>_ _. None), fa_register = (\<lambda>_ _. Inr ()),
      fa_connect = (\<lambda>_ _. \<lparr>k_ok = False, k_high = 0, k_err = hr_win32 ERROR_IO_PENDING, k_mem = (\<lambda>_. None),
        k_result = Inr 0, k_transferred = 0, k_done_mem = (\<lambda>_. None)\<rparr>),
      fa_invalid = (\<lambda>h. h = 0)\<rparr>"

lemma counting_fs_fresh: "fresh_handles counting_fs"
proof -
  have less: "h < next_handle log" if "e \<in> set log" "fs_opens e = Some h" for h e log
    using member_le_sum_list [of h "map (\<lambda>e. case fs_opens e of Some s \<Rightarrow> s | None \<Rightarrow> 0) log"] that
    by (force simp: next_handle_def less_Suc_eq_le image_iff)
  then have "next_handle log \<notin> H" if "open_after fs_opens fs_closes log = Some H" for log H
    using open_after_opened [OF that] by blast
  moreover have "next_handle log \<noteq> 0" for log by (simp add: next_handle_def)
  ultimately show ?thesis by (auto simp: fresh_handles_def counting_fs_def)
qed

text \<open>A server's connect is dropped while the kernel has it: its handle outlives the server.\<close>

theorem handles_never_used_closed_witness:
  "fresh_handles counting_fs \<and>
   (let p = fs_run hr_win32 counting_fs
        [CreateServer (server_options_new [97]), StartConnect 0, DropConnect 0, CancelOp 0] fs_start
    in owners p = {#1#} \<and> open_after fs_opens fs_closes (w_log (fp_world p)) = Some {1})"
proof -
  let ?p = "fs_run hr_win32 counting_fs
    [CreateServer (server_options_new [97]), StartConnect 0, DropConnect 0, CancelOp 0] fs_start"
  have "owners ?p = {#1#}"
    by (simp add: fs_run_def gained_def server_create_def server_options_new_def local_pipe_path_def
        validate_bare_name_def max_name utf8_def utf8_char_def counting_fs_def next_handle_def INVALID_HANDLE_VALUE_def
        register_or_drop_def register_handle_def server_connect_def connect_pipe_operate_def win32_result_def Let_def
        hr_win32_def but_def owners_def fs_start_def)
  then show ?thesis using handles_never_used_closed [OF counting_fs_fresh, of hr_win32
      "[CreateServer (server_options_new [97]), StartConnect 0, DropConnect 0, CancelOp 0]"] counting_fs_fresh
    by (simp add: Let_def)
qed

definition documented_effect :: "u32 \<Rightarrow> u32 \<Rightarrow> u8 list option \<Rightarrow> u32 + u8 list" where
  "documented_effect access disposition found =
     (if disposition = CREATE_NEW then (if found = None then Inr [] else Inl ERROR_FILE_EXISTS)
      else if disposition = CREATE_ALWAYS then Inr []
      else if disposition = OPEN_EXISTING then (case found of None \<Rightarrow> Inl ERROR_FILE_NOT_FOUND | Some c \<Rightarrow> Inr c)
      else if disposition = OPEN_ALWAYS then (case found of None \<Rightarrow> Inr [] | Some c \<Rightarrow> Inr c)
      else if access AND GENERIC_WRITE = 0 then Inl ERROR_INVALID_PARAMETER
      else case found of None \<Rightarrow> Inl ERROR_FILE_NOT_FOUND | Some _ \<Rightarrow> Inr [])"

text \<open>Truncating an existing file with write access alone.\<close>

theorem open_options_meaning_witness:
  "\<exists>w' access creation flags.
     file_open counting_fs (open_options_new\<lparr>oo_write := True, oo_truncate := True\<rparr>) [97] (fp_world fs_start) = (Inr 1, w') \<and>
     w_log w' = [FileOpened 1 [97, 0] access 7 creation flags, HandleRegistered 1] \<and>
     documented_effect access creation (Some [1, 2]) = Inr []"
proof -
  let ?o = "open_options_new\<lparr>oo_write := True, oo_truncate := True\<rparr>"
  have doc: "create_file_documented documented_effect"
    by (simp add: create_file_documented_def documented_effect_def split: option.splits)
  obtain w' where o: "file_open counting_fs ?o [97] (fp_world fs_start) = (Inr 1, w')"
    by (simp add: file_open_def wide_null_def Let_def counting_fs_def next_handle_def register_or_drop_def
        register_handle_def fs_start_def)
  from open_options_meaning [OF doc o] obtain access creation flags where
    l: "w_log w' = w_log (fp_world fs_start) @ [FileOpened 1 ([97] @ [0]) access (oo_share_mode ?o) creation flags, HandleRegistered 1]"
    and m: "\<forall>found. documented_effect access creation found = options_meaning ?o found"
    by blast
  have "documented_effect access creation (Some [1, 2]) = Inr []"
    using m by (simp add: options_meaning_def open_options_new_def)
  with o l show ?thesis by (auto simp: fs_start_def open_options_new_def)
qed

theorem pipe_path_stays_local_witness:
  "\<exists>units. local_pipe_path [0x1F600, 97] = Inr units \<and> length units \<le> 256 \<and> 92 \<notin> set (drop 9 units) \<and>
     local_pipe_path [98] \<noteq> Inr units"
proof -
  obtain units where u: "local_pipe_path [0x1F600, 97] = Inr units"
    by (simp add: local_pipe_path_def validate_bare_name_def max_name utf8_def utf8_char_def)
  with pipe_path_stays_local [of "[0x1F600, 97]" "[98]"] show ?thesis
    by (auto simp: scalar_def LOCAL_PIPE_PREFIX_def)
qed

end
