(* ===== verification/Winhttp_Request.thy ===== *)
theory Winhttp_Request
  imports Winhttp_Context Resource_Log Utf "HOL-Library.Multiset"
begin

text \<open>
  Sessions, connections and requests: \<^verbatim>\<open>winhttp/mod.rs\<close> and \<^verbatim>\<open>winhttp/handle.rs\<close>. Every WinHTTP call is an event
  of the log and the platform's answers are arguments, as for sockets and files.

  The context a request shares with its callback is an \<^verbatim>\<open>Arc\<close> with two owners: the request, and WinHTTP, whose
  reference is given away in \<^verbatim>\<open>arm\<close> and taken back by the callback for \<^verbatim>\<open>HANDLE_CLOSING\<close>. The first part counts them
  over whole programs; the second cuts the callback and the drop of a request into their accesses to the count and
  to the context, and interleaves them.
\<close>

unbundle bit_operations_syntax

section \<open>The platform\<close>

datatype wh_ev =
    SessionOpened nat "u16 list" u32 "u16 list option" "u16 list option" u32
  | ConnectionOpened nat nat "u16 list" u16
  | RequestOpened nat nat "u16 list" "u16 list" "u16 list option list option" u32
  | WhClosed nat
  | WhOption nat u32 nat
  | WhCallback nat
  | WhTimeouts nat int int int int

text \<open>
  The world has, beside the log and the owners of handles, the strong count of every context, the contexts
  installed with a callback, by their handle, and those whose handle was closed and whose last notification, the
  one for \<^verbatim>\<open>HANDLE_CLOSING\<close>, is still to come.
\<close>

record wh_world = "wh_ev world" +
  wx_strong :: "nat \<Rightarrow> nat"
  wx_next :: nat
  wx_armed :: "nat \<Rightarrow> nat option"
  wx_owed :: "nat list"

record wh_api =
  wa_open :: "wh_ev list \<Rightarrow> u16 list \<Rightarrow> u32 \<Rightarrow> u16 list option \<Rightarrow> u16 list option \<Rightarrow> u32 \<Rightarrow> nat"
  wa_connect :: "wh_ev list \<Rightarrow> nat \<Rightarrow> u16 list \<Rightarrow> u16 \<Rightarrow> nat"
  wa_request :: "wh_ev list \<Rightarrow> nat \<Rightarrow> u16 list \<Rightarrow> u16 list \<Rightarrow> u16 list option list option \<Rightarrow> u32 \<Rightarrow> nat"
  wa_call :: "wh_ev list \<Rightarrow> wh_ev \<Rightarrow> hresult option"
  wa_callback :: "wh_ev list \<Rightarrow> nat \<Rightarrow> nat"
  wa_last :: "wh_ev list \<Rightarrow> hresult"

definition WINHTTP_INVALID_STATUS_CALLBACK :: nat where
  "WINHTTP_INVALID_STATUS_CALLBACK = 2 ^ 64 - 1"

abbreviation (input) WINHTTP_FLAG_ASYNC :: u32 where "WINHTTP_FLAG_ASYNC \<equiv> 0x10000000"
abbreviation (input) WINHTTP_FLAG_SECURE :: u32 where "WINHTTP_FLAG_SECURE \<equiv> 0x00800000"
abbreviation (input) WINHTTP_FLAG_AUTOMATIC_CHUNKING :: u32 where "WINHTTP_FLAG_AUTOMATIC_CHUNKING \<equiv> 0x00000200"
abbreviation (input) WINHTTP_OPTION_CONTEXT_VALUE :: u32 where "WINHTTP_OPTION_CONTEXT_VALUE \<equiv> 45"
abbreviation (input) WINHTTP_OPTION_REDIRECT_POLICY :: u32 where "WINHTTP_OPTION_REDIRECT_POLICY \<equiv> 88"
abbreviation (input) WINHTTP_OPTION_SECURITY_FLAGS :: u32 where "WINHTTP_OPTION_SECURITY_FLAGS \<equiv> 31"
abbreviation (input) WINHTTP_OPTION_ENABLE_HTTP_PROTOCOL :: u32 where "WINHTTP_OPTION_ENABLE_HTTP_PROTOCOL \<equiv> 133"
abbreviation (input) WINHTTP_QUERY_STATUS_CODE :: u32 where "WINHTTP_QUERY_STATUS_CODE \<equiv> 19"
abbreviation (input) WINHTTP_QUERY_RAW_HEADERS_CRLF :: u32 where "WINHTTP_QUERY_RAW_HEADERS_CRLF \<equiv> 22"
abbreviation (input) WINHTTP_QUERY_FLAG_NUMBER :: u32 where "WINHTTP_QUERY_FLAG_NUMBER \<equiv> 0x20000000"
abbreviation (input) WINHTTP_QUERY_FLAG_TRAILERS :: u32 where "WINHTTP_QUERY_FLAG_TRAILERS \<equiv> 0x02000000"
abbreviation (input) ERROR_INSUFFICIENT_BUFFER :: u32 where "ERROR_INSUFFICIENT_BUFFER \<equiv> 122"

section \<open>Handles and contexts\<close>

text \<open>\<^verbatim>\<open>Drop\<close> of a handle; the session's is inside an \<^verbatim>\<open>Arc\<close>, the others have one owner.\<close>

definition wh_drop :: "nat \<Rightarrow> wh_world \<Rightarrow> wh_world" where
  "wh_drop h w =
     (let w1 = handle_drop (\<lambda>h. h = 0) WhClosed h w
      in case wx_armed w h of
           None \<Rightarrow> w1
         | Some c \<Rightarrow> if w_refs w h \<le> 1 then w1\<lparr>wx_armed := (wx_armed w)(h := None), wx_owed := c # wx_owed w\<rparr> else w1)"

definition context_alloc :: "wh_world \<Rightarrow> nat \<times> wh_world" where
  "context_alloc w = (wx_next w, w\<lparr>wx_next := wx_next w + 1, wx_strong := (wx_strong w)(wx_next w := 1)\<rparr>)"

definition context_clone :: "nat \<Rightarrow> wh_world \<Rightarrow> wh_world" where
  "context_clone c w = w\<lparr>wx_strong := (wx_strong w)(c := wx_strong w c + 1)\<rparr>"

definition context_drop :: "nat \<Rightarrow> wh_world \<Rightarrow> wh_world" where
  "context_drop c w = w\<lparr>wx_strong := (wx_strong w)(c := wx_strong w c - 1)\<rparr>"

text \<open>A call on an open handle that succeeds or leaves an error.\<close>

definition wh_call :: "wh_api \<Rightarrow> wh_ev \<Rightarrow> wh_world \<Rightarrow> (hresult + unit) \<times> wh_world" where
  "wh_call api e w = (case wa_call api (w_log w) e of None \<Rightarrow> Inr () | Some err \<Rightarrow> Inl err, emit e w)"

section \<open>Sessions and connections\<close>

datatype AccessType = AutomaticProxy | NamedProxy

definition access_type :: "AccessType \<Rightarrow> u32" where
  "access_type access = (case access of AutomaticProxy \<Rightarrow> 4 | NamedProxy \<Rightarrow> 3)"

datatype RedirectPolicy = Never | DisallowHttpsToHttp | Always

definition redirect_value :: "RedirectPolicy \<Rightarrow> u32" where
  "redirect_value policy = (case policy of Never \<Rightarrow> 0 | DisallowHttpsToHttp \<Rightarrow> 1 | Always \<Rightarrow> 2)"

definition session_with_proxy ::
  "wh_api \<Rightarrow> u16 list \<Rightarrow> AccessType \<Rightarrow> u16 list option \<Rightarrow> u16 list option \<Rightarrow> wh_world \<Rightarrow> (hresult + nat) \<times> wh_world" where
  "session_with_proxy api agent access proxy bypass w =
     (let raw = wa_open api (w_log w) agent (access_type access) proxy bypass WINHTTP_FLAG_ASYNC
      in if raw = 0 then (Inl (wa_last api (w_log w)), w)
         else (Inr raw, handle_from_raw raw (emit (SessionOpened raw agent (access_type access) proxy bypass WINHTTP_FLAG_ASYNC) w)))"

definition session_new :: "wh_api \<Rightarrow> u16 list \<Rightarrow> wh_world \<Rightarrow> (hresult + nat) \<times> wh_world" where
  "session_new api agent w = session_with_proxy api agent AutomaticProxy None None w"

definition set_timeouts ::
  "wh_api \<Rightarrow> nat \<Rightarrow> int \<Rightarrow> int \<Rightarrow> int \<Rightarrow> int \<Rightarrow> wh_world \<Rightarrow> (hresult + unit) \<times> wh_world" where
  "set_timeouts api s resolve_ms connect_ms send_ms receive_ms w =
     wh_call api (WhTimeouts s resolve_ms connect_ms send_ms receive_ms) w"

definition set_redirect_policy :: "wh_api \<Rightarrow> nat \<Rightarrow> RedirectPolicy \<Rightarrow> wh_world \<Rightarrow> (hresult + unit) \<times> wh_world" where
  "set_redirect_policy api s policy w =
     wh_call api (WhOption s WINHTTP_OPTION_REDIRECT_POLICY (unat (redirect_value policy))) w"

record Connection =
  cx_handle :: nat
  cx_session :: nat

definition session_connect :: "wh_api \<Rightarrow> nat \<Rightarrow> u16 list \<Rightarrow> u16 \<Rightarrow> wh_world \<Rightarrow> (hresult + Connection) \<times> wh_world" where
  "session_connect api s server port w =
     (let raw = wa_connect api (w_log w) s server port
      in if raw = 0 then (Inl (wa_last api (w_log w)), w)
         else (Inr \<lparr>cx_handle = raw, cx_session = s\<rparr>,
               handle_clone s (handle_from_raw raw (emit (ConnectionOpened raw s server port) w))))"

definition session_drop :: "nat \<Rightarrow> wh_world \<Rightarrow> wh_world" where
  "session_drop s w = wh_drop s w"

definition connection_drop :: "Connection \<Rightarrow> wh_world \<Rightarrow> wh_world" where
  "connection_drop c w = wh_drop (cx_session c) (wh_drop (cx_handle c) w)"

section \<open>Requests\<close>

record Request =
  rq_handle :: nat
  rq_context :: nat
  rq_session :: nat

text \<open>
  \<^verbatim>\<open>arm\<close> takes the handle and the clone of the session. On an error the reference meant for WinHTTP is taken back,
  the handle closed, and what is left, the context and the session, dropped on return. Where both calls succeed
  the callback is installed with the context.
\<close>

definition arm :: "wh_api \<Rightarrow> nat \<Rightarrow> nat \<Rightarrow> wh_world \<Rightarrow> (hresult + Request) \<times> wh_world" where
  "arm api h session w =
     (case context_alloc w of
        (context, w) \<Rightarrow>
          let w = context_clone context w;
              fail = (\<lambda>e w. (Inl e, wh_drop session (context_drop context (wh_drop h (context_drop context w)))))
          in try_or (wh_call api (WhOption h WINHTTP_OPTION_CONTEXT_VALUE context) w) fail (\<lambda>_ w.
               let previous = wa_callback api (w_log w) h;
                   w = emit (WhCallback h) w
               in if previous = WINHTTP_INVALID_STATUS_CALLBACK then fail (wa_last api (w_log w)) w
                  else (Inr \<lparr>rq_handle = h, rq_context = context, rq_session = session\<rparr>,
                        w\<lparr>wx_armed := (wx_armed w)(h \<mapsto> context)\<rparr>)))"

record RequestFlags =
  automatic_chunking :: bool

definition accept_array :: "u16 list list \<Rightarrow> u16 list option list option" where
  "accept_array accept_types = (if accept_types = [] then None else Some (map Some accept_types @ [None]))"

definition open_request_with ::
  "wh_api \<Rightarrow> Connection \<Rightarrow> u16 list \<Rightarrow> u16 list \<Rightarrow> u16 list list \<Rightarrow> bool \<Rightarrow> RequestFlags \<Rightarrow> wh_world \<Rightarrow>
   (hresult + Request) \<times> wh_world" where
  "open_request_with api c verb object_name accept_types secure flags w =
     (let accept = accept_array accept_types;
          open_flags = (if secure then WINHTTP_FLAG_SECURE else 0);
          open_flags = (if automatic_chunking flags then open_flags OR WINHTTP_FLAG_AUTOMATIC_CHUNKING else open_flags);
          raw = wa_request api (w_log w) (cx_handle c) verb object_name accept open_flags
      in if raw = 0 then (Inl (wa_last api (w_log w)), w)
         else arm api raw (cx_session c) (handle_clone (cx_session c)
           (handle_from_raw raw (emit (RequestOpened raw (cx_handle c) verb object_name accept open_flags) w))))"

definition open_request ::
  "wh_api \<Rightarrow> Connection \<Rightarrow> u16 list \<Rightarrow> u16 list \<Rightarrow> u16 list list \<Rightarrow> bool \<Rightarrow> wh_world \<Rightarrow> (hresult + Request) \<times> wh_world" where
  "open_request api c verb object_name accept_types secure w =
     open_request_with api c verb object_name accept_types secure \<lparr>automatic_chunking = False\<rparr> w"

text \<open>\<^verbatim>\<open>Drop\<close> of a request, its fields in order: the handle, the context, the session.\<close>

definition request_drop :: "Request \<Rightarrow> wh_world \<Rightarrow> wh_world" where
  "request_drop r w = wh_drop (rq_session r) (context_drop (rq_context r) (wh_drop (rq_handle r) w))"

text \<open>The callback for \<^verbatim>\<open>HANDLE_CLOSING\<close>: its own clone, WinHTTP's reference, its clone again.\<close>

definition handle_closing :: "nat \<Rightarrow> wh_world \<Rightarrow> wh_world" where
  "handle_closing c w =
     context_drop c (context_drop c (context_clone c (w\<lparr>wx_owed := remove1 c (wx_owed w)\<rparr>)))"

definition supports_automatic_chunking ::
  "(u32 \<Rightarrow> hresult) \<Rightarrow> wh_api \<Rightarrow> Connection \<Rightarrow> u16 list \<Rightarrow> bool \<Rightarrow> wh_world \<Rightarrow> (hresult + bool) \<times> wh_world" where
  "supports_automatic_chunking hr api c object_name secure w =
     (case open_request_with api c (map of_nat [71, 69, 84]) object_name [] secure \<lparr>automatic_chunking = True\<rparr> w of
        (Inr request, w') \<Rightarrow> (Inr True, request_drop request w')
      | (Inl e, w') \<Rightarrow> (if e = hr ERROR_INVALID_PARAMETER then Inr False else Inl e, w'))"

record CertificateRelaxations =
  unknown_certificate_authority :: bool
  wrong_host_name :: bool
  certificate_date_invalid :: bool
  wrong_usage :: bool

definition relaxation_bits :: "CertificateRelaxations \<Rightarrow> u32" where
  "relaxation_bits r =
     (let bits = 0;
          bits = (if unknown_certificate_authority r then bits OR 0x100 else bits);
          bits = (if wrong_host_name r then bits OR 0x1000 else bits);
          bits = (if certificate_date_invalid r then bits OR 0x2000 else bits);
          bits = (if wrong_usage r then bits OR 0x200 else bits)
      in bits)"

definition relax_certificate_validation ::
  "wh_api \<Rightarrow> Request \<Rightarrow> CertificateRelaxations \<Rightarrow> wh_world \<Rightarrow> (hresult + unit) \<times> wh_world" where
  "relax_certificate_validation api r relaxations w =
     wh_call api (WhOption (rq_handle r) WINHTTP_OPTION_SECURITY_FLAGS (unat (relaxation_bits relaxations))) w"

definition enable_http2 :: "wh_api \<Rightarrow> Request \<Rightarrow> wh_world \<Rightarrow> (hresult + unit) \<times> wh_world" where
  "enable_http2 api r w = wh_call api (WhOption (rq_handle r) WINHTTP_OPTION_ENABLE_HTTP_PROTOCOL 1) w"

section \<open>Reading the response head\<close>

text \<open>
  \<^verbatim>\<open>WinHttpQueryHeaders\<close>: the buffer is null or its size in bytes, the answer is the result, the length it stored and
  the units it wrote.
\<close>

type_synonym query_call = "u32 \<Rightarrow> u16 list option \<Rightarrow> u32 option \<Rightarrow> (hresult + unit) \<times> u32 \<times> u16 list"

definition query_string :: "(u32 \<Rightarrow> hresult) \<Rightarrow> query_call \<Rightarrow> u32 \<Rightarrow> u16 list option \<Rightarrow> hresult + nat list" where
  "query_string hr Query level name =
     (case Query level name None of
        (Inr _, _, _) \<Rightarrow> Inr []
      | (Inl e, len, _) \<Rightarrow>
          if e \<noteq> hr ERROR_INSUFFICIENT_BUFFER then Inl e
          else let elements = (unat len + 1) div 2
               in case Query level name (Some (of_nat (elements * 2))) of
                    (Inl e, _, _) \<Rightarrow> Inl e
                  | (Inr _, len', units) \<Rightarrow>
                      let buffer = take elements (units @ replicate elements 0);
                          n = min (unat len' div 2) (length buffer)
                      in Inr (from_utf16_lossy (take n buffer)))"

text \<open>A field that is not there is not an error.\<close>

definition absent_as_none :: "hresult + nat list \<Rightarrow> hresult + nat list option" where
  "absent_as_none r =
     (case r of
        Inr value \<Rightarrow> Inr (Some value)
      | Inl e \<Rightarrow> if winhttp_from_error e = WHeaderNotFound then Inr None else Inl e)"

definition WINHTTP_QUERY_CUSTOM :: u32 where
  "WINHTTP_QUERY_CUSTOM = 65535"

definition winhttp_raw_trailers :: "(u32 \<Rightarrow> hresult) \<Rightarrow> query_call \<Rightarrow> hresult + nat list option" where
  "winhttp_raw_trailers hr Query =
     absent_as_none (query_string hr Query (WINHTTP_QUERY_RAW_HEADERS_CRLF OR WINHTTP_QUERY_FLAG_TRAILERS) None)"

definition winhttp_header :: "(u32 \<Rightarrow> hresult) \<Rightarrow> query_call \<Rightarrow> u16 list \<Rightarrow> hresult + nat list option" where
  "winhttp_header hr Query name = absent_as_none (query_string hr Query WINHTTP_QUERY_CUSTOM (Some name))"

definition winhttp_raw_headers :: "(u32 \<Rightarrow> hresult) \<Rightarrow> query_call \<Rightarrow> hresult + nat list" where
  "winhttp_raw_headers hr Query = query_string hr Query WINHTTP_QUERY_RAW_HEADERS_CRLF None"

text \<open>The number \<^verbatim>\<open>WinHttpQueryHeaders\<close> stores, given as its four bytes' value.\<close>

definition status_code :: "(u32 \<Rightarrow> (hresult + unit) \<times> u32) \<Rightarrow> hresult + u32" where
  "status_code Query =
     (case Query (WINHTTP_QUERY_STATUS_CODE OR WINHTTP_QUERY_FLAG_NUMBER) of
        (Inl e, _) \<Rightarrow> Inl e
      | (Inr _, value) \<Rightarrow> Inr value)"

definition encode_headers :: "(nat list \<times> nat list) list \<Rightarrow> u16 list" where
  "encode_headers headers = utf16 (concat (map (\<lambda>(name, value). name @ [58, 32] @ value @ [13, 10]) headers))"

section \<open>Programs\<close>

record wh_prog =
  wp_sessions :: "nat list"
  wp_connections :: "Connection list"
  wp_requests :: "Request list"
  wp_world :: wh_world

datatype wh_act =
    NewSession "u16 list" AccessType "u16 list option" "u16 list option" | SetTimeouts nat int int int int
  | SetRedirect nat RedirectPolicy | Connect nat "u16 list" u16
  | OpenRequest nat "u16 list" "u16 list" "u16 list list" bool RequestFlags | ProbeChunking nat "u16 list" bool
  | Relax nat CertificateRelaxations | EnableHttp2 nat
  | DropSession nat | DropConnection nat | DropRequest nat | ClosingNotified nat

definition drop_nth :: "nat \<Rightarrow> 'a list \<Rightarrow> 'a list" where
  "drop_nth i xs = take i xs @ drop (Suc i) xs"

fun wh_do :: "(u32 \<Rightarrow> hresult) \<Rightarrow> wh_api \<Rightarrow> wh_act \<Rightarrow> wh_prog \<Rightarrow> wh_prog" where
  "wh_do hr api (NewSession agent access proxy bypass) p =
     (case session_with_proxy api agent access proxy bypass (wp_world p) of
        (Inl _, w) \<Rightarrow> p\<lparr>wp_world := w\<rparr>
      | (Inr s, w) \<Rightarrow> p\<lparr>wp_sessions := s # wp_sessions p, wp_world := w\<rparr>)"
| "wh_do hr api (SetTimeouts i a b c d) p =
     (if i < length (wp_sessions p)
      then p\<lparr>wp_world := snd (set_timeouts api (wp_sessions p ! i) a b c d (wp_world p))\<rparr> else p)"
| "wh_do hr api (SetRedirect i policy) p =
     (if i < length (wp_sessions p)
      then p\<lparr>wp_world := snd (set_redirect_policy api (wp_sessions p ! i) policy (wp_world p))\<rparr> else p)"
| "wh_do hr api (Connect i server port) p =
     (if i < length (wp_sessions p)
      then case session_connect api (wp_sessions p ! i) server port (wp_world p) of
          (Inl _, w) \<Rightarrow> p\<lparr>wp_world := w\<rparr>
        | (Inr c, w) \<Rightarrow> p\<lparr>wp_connections := c # wp_connections p, wp_world := w\<rparr>
      else p)"
| "wh_do hr api (OpenRequest i verb object_name accept_types secure flags) p =
     (if i < length (wp_connections p)
      then case open_request_with api (wp_connections p ! i) verb object_name accept_types secure flags (wp_world p) of
          (Inl _, w) \<Rightarrow> p\<lparr>wp_world := w\<rparr>
        | (Inr r, w) \<Rightarrow> p\<lparr>wp_requests := r # wp_requests p, wp_world := w\<rparr>
      else p)"
| "wh_do hr api (ProbeChunking i object_name secure) p =
     (if i < length (wp_connections p)
      then p\<lparr>wp_world := snd (supports_automatic_chunking hr api (wp_connections p ! i) object_name secure (wp_world p))\<rparr>
      else p)"
| "wh_do hr api (Relax i relaxations) p =
     (if i < length (wp_requests p)
      then p\<lparr>wp_world := snd (relax_certificate_validation api (wp_requests p ! i) relaxations (wp_world p))\<rparr> else p)"
| "wh_do hr api (EnableHttp2 i) p =
     (if i < length (wp_requests p)
      then p\<lparr>wp_world := snd (enable_http2 api (wp_requests p ! i) (wp_world p))\<rparr> else p)"
| "wh_do hr api (DropSession i) p =
     (if i < length (wp_sessions p)
      then p\<lparr>wp_sessions := drop_nth i (wp_sessions p), wp_world := session_drop (wp_sessions p ! i) (wp_world p)\<rparr> else p)"
| "wh_do hr api (DropConnection i) p =
     (if i < length (wp_connections p)
      then p\<lparr>wp_connections := drop_nth i (wp_connections p),
             wp_world := connection_drop (wp_connections p ! i) (wp_world p)\<rparr>
      else p)"
| "wh_do hr api (DropRequest i) p =
     (if i < length (wp_requests p)
      then p\<lparr>wp_requests := drop_nth i (wp_requests p), wp_world := request_drop (wp_requests p ! i) (wp_world p)\<rparr> else p)"
| "wh_do hr api (ClosingNotified i) p =
     (if i < length (wx_owed (wp_world p))
      then p\<lparr>wp_world := handle_closing (wx_owed (wp_world p) ! i) (wp_world p)\<rparr> else p)"

definition wh_run :: "(u32 \<Rightarrow> hresult) \<Rightarrow> wh_api \<Rightarrow> wh_act list \<Rightarrow> wh_prog \<Rightarrow> wh_prog" where
  "wh_run hr api acts p = fold (wh_do hr api) acts p"

definition wh_start :: wh_prog where
  "wh_start = \<lparr>wp_sessions = [], wp_connections = [], wp_requests = [],
     wp_world = \<lparr>w_log = [], w_refs = (\<lambda>_. 0), wx_strong = (\<lambda>_. 0), wx_next = 1, wx_armed = (\<lambda>_. None), wx_owed = []\<rparr>\<rparr>"

text \<open>The owners of handles: each connection and each request owns its handle and shares its session's.\<close>

definition wh_others :: "wh_prog \<Rightarrow> nat multiset" where
  "wh_others p = mset (wp_sessions p) + mset (map cx_handle (wp_connections p)) + mset (map cx_session (wp_connections p)) +
     mset (map rq_session (wp_requests p))"

definition wh_owners :: "wh_prog \<Rightarrow> nat multiset" where
  "wh_owners p = wh_others p + mset (map rq_handle (wp_requests p))"

section \<open>Every handle and every context has its owner\<close>

fun wh_opens :: "wh_ev \<Rightarrow> nat option" where
  "wh_opens (SessionOpened h _ _ _ _ _) = Some h"
| "wh_opens (ConnectionOpened h _ _ _) = Some h"
| "wh_opens (RequestOpened h _ _ _ _ _) = Some h"
| "wh_opens _ = None"

fun wh_closes :: "wh_ev \<Rightarrow> nat option" where
  "wh_closes (WhClosed h) = Some h"
| "wh_closes _ = None"

fun wh_uses :: "wh_ev \<Rightarrow> nat option" where
  "wh_uses (WhOption h _ _) = Some h"
| "wh_uses (WhCallback h) = Some h"
| "wh_uses (WhTimeouts h _ _ _ _) = Some h"
| "wh_uses _ = None"

interpretation whl: handle_use_log wh_opens wh_closes WhClosed "\<lambda>h. h = 0" wh_uses
proof unfold_locales
  show "wh_opens e = Some h \<Longrightarrow> wh_uses e = None" for e h by (cases e) simp_all
qed simp_all

abbreviation wh_safe :: "wh_world \<Rightarrow> bool" where
  "wh_safe \<equiv> world_safe wh_opens wh_closes wh_uses"

text \<open>What the theorems rely on: a handle WinHTTP returns, when it is not null, is not already open.\<close>

definition fresh_winhttp :: "wh_api \<Rightarrow> bool" where
  "fresh_winhttp api \<longleftrightarrow>
     (\<forall>log H. open_after wh_opens wh_closes log = Some H \<longrightarrow>
        (\<forall>a t pr b f. wa_open api log a t pr b f = 0 \<or> wa_open api log a t pr b f \<notin> H) \<and>
        (\<forall>s n port. wa_connect api log s n port = 0 \<or> wa_connect api log s n port \<notin> H) \<and>
        (\<forall>c v n a f. wa_request api log c v n a f = 0 \<or> wa_request api log c v n a f \<notin> H))"

lemma fresh_refs:
  assumes "fresh_winhttp api" "wh_safe w"
  shows "wa_open api (w_log w) a t pr b f \<noteq> 0 \<Longrightarrow> w_refs w (wa_open api (w_log w) a t pr b f) = 0"
    and "wa_connect api (w_log w) s n port \<noteq> 0 \<Longrightarrow> w_refs w (wa_connect api (w_log w) s n port) = 0"
    and "wa_request api (w_log w) c v m acc fl \<noteq> 0 \<Longrightarrow> w_refs w (wa_request api (w_log w) c v m acc fl) = 0"
proof -
  have o: "open_after wh_opens wh_closes (w_log w) = Some {h. 0 < w_refs w h}"
    using assms(2) by (simp add: world_safe_def world_ok_def)
  note f = assms(1) [unfolded fresh_winhttp_def, rule_format, OF o]
  show "wa_open api (w_log w) a t pr b f \<noteq> 0 \<Longrightarrow> w_refs w (wa_open api (w_log w) a t pr b f) = 0"
    using conjunct1 [OF f, rule_format, of a t pr b f] by simp
  show "wa_connect api (w_log w) s n port \<noteq> 0 \<Longrightarrow> w_refs w (wa_connect api (w_log w) s n port) = 0"
    using conjunct1 [OF conjunct2 [OF f], rule_format, of s n port] by simp
  show "wa_request api (w_log w) c v m acc fl \<noteq> 0 \<Longrightarrow> w_refs w (wa_request api (w_log w) c v m acc fl) = 0"
    using conjunct2 [OF conjunct2 [OF f], rule_format, of c v m acc fl] by simp
qed

text \<open>
  The invariant. \<open>contexts_ok\<close> counts the references to a context: two for a request in use, its own and WinHTTP's,
  and one until the notification that is owed.
\<close>

definition contexts_ok :: "Request list \<Rightarrow> wh_world \<Rightarrow> bool" where
  "contexts_ok rs w \<longleftrightarrow>
     wx_strong w = (\<lambda>c. 2 * count (mset (map rq_context rs)) c + count (mset (wx_owed w)) c) \<and>
     (\<forall>c \<ge> wx_next w. c \<notin> rq_context ` set rs \<and> c \<notin> set (wx_owed w)) \<and>
     wx_armed w = map_of (map (\<lambda>r. (rq_handle r, rq_context r)) rs)"

definition wh_prog_ok :: "wh_prog \<Rightarrow> bool" where
  "wh_prog_ok p \<longleftrightarrow>
     wh_safe (wp_world p) \<and> w_refs (wp_world p) = count (wh_owners p) \<and> 0 \<notin># wh_owners p \<and>
     distinct (map rq_handle (wp_requests p)) \<and> (\<forall>r \<in> set (wp_requests p). rq_handle r \<notin># wh_others p) \<and>
     contexts_ok (wp_requests p) (wp_world p)"

lemma context_fields [simp]:
  "wx_strong (emit e w) = wx_strong w" "wx_next (emit e w) = wx_next w"
  "wx_armed (emit e w) = wx_armed w" "wx_owed (emit e w) = wx_owed w"
  "wx_strong (handle_from_raw h w) = wx_strong w" "wx_next (handle_from_raw h w) = wx_next w"
  "wx_armed (handle_from_raw h w) = wx_armed w" "wx_owed (handle_from_raw h w) = wx_owed w"
  "wx_strong (handle_clone h w) = wx_strong w" "wx_next (handle_clone h w) = wx_next w"
  "wx_armed (handle_clone h w) = wx_armed w" "wx_owed (handle_clone h w) = wx_owed w"
  "wx_strong (handle_drop iv cl h w) = wx_strong w" "wx_next (handle_drop iv cl h w) = wx_next w"
  "wx_armed (handle_drop iv cl h w) = wx_armed w" "wx_owed (handle_drop iv cl h w) = wx_owed w"
  by (simp_all add: emit_def handle_from_raw_def handle_clone_def handle_drop_def Let_def)

lemma handle_fields [simp]:
  "w_refs (context_clone c w) = w_refs w" "w_log (context_clone c w) = w_log w"
  "w_refs (context_drop c w) = w_refs w" "w_log (context_drop c w) = w_log w"
  "wh_safe (context_clone c w) = wh_safe w" "wh_safe (context_drop c w) = wh_safe w"
  "wh_safe (w\<lparr>wx_armed := a\<rparr>) = wh_safe w" "wh_safe (w\<lparr>wx_owed := b\<rparr>) = wh_safe w"
  "wh_safe (w\<lparr>wx_next := n, wx_strong := st\<rparr>) = wh_safe w"
  by (simp_all add: context_clone_def context_drop_def world_safe_def world_ok_def)

lemma contexts_grow:
  "contexts_ok rs w \<Longrightarrow> wx_strong w' = wx_strong w \<Longrightarrow> wx_next w \<le> wx_next w' \<Longrightarrow> wx_armed w' = wx_armed w \<Longrightarrow>
    wx_owed w' = wx_owed w \<Longrightarrow> contexts_ok rs w'"
  by (auto simp: contexts_ok_def simp del: mset_map)

lemma contexts_cong:
  "contexts_ok rs w \<Longrightarrow> wx_strong w' = wx_strong w \<Longrightarrow> wx_next w' = wx_next w \<Longrightarrow> wx_armed w' = wx_armed w \<Longrightarrow>
    wx_owed w' = wx_owed w \<Longrightarrow> contexts_ok rs w'"
  by (rule contexts_grow) simp_all

lemma contexts_fresh:
  assumes "contexts_ok rs w"
  shows "wx_next w \<notin> rq_context ` set rs" "wx_next w \<notin> set (wx_owed w)" "wx_strong w (wx_next w) = 0"
proof -
  show n: "wx_next w \<notin> rq_context ` set rs" "wx_next w \<notin> set (wx_owed w)" using assms by (auto simp: contexts_ok_def)
  show "wx_strong w (wx_next w) = 0" using assms n by (simp add: contexts_ok_def count_eq_zero_iff)
qed

lemma wh_drop_refs [simp]: "w_refs (wh_drop h w) = (w_refs w)(h := w_refs w h - 1)"
  by (auto simp: wh_drop_def Let_def split: option.splits)

lemma wh_drop_safe:
  assumes "wh_safe w" "0 < w_refs w h" "h \<noteq> 0"
  shows "wh_safe (wh_drop h w)"
proof -
  have "wh_safe (handle_drop (\<lambda>h. h = 0) WhClosed h w)" using assms by (intro whl.drop_safe) simp_all
  moreover have "wh_safe (w\<lparr>wx_armed := a, wx_owed := b\<rparr>) = wh_safe w" for w a b
    by (simp add: world_safe_def world_ok_def)
  ultimately show ?thesis by (simp add: wh_drop_def Let_def split: option.splits)
qed

lemma wh_drop_unarmed:
  assumes "wx_armed w h = None"
  shows "wx_strong (wh_drop h w) = wx_strong w" "wx_next (wh_drop h w) = wx_next w"
    "wx_armed (wh_drop h w) = wx_armed w" "wx_owed (wh_drop h w) = wx_owed w"
  using assms by (simp_all add: wh_drop_def Let_def)

lemma wh_use_safe: "wh_safe w \<Longrightarrow> wh_uses e = Some h \<Longrightarrow> 0 < w_refs w h \<Longrightarrow> wh_safe (emit e w)"
  by (cases e) (auto intro!: whl.use_safe)

lemma mset_drop_nth: "i < length xs \<Longrightarrow> mset xs = add_mset (xs ! i) (mset (drop_nth i xs))"
  by (subst (1) id_take_nth_drop [of i xs]) (simp_all add: drop_nth_def)

lemma map_drop_nth: "map f (drop_nth i xs) = drop_nth i (map f xs)"
  by (simp add: drop_nth_def take_map drop_map)

text \<open>The actions that leave the requests alone.\<close>

lemma others_keep:
  assumes "wh_prog_ok p" "wh_safe w" "w_refs w = w_refs (wp_world p)" "contexts_ok (wp_requests p) w"
  shows "wh_prog_ok (p\<lparr>wp_world := w\<rparr>)"
  using assms by (auto simp: wh_prog_ok_def wh_owners_def wh_others_def)

lemma others_add:
  assumes "wh_prog_ok p" "wh_safe w" "w_refs w = (w_refs (wp_world p))(h := w_refs (wp_world p) h + 1)"
    and "h \<noteq> 0" "h \<notin> rq_handle ` set (wp_requests p)" "contexts_ok (wp_requests p) w"
    and "wp_requests p' = wp_requests p" "wh_others p' = add_mset h (wh_others p)" "wp_world p' = w"
  shows "wh_prog_ok p'"
  using assms by (auto simp: wh_prog_ok_def wh_owners_def)

lemma others_remove:
  assumes "wh_prog_ok p" "wh_safe w" "w_refs w = (w_refs (wp_world p))(h := w_refs (wp_world p) h - 1)"
    and "contexts_ok (wp_requests p) w"
    and "wp_requests p' = wp_requests p" "wh_others p = add_mset h (wh_others p')" "wp_world p' = w"
  shows "wh_prog_ok p'"
  using assms by (auto simp: wh_prog_ok_def wh_owners_def fun_eq_iff)

lemma armed_handle:
  assumes "wh_prog_ok p"
  shows "h \<in># wh_others p \<Longrightarrow> wx_armed (wp_world p) h = None" "w_refs (wp_world p) h = 0 \<Longrightarrow> wx_armed (wp_world p) h = None"
    and "h \<in># wh_others p \<Longrightarrow> h \<notin> rq_handle ` set (wp_requests p)"
    and "h \<in># wh_others p \<Longrightarrow> 0 < w_refs (wp_world p) h \<and> h \<noteq> 0"
    and "w_refs (wp_world p) h = 0 \<Longrightarrow> h \<notin> rq_handle ` set (wp_requests p)"
proof -
  have n: "wx_armed (wp_world p) h = None \<longleftrightarrow> h \<notin> rq_handle ` set (wp_requests p)"
    using assms by (simp add: wh_prog_ok_def contexts_ok_def map_of_eq_None_iff image_image)
  show o: "h \<in># wh_others p \<Longrightarrow> h \<notin> rq_handle ` set (wp_requests p)" using assms by (auto simp: wh_prog_ok_def)
  show z: "w_refs (wp_world p) h = 0 \<Longrightarrow> h \<notin> rq_handle ` set (wp_requests p)"
    using assms by (auto simp: wh_prog_ok_def wh_owners_def count_eq_zero_iff)
  show "h \<in># wh_others p \<Longrightarrow> wx_armed (wp_world p) h = None" "w_refs (wp_world p) h = 0 \<Longrightarrow> wx_armed (wp_world p) h = None"
    using n o z by blast+
  show "h \<in># wh_others p \<Longrightarrow> 0 < w_refs (wp_world p) h \<and> h \<noteq> 0" using assms by (auto simp: wh_prog_ok_def wh_owners_def)
qed

lemma call_ok:
  assumes "wh_prog_ok p" "wh_uses e = Some h" "h \<in># wh_owners p"
  shows "wh_prog_ok (p\<lparr>wp_world := snd (wh_call api e (wp_world p))\<rparr>)"
proof (rule others_keep [OF assms(1)])
  have "0 < w_refs (wp_world p) h" using assms(1,3) by (simp add: wh_prog_ok_def)
  then show "wh_safe (snd (wh_call api e (wp_world p)))"
    using assms(1,2) wh_use_safe [of "wp_world p" e h] by (simp add: wh_call_def wh_prog_ok_def)
  have "contexts_ok (wp_requests p) (wp_world p)" using assms(1) by (simp add: wh_prog_ok_def)
  then show "contexts_ok (wp_requests p) (snd (wh_call api e (wp_world p)))"
    by (rule contexts_cong) (simp_all add: wh_call_def)
qed (simp add: wh_call_def)

lemma new_session_ok:
  assumes "fresh_winhttp api" "wh_prog_ok p"
  shows "wh_prog_ok (wh_do hr api (NewSession agent access proxy bypass) p)"
proof -
  let ?h = "wa_open api (w_log (wp_world p)) agent (access_type access) proxy bypass WINHTTP_FLAG_ASYNC"
  have w: "wh_safe (wp_world p)" "contexts_ok (wp_requests p) (wp_world p)" using assms(2) by (simp_all add: wh_prog_ok_def)
  note z = fresh_refs(1) [OF assms(1) w(1), of agent "access_type access" proxy bypass WINHTTP_FLAG_ASYNC]
  show ?thesis
  proof (cases "?h = 0")
    case False
    let ?w = "handle_from_raw ?h (emit (SessionOpened ?h agent (access_type access) proxy bypass WINHTTP_FLAG_ASYNC) (wp_world p))"
    show ?thesis
    proof (rule others_add [OF assms(2), of ?w ?h])
      show "wh_safe ?w" using z [OF False] w(1) by (intro whl.opened_safe) simp_all
      show "contexts_ok (wp_requests p) ?w" using w(2) by (rule contexts_cong) simp_all
    qed (use False z [OF False] armed_handle(5) [OF assms(2) z [OF False]] in
      \<open>simp_all add: session_with_proxy_def Let_def wh_others_def\<close>)
  qed (use assms(2) in \<open>simp add: session_with_proxy_def\<close>)
qed

lemma connect_ok:
  assumes "fresh_winhttp api" "wh_prog_ok p"
  shows "wh_prog_ok (wh_do hr api (Connect i server port) p)"
proof (cases "i < length (wp_sessions p) \<and> wa_connect api (w_log (wp_world p)) (wp_sessions p ! i) server port \<noteq> 0")
  case True
  let ?s = "wp_sessions p ! i"
  let ?h = "wa_connect api (w_log (wp_world p)) ?s server port"
  let ?w1 = "handle_from_raw ?h (emit (ConnectionOpened ?h ?s server port) (wp_world p))"
  let ?p1 = "p\<lparr>wp_sessions := ?h # wp_sessions p, wp_world := ?w1\<rparr>"
  have w: "wh_safe (wp_world p)" "contexts_ok (wp_requests p) (wp_world p)" using assms(2) by (simp_all add: wh_prog_ok_def)
  have s: "?s \<in># wh_others p" using True by (simp add: wh_others_def)
  have z: "w_refs (wp_world p) ?h = 0" using fresh_refs(2) [OF assms(1) w(1)] True by simp
  have p1: "wh_prog_ok ?p1"
  proof (rule others_add [OF assms(2), of ?w1 ?h])
    show "wh_safe ?w1" using z w(1) by (intro whl.opened_safe) simp_all
    show "contexts_ok (wp_requests p) ?w1" using w(2) by (rule contexts_cong) simp_all
  qed (use True z armed_handle(5) [OF assms(2) z] in \<open>simp_all add: wh_others_def\<close>)
  have s1: "?s \<in># wh_others ?p1" using s by (simp add: wh_others_def)
  show ?thesis
  proof (rule others_add [OF p1, of "handle_clone ?s ?w1" ?s])
    show "wh_safe (handle_clone ?s ?w1)" using p1 armed_handle(4) [OF p1 s1]
      by (intro whl.clone_safe) (simp_all add: wh_prog_ok_def)
    have "contexts_ok (wp_requests ?p1) ?w1" using p1 by (simp add: wh_prog_ok_def)
    then show "contexts_ok (wp_requests ?p1) (handle_clone ?s ?w1)" by (rule contexts_cong) simp_all
  qed (use True armed_handle(3,4) [OF p1 s1] in \<open>simp_all add: session_connect_def Let_def wh_others_def\<close>)
qed (use assms(2) in \<open>auto simp: session_connect_def\<close>)

lemma drop_other_ok:
  assumes "wh_prog_ok p" "wh_others p = add_mset h (wh_others p')" "wp_requests p' = wp_requests p"
    and "wp_world p' = wh_drop h (wp_world p)"
  shows "wh_prog_ok p'"
proof (rule others_remove [OF assms(1) _ _ _ assms(3,2,4)])
  have h: "h \<in># wh_others p" by (simp add: assms(2))
  have w: "wh_safe (wp_world p)" "contexts_ok (wp_requests p) (wp_world p)" using assms(1) by (simp_all add: wh_prog_ok_def)
  show "wh_safe (wh_drop h (wp_world p))" using armed_handle(4) [OF assms(1) h] w by (simp add: wh_drop_safe)
  show "contexts_ok (wp_requests p) (wh_drop h (wp_world p))"
    using w(2) by (rule contexts_cong) (simp_all add: wh_drop_unarmed armed_handle(1) [OF assms(1) h])
qed simp

lemma drop_connection_ok:
  assumes "wh_prog_ok p" "i < length (wp_connections p)"
  shows "wh_prog_ok (p\<lparr>wp_connections := drop_nth i (wp_connections p),
    wp_world := connection_drop (wp_connections p ! i) (wp_world p)\<rparr>)" (is "wh_prog_ok ?p2")
proof -
  let ?c = "wp_connections p ! i"
  let ?p1 = "p\<lparr>wp_connections := drop_nth i (wp_connections p), wp_sessions := cx_session ?c # wp_sessions p,
    wp_world := wh_drop (cx_handle ?c) (wp_world p)\<rparr>"
  have parts: "mset (map f (wp_connections p)) = add_mset (f ?c) (mset (map f (drop_nth i (wp_connections p))))" for f :: "Connection \<Rightarrow> nat"
    using mset_drop_nth [OF assms(2)] by simp
  have "wh_prog_ok ?p1"
    by (rule drop_other_ok [OF assms(1), of "cx_handle ?c"]) (simp_all add: wh_others_def parts del: mset_map)
  then show ?thesis
    by (rule drop_other_ok [of _ "cx_session ?c"]) (simp_all add: wh_others_def connection_drop_def del: mset_map)
qed

text \<open>
  \<^verbatim>\<open>arm\<close> with a fresh handle and a clone of a session, at any of its exits: \<open>arming\<close> is the state between its
  calls, with the new context owned twice.
\<close>

definition arming :: "nat \<Rightarrow> nat \<Rightarrow> wh_world \<Rightarrow> wh_world \<Rightarrow> bool" where
  "arming h s w w2 \<longleftrightarrow>
     wh_safe w2 \<and> w_refs w2 = (w_refs w)(h := 1, s := w_refs w s + 1) \<and> wx_armed w2 = wx_armed w \<and> wx_owed w2 = wx_owed w \<and>
     wx_strong w2 = (wx_strong w)(wx_next w := 2) \<and> wx_next w2 = wx_next w + 1"

lemma arming_emit: "arming h s w w2 \<Longrightarrow> wh_uses e = Some h \<Longrightarrow> h \<noteq> s \<Longrightarrow> arming h s w (emit e w2)"
  by (auto simp: arming_def intro: wh_use_safe)

lemma arming_fail:
  assumes "wh_prog_ok p" "arming h s (wp_world p) w2" "w_refs (wp_world p) h = 0" "h \<noteq> 0" "s \<in># wh_others p"
  shows "wh_prog_ok (p\<lparr>wp_world :=
    wh_drop s (context_drop (wx_next (wp_world p)) (wh_drop h (context_drop (wx_next (wp_world p)) w2)))\<rparr>)"
proof -
  let ?c = "wx_next (wp_world p)"
  let ?w3 = "context_drop ?c (wh_drop h (context_drop ?c w2))"
  note s = armed_handle(4) [OF assms(1,5)]
  have hs: "h \<noteq> s" using s assms(3) by auto
  have un: "wx_armed w2 h = None" "wx_armed w2 s = None"
    using assms(2) armed_handle(2) [OF assms(1,3)] armed_handle(1) [OF assms(1,5)] by (simp_all add: arming_def)
  have ok: "contexts_ok (wp_requests p) (wp_world p)" using assms(1) by (simp add: wh_prog_ok_def)
  then have c: "wx_strong (wp_world p) ?c = 0" by (rule contexts_fresh)
  have armed3: "wx_armed ?w3 s = None" "wx_strong ?w3 = wx_strong (wp_world p)" "wx_owed ?w3 = wx_owed (wp_world p)"
    "wx_armed ?w3 = wx_armed (wp_world p)" "wx_next ?w3 = ?c + 1"
    using assms(2) un c by (auto simp: context_drop_def wh_drop_unarmed arming_def fun_eq_iff)
  show ?thesis
  proof (rule others_keep [OF assms(1)])
    have "wh_safe ?w3" using assms(2,4) hs by (simp add: arming_def wh_drop_safe)
    then show "wh_safe (wh_drop s ?w3)" using assms(2) s hs by (intro wh_drop_safe) (simp_all add: arming_def)
    show "w_refs (wh_drop s ?w3) = w_refs (wp_world p)" using assms(2,3) hs by (auto simp: arming_def fun_eq_iff)
    show "contexts_ok (wp_requests p) (wh_drop s ?w3)"
      using ok by (rule contexts_grow) (simp_all add: wh_drop_unarmed [OF armed3(1)] armed3)
  qed
qed

lemma arming_success:
  assumes "wh_prog_ok p" "arming h s (wp_world p) w2" "w_refs (wp_world p) h = 0" "h \<noteq> 0" "s \<in># wh_others p"
  shows "wh_prog_ok (p\<lparr>wp_requests := \<lparr>rq_handle = h, rq_context = wx_next (wp_world p), rq_session = s\<rparr> # wp_requests p,
    wp_world := w2\<lparr>wx_armed := (wx_armed w2)(h \<mapsto> wx_next (wp_world p))\<rparr>\<rparr>)"
proof -
  let ?c = "wx_next (wp_world p)"
  note s = armed_handle(4) [OF assms(1,5)]
  have hs: "h \<noteq> s" using s assms(3) by auto
  have h: "h \<notin># wh_owners p" using assms(1,3) by (simp add: wh_prog_ok_def count_eq_zero_iff)
  have ok: "contexts_ok (wp_requests p) (wp_world p)" using assms(1) by (simp add: wh_prog_ok_def)
  from ok assms(2) contexts_fresh [OF ok] have "contexts_ok (\<lparr>rq_handle = h, rq_context = ?c, rq_session = s\<rparr> # wp_requests p)
      (w2\<lparr>wx_armed := (wx_armed w2)(h \<mapsto> ?c)\<rparr>)"
    by (auto simp: contexts_ok_def arming_def fun_eq_iff count_eq_zero_iff)
  with assms(1,2,4) h hs s armed_handle(3) [OF assms(1,5)] show ?thesis
    by (auto simp: wh_prog_ok_def wh_owners_def wh_others_def arming_def fun_eq_iff)
qed

lemma arm_cases:
  assumes "arming h s w0 w2" "h \<noteq> s" "w2 = context_clone (wx_next w) (snd (context_alloc w))" "wx_next w = wx_next w0"
  shows "(\<exists>e w3. arm api h s w = (Inl e, wh_drop s (context_drop (wx_next w0) (wh_drop h (context_drop (wx_next w0) w3)))) \<and>
      arming h s w0 w3) \<or>
    (\<exists>w3. arm api h s w = (Inr \<lparr>rq_handle = h, rq_context = wx_next w0, rq_session = s\<rparr>,
      w3\<lparr>wx_armed := (wx_armed w3)(h \<mapsto> wx_next w0)\<rparr>) \<and> arming h s w0 w3)"
proof -
  let ?c = "wx_next w0" let ?o = "WhOption h WINHTTP_OPTION_CONTEXT_VALUE (wx_next w0)"
  obtain w1 where a: "context_alloc w = (?c, w1)" using assms(4) by (simp add: context_alloc_def)
  then have w2: "context_clone ?c w1 = w2" using assms(3,4) by simp
  have 3: "arming h s w0 (emit ?o w2)" by (rule arming_emit [OF assms(1) _ assms(2)]) simp
  have 4: "arming h s w0 (emit (WhCallback h) (emit ?o w2))" by (rule arming_emit [OF 3 _ assms(2)]) simp
  show ?thesis
  proof (cases "wa_call api (w_log w1) ?o")
    case None
    then show ?thesis using 4
      by (auto simp: arm_def a w2 wh_call_def Let_def intro!: exI [of _ "emit (WhCallback h) (emit ?o w2)"])
  next
    case (Some e)
    then show ?thesis using 3 by (auto simp: arm_def a w2 wh_call_def Let_def)
  qed
qed

text \<open>So opening a request adds it, with its handle, its context and a share of the session, or changes nothing.\<close>

lemma open_request_cases:
  assumes "fresh_winhttp api" "wh_prog_ok p" "c \<in> set (wp_connections p)"
    and "open_request_with api c verb obj accept_types secure flags (wp_world p) = (res, w')"
  shows "case res of Inl _ \<Rightarrow> wh_prog_ok (p\<lparr>wp_world := w'\<rparr>)
    | Inr r \<Rightarrow> wh_prog_ok (p\<lparr>wp_requests := r # wp_requests p, wp_world := w'\<rparr>)"
proof -
  let ?s = "cx_session c" let ?w = "wp_world p"
  let ?flags = "if automatic_chunking flags then (if secure then WINHTTP_FLAG_SECURE else 0) OR WINHTTP_FLAG_AUTOMATIC_CHUNKING
    else (if secure then WINHTTP_FLAG_SECURE else 0)"
  let ?h = "wa_request api (w_log ?w) (cx_handle c) verb obj (accept_array accept_types) ?flags"
  have safe: "wh_safe ?w" using assms(2) by (simp add: wh_prog_ok_def)
  show ?thesis
  proof (cases "?h = 0")
    case True
    then show ?thesis using assms(2,4) by (auto simp: open_request_with_def Let_def simp del: if_image_distrib)
  next
    case False
    let ?w1 = "handle_clone ?s (handle_from_raw ?h (emit (RequestOpened ?h (cx_handle c) verb obj (accept_array accept_types) ?flags) ?w))"
    have s: "?s \<in># wh_others p" using assms(3) by (simp add: wh_others_def)
    note s' = armed_handle(4) [OF assms(2) s]
    have z: "w_refs ?w ?h = 0" using fresh_refs(3) [OF assms(1) safe] False by blast
    with s' have hs: "?h \<noteq> ?s" by (metis less_irrefl)
    have "wh_safe ?w1" using z safe s' hs by (intro whl.clone_safe whl.opened_safe) simp_all
    then have arming: "arming ?h ?s ?w (context_clone (wx_next ?w1) (snd (context_alloc ?w1)))"
      using hs by (auto simp: arming_def context_alloc_def context_clone_def fun_eq_iff world_safe_def world_ok_def)
    have eq: "arm api ?h ?s ?w1 = (res, w')" using assms(4) False by (simp add: open_request_with_def Let_def)
    from arm_cases [OF arming hs refl, of api] eq show ?thesis
      using arming_fail [OF assms(2) _ z False s] arming_success [OF assms(2) _ z False s] by auto
  qed
qed

lemma map_of_drop_nth:
  assumes "distinct (map f xs)" "i < length xs"
  shows "(map_of (map (\<lambda>x. (f x, g x)) xs))(f (xs ! i) := None) = map_of (map (\<lambda>x. (f x, g x)) (drop_nth i xs))"
proof -
  have xs: "xs = take i xs @ xs ! i # drop (Suc i) xs" by (rule id_take_nth_drop [OF assms(2)])
  then have "map f xs = map f (take i xs) @ f (xs ! i) # map f (drop (Suc i) xs)" by (metis list.simps(9) map_append)
  with assms(1) have n: "f (xs ! i) \<notin> f ` set (take i xs)" "f (xs ! i) \<notin> f ` set (drop (Suc i) xs)" by auto
  have "map_of (map (\<lambda>x. (f x, g x)) (take i xs @ xs ! i # drop (Suc i) xs)) k =
    (if k = f (xs ! i) then Some (g (xs ! i)) else map_of (map (\<lambda>x. (f x, g x)) (drop_nth i xs)) k)" for k
    using n by (force simp: drop_nth_def map_add_def map_of_eq_None_iff image_image split: option.splits dest: map_of_SomeD)
  moreover have "map_of (map (\<lambda>x. (f x, g x)) (drop_nth i xs)) (f (xs ! i)) = None"
    using n by (auto simp: map_of_eq_None_iff image_image drop_nth_def)
  ultimately show ?thesis using xs by (auto simp: fun_eq_iff)
qed

lemma map_mset_drop_nth:
  "i < length xs \<Longrightarrow> mset (map f xs) = add_mset (f (xs ! i)) (mset (map f (drop_nth i xs)))"
  using mset_drop_nth [of i "map f xs"] by (simp add: map_drop_nth)

lemma set_drop_nth: "set (drop_nth i xs) \<subseteq> set xs"
  by (auto simp: drop_nth_def dest: in_set_takeD in_set_dropD)

lemma distinct_drop_nth:
  assumes "distinct (map f xs)" "i < length xs"
  shows "distinct (map f (drop_nth i xs))" "f (xs ! i) \<notin> set (map f (drop_nth i xs))"
  using map_mset_drop_nth [OF assms(2), of f] assms(1)
  by (metis distinct.simps(2) mset.simps(2) mset_eq_imp_distinct_iff)+

lemma contexts_request_dropped:
  assumes "contexts_ok rs w" "distinct (map rq_handle rs)" "i < length rs"
    and "wx_armed w1 = (wx_armed w)(rq_handle (rs ! i) := None)" "wx_owed w1 = rq_context (rs ! i) # wx_owed w"
    and "wx_strong w1 = wx_strong w" "wx_next w1 = wx_next w"
  shows "contexts_ok (drop_nth i rs) (context_drop (rq_context (rs ! i)) w1)"
  unfolding contexts_ok_def
proof (intro conjI allI impI)
  let ?w = "context_drop (rq_context (rs ! i)) w1"
  show "wx_strong ?w = (\<lambda>c. 2 * count (mset (map rq_context (drop_nth i rs))) c + count (mset (wx_owed ?w)) c)"
    using assms(1,5,6) map_mset_drop_nth [OF assms(3), of rq_context]
    by (simp add: contexts_ok_def context_drop_def fun_eq_iff del: mset_map)
  show "wx_armed ?w = map_of (map (\<lambda>r. (rq_handle r, rq_context r)) (drop_nth i rs))"
    using map_of_drop_nth [OF assms(2,3), of rq_context] assms(1,4) by (simp add: contexts_ok_def context_drop_def)
  fix c
  assume "wx_next ?w \<le> c"
  then have c: "c \<notin> rq_context ` set rs" "c \<notin> set (wx_owed w)" using assms(1,7) by (auto simp: contexts_ok_def context_drop_def)
  then show "c \<notin> rq_context ` set (drop_nth i rs)" using set_drop_nth [of i rs] by blast
  show "c \<notin> set (wx_owed ?w)" using c assms(3,5) by (auto simp: context_drop_def)
qed

text \<open>Dropping a request: its handle is closed, and WinHTTP's reference is left to the notification it owes.\<close>

lemma drop_request_ok:
  assumes "wh_prog_ok p" "i < length (wp_requests p)"
  shows "wh_prog_ok (p\<lparr>wp_requests := drop_nth i (wp_requests p), wp_world := request_drop (wp_requests p ! i) (wp_world p)\<rparr>)"
proof -
  let ?rs = "wp_requests p" let ?r = "?rs ! i" let ?w = "wp_world p"
  let ?h = "rq_handle ?r" let ?c = "rq_context ?r" let ?s = "rq_session ?r"
  have ok: "wh_safe ?w" "w_refs ?w = count (wh_owners p)" "0 \<notin># wh_owners p" "distinct (map rq_handle ?rs)"
    "\<forall>r \<in> set ?rs. rq_handle r \<notin># wh_others p" "contexts_ok ?rs ?w"
    using assms(1) by (simp_all add: wh_prog_ok_def)
  have r: "?r \<in> set ?rs" using assms(2) by simp
  have s: "?s \<in># wh_others p" using r by (simp add: wh_others_def)
  have hs: "?h \<noteq> ?s" using ok(5) r s by auto
  note parts = map_mset_drop_nth [OF assms(2)]
  have h1: "w_refs ?w ?h = 1"
    using r ok(2,5) distinct_drop_nth(2) [OF ok(4) assms(2)]
    by (simp add: wh_owners_def parts count_eq_zero_iff del: mset_map)
  have armed: "wx_armed ?w ?h = Some ?c"
    using ok(4,6) r by (auto simp: contexts_ok_def comp_def intro!: map_of_is_SomeI)
  let ?w1 = "wh_drop ?h ?w"
  have w1: "wh_safe ?w1" "wx_armed ?w1 = (wx_armed ?w)(?h := None)" "wx_owed ?w1 = ?c # wx_owed ?w"
    "wx_strong ?w1 = wx_strong ?w" "wx_next ?w1 = wx_next ?w"
    using ok(1,3) h1 r armed by (auto intro!: wh_drop_safe simp: wh_owners_def) (simp_all add: wh_drop_def Let_def)
  let ?p1 = "p\<lparr>wp_requests := drop_nth i ?rs, wp_sessions := ?s # wp_sessions p, wp_world := context_drop ?c ?w1\<rparr>"
  have ctx: "contexts_ok (drop_nth i ?rs) (context_drop ?c ?w1)"
    by (rule contexts_request_dropped [OF ok(6,4) assms(2) w1(2-5)])
  have others: "wh_others ?p1 = wh_others p" by (simp add: wh_others_def parts del: mset_map)
  have own: "wh_owners p = add_mset ?h (wh_owners ?p1)" by (simp add: wh_owners_def others parts del: mset_map)
  have "wh_prog_ok ?p1"
    using ok h1 w1(1) ctx set_drop_nth [of i ?rs] own others distinct_drop_nth(1) [OF ok(4) assms(2)]
    by (auto simp: wh_prog_ok_def fun_eq_iff)
  then show ?thesis
    by (rule drop_other_ok [of _ ?s]) (simp_all add: wh_others_def request_drop_def)
qed

lemma closing_ok:
  assumes "wh_prog_ok p" "i < length (wx_owed (wp_world p))"
  shows "wh_prog_ok (p\<lparr>wp_world := handle_closing (wx_owed (wp_world p) ! i) (wp_world p)\<rparr>)"
proof (rule others_keep [OF assms(1)])
  let ?w = "wp_world p" let ?c = "wx_owed ?w ! i"
  have ok: "wh_safe ?w" "contexts_ok (wp_requests p) ?w" using assms(1) by (simp_all add: wh_prog_ok_def)
  show "wh_safe (handle_closing ?c ?w)" using ok(1) by (simp add: handle_closing_def)
  have "mset (remove1 ?c (wx_owed ?w)) = mset (wx_owed ?w) - {#?c#}" by simp
  then show "contexts_ok (wp_requests p) (handle_closing ?c ?w)"
    using ok(2) assms(2) set_remove1_subset [of ?c "wx_owed ?w"]
    by (auto simp: contexts_ok_def handle_closing_def context_drop_def context_clone_def fun_eq_iff simp del: mset_map)
qed (simp add: handle_closing_def)

lemma wh_do_ok:
  assumes "fresh_winhttp api" "wh_prog_ok p"
  shows "wh_prog_ok (wh_do hr api act p)"
proof (cases act)
  case (OpenRequest i verb obj acc secure flags)
  show ?thesis
  proof (cases "i < length (wp_connections p)")
    case True
    obtain r w where o: "open_request_with api (wp_connections p ! i) verb obj acc secure flags (wp_world p) = (r, w)" by force
    with OpenRequest True open_request_cases [OF assms nth_mem [OF True] o] show ?thesis by (auto split: sum.splits)
  qed (use OpenRequest assms(2) in simp)
next
  case (ProbeChunking i obj secure)
  show ?thesis
  proof (cases "i < length (wp_connections p)")
    case True
    let ?open = "open_request_with api (wp_connections p ! i) (map of_nat [71, 69, 84]) obj [] secure \<lparr>automatic_chunking = True\<rparr>"
    obtain r w where o: "?open (wp_world p) = (r, w)" by force
    note ok = open_request_cases [OF assms nth_mem [OF True] o]
    show ?thesis
    proof (cases r)
      case (Inr q)
      have "wh_prog_ok (p\<lparr>wp_world := request_drop q w\<rparr>)"
        using ok Inr drop_request_ok [of "p\<lparr>wp_requests := q # wp_requests p, wp_world := w\<rparr>" 0] by (simp add: drop_nth_def)
      with ProbeChunking True o Inr show ?thesis by (simp add: supports_automatic_chunking_def)
    qed (use ProbeChunking True o ok in \<open>simp add: supports_automatic_chunking_def\<close>)
  qed (use ProbeChunking assms(2) in simp)
next
  case (DropSession i)
  then show ?thesis
    using assms(2) drop_other_ok [OF assms(2), of "wp_sessions p ! i"]
    by (simp add: wh_others_def session_drop_def mset_drop_nth)
qed (use assms(2) in \<open>auto simp: new_session_ok [OF assms, simplified] connect_ok [OF assms, simplified] drop_connection_ok
    drop_request_ok closing_ok set_timeouts_def set_redirect_policy_def relax_certificate_validation_def enable_http2_def
    wh_owners_def wh_others_def intro!: call_ok\<close>)

lemma wh_run_ok: "fresh_winhttp api \<Longrightarrow> wh_prog_ok p \<Longrightarrow> wh_prog_ok (wh_run hr api acts p)"
  unfolding wh_run_def by (induction acts arbitrary: p) (simp_all add: wh_do_ok)

lemma wh_start_ok: "wh_prog_ok wh_start"
  by (simp add: wh_prog_ok_def wh_start_def wh_owners_def wh_others_def world_safe_def world_ok_def contexts_ok_def fun_eq_iff)

section \<open>A context between its request and its callbacks\<close>

text \<open>
  One request after \<^verbatim>\<open>arm\<close>. The thread that owns it uses the context, closes the handle and drops its reference;
  callbacks run on threads of the platform, each in the steps of \<^verbatim>\<open>dispatch_callback\<close>: entered with the raw pointer,
  the clone taken, WinHTTP's reference released where the status is \<^verbatim>\<open>HANDLE_CLOSING\<close>, the work under the lock, the
  clone dropped. Every step that touches the allocation records a fault when the count is already zero.

  The platform sends other notifications until it sends \<^verbatim>\<open>HANDLE_CLOSING\<close>, which it does once, after the handle was
  closed, and which is the last it sends. That is documented; nothing is assumed of the callbacks that are still running
  when it is sent, not even that they have taken their clone.
\<close>

datatype user_pc = Using | HandleClosed | ContextDropped

datatype closing_state = NotOwed | Owed | Sent

datatype cb_pc = Entered | Cloned | Released | Worked

record callback =
  cb_status :: u32
  cb_information :: "u8 list option"
  cb_length :: u32
  cb_pc :: cb_pc

record ('w, 'b) life =
  lf_strong :: nat
  lf_inner :: "('w, 'b) Inner"
  lf_user :: user_pc
  lf_closing :: closing_state
  lf_callbacks :: "callback list"
  lf_fault :: bool

definition life_new :: "('w, 'b) life" where
  "life_new = \<lparr>lf_strong = 2, lf_inner = context_new, lf_user = Using, lf_closing = NotOwed, lf_callbacks = [], lf_fault = False\<rparr>"

definition touch :: "('w, 'b) life \<Rightarrow> ('w, 'b) life" where
  "touch s = s\<lparr>lf_fault := (lf_fault s \<or> lf_strong s = 0)\<rparr>"

definition is_closing :: "callback \<Rightarrow> bool" where
  "is_closing c \<longleftrightarrow> cb_status c = STATUS_HANDLE_CLOSING"

inductive life_step :: "(u32 \<Rightarrow> hresult) \<Rightarrow> ('w, 'b) life \<Rightarrow> ('w, 'b) life \<Rightarrow> bool" for hr where
  use: "lf_user s = Using \<Longrightarrow> life_step hr s (touch s\<lparr>lf_inner := i\<rparr>)"
| close: "lf_user s = Using \<Longrightarrow> life_step hr s (s\<lparr>lf_user := HandleClosed, lf_closing := Owed\<rparr>)"
| drop_own: "lf_user s = HandleClosed \<Longrightarrow>
    life_step hr s (touch s\<lparr>lf_user := ContextDropped, lf_strong := lf_strong s - 1\<rparr>)"
| notify: "lf_closing s \<noteq> Sent \<Longrightarrow> \<not> is_closing c \<Longrightarrow> cb_pc c = Entered \<Longrightarrow>
    life_step hr s (s\<lparr>lf_callbacks := c # lf_callbacks s\<rparr>)"
| notify_closing: "lf_closing s = Owed \<Longrightarrow> is_closing c \<Longrightarrow> cb_pc c = Entered \<Longrightarrow>
    life_step hr s (s\<lparr>lf_closing := Sent, lf_callbacks := c # lf_callbacks s\<rparr>)"
| clone: "lf_callbacks s = xs @ c # ys \<Longrightarrow> cb_pc c = Entered \<Longrightarrow>
    life_step hr s (touch s\<lparr>lf_strong := lf_strong s + 1, lf_callbacks := xs @ c\<lparr>cb_pc := Cloned\<rparr> # ys\<rparr>)"
| release: "lf_callbacks s = xs @ c # ys \<Longrightarrow> cb_pc c = Cloned \<Longrightarrow> is_closing c \<Longrightarrow>
    life_step hr s (touch s\<lparr>lf_strong := lf_strong s - 1, lf_callbacks := xs @ c\<lparr>cb_pc := Released\<rparr> # ys\<rparr>)"
| run: "lf_callbacks s = xs @ c # ys \<Longrightarrow> cb_pc c = (if is_closing c then Released else Cloned) \<Longrightarrow>
    life_step hr s (touch s\<lparr>
      lf_inner := snd (dispatch_callback hr 1 (cb_status c) (cb_information c) (cb_length c) (lf_inner s)),
      lf_callbacks := xs @ c\<lparr>cb_pc := Worked\<rparr> # ys\<rparr>)"
| drop_clone: "lf_callbacks s = xs @ c # ys \<Longrightarrow> cb_pc c = Worked \<Longrightarrow>
    life_step hr s (touch s\<lparr>lf_strong := lf_strong s - 1, lf_callbacks := xs @ ys\<rparr>)"

inductive life_reachable :: "(u32 \<Rightarrow> hresult) \<Rightarrow> ('w, 'b) life \<Rightarrow> bool" for hr where
  start: "life_reachable hr life_new"
| step: "life_reachable hr s \<Longrightarrow> life_step hr s s' \<Longrightarrow> life_reachable hr s'"

text \<open>The references: the request's, WinHTTP's until the closing callback released it, and one per clone.\<close>

definition holds_win :: "callback \<Rightarrow> bool" where
  "holds_win c \<longleftrightarrow> is_closing c \<and> (cb_pc c = Entered \<or> cb_pc c = Cloned)"

definition win_refs :: "('w, 'b) life \<Rightarrow> nat" where
  "win_refs s = (if lf_closing s \<noteq> Sent then 1 else length (filter holds_win (lf_callbacks s)))"

definition life_inv :: "('w, 'b) life \<Rightarrow> bool" where
  "life_inv s \<longleftrightarrow>
     \<not> lf_fault s \<and>
     lf_strong s = (if lf_user s = ContextDropped then 0 else 1) + win_refs s +
       length (filter (\<lambda>c. cb_pc c \<noteq> Entered) (lf_callbacks s)) \<and>
     (lf_closing s = NotOwed \<longleftrightarrow> lf_user s = Using) \<and>
     (lf_closing s \<noteq> Sent \<longrightarrow> filter is_closing (lf_callbacks s) = []) \<and>
     length (filter is_closing (lf_callbacks s)) \<le> 1 \<and>
     (\<forall>c \<in> set (lf_callbacks s). cb_pc c = Released \<longrightarrow> is_closing c)"

lemma life_new_inv: "life_inv life_new"
  by (simp add: life_inv_def life_new_def win_refs_def)

lemma pc_update [simp]: "is_closing (c\<lparr>cb_pc := x\<rparr>) = is_closing c"
  by (simp add: is_closing_def)

text \<open>The count is zero exactly when only callbacks that were overtaken before their clone are left.\<close>

definition only_overtaken :: "('w, 'b) life \<Rightarrow> bool" where
  "only_overtaken s \<longleftrightarrow> lf_user s = ContextDropped \<and> lf_closing s = Sent \<and>
     (\<forall>c \<in> set (lf_callbacks s). cb_pc c = Entered \<and> \<not> is_closing c)"

lemma strong_zero:
  assumes "life_inv s"
  shows "lf_strong s = 0 \<longleftrightarrow> only_overtaken s"
proof -
  have "length (filter P xs) = 0 \<longleftrightarrow> (\<forall>c \<in> set xs. \<not> P c)" for P and xs :: "callback list"
    by (simp add: filter_empty_conv)
  with assms show ?thesis
    by (auto simp: life_inv_def win_refs_def only_overtaken_def holds_win_def filter_empty_conv)
qed

text \<open>A step that does not fault keeps the invariant; the only step that can fault is a clone.\<close>

lemma life_step_inv:
  assumes "life_step hr s s'" "life_inv s"
  shows "life_inv s' \<or> lf_strong s = 0 \<and> (\<exists>xs c ys. lf_callbacks s = xs @ c # ys \<and> cb_pc c = Entered \<and>
    s' = (touch s)\<lparr>lf_strong := 1, lf_callbacks := xs @ c\<lparr>cb_pc := Cloned\<rparr> # ys\<rparr>)"
  using assms(1)
proof cases
  case (use i)
  then show ?thesis using assms(2) by (auto simp: life_inv_def touch_def win_refs_def)
next
  case close
  then show ?thesis using assms(2) by (auto simp: life_inv_def win_refs_def)
next
  case drop_own
  then show ?thesis using assms(2) by (auto simp: life_inv_def touch_def win_refs_def)
next
  case (notify c)
  then show ?thesis using assms(2) by (auto simp: life_inv_def win_refs_def)
next
  case (notify_closing c)
  have "filter holds_win (lf_callbacks s) = []"
    using assms(2) notify_closing by (auto simp: life_inv_def holds_win_def filter_empty_conv)
  then show ?thesis using assms(2) notify_closing by (auto simp: life_inv_def win_refs_def holds_win_def)
next
  case (clone xs c ys)
  show ?thesis
  proof (cases "lf_strong s = 0")
    case True
    with clone show ?thesis by auto
  next
    case False
    have refs: "win_refs s' = win_refs s" using clone by (simp add: win_refs_def touch_def holds_win_def)
    have "\<not> lf_fault s'" using False assms(2) clone(1) by (simp add: life_inv_def touch_def)
    moreover have "lf_user s' = lf_user s" "lf_closing s' = lf_closing s" "lf_strong s' = lf_strong s + 1"
      "lf_callbacks s' = xs @ c\<lparr>cb_pc := Cloned\<rparr> # ys"
      using clone(1) by (simp_all add: touch_def)
    ultimately have "life_inv s'"
      using assms(2) refs clone(2,3) unfolding life_inv_def by (cases "is_closing c") (simp_all, metis closing_state.distinct(3))
    then show ?thesis by blast
  qed
next
  case (release xs c ys)
  then show ?thesis using assms(2)
    by (auto simp: life_inv_def touch_def win_refs_def holds_win_def filter_empty_conv split: if_splits)
next
  case (run xs c ys)
  then show ?thesis using assms(2)
    by (auto simp: life_inv_def touch_def win_refs_def holds_win_def split: if_splits)
next
  case (drop_clone xs c ys)
  then show ?thesis using assms(2)
    by (auto simp: life_inv_def touch_def win_refs_def holds_win_def split: if_splits)
qed

lemma life_fault_stays: "life_step hr s s' \<Longrightarrow> lf_fault s \<Longrightarrow> lf_fault s'"
  by (induction rule: life_step.induct) (simp_all add: touch_def)

lemma life_reachable_inv: "life_reachable hr s \<Longrightarrow> lf_fault s \<or> life_inv s"
proof (induction rule: life_reachable.induct)
  case (step s s')
  from step.IH show ?case
  proof
    assume "life_inv s"
    from life_step_inv [OF step.hyps(2) this] show ?thesis by (auto simp: touch_def)
  qed (use life_fault_stays [OF step.hyps(2)] in blast)
qed (use life_new_inv in blast)

text \<open>
  A callback that was entered and has not yet taken its clone finds the context gone, when the closing callback and
  the drop of the request overtake it: nothing documented of the platform excludes it.
\<close>

definition cb_at :: "u32 \<Rightarrow> cb_pc \<Rightarrow> callback" where
  "cb_at status pc = \<lparr>cb_status = status, cb_information = None, cb_length = 0, cb_pc = pc\<rparr>"

lemma undrained_callback_faults: "\<exists>s :: ('w, 'b) life. life_reachable hr s \<and> lf_fault s"
proof -
  let ?c = "cb_at 1" let ?d = "cb_at STATUS_HANDLE_CLOSING"
  let ?s = "\<lambda>n u cl cs i. \<lparr>lf_strong = n, lf_inner = i, lf_user = u, lf_closing = cl, lf_callbacks = cs, lf_fault = False\<rparr> :: ('w, 'b) life"
  let ?i = "context_new :: ('w, 'b) Inner"
  let ?j = "snd (dispatch_callback hr 1 STATUS_HANDLE_CLOSING None 0 ?i)"
  note go = life_reachable.step [where hr = hr]
  note defs = cb_at_def is_closing_def touch_def
  have "life_reachable hr (?s 2 Using NotOwed [] ?i)" using life_reachable.start by (simp add: life_new_def)
  then have "life_reachable hr (?s 2 Using NotOwed [?c Entered] ?i)"
    by (rule go) (use life_step.notify [of "?s 2 Using NotOwed [] ?i" "?c Entered" hr] in \<open>simp add: defs\<close>)
  then have "life_reachable hr (?s 2 HandleClosed Owed [?c Entered] ?i)"
    by (rule go) (use life_step.close [of "?s 2 Using NotOwed [?c Entered] ?i" hr] in simp)
  then have "life_reachable hr (?s 1 ContextDropped Owed [?c Entered] ?i)"
    by (rule go) (use life_step.drop_own [of "?s 2 HandleClosed Owed [?c Entered] ?i" hr] in \<open>simp add: touch_def\<close>)
  then have "life_reachable hr (?s 1 ContextDropped Sent [?d Entered, ?c Entered] ?i)"
    by (rule go) (use life_step.notify_closing [of "?s 1 ContextDropped Owed [?c Entered] ?i" "?d Entered" hr] in \<open>simp add: defs\<close>)
  then have "life_reachable hr (?s 2 ContextDropped Sent [?d Cloned, ?c Entered] ?i)"
    by (rule go) (use life_step.clone [of "?s 1 ContextDropped Sent [?d Entered, ?c Entered] ?i" "[]" "?d Entered" "[?c Entered]" hr]
      in \<open>simp add: defs numeral_2_eq_2\<close>)
  then have "life_reachable hr (?s 1 ContextDropped Sent [?d Released, ?c Entered] ?i)"
    by (rule go) (use life_step.release [of "?s 2 ContextDropped Sent [?d Cloned, ?c Entered] ?i" "[]" "?d Cloned" "[?c Entered]" hr]
      in \<open>simp add: defs\<close>)
  then have "life_reachable hr (?s 1 ContextDropped Sent [?d Worked, ?c Entered] ?j)"
    by (rule go) (use life_step.run [of "?s 1 ContextDropped Sent [?d Released, ?c Entered] ?i" "[]" "?d Released" "[?c Entered]" hr]
      in \<open>simp add: defs\<close>)
  then have "life_reachable hr (?s 0 ContextDropped Sent [?c Entered] ?j)"
    by (rule go) (use life_step.drop_clone [of "?s 1 ContextDropped Sent [?d Worked, ?c Entered] ?j" "[]" "?d Worked" "[?c Entered]" hr]
      in \<open>simp add: defs\<close>)
  then have "life_reachable hr ((?s 1 ContextDropped Sent [?c Cloned] ?j)\<lparr>lf_fault := True\<rparr>)"
    by (rule go) (use life_step.clone [of "?s 0 ContextDropped Sent [?c Entered] ?j" "[]" "?c Entered" "[]" hr]
      in \<open>simp add: defs\<close>)
  then show ?thesis by (intro exI conjI) (assumption, simp)
qed

section \<open>Headers\<close>

text \<open>What \<^verbatim>\<open>WinHttpQueryHeaders\<close> promises of a field whose text it has: the size to ask for, and then the text.\<close>

definition answers :: "(u32 \<Rightarrow> hresult) \<Rightarrow> query_call \<Rightarrow> u32 \<Rightarrow> u16 list option \<Rightarrow> u16 list \<Rightarrow> bool" where
  "answers hr Query level name txt \<longleftrightarrow>
     2 * (length txt + 1) < 2 ^ 32 \<and>
     fst (Query level name None) = Inl (hr ERROR_INSUFFICIENT_BUFFER) \<and>
     fst (snd (Query level name None)) = of_nat (2 * (length txt + 1)) \<and>
     Query level name (Some (of_nat (2 * (length txt + 1)))) = (Inr (), of_nat (2 * length txt), txt @ [0])"

lemma query_string_answers:
  assumes "answers hr Query level name txt"
  shows "query_string hr Query level name = Inr (from_utf16_lossy txt)"
proof -
  define N :: u32 where "N = of_nat (2 * (length txt + 1))"
  define M :: u32 where "M = of_nat (2 * length txt)"
  from assms have n: "2 * (length txt + 1) < 2 ^ 32" by (simp add: answers_def)
  have "unat N = 2 * (length txt + 1)" "unat M = 2 * length txt"
    using n unfolding N_def M_def by (simp_all only: unat_of_nat) simp_all
  then have uN: "(unat N + 1) div 2 = length txt + 1" and uM: "unat M div 2 = length txt" by simp_all
  have again: "of_nat ((length txt + 1) * 2) = N" by (simp only: N_def mult.commute)
  obtain y where q: "Query level name None = (Inl (hr ERROR_INSUFFICIENT_BUFFER), N, y)" "Query level name (Some N) = (Inr (), M, txt @ [0])"
    using assms unfolding answers_def N_def M_def by (metis prod.collapse)
  show ?thesis by (simp add: query_string_def q Let_def uN [simplified] uM again [simplified])
qed

section \<open>Properties\<close>

text \<open>
  Property C26. Who can touch a request's context after it was freed, under every interleaving of the owning thread,
  which uses it, closes the handle and drops it, with any number of callbacks on the platform's threads, and with
  nothing assumed of the platform but that \<^verbatim>\<open>HANDLE_CLOSING\<close> is its last notification: until such an access happens the
  context is freed exactly when the request is gone, \<^verbatim>\<open>HANDLE_CLOSING\<close> was sent and done with, and every callback left
  was entered before it and has not taken its clone. So neither the owner, nor the closing callback, nor a callback that
  has its clone ever touches freed memory; the only access that can be one is the clone itself, of a callback that all
  the others overtook. And that one is possible: the clone closes every other gap, but not the one before it.
\<close>

theorem context_freed_under_overtaken_only:
  assumes "life_reachable hr (s :: ('w, 'b) life)" "\<not> lf_fault s"
  shows "(lf_strong s = 0 \<longleftrightarrow> lf_user s = ContextDropped \<and> lf_closing s = Sent \<and>
      (\<forall>c \<in> set (lf_callbacks s). cb_pc c = Entered \<and> \<not> is_closing c)) \<and>
    (\<forall>s'. life_step hr s s' \<and> lf_fault s' \<longrightarrow>
      lf_strong s = 0 \<and> (\<exists>xs c ys. lf_callbacks s = xs @ c # ys \<and> cb_pc c = Entered \<and> \<not> is_closing c \<and>
        s' = (touch s)\<lparr>lf_strong := 1, lf_callbacks := xs @ c\<lparr>cb_pc := Cloned\<rparr> # ys\<rparr>)) \<and>
    (\<exists>t :: ('w, 'b) life. life_reachable hr t \<and> lf_fault t)"
proof (intro conjI allI impI; (elim conjE)?)
  have i: "life_inv s" using life_reachable_inv [OF assms(1)] assms(2) by blast
  show z: "lf_strong s = 0 \<longleftrightarrow> lf_user s = ContextDropped \<and> lf_closing s = Sent \<and>
      (\<forall>c \<in> set (lf_callbacks s). cb_pc c = Entered \<and> \<not> is_closing c)"
    using strong_zero [OF i] by (simp add: only_overtaken_def)
  fix s'
  assume s': "life_step hr s s'" "lf_fault s'"
  then have "\<not> life_inv s'" by (simp add: life_inv_def)
  with life_step_inv [OF s'(1) i] obtain xs c ys where "lf_strong s = 0" "lf_callbacks s = xs @ c # ys" "cb_pc c = Entered"
    "s' = (touch s)\<lparr>lf_strong := 1, lf_callbacks := xs @ c\<lparr>cb_pc := Cloned\<rparr> # ys\<rparr>" by blast
  moreover from this z have "\<not> is_closing c" by simp
  ultimately show "lf_strong s = 0" "\<exists>xs c ys. lf_callbacks s = xs @ c # ys \<and> cb_pc c = Entered \<and> \<not> is_closing c \<and>
      s' = (touch s)\<lparr>lf_strong := 1, lf_callbacks := xs @ c\<lparr>cb_pc := Cloned\<rparr> # ys\<rparr>" by blast+
qed (rule undrained_callback_faults)

text \<open>
  Property C27. No WinHTTP handle is leaked, closed twice or used while closed, and no context is leaked, whatever
  the platform answers: after any program of sessions, connections, requests, probes, options and drops, and of the
  closing notifications WinHTTP owes, the open handles are exactly those with an owner, a session's living as long as
  any of its connections and requests, and a context has two references while its request is in use, one until its
  closing notification, and none after it. This includes the requests whose arming failed half way.
\<close>

theorem winhttp_handles_accounted:
  assumes "fresh_winhttp api"
  shows "let p = wh_run hr api acts wh_start; w = wp_world p
    in open_after wh_opens wh_closes (w_log w) = Some (set_mset (wh_owners p)) \<and> used_open wh_opens wh_closes wh_uses (w_log w) \<and>
       (\<forall>c. wx_strong w c = 2 * count (mset (map rq_context (wp_requests p))) c + count (mset (wx_owed w)) c)"
proof -
  have "wh_prog_ok (wh_run hr api acts wh_start)" by (rule wh_run_ok [OF assms wh_start_ok])
  then show ?thesis by (simp add: wh_prog_ok_def world_safe_def world_ok_def contexts_ok_def Let_def)
qed

text \<open>
  Property C28. A response field is returned exactly: where the platform has the field with a text, the two calls, one
  for the size and one for the text, give that text, whatever characters it has; a field the platform does not have is
  no error but absent, for trailers as well; and the header block a request is given decodes to its lines.
\<close>

theorem response_field_exact:
  assumes "\<forall>c \<in> set s. scalar c" "hresult_conv hr"
  shows "(answers hr Query WINHTTP_QUERY_CUSTOM (Some name) (utf16 s) \<longrightarrow> winhttp_header hr Query name = Inr (Some s)) \<and>
    (answers hr Query (WINHTTP_QUERY_RAW_HEADERS_CRLF OR WINHTTP_QUERY_FLAG_TRAILERS) None (utf16 s) \<longrightarrow>
      winhttp_raw_trailers hr Query = Inr (Some s)) \<and>
    (fst (Query WINHTTP_QUERY_CUSTOM (Some name) None) = Inl (hr ERROR_WINHTTP_HEADER_NOT_FOUND) \<longrightarrow>
      winhttp_header hr Query name = Inr None) \<and>
    (fst (Query (WINHTTP_QUERY_RAW_HEADERS_CRLF OR WINHTTP_QUERY_FLAG_TRAILERS) None None) = Inl (hr ERROR_WINHTTP_HEADER_NOT_FOUND) \<longrightarrow>
      winhttp_raw_trailers hr Query = Inr None) \<and>
    ((\<forall>(n, v) \<in> set hs. (\<forall>c \<in> set (n @ v). scalar c)) \<longrightarrow>
      from_utf16_lossy (encode_headers hs) = concat (map (\<lambda>(n, v). n @ [58, 32] @ v @ [13, 10]) hs))"
proof (intro conjI impI)
  have ne: "hr ERROR_WINHTTP_HEADER_NOT_FOUND \<noteq> hr ERROR_INSUFFICIENT_BUFFER"
    using hresult_conv_inj [OF assms(2), of ERROR_WINHTTP_HEADER_NOT_FOUND ERROR_INSUFFICIENT_BUFFER] by simp
  have "winhttp_from_error (hr ERROR_WINHTTP_HEADER_NOT_FOUND) = WHeaderNotFound"
    by (simp add: winhttp_from_error_image [OF assms(2)] winhttp_from_win32_def)
  then have absent: "absent_as_none (query_string hr Query level field) = Inr None"
    if "fst (Query level field None) = Inl (hr ERROR_WINHTTP_HEADER_NOT_FOUND)" for level field
    using that ne by (cases "Query level field None") (simp add: absent_as_none_def query_string_def)
  show "winhttp_header hr Query name = Inr None"
    if "fst (Query WINHTTP_QUERY_CUSTOM (Some name) None) = Inl (hr ERROR_WINHTTP_HEADER_NOT_FOUND)"
    using absent [OF that] by (simp add: winhttp_header_def)
  show "winhttp_raw_trailers hr Query = Inr None"
    if "fst (Query (WINHTTP_QUERY_RAW_HEADERS_CRLF OR WINHTTP_QUERY_FLAG_TRAILERS) None None) = Inl (hr ERROR_WINHTTP_HEADER_NOT_FOUND)"
    using absent [OF that] by (simp add: winhttp_raw_trailers_def)
next
  assume "\<forall>(n, v) \<in> set hs. (\<forall>c \<in> set (n @ v). scalar c)"
  then show "from_utf16_lossy (encode_headers hs) = concat (map (\<lambda>(n, v). n @ [58, 32] @ v @ [13, 10]) hs)"
    unfolding encode_headers_def by (intro from_utf16_lossy_utf16) (auto simp: scalar_def)
qed (simp_all add: winhttp_header_def winhttp_raw_trailers_def absent_as_none_def query_string_answers from_utf16_lossy_utf16 assms(1))

text \<open>The handle closed and the closing callback entered: the context has both its references.\<close>

theorem context_freed_under_overtaken_only_witness:
  "\<exists>s :: (nat, nat) life. life_reachable hr_win32 s \<and> lf_user s = HandleClosed \<and> lf_closing s = Sent \<and>
     lf_strong s \<noteq> 0 \<and> (\<forall>s'. life_step hr_win32 s s' \<longrightarrow> \<not> lf_fault s')"
proof -
  let ?d = "cb_at STATUS_HANDLE_CLOSING Entered"
  let ?s0 = "life_new :: (nat, nat) life"
  let ?s1 = "?s0\<lparr>lf_user := HandleClosed, lf_closing := Owed\<rparr>"
  let ?s2 = "?s1\<lparr>lf_closing := Sent, lf_callbacks := [?d]\<rparr>"
  have "life_reachable hr_win32 ?s1"
    by (rule life_reachable.step [OF life_reachable.start]) (rule life_step.close, simp add: life_new_def)
  then have r: "life_reachable hr_win32 ?s2"
    by (rule life_reachable.step)
      (use life_step.notify_closing [of ?s1 ?d hr_win32] in \<open>simp add: life_new_def is_closing_def cb_at_def\<close>)
  have nf: "\<not> lf_fault ?s2" and nz: "lf_strong ?s2 \<noteq> 0" by (simp_all add: life_new_def)
  have "\<forall>s'. life_step hr_win32 ?s2 s' \<longrightarrow> \<not> lf_fault s'"
  proof (intro allI impI notI)
    fix s' assume s': "life_step hr_win32 ?s2 s'" "lf_fault s'"
    note bad = context_freed_under_overtaken_only [OF r nf, THEN conjunct2, THEN conjunct1, rule_format, of s']
    show False using conjunct1 [OF bad [OF conjI [OF s']]] nz by contradiction
  qed
  with r nz have "life_reachable hr_win32 ?s2 \<and> lf_user ?s2 = HandleClosed \<and> lf_closing ?s2 = Sent \<and>
      lf_strong ?s2 \<noteq> 0 \<and> (\<forall>s'. life_step hr_win32 ?s2 s' \<longrightarrow> \<not> lf_fault s')"
    by (intro conjI) (assumption | simp)+
  then show ?thesis by (rule exI)
qed

text \<open>A platform that numbers its handles upwards and refuses the second context it is given.\<close>

definition next_wh :: "wh_ev list \<Rightarrow> nat" where
  "next_wh log = Suc (sum_list (map (\<lambda>e. case wh_opens e of Some h \<Rightarrow> h | None \<Rightarrow> 0) log))"

definition counting_wh :: wh_api where
  "counting_wh =
     \<lparr>wa_open = (\<lambda>log _ _ _ _ _. next_wh log), wa_connect = (\<lambda>log _ _ _. next_wh log),
      wa_request = (\<lambda>log _ _ _ _ _. next_wh log),
      wa_call = (\<lambda>_ e. case e of WhOption _ _ c \<Rightarrow> if c = 2 then Some 5 else None | _ \<Rightarrow> None),
      wa_callback = (\<lambda>_ _. 0), wa_last = (\<lambda>_. 0)\<rparr>"

lemma counting_wh_fresh: "fresh_winhttp counting_wh"
proof -
  have less: "h < next_wh log" if "e \<in> set log" "wh_opens e = Some h" for h e log
    using member_le_sum_list [of h "map (\<lambda>e. case wh_opens e of Some s \<Rightarrow> s | None \<Rightarrow> 0) log"] that
    by (force simp: next_wh_def less_Suc_eq_le image_iff)
  then have "next_wh log \<notin> H" if "open_after wh_opens wh_closes log = Some H" for log H
    using open_after_opened [OF that] by blast
  then show ?thesis by (auto simp: fresh_winhttp_def counting_wh_def)
qed

theorem winhttp_handles_accounted_witness:
  "fresh_winhttp counting_wh \<and>
   (let p = wh_run hr_win32 counting_wh
        [NewSession [] AutomaticProxy None None, Connect 0 [] 80, OpenRequest 0 [] [] [] False \<lparr>automatic_chunking = False\<rparr>,
         OpenRequest 0 [] [] [] False \<lparr>automatic_chunking = False\<rparr>, DropRequest 0, DropSession 0] wh_start
    in wh_owners p = {#1, 2#} \<and> wx_strong (wp_world p) 1 = 1 \<and> wx_strong (wp_world p) 2 = 0)"
proof -
  let ?acts = "[NewSession [] AutomaticProxy None None, Connect 0 [] 80, OpenRequest 0 [] [] [] False \<lparr>automatic_chunking = False\<rparr>,
         OpenRequest 0 [] [] [] False \<lparr>automatic_chunking = False\<rparr>, DropRequest 0, DropSession 0]"
  let ?p = "wh_run hr_win32 counting_wh ?acts wh_start"
  note defs = wh_run_def wh_start_def session_with_proxy_def counting_wh_def next_wh_def session_connect_def
    open_request_with_def arm_def context_alloc_def context_clone_def wh_call_def emit_def handle_from_raw_def
    handle_clone_def WINHTTP_INVALID_STATUS_CALLBACK_def wh_drop_def handle_drop_def context_drop_def request_drop_def
    session_drop_def drop_nth_def wh_owners_def wh_others_def Let_def
  have 1: "wh_owners ?p = {#1, 2#}" by (simp add: defs)
  have 2: "wp_requests ?p = []" "wx_owed (wp_world ?p) = [1]" by (simp_all add: defs)
  have "\<forall>c. wx_strong (wp_world ?p) c = 2 * count (mset (map rq_context (wp_requests ?p))) c + count (mset (wx_owed (wp_world ?p))) c"
    using winhttp_handles_accounted [OF counting_wh_fresh, of hr_win32 ?acts] unfolding Let_def by blast
  then have "wx_strong (wp_world ?p) 1 = 1" "wx_strong (wp_world ?p) 2 = 0" unfolding 2 by simp_all
  with 1 counting_wh_fresh show ?thesis by (simp add: Let_def)
qed

definition one_field :: query_call where
  "one_field level name buffer =
     (if level = WINHTTP_QUERY_CUSTOM \<and> name = Some [1] then
        (case buffer of None \<Rightarrow> (Inl (hr_win32 ERROR_INSUFFICIENT_BUFFER), 6, [])
         | Some n \<Rightarrow> (Inr (), 4, utf16 [0x1F600] @ [0]))
      else (Inl (hr_win32 ERROR_WINHTTP_HEADER_NOT_FOUND), 0, []))"

theorem response_field_exact_witness:
  "winhttp_header hr_win32 one_field [1] = Inr (Some [0x1F600]) \<and> winhttp_header hr_win32 one_field [2] = Inr None"
proof -
  have s: "\<forall>c \<in> set [0x1F600]. scalar c" by (simp add: scalar_def)
  have "answers hr_win32 one_field WINHTTP_QUERY_CUSTOM (Some [1]) (utf16 [0x1F600])"
    by (simp add: answers_def one_field_def utf16_def utf16_char_def)
  moreover have "fst (one_field WINHTTP_QUERY_CUSTOM (Some [2]) None) = Inl (hr_win32 ERROR_WINHTTP_HEADER_NOT_FOUND)"
    by (simp add: one_field_def)
  ultimately show ?thesis
    using response_field_exact [OF s hr_win32_conv, of one_field "[1]" "[]"] response_field_exact [OF s hr_win32_conv, of one_field "[2]" "[]"]
    by blast
qed

end
