(* ===== verification/Server_Serve.thy ===== *)
theory Server_Serve
  imports Server_Send "HOL-Library.Multiset" "HOL-Library.Sublist"
begin

text \<open>
  Serving many requests: what is left of \<^verbatim>\<open>winasio-util/src/server/mod.rs\<close> (streamed responses, \<^verbatim>\<open>serve_one\<close>, the two
  ways an accepted request is served) and the concurrent loop of \<^verbatim>\<open>winasio-axum\<close>, \<^verbatim>\<open>serve.rs\<close> and \<^verbatim>\<open>executor.rs\<close>.

  The loop is a future that is polled; each poll of its two gates is one step, and what the service and the queue
  answer is an argument, a function of everything that happened before. The executor is an interface with two
  implementations, and the set of futures of the \<^verbatim>\<open>futures-util\<close> crate is an argument with its documented behaviour.
\<close>

section \<open>Serving one request\<close>

definition dispatch_streaming ::
  "('m, 'z) http_scheme \<Rightarrow> (nat \<Rightarrow> bytes option) \<Rightarrow> send_call \<Rightarrow>
   ((header_name \<times> header_value) list \<Rightarrow> (header_name \<times> header_value) list \<Rightarrow> (header_name \<times> header_value) list) \<Rightarrow>
   bool \<Rightarrow> 'e + nat \<times> 'm \<times> ('e + frame) list \<Rightarrow> outbox \<Rightarrow> ('e ServeError + unit) \<times> outbox" where
  "dispatch_streaming H canonical_reason Q hm_extend trailers_supported answer out =
     (case answer of
        Inr (status, headers, body) \<Rightarrow>
          (case send_streaming H canonical_reason Q hm_extend trailers_supported status headers body out of
             (Inl e, out1) \<Rightarrow> (Inl (ServeResponse e), out1)
           | (Inr _, out1) \<Rightarrow> (Inr (), out1))
      | Inl e \<Rightarrow>
          (Inl (ServeService e),
           snd (send_status H canonical_reason Q 500 out :: ('e ResponseError + unit) \<times> outbox)))"

text \<open>A service is its answer to the wait for readiness and its answer to the call.\<close>

definition accepted_serve ::
  "('m, 'z) http_scheme \<Rightarrow> (nat \<Rightarrow> bytes option) \<Rightarrow> send_call \<Rightarrow> bytes \<Rightarrow> 'e + unit \<Rightarrow>
   'e + nat \<times> 'm \<times> ('e + frame) list \<times> nat option \<Rightarrow> outbox \<Rightarrow> ('e ServeError + unit) \<times> outbox" where
  "accepted_serve H canonical_reason Q method ready answer out =
     (case ready of
        Inl e \<Rightarrow> (Inl (ServeService e), out)
      | Inr _ \<Rightarrow> dispatch H canonical_reason Q method answer out)"

definition accepted_serve_streaming ::
  "('m, 'z) http_scheme \<Rightarrow> (nat \<Rightarrow> bytes option) \<Rightarrow> send_call \<Rightarrow>
   ((header_name \<times> header_value) list \<Rightarrow> (header_name \<times> header_value) list \<Rightarrow> (header_name \<times> header_value) list) \<Rightarrow>
   bool \<Rightarrow> 'e + unit \<Rightarrow> 'e + nat \<times> 'm \<times> ('e + frame) list \<Rightarrow> outbox \<Rightarrow> ('e ServeError + unit) \<times> outbox" where
  "accepted_serve_streaming H canonical_reason Q hm_extend trailers_supported ready answer out =
     (case ready of
        Inl e \<Rightarrow> (Inl (ServeService e), out)
      | Inr _ \<Rightarrow> dispatch_streaming H canonical_reason Q hm_extend trailers_supported answer out)"

definition serve_one ::
  "('m, 'z) http_scheme \<Rightarrow> (bytes \<Rightarrow> bytes option) \<Rightarrow> (bytes \<Rightarrow> 'u option) \<Rightarrow> (nat \<Rightarrow> bytes option) \<Rightarrow> send_call \<Rightarrow>
   'e + unit \<Rightarrow> ReceiveError + HTTP_REQUEST \<Rightarrow> (('u, 'm) Head \<times> IncomingBody \<Rightarrow> 'e + nat \<times> 'm \<times> ('e + frame) list \<times> nat option) \<Rightarrow>
   outbox \<Rightarrow> ('e ServeError + unit) \<times> outbox" where
  "serve_one H method_from_bytes uri_try_from canonical_reason Q ready received call out =
     (case ready of
        Inl e \<Rightarrow> (Inl (ServeService e), out)
      | Inr _ \<Rightarrow>
          (case accept H method_from_bytes uri_try_from canonical_reason Q received out of
             (Inl e, out1) \<Rightarrow> (Inl (ServeAccept e), out1)
           | (Inr (head, body), out1) \<Rightarrow> dispatch H canonical_reason Q (hd_method head) (call (head, body)) out1))"

section \<open>A streamed response\<close>

fun merged_trailers ::
  "((header_name \<times> header_value) list \<Rightarrow> (header_name \<times> header_value) list \<Rightarrow> (header_name \<times> header_value) list) \<Rightarrow>
   ('e + frame) list \<Rightarrow> (header_name \<times> header_value) list option \<Rightarrow> (header_name \<times> header_value) list option" where
  "merged_trailers ext [] acc = acc"
| "merged_trailers ext (Inr (TrailersFrame t) # body) acc =
     merged_trailers ext body (Some (case acc of Some existing \<Rightarrow> ext existing t | None \<Rightarrow> t))"
| "merged_trailers ext (_ # body) acc = merged_trailers ext body acc"

text \<open>Sends of body data, with more to follow.\<close>

definition data_sends :: "sent list \<Rightarrow> bool" where
  "data_sends xs \<longleftrightarrow> (\<forall>x \<in> set xs. \<exists>b. x = SentBody b False)"

lemma data_sends_simps [simp]:
  "data_sends []" "data_sends (x # xs) \<longleftrightarrow> (\<exists>b. x = SentBody b False) \<and> data_sends xs"
  "data_sends (xs @ ys) \<longleftrightarrow> data_sends xs \<and> data_sends ys"
  by (auto simp: data_sends_def)

lemma responder_write_prefix:
  fixes r :: "'e ResponseError + unit"
  shows "responder_write Q b is_last out = (r, out1) \<Longrightarrow>
    \<exists>new. ou_log out1 = ou_log out @ new \<and> prefix (wire_bytes new) b \<and> (is_last \<or> data_sends new)"
proof (induction "length b" arbitrary: b out rule: less_induct)
  case less
  obtain r1 out2 where q: "queue_send Q SendBodyPart (SentBody (take MAX_SEND b) False) out = (r1 :: 'e ResponseError + unit, out2)"
    by fastforce
  show ?case
  proof (cases "length b > MAX_SEND \<and> r1 = Inr ()")
    case False
    then have "ou_log out1 = ou_log out \<or> ou_log out1 = ou_log out @ [SentBody b is_last]"
      using less.prems q queue_send_log [OF q]
      by (subst (asm) responder_write.simps) (auto split: if_splits sum.splits dest!: queue_send_log)
    then show ?thesis by (cases is_last) (auto intro: exI [of _ "[]"] exI [of _ "[SentBody b is_last]"])
  next
    case True
    then have rec: "responder_write Q (drop MAX_SEND b) is_last out2 = (r, out1)"
      using less.prems q by (simp add: responder_write.simps [of Q b])
    have "length (drop MAX_SEND b) < length b" using conjunct1 [OF True] by (simp add: MAX_SEND_def)
    from less.hyps [OF this rec] obtain new where new: "ou_log out1 = ou_log out2 @ new" "prefix (wire_bytes new) (drop MAX_SEND b)"
      "is_last \<or> data_sends new" by blast
    have "ou_log out2 = ou_log out @ [SentBody (take MAX_SEND b) False]" using queue_send_log [OF q] True by auto
    moreover have "prefix (take MAX_SEND b @ wire_bytes new) (take MAX_SEND b @ drop MAX_SEND b)"
      using new(2) by (simp only: same_prefix_prefix)
    ultimately show ?thesis using new(1,3) by (intro exI [of _ "SentBody (take MAX_SEND b) False # new"]) auto
  qed
qed

lemma next_frame_data:
  "next_frame body = (Inr x, body1) \<Longrightarrow>
    (case x of
       None \<Rightarrow> body_data body = [] \<and> (\<forall>e. Inl e \<notin> set body) \<and> (\<forall>acc. merged_trailers ext body acc = acc)
     | Some (DataFrame d) \<Rightarrow> body_data body = d @ body_data body1 \<and>
         (\<forall>e. Inl e \<in> set body \<longleftrightarrow> Inl e \<in> set body1) \<and> (\<forall>acc. merged_trailers ext body acc = merged_trailers ext body1 acc)
     | Some (TrailersFrame t) \<Rightarrow> body_data body = body_data body1 \<and> (\<forall>e. Inl e \<in> set body \<longleftrightarrow> Inl e \<in> set body1) \<and>
         (\<forall>acc. merged_trailers ext body acc =
           merged_trailers ext body1 (Some (case acc of Some existing \<Rightarrow> ext existing t | None \<Rightarrow> t))))"
  by (induction body rule: next_frame.induct) (auto split: if_splits option.splits frame.splits)

lemma drain_frames_log:
  fixes body :: "('e + frame) list"
  shows "drain_frames Q ext body acc out = (r, out1) \<Longrightarrow>
    \<exists>new. ou_log out1 = ou_log out @ new \<and> data_sends new \<and> prefix (wire_bytes new) (body_data body) \<and>
      (case r of
         Inl _ \<Rightarrow> True
       | Inr tr \<Rightarrow> wire_bytes new = body_data body \<and> (\<forall>e. Inl e \<notin> set body) \<and> tr = merged_trailers ext body acc)"
proof (induction "length body" arbitrary: body acc out rule: less_induct)
  case less
  obtain x body1 where n: "next_frame body = (x, body1)" by force
  note step = less.prems [unfolded drain_frames.simps [of Q ext body] n]
  show ?case
  proof (cases x)
    case (Inl e)
    with step show ?thesis by (auto intro: exI [of _ "[]"])
  next
    case x: (Inr f)
    note nd = next_frame_data [OF n [unfolded x], of ext]
    show ?thesis
    proof (cases f)
      case None
      with x nd step show ?thesis by (auto intro!: exI [of _ "[]"])
    next
      case (Some fr)
      have sh: "length body1 < length body" using n x Some next_frame_shorter by simp
      show ?thesis
      proof (cases fr)
        case (TrailersFrame t)
        let ?acc = "Some (case acc of Some existing \<Rightarrow> ext existing t | None \<Rightarrow> t)"
        have rec: "drain_frames Q ext body1 ?acc out = (r, out1)" using step x Some TrailersFrame by simp
        have "merged_trailers ext body acc = merged_trailers ext body1 ?acc" "body_data body = body_data body1"
          "\<And>e. Inl e \<in> set body \<longleftrightarrow> Inl e \<in> set body1" using nd Some TrailersFrame by simp_all
        with less.hyps [OF sh rec] show ?thesis by (simp only:)
      next
        case (DataFrame d)
        obtain r1 out2 where w: "responder_write Q d False out = (r1 :: 'e ResponseError + unit, out2)" by force
        from responder_write_prefix [OF w] obtain new1 where new1: "ou_log out2 = ou_log out @ new1"
          "prefix (wire_bytes new1) d" "data_sends new1" by auto
        with responder_write_log [OF w] have 1: "ou_log out2 = ou_log out @ new1" "data_sends new1"
          "r1 = Inr () \<Longrightarrow> wire_bytes new1 = d" by (auto split: if_splits)
        note pre = new1(2)
        show ?thesis
        proof (cases r1)
          case (Inl e)
          with step x Some DataFrame w have "out1 = out2" "r = Inl e" by auto
          with 1 pre nd Some DataFrame show ?thesis by (auto intro!: exI [of _ new1] simp: prefix_def)
        next
          case (Inr u)
          with step x Some DataFrame w have "drain_frames Q ext body1 acc out2 = (r, out1)" by auto
          from less.hyps [OF sh this] obtain new2 where 2: "ou_log out1 = ou_log out2 @ new2" "data_sends new2"
            "prefix (wire_bytes new2) (body_data body1)"
            "case r of Inl _ \<Rightarrow> True | Inr tr \<Rightarrow> wire_bytes new2 = body_data body1 \<and> (\<forall>e. Inl e \<notin> set body1) \<and>
               tr = merged_trailers ext body1 acc" by blast
          with 1 Inr nd Some DataFrame show ?thesis by (intro exI [of _ "new1 @ new2"]) (auto split: sum.splits)
        qed
      qed
    qed
  qed
qed

text \<open>The end of a streamed response: the trailers, or an empty last piece, also after an error.\<close>

lemma last_write:
  "responder_write Q [] True o1 = (r :: 'e ResponseError + unit, o2) \<Longrightarrow>
    if r = Inr () then ou_log o2 = ou_log o1 @ [SentBody [] True]
    else ou_log o2 = ou_log o1 \<and> isl (Q (ou_calls o2 - 1) (SentBody [] True))"
  by (subst (asm) responder_write.simps) (auto simp: queue_send_def MAX_SEND_def split: sum.splits)

text \<open>The send that is to end a streamed response: its trailers, or an empty last piece.\<close>

definition streaming_last :: "bool \<Rightarrow> (header_name \<times> header_value) list option \<Rightarrow> sent" where
  "streaming_last supported tr = (if supported \<and> tr \<noteq> None \<and> the tr \<noteq> [] then SentTrailers (the tr) else SentBody [] True)"

lemma streaming_end:
  fixes r2 :: "'e ResponseError + (header_name \<times> header_value) list option"
  assumes "(case r2 of
      Inl e \<Rightarrow> (Inl e, snd (responder_write Q [] True o2 :: ('e ResponseError + unit) \<times> outbox))
    | Inr tr \<Rightarrow> if supported \<and> tr \<noteq> None \<and> the tr \<noteq> [] then queue_send Q SendTrailerPart (SentTrailers (the tr)) o2
        else responder_write Q [] True o2) = (r, out1)"
  shows "\<exists>new. ou_log out1 = ou_log o2 @ new \<and>
    (let fin = (case r2 of Inr tr \<Rightarrow> streaming_last supported tr | Inl e \<Rightarrow> SentBody [] True)
     in if r = Inr () then \<not> isl r2 \<and> new = [fin]
        else new = [fin] \<and> isl r2 \<or> new = [] \<and> isl (Q (ou_calls out1 - 1) fin))"
proof -
  obtain r' o3 where w: "responder_write Q [] True o2 = (r' :: 'e ResponseError + unit, o3)" by force
  show ?thesis
  proof (cases "\<exists>tr. r2 = Inr tr \<and> supported \<and> tr \<noteq> None \<and> the tr \<noteq> []")
    case True
    then obtain tr where tr: "r2 = Inr tr" "supported" "tr \<noteq> None" "the tr \<noteq> []" by blast
    then have "queue_send Q SendTrailerPart (SentTrailers (the tr)) o2 = (r, out1)" using assms by simp
    then have "if r = Inr () then ou_log out1 = ou_log o2 @ [SentTrailers (the tr)]
        else ou_log out1 = ou_log o2 \<and> isl (Q (ou_calls out1 - 1) (SentTrailers (the tr)))"
      by (auto simp: queue_send_def split: sum.splits)
    then show ?thesis using tr by (cases "r = Inr ()") (simp_all add: streaming_last_def)
  next
    case False
    then have "out1 = o3" "r = Inr () \<longleftrightarrow> r' = Inr () \<and> \<not> isl r2"
      using assms w by (cases r2; auto)+
    moreover have "(case r2 of Inr tr \<Rightarrow> streaming_last supported tr | Inl e \<Rightarrow> SentBody [] True) = SentBody [] True"
      using False by (auto simp: streaming_last_def split: sum.split)
    ultimately show ?thesis using last_write [OF w] by (cases "r' = Inr ()"; cases "isl r2") simp_all
  qed
qed

text \<open>
  Property C31. A streamed response never hangs the peer and never loses its trailers. Either nothing was sent, because
  its head could not be built or the queue refused the head, which is an error; or the first send is the head the reply was
  made of, without data of its own and announcing more, and what follows it are sends of body data. Reported as sent, they
  carry exactly the data of the body, and one more send ends the response, the trailers of the body where it has any and
  the host can send them, an empty piece otherwise. On an error of the body or of a send they carry a prefix of the data,
  and the response is ended by an empty piece all the same, unless that very send, the last call that was made, was
  refused by the queue; if it was the regular end that was refused, the data was complete.
\<close>

theorem streaming_response_ended:
  fixes body :: "('e + frame) list"
  assumes "send_streaming H canonical_reason Q ext supported status headers body out = (r, out1)"
  shows "case from_http H canonical_reason status headers :: 'e ResponseError + Response of
      Inl e \<Rightarrow> r = Inl e \<and> out1 = out
    | Inr reply \<Rightarrow>
        slots_iter (rs_chunks reply) = [] \<and>
        (isl (Q (ou_calls out) (SentHead reply True)) \<and> r \<noteq> Inr () \<and> ou_log out1 = ou_log out \<or>
         (\<exists>mid tl. ou_log out1 = ou_log out @ [SentHead reply True] @ mid @ tl \<and>
           data_sends mid \<and> prefix (wire_bytes mid) (body_data body) \<and>
           (let fin = streaming_last supported (merged_trailers ext body None) in
            if r = Inr () then wire_bytes mid = body_data body \<and> tl = [fin]
            else tl = [SentBody [] True] \<or>
              tl = [] \<and> (isl (Q (ou_calls out1 - 1) (SentBody [] True)) \<or>
                wire_bytes mid = body_data body \<and> isl (Q (ou_calls out1 - 1) fin)))))"
proof (cases "from_http H canonical_reason status headers :: 'e ResponseError + Response")
  case (Inl e)
  with assms show ?thesis by (auto simp: send_streaming_def)
next
  case reply: (Inr reply)
  obtain r1 o1 where h: "queue_send Q SendHead (SentHead reply True) out = (r1 :: 'e ResponseError + unit, o1)" by force
  show ?thesis
  proof (cases r1)
    case (Inl e)
    then have "isl (Q (ou_calls out) (SentHead reply True)) \<and> r \<noteq> Inr () \<and> ou_log out1 = ou_log out"
      using assms reply h by (auto simp: send_streaming_def queue_send_def split: sum.splits)
    with reply reply_chunks(1) [OF reply] show ?thesis by simp
  next
    case r1: (Inr u)
    obtain r2 o2 where d: "drain_frames Q ext body None o1 = (r2, o2)" by force
    from drain_frames_log [OF d] obtain mid where 2: "ou_log o2 = ou_log o1 @ mid" "data_sends mid"
      "prefix (wire_bytes mid) (body_data body)"
      "case r2 of Inl _ \<Rightarrow> True | Inr tr \<Rightarrow> wire_bytes mid = body_data body \<and> (\<forall>e. Inl e \<notin> set body) \<and>
         tr = merged_trailers ext body None" by blast
    have o1: "ou_log o1 = ou_log out @ [SentHead reply True]" "slots_iter (rs_chunks reply) = []"
      using queue_send_log [OF h] r1 reply_chunks(1) [OF reply] by auto
    obtain tl where 3: "ou_log out1 = ou_log o2 @ tl"
      "let fin = (case r2 of Inr tr \<Rightarrow> streaming_last supported tr | Inl e \<Rightarrow> SentBody [] True)
       in if r = Inr () then \<not> isl r2 \<and> tl = [fin]
          else tl = [fin] \<and> isl r2 \<or> tl = [] \<and> isl (Q (ou_calls out1 - 1) fin)"
      using assms reply h r1 d streaming_end [where ?r2.0 = r2 and Q = Q and ?o2.0 = o2 and supported = supported and r = r and ?out1.0 = out1] by (auto simp: send_streaming_def)
    have "let fin = streaming_last supported (merged_trailers ext body None) in
        if r = Inr () then wire_bytes mid = body_data body \<and> tl = [fin]
        else tl = [SentBody [] True] \<or> tl = [] \<and> (isl (Q (ou_calls out1 - 1) (SentBody [] True)) \<or>
          wire_bytes mid = body_data body \<and> isl (Q (ou_calls out1 - 1) fin))"
      using 2(4) 3(2) by (cases r2) (auto simp: Let_def split: if_splits)
    with reply o1 2(1-3) 3(1) show ?thesis
      by (simp only: sum.case append_assoc) blast
  qed
qed

theorem streaming_response_ended_witness:
  "\<exists>out1 reply mid. send_streaming list_http (\<lambda>_. None) (\<lambda>_ _. Inr 0) (@) True 200 []
      [Inr (DataFrame [1, 2]), Inr (TrailersFrame [(lit ''a'', [3])]) :: unit + frame] \<lparr>ou_calls = 0, ou_log = []\<rparr> = (Inr (), out1) \<and>
    ou_log out1 = [SentHead reply True] @ mid @ [SentTrailers [(lit ''a'', [3])]] \<and> wire_bytes mid = [1, 2]"
proof -
  let ?body = "[Inr (DataFrame [1, 2]), Inr (TrailersFrame [(lit ''a'', [3])]) :: unit + frame]"
  obtain out1 reply where s: "send_streaming list_http (\<lambda>_. None) (\<lambda>_ _. Inr 0) (@) True 200 [] ?body \<lparr>ou_calls = 0, ou_log = []\<rparr> =
      (Inr () :: unit ResponseError + unit, out1)"
    "from_http list_http (\<lambda>_. None) 200 [] = (Inr reply :: unit ResponseError + Response)"
    by (simp add: send_streaming_def from_http_def list_http_def drain_frames.simps responder_write.simps queue_send_def MAX_SEND_def)
  from streaming_response_ended [OF s(1), unfolded s(2) sum.case] s(1) show ?thesis
    by (auto simp: streaming_last_def)
qed

section \<open>The concurrent loop\<close>

datatype Disposition = Continue | CleanStop | Fatal

definition classify :: "AcceptError \<Rightarrow> Disposition" where
  "classify error =
     (if accept_is_queue_closed error then CleanStop
      else case error of
          RequestTooLarge _ \<Rightarrow> Continue
        | MalformedRequest _ _ \<Rightarrow> Continue
        | AcceptReceive _ \<Rightarrow> Fatal)"

text \<open>What a task of the loop does with the outcome of its request: a panic is caught and reported like an error.\<close>

datatype panic = PanicStr str | PanicString str | PanicOther

definition panic_message :: "panic \<Rightarrow> str" where
  "panic_message p =
     (case p of
        PanicStr message \<Rightarrow> message
      | PanicString message \<Rightarrow> message
      | PanicOther \<Rightarrow> map (\<lambda>c. of_char c) ''handler panicked'')"

datatype 'e boxed = Boxed 'e | HandlerPanic str

datatype 'a caught = Returned 'a | Panicked panic

definition task_report :: "('e boxed ServeError + unit) caught \<Rightarrow> 'e boxed ServeError list" where
  "task_report outcome =
     (case outcome of
        Returned (Inr _) \<Rightarrow> []
      | Returned (Inl error) \<Rightarrow> [error]
      | Panicked p \<Rightarrow> [ServeService (HandlerPanic (panic_message p))])"

text \<open>The body of a task: the way the request is served depends on the entry point, \<^verbatim>\<open>serve\<close> or \<^verbatim>\<open>serve_grpc\<close>.\<close>

definition request_task ::
  "bool \<Rightarrow> (outbox \<Rightarrow> ('e boxed ServeError + unit) caught \<times> outbox) \<Rightarrow> (outbox \<Rightarrow> ('e boxed ServeError + unit) caught \<times> outbox) \<Rightarrow>
   outbox \<Rightarrow> 'e boxed ServeError list \<times> outbox" where
  "request_task grpc serving streaming out =
     (case (if grpc then streaming out else serving out) of (outcome, out1) \<Rightarrow> (task_report outcome, out1))"

lemma request_task_reports:
  assumes "request_task grpc (\<lambda>out. (Returned (fst (served out)), snd (served out)))
      (\<lambda>out. (Returned (fst (streamed out)), snd (streamed out))) out = (reports, out1)"
  shows "out1 = snd ((if grpc then streamed else served) out) \<and>
    (fst ((if grpc then streamed else served) out) = Inr () \<longleftrightarrow> reports = []) \<and> length reports \<le> 1"
  using assms by (auto simp: request_task_def task_report_def split: sum.splits if_splits)

text \<open>
  The events of the loop: the service cloned, polled for readiness, the accept future made and polled, a task handed to
  the executor with the clone it will call, the executor driven with the tasks that finished, the observer told.
\<close>

datatype ('e, 'r) serve_ev =
    Cloned nat
  | ReadyPolled nat "('e + unit) poll"
  | AcceptMade nat
  | AcceptPolled nat nat "(AcceptError + 'r) poll"
  | Executed nat 'r
  | Progressed "(nat \<times> 'r) list"
  | Observed "'e ServeError"

record ('t, 'x) executor_ops =
  ex_execute :: "'t \<Rightarrow> 'x \<Rightarrow> 'x"
  ex_progress :: "'x \<Rightarrow> 'x \<times> 't list"

datatype serve_pc = AtGate | AtAccept

record ('e, 'r, 'x) serve_state =
  ss_pc :: serve_pc
  ss_clone :: nat
  ss_accept :: nat
  ss_exec :: 'x
  ss_log :: "('e, 'r) serve_ev list"

definition note_ev :: "('e, 'r) serve_ev \<Rightarrow> ('e, 'r, 'x) serve_state \<Rightarrow> ('e, 'r, 'x) serve_state" where
  "note_ev e s = s\<lparr>ss_log := ss_log s @ [e]\<rparr>"

definition drive :: "(nat \<times> 'r, 'x) executor_ops \<Rightarrow> ('e, 'r, 'x) serve_state \<Rightarrow> ('e, 'r, 'x) serve_state" where
  "drive E s = (case ex_progress E (ss_exec s) of (x, finished) \<Rightarrow> note_ev (Progressed finished) (s\<lparr>ss_exec := x\<rparr>))"

text \<open>The top of the loop: a clone of the service for the next request.\<close>

definition next_turn :: "('e, 'r, 'x) serve_state \<Rightarrow> ('e, 'r, 'x) serve_state" where
  "next_turn s = note_ev (Cloned (ss_clone s + 1)) (s\<lparr>ss_pc := AtGate, ss_clone := ss_clone s + 1\<rparr>)"

definition new_accept :: "('e, 'r, 'x) serve_state \<Rightarrow> ('e, 'r, 'x) serve_state" where
  "new_accept s = note_ev (AcceptMade (ss_accept s + 1)) (s\<lparr>ss_accept := ss_accept s + 1\<rparr>)"

definition run_start :: "'x \<Rightarrow> ('e, 'r, 'x) serve_state" where
  "run_start x = next_turn (new_accept \<lparr>ss_pc = AtGate, ss_clone = 0, ss_accept = 0, ss_exec = x, ss_log = []\<rparr>)"

text \<open>
  One poll of a gate, as far as the next one. \<open>Some\<close> is the result the loop returns; a pending gate leaves the state for
  the next poll.
\<close>

definition run_step ::
  "(nat \<times> 'r, 'x) executor_ops \<Rightarrow> (('e, 'r) serve_ev list \<Rightarrow> ('e + unit) poll) \<Rightarrow>
   (('e, 'r) serve_ev list \<Rightarrow> (AcceptError + 'r) poll) \<Rightarrow> ('e, 'r, 'x) serve_state \<Rightarrow>
   ('e ServeError + unit) option \<times> ('e, 'r, 'x) serve_state" where
  "run_step E poll_ready poll_accept s =
     (let s1 = drive E s in
      case ss_pc s of
        AtGate \<Rightarrow>
          let a = poll_ready (ss_log s1); s2 = note_ev (ReadyPolled (ss_clone s) a) s1 in
          (case a of
             Pending \<Rightarrow> (None, s2)
           | Ready (Inl e) \<Rightarrow> (Some (Inl (ServeService e)), s2)
           | Ready (Inr _) \<Rightarrow> (None, s2\<lparr>ss_pc := AtAccept\<rparr>))
      | AtAccept \<Rightarrow>
          let a = poll_accept (ss_log s1); s2 = note_ev (AcceptPolled (ss_clone s) (ss_accept s) a) s1 in
          (case a of
             Pending \<Rightarrow> (None, s2)
           | Ready (Inr r) \<Rightarrow>
               let s3 = new_accept s2 in
               (None, next_turn (note_ev (Executed (ss_clone s) r) (s3\<lparr>ss_exec := ex_execute E (ss_clone s, r) (ss_exec s3)\<rparr>)))
           | Ready (Inl e) \<Rightarrow>
               (case classify e of
                  CleanStop \<Rightarrow> (Some (Inr ()), s2)
                | Continue \<Rightarrow> (None, next_turn (new_accept (note_ev (Observed (ServeAccept e)) s2)))
                | Fatal \<Rightarrow> (Some (Inl (ServeAccept e)), s2))))"

fun run_polls_of ::
  "(nat \<times> 'r, 'x) executor_ops \<Rightarrow> (('e, 'r) serve_ev list \<Rightarrow> ('e + unit) poll) \<Rightarrow>
   (('e, 'r) serve_ev list \<Rightarrow> (AcceptError + 'r) poll) \<Rightarrow> nat \<Rightarrow> ('e, 'r, 'x) serve_state \<Rightarrow>
   ('e ServeError + unit) option \<times> ('e, 'r, 'x) serve_state" where
  "run_polls_of E pr pa 0 s = (None, s)"
| "run_polls_of E pr pa (Suc n) s =
     (case run_step E pr pa s of (Some r, s') \<Rightarrow> (Some r, s') | (None, s') \<Rightarrow> run_polls_of E pr pa n s')"

section \<open>Executors\<close>

text \<open>
  \<^verbatim>\<open>CurrentThread\<close> drives a set of futures: \<open>poll_next\<close> is \<^verbatim>\<open>FuturesUnordered::poll_next\<close>, which gives a task that
  finished, or that the set is empty, or that no task is ready. The loop of \<^verbatim>\<open>poll_progress\<close> has fuel.
\<close>

fun poll_progress ::
  "('t list \<Rightarrow> 't option poll \<times> 't list) \<Rightarrow> nat \<Rightarrow> 't list \<Rightarrow> 't list \<Rightarrow> (unit poll \<times> 't list \<times> 't list) option" where
  "poll_progress poll_next 0 tasks finished = None"
| "poll_progress poll_next (Suc n) tasks finished =
     (case poll_next tasks of
        (Ready (Some t), tasks') \<Rightarrow> poll_progress poll_next n tasks' (finished @ [t])
      | (Ready None, tasks') \<Rightarrow> Some (Ready (), tasks', finished)
      | (Pending, tasks') \<Rightarrow> Some (Pending, tasks', finished))"

definition current_thread :: "('t list \<Rightarrow> 't option poll \<times> 't list) \<Rightarrow> ('t, 't list) executor_ops" where
  "current_thread poll_next =
     \<lparr>ex_execute = (\<lambda>t tasks. tasks @ [t]),
      ex_progress = (\<lambda>tasks. case poll_progress poll_next (length tasks + 1) tasks [] of
         Some (_, tasks', finished) \<Rightarrow> (tasks', finished)
       | None \<Rightarrow> (tasks, []))\<rparr>"

text \<open>\<^verbatim>\<open>ThreadPerRequest\<close>: the tasks whose threads were started; the loop has nothing to drive.\<close>

definition thread_per_request :: "('t, 't list) executor_ops" where
  "thread_per_request = \<lparr>ex_execute = (\<lambda>t running. running @ [t]), ex_progress = (\<lambda>running. (running, []))\<rparr>"

text \<open>The documented behaviour of a set of futures.\<close>

definition futures_unordered :: "('t list \<Rightarrow> 't option poll \<times> 't list) \<Rightarrow> bool" where
  "futures_unordered poll_next \<longleftrightarrow>
     (\<forall>tasks. case poll_next tasks of
        (Ready (Some t), tasks') \<Rightarrow> mset tasks = add_mset t (mset tasks')
      | (Ready None, tasks') \<Rightarrow> tasks = [] \<and> tasks' = []
      | (Pending, tasks') \<Rightarrow> tasks \<noteq> [] \<and> mset tasks' = mset tasks)"

lemma poll_progress_ends:
  assumes "futures_unordered poll_next"
  shows "length tasks < n \<Longrightarrow>
    \<exists>p tasks' new. poll_progress poll_next n tasks finished = Some (p, tasks', finished @ new) \<and>
      mset tasks = mset tasks' + mset new \<and> (p = Ready () \<longleftrightarrow> tasks' = [])"
proof (induction n arbitrary: tasks finished)
  case (Suc n)
  obtain a tasks1 where a: "poll_next tasks = (a, tasks1)" by force
  with assms have law: "case a of Ready (Some t) \<Rightarrow> mset tasks = add_mset t (mset tasks1)
      | Ready None \<Rightarrow> tasks = [] \<and> tasks1 = [] | Pending \<Rightarrow> tasks \<noteq> [] \<and> mset tasks1 = mset tasks"
    by (force simp: futures_unordered_def split: prod.splits)
  show ?case
  proof (cases a)
    case Pending
    with a law show ?thesis by auto
  next
    case (Ready o1)
    show ?thesis
    proof (cases o1)
      case None
      with a law Ready show ?thesis by auto
    next
      case (Some t)
      with law Ready have m: "mset tasks = add_mset t (mset tasks1)" by simp
      then have "length tasks1 < n" using Suc.prems by (metis Suc_less_SucD size_add_mset size_mset)
      from Suc.IH [OF this, of "finished @ [t]"] m a Ready Some show ?thesis by auto
    qed
  qed
qed simp

text \<open>The contract of an executor: it keeps what it is given until it is finished, and finishes each task once.\<close>

locale executor =
  fixes E :: "(nat \<times> 'r, 'x) executor_ops"
    and in_flight :: "'x \<Rightarrow> (nat \<times> 'r) multiset"
  assumes execute_adds: "in_flight (ex_execute E t x) = add_mset t (in_flight x)"
    and progress_removes: "ex_progress E x = (x', finished) \<Longrightarrow> in_flight x = in_flight x' + mset finished"

interpretation threads: executor thread_per_request mset
  by unfold_locales (auto simp: thread_per_request_def)

lemma current_thread_executor: "futures_unordered poll_next \<Longrightarrow> executor (current_thread poll_next) mset"
proof unfold_locales
  fix x x' finished
  assume "futures_unordered poll_next" "ex_progress (current_thread poll_next) x = (x', finished :: (nat \<times> 'a) list)"
  then show "mset x = mset x' + mset finished"
    using poll_progress_ends [of poll_next x "length x + 1" "[]"] by (auto simp: current_thread_def)
qed (simp add: current_thread_def)

section \<open>What the loop does\<close>

definition along :: "('a list \<Rightarrow> 'a \<Rightarrow> bool) \<Rightarrow> 'a list \<Rightarrow> bool" where
  "along P xs \<longleftrightarrow> (\<forall>n < length xs. P (take n xs) (xs ! n))"

lemma along_Nil [simp]: "along P []"
  by (simp add: along_def)

lemma along_snoc [simp]: "along P (xs @ [x]) \<longleftrightarrow> along P xs \<and> P xs x"
proof -
  have "P (take n (xs @ [x])) ((xs @ [x]) ! n) = P (take n xs) (xs ! n)" if "n < length xs" for n
    using that by (simp add: nth_append)
  then show ?thesis by (auto simp: along_def less_Suc_eq nth_append)
qed

definition accepted_of :: "('e, 'r) serve_ev list \<Rightarrow> (AcceptError + 'r) list" where
  "accepted_of log = concat (map (\<lambda>e. case e of AcceptPolled _ _ (Ready a) \<Rightarrow> [a] | _ \<Rightarrow> []) log)"

definition executed_of :: "('e, 'r) serve_ev list \<Rightarrow> (nat \<times> 'r) list" where
  "executed_of log = concat (map (\<lambda>e. case e of Executed k r \<Rightarrow> [(k, r)] | _ \<Rightarrow> []) log)"

definition observed_of :: "('e, 'r) serve_ev list \<Rightarrow> 'e ServeError list" where
  "observed_of log = concat (map (\<lambda>e. case e of Observed x \<Rightarrow> [x] | _ \<Rightarrow> []) log)"

definition finished_of :: "('e, 'r) serve_ev list \<Rightarrow> (nat \<times> 'r) list" where
  "finished_of log = concat (map (\<lambda>e. case e of Progressed ts \<Rightarrow> ts | _ \<Rightarrow> []) log)"

lemma extract_simps [simp]:
  "accepted_of [] = []" "executed_of [] = []" "observed_of [] = []" "finished_of [] = []"
  "accepted_of (xs @ [e]) = accepted_of xs @ (case e of AcceptPolled _ _ (Ready a) \<Rightarrow> [a] | _ \<Rightarrow> [])"
  "executed_of (xs @ [e]) = executed_of xs @ (case e of Executed k r \<Rightarrow> [(k, r)] | _ \<Rightarrow> [])"
  "observed_of (xs @ [e]) = observed_of xs @ (case e of Observed x \<Rightarrow> [x] | _ \<Rightarrow> [])"
  "finished_of (xs @ [e]) = finished_of xs @ (case e of Progressed ts \<Rightarrow> ts | _ \<Rightarrow> [])"
  by (simp_all add: accepted_of_def executed_of_def observed_of_def finished_of_def)

definition goes_on :: "AcceptError + 'r \<Rightarrow> bool" where
  "goes_on a = (case a of Inr _ \<Rightarrow> True | Inl e \<Rightarrow> classify e = Continue)"

definition requests_of :: "(AcceptError + 'r) list \<Rightarrow> 'r list" where
  "requests_of as = concat (map (\<lambda>a. case a of Inr r \<Rightarrow> [r] | Inl _ \<Rightarrow> []) as)"

definition recovered_of :: "(AcceptError + 'r) list \<Rightarrow> 'e ServeError list" where
  "recovered_of as = concat (map (\<lambda>a. case a of Inl e \<Rightarrow> if classify e = Continue then [ServeAccept e] else [] | Inr _ \<Rightarrow> []) as)"

lemma answers_simps [simp]:
  "requests_of [] = []" "recovered_of [] = []"
  "requests_of (as @ [a]) = requests_of as @ (case a of Inr r \<Rightarrow> [r] | Inl _ \<Rightarrow> [])"
  "recovered_of (as @ [a]) = recovered_of as @ (case a of Inl e \<Rightarrow> if classify e = Continue then [ServeAccept e] else [] | Inr _ \<Rightarrow> [])"
  by (simp_all add: requests_of_def recovered_of_def)

text \<open>
  When an event may happen, given those before it. A clone is polled for readiness until it answers, once; an accept
  future is polled with a ready clone in hand and never after it resolved; a task gets a request that was accepted with
  the clone in hand, and the clone serves no other; each poll comes right after the executor was driven.
\<close>

definition allowed :: "('e, 'r) serve_ev list \<Rightarrow> ('e, 'r) serve_ev \<Rightarrow> bool" where
  "allowed xs e =
     (case e of
        ReadyPolled k a \<Rightarrow> Cloned k \<in> set xs \<and> (\<forall>b. ReadyPolled k (Ready b) \<notin> set xs) \<and> (\<exists>ts. last xs = Progressed ts)
      | AcceptPolled k i a \<Rightarrow> ReadyPolled k (Ready (Inr ())) \<in> set xs \<and> AcceptMade i \<in> set xs \<and>
          (\<forall>k' b. AcceptPolled k' i (Ready b) \<notin> set xs) \<and> (\<exists>ts. last xs = Progressed ts)
      | Executed k r \<Rightarrow> (\<exists>i. AcceptPolled k i (Ready (Inr r)) \<in> set xs) \<and> (\<forall>r'. Executed k r' \<notin> set xs)
      | Cloned k \<Rightarrow> Cloned k \<notin> set xs
      | AcceptMade i \<Rightarrow> AcceptMade i \<notin> set xs
      | _ \<Rightarrow> True)"

text \<open>How the loop stands after some polls, or how it ended.\<close>

definition loop_outcome :: "('e ServeError + unit) option \<Rightarrow> ('e, 'r) serve_ev list \<Rightarrow> bool" where
  "loop_outcome r log =
     (case r of
        None \<Rightarrow> list_all goes_on (accepted_of log)
      | Some (Inr _) \<Rightarrow> (\<exists>as e. accepted_of log = as @ [Inl e] \<and> list_all goes_on as \<and> classify e = CleanStop)
      | Some (Inl (ServeAccept e)) \<Rightarrow> (\<exists>as. accepted_of log = as @ [Inl e] \<and> list_all goes_on as \<and> classify e = Fatal)
      | Some (Inl (ServeService e)) \<Rightarrow> list_all goes_on (accepted_of log) \<and> (\<exists>k. last log = ReadyPolled k (Ready (Inl e)))
      | Some (Inl (ServeResponse _)) \<Rightarrow> False)"

definition loop_accounts :: "('e, 'r) serve_ev list \<Rightarrow> bool" where
  "loop_accounts log \<longleftrightarrow>
     along allowed log \<and> map snd (executed_of log) = requests_of (accepted_of log) \<and>
     observed_of log = recovered_of (accepted_of log)"

text \<open>The counters of the loop are ahead of what was used up.\<close>

definition fresh_ev :: "nat \<Rightarrow> nat \<Rightarrow> bool \<Rightarrow> ('e, 'r) serve_ev \<Rightarrow> bool" where
  "fresh_ev clones accepts answered e =
     (case e of
        Cloned k \<Rightarrow> k \<le> clones
      | AcceptMade i \<Rightarrow> i \<le> accepts
      | Executed k _ \<Rightarrow> k < clones
      | AcceptPolled _ i (Ready _) \<Rightarrow> i < accepts
      | ReadyPolled k (Ready _) \<Rightarrow> k < clones \<or> k = clones \<and> answered
      | _ \<Rightarrow> True)"

definition loop_fresh :: "('e, 'r, 'x) serve_state \<Rightarrow> bool" where
  "loop_fresh s \<longleftrightarrow> list_all (fresh_ev (ss_clone s) (ss_accept s) (ss_pc s = AtAccept)) (ss_log s)"

lemma fresh_mono:
  "list_all (fresh_ev c a False) log \<Longrightarrow> list_all (fresh_ev c a g) log"
  "list_all (fresh_ev c a g) log \<Longrightarrow> list_all (fresh_ev (Suc c) (Suc a) g') log"
  by (auto simp: fresh_ev_def elim!: list.pred_mono_strong split: serve_ev.splits poll.splits)

lemma fresh_not_in:
  "list_all (fresh_ev c a g) log \<Longrightarrow> \<not> fresh_ev c a g e \<Longrightarrow> e \<notin> set log"
  by (auto simp: list_all_iff)

definition loop_holds :: "('e, 'r, 'x) serve_state \<Rightarrow> bool" where
  "loop_holds s \<longleftrightarrow>
     Cloned (ss_clone s) \<in> set (ss_log s) \<and> AcceptMade (ss_accept s) \<in> set (ss_log s) \<and>
     (ss_pc s = AtAccept \<longrightarrow> ReadyPolled (ss_clone s) (Ready (Inr ())) \<in> set (ss_log s))"

lemma drive_simps [simp]:
  "ss_log (drive E s) = ss_log s @ [Progressed (snd (ex_progress E (ss_exec s)))]"
  "ss_exec (drive E s) = fst (ex_progress E (ss_exec s))"
  "ss_pc (drive E s) = ss_pc s" "ss_clone (drive E s) = ss_clone s" "ss_accept (drive E s) = ss_accept s"
  by (simp_all add: drive_def note_ev_def split: prod.splits)

lemma note_ev_simps [simp]:
  "ss_log (note_ev e s) = ss_log s @ [e]" "ss_exec (note_ev e s) = ss_exec s"
  "ss_pc (note_ev e s) = ss_pc s" "ss_clone (note_ev e s) = ss_clone s" "ss_accept (note_ev e s) = ss_accept s"
  by (simp_all add: note_ev_def)

lemma new_accept_simps [simp]:
  "ss_log (new_accept s) = ss_log s @ [AcceptMade (ss_accept s + 1)]" "ss_exec (new_accept s) = ss_exec s"
  "ss_pc (new_accept s) = ss_pc s" "ss_clone (new_accept s) = ss_clone s" "ss_accept (new_accept s) = ss_accept s + 1"
  by (simp_all add: new_accept_def)

lemma next_turn_simps [simp]:
  "ss_log (next_turn s) = ss_log s @ [Cloned (ss_clone s + 1)]" "ss_exec (next_turn s) = ss_exec s"
  "ss_pc (next_turn s) = AtGate" "ss_clone (next_turn s) = ss_clone s + 1" "ss_accept (next_turn s) = ss_accept s"
  by (simp_all add: next_turn_def)

lemma run_start_log [simp]:
  "ss_log (run_start x) = [AcceptMade 1, Cloned 1]" "ss_exec (run_start x) = x" "ss_pc (run_start x) = AtGate"
  "ss_clone (run_start x) = 1" "ss_accept (run_start x) = 1"
  by (simp_all add: run_start_def)

text \<open>Appending an event, for each of the four parts of the invariant.\<close>

lemma accounts_snoc [simp]:
  "loop_accounts (log @ [Progressed ts]) \<longleftrightarrow> loop_accounts log"
  "loop_accounts (log @ [ReadyPolled k a]) \<longleftrightarrow> loop_accounts log \<and> allowed log (ReadyPolled k a)"
  "loop_accounts (log @ [AcceptMade i]) \<longleftrightarrow> loop_accounts log \<and> allowed log (AcceptMade i)"
  "loop_accounts (log @ [Cloned k]) \<longleftrightarrow> loop_accounts log \<and> allowed log (Cloned k)"
  by (auto simp: loop_accounts_def allowed_def)

lemma step_at_gate:
  assumes "loop_fresh s" "loop_holds s" "loop_accounts (ss_log s)" "loop_outcome None (ss_log s)" "ss_pc s = AtGate"
    and "run_step E pr pa s = (r, s')"
  shows "loop_accounts (ss_log s')" "loop_outcome r (ss_log s')" "r = None \<Longrightarrow> loop_fresh s' \<and> loop_holds s'"
proof -
  let ?l = "ss_log s @ [Progressed (snd (ex_progress E (ss_exec s)))]"
  have a: "allowed ?l (ReadyPolled (ss_clone s) (pr ?l))"
    using assms(2) fresh_not_in [OF assms(1) [unfolded loop_fresh_def], of "ReadyPolled (ss_clone s) (Ready b)" for b] assms(5)
    by (auto simp: allowed_def fresh_ev_def loop_holds_def)
  have l: "ss_log s' = ?l @ [ReadyPolled (ss_clone s) (pr ?l)]"
    using assms(5,6) by (auto simp: run_step_def Let_def split: poll.splits sum.splits)
  show "loop_accounts (ss_log s')" using l a assms(3) by (simp del: append_assoc)
  show "loop_outcome r (ss_log s')" using l assms(4-6)
    by (auto simp: run_step_def Let_def loop_outcome_def simp del: append_assoc split: poll.splits sum.splits)
  show "loop_fresh s' \<and> loop_holds s'" if "r = None"
    using assms(1,2,5,6) that fresh_mono(1) [of "ss_clone s" "ss_accept s" "ss_log s"] l
    by (auto simp: run_step_def Let_def loop_fresh_def loop_holds_def fresh_ev_def split: poll.splits sum.splits)
qed

lemma step_at_accept_log:
  assumes "ss_pc s = AtAccept" and "run_step E pr pa s = (r, s')"
  defines "l \<equiv> ss_log s @ [Progressed (snd (ex_progress E (ss_exec s)))]"
  shows "ss_log s' = (case pa l of
      Pending \<Rightarrow> l @ [AcceptPolled (ss_clone s) (ss_accept s) Pending]
    | Ready (Inr q) \<Rightarrow> (((l @ [AcceptPolled (ss_clone s) (ss_accept s) (Ready (Inr q))]) @ [AcceptMade (ss_accept s + 1)]) @
        [Executed (ss_clone s) q]) @ [Cloned (ss_clone s + 1)]
    | Ready (Inl e) \<Rightarrow> (let m = l @ [AcceptPolled (ss_clone s) (ss_accept s) (Ready (Inl e))] in
        if classify e = Continue then ((m @ [Observed (ServeAccept e)]) @ [AcceptMade (ss_accept s + 1)]) @ [Cloned (ss_clone s + 1)]
        else m))"
    "r = (case pa l of Ready (Inl e) \<Rightarrow> (case classify e of Continue \<Rightarrow> None | CleanStop \<Rightarrow> Some (Inr ())
        | Fatal \<Rightarrow> Some (Inl (ServeAccept e))) | _ \<Rightarrow> None)"
  using assms by (auto simp: run_step_def Let_def split: poll.splits sum.splits Disposition.splits)

lemma step_at_accept:
  assumes "loop_fresh s" "loop_holds s" "loop_accounts (ss_log s)" "loop_outcome None (ss_log s)" "ss_pc s = AtAccept"
    and "run_step E pr pa s = (r, s')"
  shows "loop_accounts (ss_log s')" "loop_outcome r (ss_log s')" "r = None \<Longrightarrow> loop_fresh s' \<and> loop_holds s'"
proof -
  let ?l = "ss_log s @ [Progressed (snd (ex_progress E (ss_exec s)))]"
  note log = step_at_accept_log [OF assms(5,6)]
  note fresh = assms(1) [unfolded loop_fresh_def]
  have new: "AcceptMade (ss_accept s + 1) \<notin> set (ss_log s)" "Cloned (ss_clone s + 1) \<notin> set (ss_log s)"
    "Executed (ss_clone s) q \<notin> set (ss_log s)" "AcceptPolled k (ss_accept s) (Ready b) \<notin> set (ss_log s)" for q k b
    by (rule fresh_not_in [OF fresh], simp add: fresh_ev_def)+
  have old: "ReadyPolled (ss_clone s) (Ready (Inr ())) \<in> set (ss_log s)" "AcceptMade (ss_accept s) \<in> set (ss_log s)"
    "Cloned (ss_clone s) \<in> set (ss_log s)"
    using assms(2,5) by (auto simp: loop_holds_def)
  show "loop_accounts (ss_log s')" using log(1) new old assms(3)
    by (auto simp: loop_accounts_def allowed_def Let_def simp del: append_assoc split: poll.splits sum.splits if_splits)
  show "loop_outcome r (ss_log s')" using log assms(4)
    by (auto simp: loop_outcome_def goes_on_def Let_def simp del: append_assoc
        split: poll.splits sum.splits if_splits Disposition.splits)
  have moved: "if pa ?l = Pending then ss_clone s' = ss_clone s \<and> ss_accept s' = ss_accept s \<and> ss_pc s' = AtAccept
      else ss_clone s' = ss_clone s + 1 \<and> ss_accept s' = ss_accept s + 1 \<and> ss_pc s' = AtGate" if "r = None"
    using assms(5,6) that by (auto simp: run_step_def Let_def split: poll.splits sum.splits Disposition.splits)
  show "loop_fresh s' \<and> loop_holds s'" if "r = None"
    using moved [OF that] log that fresh assms(5) old fresh_mono(2) [OF fresh, of False]
    by (auto simp: loop_fresh_def loop_holds_def fresh_ev_def Let_def split: poll.splits sum.splits Disposition.splits if_splits)
qed

lemma run_polls_of_loop:
  "loop_fresh s \<Longrightarrow> loop_holds s \<Longrightarrow> loop_accounts (ss_log s) \<Longrightarrow> loop_outcome None (ss_log s) \<Longrightarrow>
    run_polls_of E pr pa n s = (r, s') \<Longrightarrow> loop_accounts (ss_log s') \<and> loop_outcome r (ss_log s')"
proof (induction n arbitrary: s)
  case (Suc n)
  obtain r1 s1 where st: "run_step E pr pa s = (r1, s1)" by force
  have post: "loop_accounts (ss_log s1)" "loop_outcome r1 (ss_log s1)" "r1 = None \<Longrightarrow> loop_fresh s1 \<and> loop_holds s1"
    using step_at_gate [OF Suc.prems(1-4) _ st] step_at_accept [OF Suc.prems(1-4) _ st] by (cases "ss_pc s"; blast)+
  show ?case
  proof (cases r1)
    case None
    with post Suc.IH [of s1] Suc.prems(5) st show ?thesis by simp
  next
    case (Some x)
    with post Suc.prems(5) st show ?thesis by auto
  qed
qed auto

lemma run_start_loop:
  "loop_fresh (run_start x)" "loop_holds (run_start x)" "loop_accounts (ss_log (run_start x))"
  "loop_outcome None (ss_log (run_start x))"
  by (auto simp: loop_fresh_def fresh_ev_def loop_holds_def loop_outcome_def loop_accounts_def allowed_def along_def less_Suc_eq accepted_of_def
      executed_of_def observed_of_def)

text \<open>Every task handed over is finished once, or still with the executor.\<close>

context executor
begin

definition conserved :: "('e, 'r, 'x) serve_state \<Rightarrow> (nat \<times> 'r) multiset" where
  "conserved s = in_flight (ss_exec s) + mset (finished_of (ss_log s))"

lemma step_conserves:
  assumes "run_step E pr pa s = (r, s')"
  shows "\<exists>new. executed_of (ss_log s') = executed_of (ss_log s) @ new \<and> conserved s' = conserved s + mset new"
proof -
  have rem: "in_flight (ss_exec s) = in_flight (fst (ex_progress E (ss_exec s))) + mset (snd (ex_progress E (ss_exec s)))"
    by (rule progress_removes) simp
  show ?thesis using assms rem
    by (auto simp: run_step_def conserved_def Let_def execute_adds simp del: append_assoc
        split: serve_pc.splits poll.splits sum.splits Disposition.splits)
qed

lemma run_conserves:
  "run_polls_of E pr pa n s = (r, s') \<Longrightarrow> \<exists>new. executed_of (ss_log s') = executed_of (ss_log s) @ new \<and> conserved s' = conserved s + mset new"
proof (induction n arbitrary: s)
  case (Suc n)
  obtain r1 s1 where st: "run_step E pr pa s = (r1, s1)" by force
  from step_conserves [OF st] obtain new1 where new1: "executed_of (ss_log s1) = executed_of (ss_log s) @ new1"
    "conserved s1 = conserved s + mset new1" by blast
  show ?case
  proof (cases r1)
    case None
    with Suc.IH [of s1] Suc.prems st obtain new2 where "executed_of (ss_log s') = executed_of (ss_log s1) @ new2"
      "conserved s' = conserved s1 + mset new2" by auto
    with new1 show ?thesis by (intro exI [of _ "new1 @ new2"]) (simp add: ac_simps)
  next
    case (Some x)
    with new1 Suc.prems st show ?thesis by auto
  qed
qed simp

lemma tasks_conserved:
  assumes "run_polls_of E pr pa n (run_start x) = (r, s')"
  shows "in_flight x + mset (executed_of (ss_log s')) = in_flight (ss_exec s') + mset (finished_of (ss_log s'))"
  using run_conserves [OF assms] by (auto simp: conserved_def executed_of_def finished_of_def)

end

text \<open>
  Property C29. The concurrent loop, driven any number of polls with any service, any queue and any executor. Each clone
  of the service is asked for readiness until it answers and serves one request at most; the accept future is polled
  only with a ready clone in hand and never again once it resolved; the executor is driven before every poll. The
  requests handed to the executor are the accepted ones, in the order of acceptance, and the observer hears exactly the
  accept errors the loop recovered from. The loop goes on as long as the accepts do, ends well only on a closed queue,
  and otherwise only with the fatal error of an accept or the error of a service that is not ready.
\<close>

theorem serve_loop_dispatches:
  assumes "run_polls_of E poll_ready poll_accept n (run_start x) = (r, s)"
  shows "along allowed (ss_log s) \<and> map snd (executed_of (ss_log s)) = requests_of (accepted_of (ss_log s)) \<and>
    observed_of (ss_log s) = recovered_of (accepted_of (ss_log s)) \<and> loop_outcome r (ss_log s)"
  using run_polls_of_loop [OF run_start_loop assms] by (simp add: loop_accounts_def)

theorem serve_loop_dispatches_witness:
  "\<exists>s. run_polls_of thread_per_request (\<lambda>_. Ready (Inr ()))
      (\<lambda>log. if accepted_of log = [] then Ready (Inr (7 :: nat)) else Ready (Inl (AcceptReceive E_OPERATION_ABORTED))) 4 (run_start []) =
      (Some (Inr () :: unit ServeError + unit), s) \<and> map snd (executed_of (ss_log s)) = [7] \<and> along allowed (ss_log s)"
proof -
  let ?pa = "\<lambda>log :: (unit, nat) serve_ev list. if accepted_of log = [] then Ready (Inr 7) else Ready (Inl (AcceptReceive E_OPERATION_ABORTED))"
  obtain s where s: "run_polls_of thread_per_request (\<lambda>_. Ready (Inr ())) ?pa 4 (run_start []) = (Some (Inr () :: unit ServeError + unit), s)"
    "accepted_of (ss_log s) = [Inr 7, Inl (AcceptReceive E_OPERATION_ABORTED)]"
    by (simp add: eval_nat_numeral run_step_def Let_def thread_per_request_def accepted_of_def classify_def accept_is_queue_closed_def)
  from serve_loop_dispatches [OF s(1)] s show ?thesis by (auto simp: requests_of_def)
qed



text \<open>The same with a thread for each request.\<close>

lemma thread_per_request_conserves:
  "run_polls_of thread_per_request poll_ready poll_accept n (run_start []) = (r, s) \<Longrightarrow>
    mset (executed_of (ss_log s)) = mset (ss_exec s) + mset (finished_of (ss_log s))"
  using threads.tasks_conserved [of poll_ready poll_accept n "[]"] by simp

section \<open>A thread for each request\<close>

text \<open>
  \<^verbatim>\<open>block_on\<close> with its \<^verbatim>\<open>ThreadWaker\<close>: the thread polls its task and parks; a wake unparks it, whenever it comes. The token
  is the one of \<^verbatim>\<open>std::thread::park\<close>. \<open>bo_woken\<close> is whether a wake came since the last poll began.
\<close>

datatype block_on_pc = BlockPolling | BlockParked | BlockReturned

record block_on_state =
  bo_pc :: block_on_pc
  bo_token :: bool
  bo_polls :: nat
  bo_woken :: bool

definition block_on_start :: block_on_state where
  "block_on_start = \<lparr>bo_pc = BlockPolling, bo_token = False, bo_polls = 1, bo_woken = False\<rparr>"

definition thread_wake :: "block_on_state \<Rightarrow> block_on_state" where
  "thread_wake s = s\<lparr>bo_token := True, bo_woken := True\<rparr>"

definition block_on_repoll :: "block_on_state \<Rightarrow> block_on_state" where
  "block_on_repoll s = s\<lparr>bo_pc := BlockPolling, bo_polls := bo_polls s + 1, bo_woken := False\<rparr>"

inductive block_on_step :: "block_on_state \<Rightarrow> block_on_state \<Rightarrow> bool" where
  poll_ready: "bo_pc s = BlockPolling \<Longrightarrow> block_on_step s (s\<lparr>bo_pc := BlockReturned\<rparr>)"
| poll_pending: "bo_pc s = BlockPolling \<Longrightarrow> block_on_step s (s\<lparr>bo_pc := BlockParked\<rparr>)"
| wake: "block_on_step s (thread_wake s)"
| unparked: "bo_pc s = BlockParked \<Longrightarrow> bo_token s \<Longrightarrow> block_on_step s (block_on_repoll (s\<lparr>bo_token := False\<rparr>))"
| spurious: "bo_pc s = BlockParked \<Longrightarrow> block_on_step s (block_on_repoll s)"

inductive_cases block_on_stepE: "block_on_step s s'"

lemma block_on_keeps_wake: "block_on_step\<^sup>*\<^sup>* block_on_start s \<Longrightarrow> bo_woken s \<Longrightarrow> bo_token s"
  by (induction rule: rtranclp_induct)
    (auto simp: block_on_start_def thread_wake_def block_on_repoll_def elim!: block_on_stepE)

text \<open>A wake is never lost: a thread parked after a wake that its last poll did not see is polling again in one step.\<close>

lemma wake_polls_again:
  assumes "block_on_step\<^sup>*\<^sup>* block_on_start s" "bo_pc s = BlockParked" "bo_woken s"
  shows "\<exists>s'. block_on_step s s' \<and> bo_pc s' = BlockPolling \<and> bo_polls s' = bo_polls s + 1 \<and> \<not> bo_token s'"
  using unparked [OF assms(2) block_on_keeps_wake [OF assms(1,3)]] by (force simp: block_on_repoll_def)

end
