(* ===== verification/Client.thy ===== *)
theory Client
  imports Winhttp_Request Client_Body Http_Headers H2_Duplex Http_Body "HOL-Library.Sublist"
begin

text \<open>
  The client: \<^verbatim>\<open>winasio-util/src/client.rs\<close> and the request path of \<^verbatim>\<open>winasio-util/src/h2.rs\<close>, composed of the parts
  below them: targets and header blocks, sessions, connections and requests with their handles, the body on the
  wire, the head phase of HTTP/2, and the body of the response. What the platform and the \<^verbatim>\<open>http\<close> crate answer is an
  argument. A future that is dropped while it is pending has the result \<open>None\<close>; it drops what it owns.
\<close>

section \<open>Building a client\<close>

record ClientBuilder =
  cb_agent :: "u16 list"
  cb_timeouts :: "(int \<times> int \<times> int \<times> int) option"
  cb_relaxations :: CertificateRelaxations
  cb_platform_redirects :: bool
  cb_http2 :: bool

datatype ClientConfigStage = CfOpenSession | CfSetTimeouts | CfSetRedirectPolicy

datatype ClientConfigError = ClientConfigError ClientConfigStage hresult

definition config_win_http :: "ClientConfigError \<Rightarrow> WinHttpError" where
  "config_win_http e = (case e of ClientConfigError _ source \<Rightarrow> winhttp_from_error source)"

definition no_relaxations :: CertificateRelaxations where
  "no_relaxations = \<lparr>unknown_certificate_authority = False, wrong_host_name = False, certificate_date_invalid = False, wrong_usage = False\<rparr>"

record Client =
  cl_session :: nat
  cl_relaxations :: CertificateRelaxations
  cl_http2 :: bool

definition client_builder :: "str \<Rightarrow> ClientBuilder" where
  "client_builder agent =
     \<lparr>cb_agent = encode_utf16 agent, cb_timeouts = None, cb_relaxations = no_relaxations, cb_platform_redirects = False, cb_http2 = False\<rparr>"

text \<open>\<^verbatim>\<open>build\<close>: the session is dropped, and so closed, when it cannot be configured. The cache of the probe starts undecided.\<close>

definition client_build :: "wh_api \<Rightarrow> ClientBuilder \<Rightarrow> wh_world \<Rightarrow> (ClientConfigError + Client \<times> u8) \<times> wh_world" where
  "client_build api b w =
     try_or (session_new api (cb_agent b) w) (\<lambda>e w. (Inl (ClientConfigError CfOpenSession e), w)) (\<lambda>session w.
     try_or (case cb_timeouts b of None \<Rightarrow> (Inr (), w) | Some (resolve, cn, snd_ms, recv) \<Rightarrow> set_timeouts api session resolve cn snd_ms recv w)
       (\<lambda>e w. (Inl (ClientConfigError CfSetTimeouts e), session_drop session w)) (\<lambda>_ w.
     try_or (set_redirect_policy api session (if cb_platform_redirects b then Always else Never) w)
       (\<lambda>e w. (Inl (ClientConfigError CfSetRedirectPolicy e), session_drop session w)) (\<lambda>_ w.
       (Inr (\<lparr>cl_session = session, cl_relaxations = cb_relaxations b, cl_http2 = cb_http2 b\<rparr>, 0), w))))"

definition client_new :: "wh_api \<Rightarrow> str \<Rightarrow> wh_world \<Rightarrow> (ClientConfigError + Client \<times> u8) \<times> wh_world" where
  "client_new api agent w = client_build api (client_builder agent) w"

section \<open>The exchange of a request\<close>

text \<open>
  What the platform says on one request: to the send of the head, to each write, to the wait for the response head, to
  the queries of the head. \<open>io_recv\<close> are the polls of the pending head on the HTTP/2 path, \<open>io_polls\<close> the polls each
  write needs and \<open>io_fuel\<close> how often the future is polled for the head before it is dropped.
\<close>

record client_io =
  io_send :: "u16 list option \<Rightarrow> u32 \<Rightarrow> hresult + unit"
  io_write :: writer
  io_receive :: "hresult + unit"
  io_number :: "u32 \<Rightarrow> (hresult + unit) \<times> u32"
  io_query :: query_call
  io_recv :: receiver
  io_polls :: "nat \<Rightarrow> nat"
  io_fuel :: nat

text \<open>A request of the \<^verbatim>\<open>http\<close> crate, with the exact size its body announces, if it does.\<close>

record ('e, 'm) http_request =
  hq_method :: str
  hq_uri :: uri
  hq_headers :: 'm
  hq_exact :: "nat option"
  hq_body :: "('e + frame) poll list"

datatype 'e ResponseBody = Native native | Duplex H2Framing "'e DState"

record ('e, 'm) http_response =
  hp_status :: nat
  hp_version :: Version
  hp_headers :: 'm
  hp_body :: "'e ResponseBody"
  hp_request :: Request

fun decimal_str :: "nat \<Rightarrow> str" where
  "decimal_str n = (if n < 10 then [48 + n] else decimal_str (n div 10) @ [48 + n mod 10])"

declare decimal_str.simps [simp del]

text \<open>The head of the response: the status as the \<^verbatim>\<open>http\<close> crate takes it, the version and the fields.\<close>

definition response_status :: "(nat \<Rightarrow> nat option) \<Rightarrow> u32 \<Rightarrow> 'e RequestError + nat" where
  "response_status status_from_u16 code =
     (case status_from_u16 (if unat code < 2 ^ 16 then unat code else 2 ^ 16 - 1) of
        Some status \<Rightarrow> Inr status
      | None \<Rightarrow> Inl (MalformedResponseHeader (chars ''status code '' @ decimal_str (unat code))))"

definition response_head ::
  "(u32 \<Rightarrow> hresult) \<Rightarrow> ('m, 'z) http_scheme \<Rightarrow> (nat \<Rightarrow> nat option) \<Rightarrow> client_io \<Rightarrow> 'e RequestError + nat \<times> Version \<times> 'm" where
  "response_head hr H status_from_u16 io =
     (case status_code (io_number io) of
        Inl e \<Rightarrow> Inl (Transport StReadHeaders e)
      | Inr code \<Rightarrow>
          (case response_status status_from_u16 code of
             Inl e \<Rightarrow> Inl e
           | Inr status \<Rightarrow>
               (case winhttp_raw_headers hr (io_query io) of
                  Inl e \<Rightarrow> Inl (Transport StReadHeaders e)
                | Inr raw \<Rightarrow>
                    (case parse H raw of
                       Inl e \<Rightarrow> Inl e
                     | Inr (version, headers) \<Rightarrow> Inr (status, version, headers)))))"

definition http1_framing :: "nat option \<Rightarrow> u16 list option \<Rightarrow> 'e RequestError + u16 list option \<times> Framing" where
  "http1_framing exact block =
     (case exact of
        Some len \<Rightarrow> if len > u32_max then Inl (BodyTooLarge len) else Inr (block, Exact len)
      | None \<Rightarrow> Inr (append_line block (chars ''Transfer-Encoding: chunked''), Chunked))"

definition http1_exchange ::
  "(u32 \<Rightarrow> hresult) \<Rightarrow> ('m, 'z) http_scheme \<Rightarrow> (nat \<Rightarrow> nat option) \<Rightarrow> client_io \<Rightarrow> ('e, 'm) http_request \<Rightarrow> u16 list option \<Rightarrow> Framing \<Rightarrow>
   Request \<Rightarrow> sink \<Rightarrow> ('e RequestError + ('e, 'm) http_response) \<times> sink" where
  "http1_exchange hr H status_from_u16 io q block declared platform s =
     (case io_send io block (total_length declared) of
        Inl e \<Rightarrow> (Inl (Transport StSend e), s)
      | Inr _ \<Rightarrow>
          try_or (write_body (io_write io) (frames_of (hq_body q)) declared s) (\<lambda>e s. (Inl e, s)) (\<lambda>_ s.
            (case io_receive io of
               Inl e \<Rightarrow> (Inl (Transport StReceiveResponse e), s)
             | Inr _ \<Rightarrow>
                 (case response_head hr H status_from_u16 io of
                    Inl e \<Rightarrow> (Inl e, s)
                  | Inr (status, version, headers) \<Rightarrow>
                      (Inr \<lparr>hp_status = status, hp_version = version, hp_headers = headers,
                        hp_body = Native (if may_have_body (utf8 (hq_method q)) status then body_new (content_length H headers) else body_empty),
                        hp_request = platform\<rparr>, s)))))"

definition h2_exchange ::
  "(u32 \<Rightarrow> hresult) \<Rightarrow> ('m, 'z) http_scheme \<Rightarrow> (nat \<Rightarrow> nat option) \<Rightarrow> client_io \<Rightarrow> ('e, 'm) http_request \<Rightarrow> u16 list option \<Rightarrow> H2Framing \<Rightarrow>
   Request \<Rightarrow> sink \<Rightarrow> ('e RequestError + ('e, 'm) http_response) option \<times> sink" where
  "h2_exchange hr H status_from_u16 io q block framing platform s =
     (case io_send io block (h2_total_length framing) of
        Inl e \<Rightarrow> (Some (Inl (Transport StSend e)), s)
      | Inr _ \<Rightarrow>
          (case drive_head (io_fuel io) (io_recv io) (io_polls io) (io_write io) framing (hq_body q) s of
             None \<Rightarrow>
               (None, dx_sink (snd (snd (drive_loop (io_recv io) (io_polls io) (io_write io) framing (hq_body q)
                  \<lparr>dx_sink = s, dx_polls = 0, dx_head = None\<rparr> :: ('e RequestError + bool) \<times> ('e + frame) poll list \<times> duplex))))
           | Some (Inl e, _, s) \<Rightarrow> (Some (Inl e), s)
           | Some (Inr write_done, body, s) \<Rightarrow>
               (case response_head hr H status_from_u16 io of
                  Inl e \<Rightarrow> (Some (Inl e), s)
                | Inr (status, version, headers) \<Rightarrow>
                    (Some (Inr \<lparr>hp_status = status, hp_version = version, hp_headers = headers,
                       hp_body = Duplex framing (DActive body write_done), hp_request = platform\<rparr>), s))))"

section \<open>A request with its handles\<close>

record client_state =
  cs_world :: wh_world
  cs_sink :: sink
  cs_chunking :: u8

definition in_world :: "(wh_world \<Rightarrow> 'a \<times> wh_world) \<Rightarrow> client_state \<Rightarrow> 'a \<times> client_state" where
  "in_world f cs = (case f (cs_world cs) of (r, w) \<Rightarrow> (r, cs\<lparr>cs_world := w\<rparr>))"

text \<open>Both paths end alike: the request is dropped with an error, or with the future, and handed over with a response.\<close>

definition finish_request ::
  "Connection \<Rightarrow> Request \<Rightarrow> ('e RequestError + ('e, 'm) http_response) option \<times> sink \<Rightarrow> client_state \<Rightarrow>
   ('e RequestError + ('e, 'm) http_response) option \<times> client_state" where
  "finish_request connection platform outcome cs =
     (case outcome of
        (Some (Inr response), s) \<Rightarrow>
          (Some (Inr response), cs\<lparr>cs_sink := s, cs_world := connection_drop connection (cs_world cs)\<rparr>)
      | (r, s) \<Rightarrow> (r, cs\<lparr>cs_sink := s, cs_world := connection_drop connection (request_drop platform (cs_world cs))\<rparr>))"

definition relax_if_asked ::
  "wh_api \<Rightarrow> Request \<Rightarrow> CertificateRelaxations \<Rightarrow> wh_world \<Rightarrow> (hresult + unit) \<times> wh_world" where
  "relax_if_asked api platform relaxations w =
     (if relaxations \<noteq> no_relaxations then relax_certificate_validation api platform relaxations w else (Inr (), w))"

text \<open>\<open>attempt\<close> is \<^verbatim>\<open>map_err(RequestError::transport(stage))?\<close>, with the drops of the early return.\<close>

definition attempt ::
  "RequestStage \<Rightarrow> (wh_world \<Rightarrow> (hresult + 'a) \<times> wh_world) \<Rightarrow> (wh_world \<Rightarrow> wh_world) \<Rightarrow>
   ('a \<Rightarrow> client_state \<Rightarrow> ('e RequestError + 'b) option \<times> client_state) \<Rightarrow> client_state \<Rightarrow>
   ('e RequestError + 'b) option \<times> client_state" where
  "attempt stage f drops k cs =
     (case in_world f cs of
        (Inl e, cs1) \<Rightarrow> (Some (Inl (Transport stage e)), cs1\<lparr>cs_world := drops (cs_world cs1)\<rparr>)
      | (Inr a, cs1) \<Rightarrow> k a cs1)"

definition http1_request ::
  "(u32 \<Rightarrow> hresult) \<Rightarrow> wh_api \<Rightarrow> ('m, 'z) http_scheme \<Rightarrow> (nat \<Rightarrow> nat option) \<Rightarrow> client_io \<Rightarrow> Client \<Rightarrow> ('e, 'm) http_request \<Rightarrow>
   client_state \<Rightarrow> ('e RequestError + ('e, 'm) http_response) option \<times> client_state" where
  "http1_request hr api H status_from_u16 io c q cs =
     (case decompose (hq_uri q) of
        Inl e \<Rightarrow> (Some (Inl e), cs)
      | Inr target \<Rightarrow>
          (case encode H (hq_headers q) of
             Inl e \<Rightarrow> (Some (Inl e), cs)
           | Inr block \<Rightarrow>
               (case http1_framing (hq_exact q) block of
                  Inl e \<Rightarrow> (Some (Inl e), cs)
                | Inr (block, declared) \<Rightarrow>
                    attempt StConnect (session_connect api (cl_session c) (target_host target) (target_port target)) id (\<lambda>connection.
                    attempt StOpenRequest
                      (open_request api connection (encode_utf16 (hq_method q)) (target_object target) [] (target_secure target))
                      (connection_drop connection) (\<lambda>platform.
                    attempt StConfigure (relax_if_asked api platform (cl_relaxations c))
                      (\<lambda>w. connection_drop connection (request_drop platform w)) (\<lambda>_ cs.
                    case http1_exchange hr H status_from_u16 io q block declared platform (cs_sink cs) of
                      (r, s) \<Rightarrow> finish_request connection platform (Some r, s) cs))) cs)))"

text \<open>The probe for automatic chunking is only made for a body of unknown length, and only while the cache is undecided.\<close>

definition probe_if_needed ::
  "(u32 \<Rightarrow> hresult) \<Rightarrow> wh_api \<Rightarrow> Connection \<Rightarrow> Target \<Rightarrow> nat option \<Rightarrow> client_state \<Rightarrow> (hresult + bool) \<times> client_state" where
  "probe_if_needed hr api connection target exact cs =
     (if exact = None \<and> cs_chunking cs \<noteq> 1 \<and> cs_chunking cs \<noteq> 2
      then in_world (supports_automatic_chunking hr api connection (target_object target) (target_secure target)) cs
      else (Inr False, cs))"

text \<open>The rest of the HTTP/2 path, once the framing is chosen.\<close>

definition h2_send ::
  "(u32 \<Rightarrow> hresult) \<Rightarrow> wh_api \<Rightarrow> ('m, 'z) http_scheme \<Rightarrow> (nat \<Rightarrow> nat option) \<Rightarrow> client_io \<Rightarrow> Client \<Rightarrow> ('e, 'm) http_request \<Rightarrow>
   Connection \<Rightarrow> Target \<Rightarrow> u16 list option \<Rightarrow> H2Framing \<Rightarrow> client_state \<Rightarrow>
   ('e RequestError + ('e, 'm) http_response) option \<times> client_state" where
  "h2_send hr api H status_from_u16 io c q connection target block framing cs =
     attempt StOpenRequest
       (open_request_with api connection (encode_utf16 (hq_method q)) (target_object target) [] (target_secure target)
         \<lparr>automatic_chunking = (framing = Automatic)\<rparr>)
       (connection_drop connection) (\<lambda>platform.
     attempt StConfigure (relax_if_asked api platform (cl_relaxations c))
       (\<lambda>w. connection_drop connection (request_drop platform w)) (\<lambda>_.
     attempt StConfigure (enable_http2 api platform)
       (\<lambda>w. connection_drop connection (request_drop platform w)) (\<lambda>_ cs.
     finish_request connection platform
       (h2_exchange hr H status_from_u16 io q
         (if framing = ManualChunked then append_line block (chars ''Transfer-Encoding: chunked'') else block)
         framing platform (cs_sink cs)) cs))) cs"

definition h2_request ::
  "(u32 \<Rightarrow> hresult) \<Rightarrow> wh_api \<Rightarrow> ('m, 'z) http_scheme \<Rightarrow> (nat \<Rightarrow> nat option) \<Rightarrow> client_io \<Rightarrow> Client \<Rightarrow> ('e, 'm) http_request \<Rightarrow>
   client_state \<Rightarrow> ('e RequestError + ('e, 'm) http_response) option \<times> client_state" where
  "h2_request hr api H status_from_u16 io c q cs =
     (case decompose (hq_uri q) of
        Inl e \<Rightarrow> (Some (Inl e), cs)
      | Inr target \<Rightarrow>
          (case encode H (hq_headers q) of
             Inl e \<Rightarrow> (Some (Inl e), cs)
           | Inr block \<Rightarrow>
               attempt StConnect (session_connect api (cl_session c) (target_host target) (target_port target)) id (\<lambda>connection cs.
               case probe_if_needed hr api connection target (hq_exact q) cs of (supports, cs) \<Rightarrow>
               (case choose_framing (hq_exact q) (cs_chunking cs) supports of
                  (Inl e, cache) \<Rightarrow>
                    (Some (Inl e), cs\<lparr>cs_chunking := cache, cs_world := connection_drop connection (cs_world cs)\<rparr>)
                | (Inr framing, cache) \<Rightarrow>
                    h2_send hr api H status_from_u16 io c q connection target block framing (cs\<lparr>cs_chunking := cache\<rparr>))) cs))"

definition client_request ::
  "(u32 \<Rightarrow> hresult) \<Rightarrow> wh_api \<Rightarrow> ('m, 'z) http_scheme \<Rightarrow> (nat \<Rightarrow> nat option) \<Rightarrow> client_io \<Rightarrow> Client \<Rightarrow> ('e, 'm) http_request \<Rightarrow>
   client_state \<Rightarrow> ('e RequestError + ('e, 'm) http_response) option \<times> client_state" where
  "client_request hr api H status_from_u16 io c q cs =
     (if cl_http2 c then h2_request hr api H status_from_u16 io c q cs else http1_request hr api H status_from_u16 io c q cs)"

section \<open>No handle is lost on any path\<close>

text \<open>
  The accounts of a step of the request, started when the program holds \<open>p\<close>: the program is in order with what a
  response holds added, and with nothing added otherwise.
\<close>

definition settled :: "wh_prog \<Rightarrow> ('e RequestError + ('e, 'm) http_response) option \<times> client_state \<Rightarrow> bool" where
  "settled p out \<longleftrightarrow>
     (case fst out of
        Some (Inr response) \<Rightarrow> wh_prog_ok (p\<lparr>wp_requests := hp_request response # wp_requests p, wp_world := cs_world (snd out)\<rparr>)
      | _ \<Rightarrow> wh_prog_ok (p\<lparr>wp_world := cs_world (snd out)\<rparr>))"

lemma settled_error [simp]:
  "settled p (Some (Inl e), cs) \<longleftrightarrow> wh_prog_ok (p\<lparr>wp_world := cs_world cs\<rparr>)" "settled p (None, cs) \<longleftrightarrow> wh_prog_ok (p\<lparr>wp_world := cs_world cs\<rparr>)"
  by (simp_all add: settled_def)

text \<open>With a connection on top of \<open>p\<close>, and with a request on it.\<close>

definition with_connection :: "Connection \<Rightarrow> wh_prog \<Rightarrow> wh_world \<Rightarrow> bool" where
  "with_connection c p w \<longleftrightarrow> wh_prog_ok (p\<lparr>wp_connections := c # wp_connections p, wp_world := w\<rparr>)"

definition with_request :: "Request \<Rightarrow> Connection \<Rightarrow> wh_prog \<Rightarrow> wh_world \<Rightarrow> bool" where
  "with_request r c p w \<longleftrightarrow>
     wh_prog_ok (p\<lparr>wp_connections := c # wp_connections p, wp_requests := r # wp_requests p, wp_world := w\<rparr>)"

lemma connection_released: "with_connection c p w \<Longrightarrow> wh_prog_ok (p\<lparr>wp_world := connection_drop c w\<rparr>)"
  using drop_connection_ok [of "p\<lparr>wp_connections := c # wp_connections p, wp_world := w\<rparr>" 0]
  by (simp add: with_connection_def drop_nth_def)

lemma request_released: "with_request r c p w \<Longrightarrow> with_connection c p (request_drop r w)"
  using drop_request_ok [of "p\<lparr>wp_connections := c # wp_connections p, wp_requests := r # wp_requests p, wp_world := w\<rparr>" 0]
  by (simp add: with_connection_def with_request_def drop_nth_def)

lemma request_kept: "with_request r c p w \<Longrightarrow> wh_prog_ok (p\<lparr>wp_requests := r # wp_requests p, wp_world := connection_drop c w\<rparr>)"
  using drop_connection_ok [of "p\<lparr>wp_connections := c # wp_connections p, wp_requests := r # wp_requests p, wp_world := w\<rparr>" 0]
  by (simp add: with_request_def drop_nth_def)

lemma connect_cases:
  assumes "fresh_winhttp api" "wh_prog_ok (p\<lparr>wp_world := w\<rparr>)" "s \<in> set (wp_sessions p)" "session_connect api s server port w = (r, w1)"
  shows "case r of Inl _ \<Rightarrow> wh_prog_ok (p\<lparr>wp_world := w1\<rparr>) | Inr c \<Rightarrow> with_connection c p w1"
proof -
  from assms(3) obtain i where "i < length (wp_sessions p)" "wp_sessions p ! i = s" by (auto simp: in_set_conv_nth)
  with connect_ok [OF assms(1,2), of hr i server port] assms(4) show ?thesis by (auto simp: with_connection_def split: sum.splits)
qed

lemma opening_cases:
  assumes "fresh_winhttp api" "with_connection c p w"
    and "open_request_with api c verb obj accept_types secure flags w = (r, w1)"
  shows "case r of Inl _ \<Rightarrow> with_connection c p w1 | Inr q \<Rightarrow> with_request q c p w1"
  using open_request_cases [OF assms(1,2) [unfolded with_connection_def], of c verb obj accept_types secure flags r w1] assms(3)
  by (auto simp: with_connection_def with_request_def split: sum.splits)

lemma option_kept:
  "with_request q c p w \<Longrightarrow> with_request q c p (snd (wh_call api (WhOption (rq_handle q) opt val) w))"
  using call_ok [of "p\<lparr>wp_connections := c # wp_connections p, wp_requests := q # wp_requests p, wp_world := w\<rparr>"
      "WhOption (rq_handle q) opt val" "rq_handle q" api]
  by (simp add: wh_owners_def with_request_def)

lemma configure_kept:
  "with_request q c p w \<Longrightarrow> relax_if_asked api q relaxations w = (r, w1) \<Longrightarrow> with_request q c p w1"
  "with_request q c p w \<Longrightarrow> enable_http2 api q w = (r, w1) \<Longrightarrow> with_request q c p w1"
  using option_kept by (metis prod.sel(2) relax_if_asked_def relax_certificate_validation_def enable_http2_def)+

lemma probe_kept:
  assumes "fresh_winhttp api" "with_connection c p (cs_world cs)" "probe_if_needed hr api c target exact cs = (r, cs1)"
  shows "with_connection c p (cs_world cs1)"
proof -
  let ?p = "p\<lparr>wp_connections := c # wp_connections p, wp_world := cs_world cs\<rparr>"
  have "wh_prog_ok (wh_do hr api (ProbeChunking 0 (target_object target) (target_secure target)) ?p)"
    using assms(1,2) by (intro wh_do_ok) (simp_all add: with_connection_def)
  with assms(2,3) show ?thesis
    by (auto simp: probe_if_needed_def in_world_def with_connection_def split: if_splits prod.splits)
qed

lemma exchange_request:
  "http1_exchange hr H sf io q block declared platform s = (Inr response, s1) \<Longrightarrow> hp_request response = platform"
  "h2_exchange hr H sf io q block framing platform s = (Some (Inr response), s1) \<Longrightarrow> hp_request response = platform"
  by (auto simp: http1_exchange_def h2_exchange_def try_or_def split: sum.splits prod.splits option.splits)

text \<open>One rule for each step: what it leaves the next one with.\<close>

lemma attempt_settled:
  assumes "\<And>e w1. f (cs_world cs) = (Inl e, w1) \<Longrightarrow> wh_prog_ok (p\<lparr>wp_world := drops w1\<rparr>)"
    and "\<And>a w1. f (cs_world cs) = (Inr a, w1) \<Longrightarrow> settled p (k a (cs\<lparr>cs_world := w1\<rparr>))"
  shows "settled p (attempt stage f drops k cs)"
  using assms by (auto simp: attempt_def in_world_def split: prod.splits sum.splits)

lemma finish_settled:
  assumes "with_request platform c p (cs_world cs)"
    and "\<And>response. fst outcome = Some (Inr response) \<Longrightarrow> hp_request response = platform"
  shows "settled p (finish_request c platform outcome cs)"
  using request_kept [OF assms(1)] connection_released [OF request_released [OF assms(1)]] assms(2)
  by (auto simp: finish_request_def settled_def split: prod.splits option.splits sum.splits)

lemma connect_settled:
  assumes "fresh_winhttp api" "wh_prog_ok (p\<lparr>wp_world := cs_world cs\<rparr>)" "s \<in> set (wp_sessions p)"
    and "\<And>c w1. with_connection c p w1 \<Longrightarrow> settled p (k c (cs\<lparr>cs_world := w1\<rparr>))"
  shows "settled p (attempt StConnect (session_connect api s host port) id k cs)"
  using connect_cases [OF assms(1-3)] assms(4) by (intro attempt_settled) force+

lemma open_settled:
  assumes "fresh_winhttp api" "with_connection c p (cs_world cs)"
    and "\<And>r w1. with_request r c p w1 \<Longrightarrow> settled p (k r (cs\<lparr>cs_world := w1\<rparr>))"
  shows "settled p (attempt StOpenRequest (open_request_with api c verb obj acc secure flags) (connection_drop c) k cs)"
  using opening_cases [OF assms(1,2)] assms(3) by (intro attempt_settled connection_released) force+

lemma configure_settled:
  assumes "with_request r c p (cs_world cs)"
    and "\<And>a w1. f (cs_world cs) = (a, w1) \<Longrightarrow> with_request r c p w1"
    and "\<And>u w1. with_request r c p w1 \<Longrightarrow> settled p (k u (cs\<lparr>cs_world := w1\<rparr>))"
  shows "settled p (attempt StConfigure f (\<lambda>w. connection_drop c (request_drop r w)) k cs)"
  using assms by (intro attempt_settled connection_released request_released) blast+

lemma http1_settled:
  assumes "fresh_winhttp api" "wh_prog_ok (p\<lparr>wp_world := cs_world cs\<rparr>)" "cl_session c \<in> set (wp_sessions p)"
  shows "settled p (http1_request hr api H sf io c q cs)"
proof -
  have "settled p (attempt StConnect (session_connect api (cl_session c) host port) id (\<lambda>connection.
      attempt StOpenRequest (open_request api connection verb obj [] secure) (connection_drop connection) (\<lambda>platform.
      attempt StConfigure (relax_if_asked api platform (cl_relaxations c)) (\<lambda>w. connection_drop connection (request_drop platform w)) (\<lambda>_ cs.
      case http1_exchange hr H sf io q block declared platform (cs_sink cs) of
        (r, s) \<Rightarrow> finish_request connection platform (Some r, s) cs))) cs)" for host port verb obj secure block declared
    unfolding open_request_def [abs_def]
    by (intro connect_settled [OF assms] open_settled [OF assms(1)] configure_settled)
      (auto intro!: finish_settled intro: configure_kept(1) exchange_request(1) split: prod.split)
  then show ?thesis using assms(2) by (auto simp: http1_request_def split: sum.splits)
qed

lemma h2_send_settled:
  assumes "fresh_winhttp api" "with_connection connection p (cs_world cs)"
  shows "settled p (h2_send hr api H sf io c q connection target block framing cs)"
  unfolding h2_send_def using assms(2)
  by (intro open_settled [OF assms(1)] configure_settled finish_settled)
    (auto intro: configure_kept exchange_request(2) simp: prod_eq_iff)

lemma h2_settled:
  assumes "fresh_winhttp api" "wh_prog_ok (p\<lparr>wp_world := cs_world cs\<rparr>)" "cl_session c \<in> set (wp_sessions p)"
  shows "settled p (h2_request hr api H sf io c q cs)"
proof -
  have "settled p (case probe_if_needed hr api connection target (hq_exact q) cs of (supports, cs) \<Rightarrow>
      (case choose_framing (hq_exact q) (cs_chunking cs) supports of
         (Inl e, cache) \<Rightarrow> (Some (Inl e), cs\<lparr>cs_chunking := cache, cs_world := connection_drop connection (cs_world cs)\<rparr>)
       | (Inr framing, cache) \<Rightarrow> h2_send hr api H sf io c q connection target block framing (cs\<lparr>cs_chunking := cache\<rparr>)))"
    if held: "with_connection connection p (cs_world cs)" for connection target block cs
  proof -
    obtain supports cs1 where probe: "probe_if_needed hr api connection target (hq_exact q) cs = (supports, cs1)" by force
    note kept = probe_kept [OF assms(1) held probe]
    show ?thesis using probe connection_released [OF kept] kept
      by (auto split: prod.split sum.split intro!: h2_send_settled [OF assms(1)])
  qed
  then show ?thesis unfolding h2_request_def using assms(2)
    by (auto split: sum.split simp del: split_paired_All intro!: connect_settled [OF assms])
qed

text \<open>
  Property C32. A request leaves no handle behind. Whatever the platform answers, on HTTP/1.1 and on HTTP/2, when the
  client's session is one the program holds and its handles are in order, they are in order after the request: on
  every error, and when the future is dropped before the response head, exactly the handles held before are open and
  every context has its owners; with a response, the one handle more is the request's, which the body of the
  response owns. Every call in between found its handle open.
\<close>

theorem client_request_accounts:
  assumes "fresh_winhttp api" "wh_prog_ok p" "cl_session c \<in> set (wp_sessions p)" "cs_world cs = wp_world p"
    and "client_request hr api H status_from_u16 io c q cs = (result, cs')"
  shows "case result of
      Some (Inr response) \<Rightarrow> wh_prog_ok (p\<lparr>wp_requests := hp_request response # wp_requests p, wp_world := cs_world cs'\<rparr>)
    | _ \<Rightarrow> wh_prog_ok (p\<lparr>wp_world := cs_world cs'\<rparr>)"
proof -
  have "wh_prog_ok (p\<lparr>wp_world := cs_world cs\<rparr>)" using assms(2,4) by simp
  then have "settled p (client_request hr api H status_from_u16 io c q cs)"
    unfolding client_request_def using assms(1,3) by (simp add: http1_settled h2_settled)
  with assms(5) show ?thesis by (auto simp: settled_def split: option.splits sum.splits)
qed

text \<open>A client that cannot be configured closes its session again.\<close>

lemma client_build_settled:
  assumes "fresh_winhttp api" "wh_prog_ok p" "client_build api b (wp_world p) = (r, w)"
  shows "case r of Inl _ \<Rightarrow> wh_prog_ok (p\<lparr>wp_world := w\<rparr>)
    | Inr (c, _) \<Rightarrow> wh_prog_ok (p\<lparr>wp_sessions := cl_session c # wp_sessions p, wp_world := w\<rparr>)"
proof -
  obtain r1 w1 where s: "session_new api (cb_agent b) (wp_world p) = (r1, w1)" by force
  with new_session_ok [OF assms(1,2), of hr "cb_agent b" AutomaticProxy None None] have ok1:
    "case r1 of Inl _ \<Rightarrow> wh_prog_ok (p\<lparr>wp_world := w1\<rparr>) | Inr h \<Rightarrow> wh_prog_ok (p\<lparr>wp_sessions := h # wp_sessions p, wp_world := w1\<rparr>)"
    by (auto simp: session_new_def split: sum.splits)
  show ?thesis
  proof (cases r1)
    case (Inl e)
    with s ok1 assms(3) show ?thesis by (auto simp: client_build_def)
  next
    case (Inr h)
    let ?ok = "\<lambda>w. wh_prog_ok (p\<lparr>wp_sessions := h # wp_sessions p, wp_world := w\<rparr>)"
    have call: "?ok (snd (wh_call api e w))" if "?ok w" "wh_uses e = Some h" for e w
      using call_ok [OF that(1), of e h api] that(2) by (simp add: wh_owners_def wh_others_def)
    have dropped: "wh_prog_ok (p\<lparr>wp_world := session_drop h w\<rparr>)" if "?ok w" for w
      by (rule drop_other_ok [OF that, of h]) (simp_all add: wh_others_def session_drop_def)
    have ok1: "?ok w1" using ok1 Inr by simp
    obtain r2 w2 where 2: "(case cb_timeouts b of None \<Rightarrow> (Inr (), w1) | Some (a, b', c, d) \<Rightarrow> set_timeouts api h a b' c d w1) = (r2, w2)"
      by force
    with ok1 call [OF ok1] have ok2: "?ok w2"
      by (auto simp: set_timeouts_def split: option.splits) (metis prod.sel(2) wh_uses.simps(3))
    obtain r3 w3 where 3: "set_redirect_policy api h (if cb_platform_redirects b then Always else Never) w2 = (r3, w3)" by force
    with call [OF ok2] have ok3: "?ok w3" by (metis prod.sel(2) set_redirect_policy_def wh_uses.simps(1))
    show ?thesis using s Inr 2 3 ok2 ok3 dropped assms(3)
      by (cases r2; cases r3) (auto simp: client_build_def)
  qed
qed

section \<open>What a request sends and returns\<close>

text \<open>The calls of a request, in order: the connection to the host, and the request on it for the target.\<close>

definition requested :: "Client \<Rightarrow> Target \<Rightarrow> str \<Rightarrow> Request \<Rightarrow> wh_ev list \<Rightarrow> bool" where
  "requested c target method platform log \<longleftrightarrow>
     (\<exists>conn rest. log = ConnectionOpened conn (cl_session c) (target_host target) (target_port target) #
        RequestOpened (rq_handle platform) conn (encode_utf16 method) (target_object target) None
          (if target_secure target then WINHTTP_FLAG_SECURE else 0) # rest)"

lemma connect_log:
  "session_connect api s host port w = (Inr conn, w1) \<Longrightarrow> w_log w1 = w_log w @ [ConnectionOpened (cx_handle conn) s host port]"
  by (auto simp: session_connect_def Let_def split: if_splits)

lemma open_request_log:
  assumes "open_request api conn verb obj [] secure w = (Inr r, w1)"
  shows "prefix (w_log w @ [RequestOpened (rq_handle r) (cx_handle conn) verb obj None (if secure then WINHTTP_FLAG_SECURE else 0)]) (w_log w1)"
  using assms
  by (auto simp: open_request_def open_request_with_def arm_def context_alloc_def wh_call_def accept_array_def try_or_def Let_def
      split: if_splits option.splits)

lemma drop_log: "prefix (w_log w) (w_log (wh_drop h w))" "prefix (w_log w) (w_log (connection_drop c w))"
proof -
  show d: "prefix (w_log w) (w_log (wh_drop h w))" for h w
    by (simp add: wh_drop_def Let_def log_drop split: option.splits)
  show "prefix (w_log w) (w_log (connection_drop c w))"
    unfolding connection_drop_def by (rule prefix_order.trans [OF d d])
qed

lemma relax_log: "relax_if_asked api r relaxations w = (x, w1) \<Longrightarrow> prefix (w_log w) (w_log w1)"
  by (auto simp: relax_if_asked_def relax_certificate_validation_def wh_call_def split: if_splits)

text \<open>The parts of a successful request, one for each stage.\<close>

lemma attempt_success:
  assumes "attempt stage f drops k cs = (Some (Inr b), cs')"
  obtains a w1 where "f (cs_world cs) = (Inr a, w1)" "k a (cs\<lparr>cs_world := w1\<rparr>) = (Some (Inr b), cs')"
  using assms by (auto simp: attempt_def in_world_def split: prod.splits sum.splits)

lemma finish_success:
  assumes "finish_request conn platform outcome cs = (Some (Inr response), cs')"
  shows "fst outcome = Some (Inr response)" "cs_sink cs' = snd outcome" "cs_world cs' = connection_drop conn (cs_world cs)"
  using assms by (auto simp: finish_request_def split: prod.splits option.splits sum.splits)

lemma http1_success:
  assumes "http1_request hr api H sf io c q cs = (Some (Inr (response :: ('e, 'm) http_response)), cs')"
  obtains target block block' declared new where "decompose (hq_uri q) = (Inr target :: 'e RequestError + Target)"
    "encode H (hq_headers q) = (Inr block :: 'e RequestError + u16 list option)"
    "http1_framing (hq_exact q) block = (Inr (block', declared) :: 'e RequestError + u16 list option \<times> Framing)"
    "w_log (cs_world cs') = w_log (cs_world cs) @ new" "requested c target (hq_method q) (hp_request response) new"
    "http1_exchange hr H sf io q block' declared (hp_request response) (cs_sink cs) = (Inr response, cs_sink cs')"
proof -
  from assms obtain target block block' declared where parts: "decompose (hq_uri q) = (Inr target :: 'e RequestError + Target)"
    "encode H (hq_headers q) = (Inr block :: 'e RequestError + u16 list option)"
    "http1_framing (hq_exact q) block = (Inr (block', declared) :: 'e RequestError + u16 list option \<times> Framing)"
    by (auto simp: http1_request_def split: sum.splits)
  from assms [unfolded http1_request_def, simplified parts sum.case prod.case]
  obtain conn w1 platform w2 u w3 where 1: "session_connect api (cl_session c) (target_host target) (target_port target) (cs_world cs) = (Inr conn, w1)"
    and 2: "open_request api conn (encode_utf16 (hq_method q)) (target_object target) [] (target_secure target) w1 = (Inr platform, w2)"
    and 3: "relax_if_asked api platform (cl_relaxations c) w2 = (Inr u, w3)"
    and 4: "(case http1_exchange hr H sf io q block' declared platform (cs_sink cs) of
        (r, s) \<Rightarrow> finish_request conn platform (Some r, s) (cs\<lparr>cs_world := w3\<rparr>)) = (Some (Inr response), cs')"
    by (elim attempt_success) simp
  obtain r s where x: "http1_exchange hr H sf io q block' declared platform (cs_sink cs) = (r, s)" by force
  note f = finish_success [OF 4 [unfolded x prod.case]]
  from f(1) x have xs: "http1_exchange hr H sf io q block' declared platform (cs_sink cs) = (Inr response, cs_sink cs')" using f(2) by simp
  note platform = exchange_request(1) [OF xs]
  have "prefix ((w_log (cs_world cs) @ [ConnectionOpened (cx_handle conn) (cl_session c) (target_host target) (target_port target)]) @
      [RequestOpened (rq_handle platform) (cx_handle conn) (encode_utf16 (hq_method q)) (target_object target) None
        (if target_secure target then WINHTTP_FLAG_SECURE else 0)]) (w_log (cs_world cs'))"
    using open_request_log [OF 2] connect_log [OF 1] relax_log [OF 3] drop_log(2) [of w3 conn] f(3)
    by (metis (no_types, lifting) client_state.select_convs(1) client_state.surjective client_state.update_convs(1) prefix_order.trans)
  then show thesis using that [OF parts] platform xs
    by (auto simp: prefix_def requested_def)
qed

lemma http1_exchange_success:
  fixes response :: "('e, 'm) http_response"
  assumes "http1_exchange hr H sf io q block declared platform s = (Inr response, s1)"
  shows "io_send io block (total_length declared) = Inr () \<and>
    write_body (io_write io) (frames_of (hq_body q)) declared s = (Inr () :: 'e RequestError + unit, s1) \<and> io_receive io = Inr () \<and>
    response_head hr H sf io = (Inr (hp_status response, hp_version response, hp_headers response) :: 'e RequestError + _) \<and>
    hp_body response = Native (if may_have_body (utf8 (hq_method q)) (hp_status response)
      then body_new (content_length H (hp_headers response)) else body_empty)"
  using assms by (auto simp: http1_exchange_def try_or_def split: sum.splits prod.splits)

text \<open>
  Property C33. A request over HTTP/1.1, from the target to the response. A response means: the connection was opened to
  the host and port of the target and the request on it for the method, the path and the scheme of the target; the
  head that was sent is the encoded header block, with the length the body announced, or with a line for the chunked
  coding and no length; the bytes written after it are the data of the body, of exactly the announced length, or
  decode to them; the body did not fail; and the response has the status, the version and the fields the platform
  reports, and a body that ends at the declared length, or at once where the method and the status allow none.
\<close>

theorem http1_request_end_to_end:
  fixes response :: "('e, 'm) http_response"
  assumes "\<not> cl_http2 c" "client_request hr api H status_from_u16 io c q cs = (Some (Inr response), cs')"
  shows "\<exists>target block new sent k. decompose (hq_uri q) = (Inr target :: 'e RequestError + Target) \<and>
    encode H (hq_headers q) = (Inr block :: 'e RequestError + u16 list option) \<and>
    w_log (cs_world cs') = w_log (cs_world cs) @ new \<and> requested c target (hq_method q) (hp_request response) new \<and>
    sk_wire (cs_sink cs') = sk_wire (cs_sink cs) @ sent \<and> (\<forall>e. Inl e \<notin> set (frames_of (hq_body q))) \<and>
    (case hq_exact q of
       Some n \<Rightarrow> io_send io block k = Inr () \<and> unat k = n \<and> length sent = n \<and> sent = body_data (frames_of (hq_body q))
     | None \<Rightarrow> io_send io (append_line block (chars ''Transfer-Encoding: chunked'')) 0 = Inr () \<and>
         dechunk sent = Some (body_data (frames_of (hq_body q)))) \<and>
    response_head hr H status_from_u16 io = (Inr (hp_status response, hp_version response, hp_headers response) :: 'e RequestError + _) \<and>
    hp_body response = Native (if may_have_body (utf8 (hq_method q)) (hp_status response)
      then body_new (content_length H (hp_headers response)) else body_empty)"
proof -
  have "http1_request hr api H status_from_u16 io c q cs = (Some (Inr response), cs')"
    using assms by (simp add: client_request_def)
  then obtain target block block' declared new where parts: "decompose (hq_uri q) = (Inr target :: 'e RequestError + Target)"
    "encode H (hq_headers q) = (Inr block :: 'e RequestError + u16 list option)"
    "http1_framing (hq_exact q) block = (Inr (block', declared) :: 'e RequestError + u16 list option \<times> Framing)"
    "w_log (cs_world cs') = w_log (cs_world cs) @ new" "requested c target (hq_method q) (hp_request response) new"
    and x: "http1_exchange hr H status_from_u16 io q block' declared (hp_request response) (cs_sink cs) = (Inr response, cs_sink cs')"
    by (rule http1_success)
  note x = http1_exchange_success [OF x]
  from x obtain sent where sent: "sk_wire (cs_sink cs') = sk_wire (cs_sink cs) @ sent" "\<forall>e. Inl e \<notin> set (frames_of (hq_body q))"
    "case declared of Exact n \<Rightarrow> sent = body_data (frames_of (hq_body q)) \<and> length sent = n
     | Chunked \<Rightarrow> dechunk sent = Some (body_data (frames_of (hq_body q)))" using write_body_sent by blast
  have "case hq_exact q of
       Some n \<Rightarrow> io_send io block (total_length declared) = Inr () \<and> unat (total_length declared) = n \<and> length sent = n \<and>
         sent = body_data (frames_of (hq_body q))
     | None \<Rightarrow> io_send io (append_line block (chars ''Transfer-Encoding: chunked'')) 0 = Inr () \<and>
         dechunk sent = Some (body_data (frames_of (hq_body q)))"
    using parts(3) x sent(3)
    by (auto simp: http1_framing_def total_length_def unat_of_nat split: option.splits if_splits)
  with parts x sent(1,2) show ?thesis by blast
qed

text \<open>A request with two bytes of body to a platform that takes everything.\<close>

definition small_request :: "(unit, (header_name \<times> header_value) list) http_request" where
  "small_request = \<lparr>hq_method = chars ''PUT'', hq_uri = \<lparr>uri_scheme = Some (chars ''http''), uri_host = Some (chars ''h''),
     uri_authority = Some (chars ''h''), uri_port = None, uri_path_and_query = None\<rparr>, hq_headers = [], hq_exact = Some 2,
     hq_body = [Ready (Inr (DataFrame [7, 8]))]\<rparr>"

definition willing :: client_io where
  "willing = \<lparr>io_send = (\<lambda>_ _. Inr ()), io_write = take_all, io_receive = Inr (), io_number = (\<lambda>_. (Inr (), 200)),
     io_query = (\<lambda>_ _ _. (Inr (), 0, [])), io_recv = (\<lambda>_. Some (Inr ())), io_polls = (\<lambda>_. 0), io_fuel = 1\<rparr>"

definition one_session :: wh_prog where
  "one_session = wh_run hr_win32 counting_wh [NewSession [] AutomaticProxy None None] wh_start"

definition its_client :: Client where
  "its_client = \<lparr>cl_session = 1, cl_relaxations = no_relaxations, cl_http2 = False\<rparr>"

definition its_state :: client_state where
  "its_state = \<lparr>cs_world = wp_world one_session, cs_sink = \<lparr>sk_calls = 0, sk_wire = []\<rparr>, cs_chunking = 0\<rparr>"

lemma one_session_ok: "wh_prog_ok one_session" "wp_sessions one_session = [1]"
proof -
  show "wh_prog_ok one_session" unfolding one_session_def by (rule wh_run_ok [OF counting_wh_fresh wh_start_ok])
  show "wp_sessions one_session = [1]"
    by (simp add: one_session_def wh_run_def wh_start_def session_with_proxy_def counting_wh_def next_wh_def Let_def)
qed

lemma small_exchange:
  "\<exists>response s. http1_exchange hr_win32 list_http Some willing small_request block (Exact 2) platform \<lparr>sk_calls = 0, sk_wire = []\<rparr> =
     (Inr response, s)"
  by (simp add: http1_exchange_def willing_def small_request_def write_body_def write_data_def take_all_def MAX_WRITE_def
      response_head_def status_code_def response_status_def winhttp_raw_headers_def query_string_def parse_def)

lemma small_request_answered:
  "\<exists>response cs'. client_request hr_win32 counting_wh list_http Some willing its_client small_request its_state = (Some (Inr response), cs')"
proof -
  have parts: "decompose (hq_uri small_request) = (Inr \<lparr>target_host = encode_utf16 (chars ''h''), target_port = 80,
      target_object = encode_utf16 [47], target_secure = False\<rparr> :: unit RequestError + Target)"
    "encode list_http (hq_headers small_request) = (Inr None :: unit RequestError + u16 list option)"
    "http1_framing (hq_exact small_request) None = (Inr (None, Exact 2) :: unit RequestError + _)"
    by (simp_all add: small_request_def decompose_def chars_def encode_def list_http_def http1_framing_def)
  note defs = attempt_def in_world_def session_connect_def open_request_def open_request_with_def arm_def context_alloc_def
    context_clone_def wh_call_def relax_if_asked_def its_client_def counting_wh_def next_wh_def
    WINHTTP_INVALID_STATUS_CALLBACK_def Let_def its_state_def one_session_def wh_run_def wh_start_def session_with_proxy_def
    emit_def handle_from_raw_def handle_clone_def
  have "\<exists>connection platform cs1. client_request hr_win32 counting_wh list_http Some willing its_client small_request its_state =
      (case http1_exchange hr_win32 list_http Some willing small_request None (Exact 2) platform \<lparr>sk_calls = 0, sk_wire = []\<rparr> of
         (r, s) \<Rightarrow> finish_request connection platform (Some r, s) cs1)"
    by (simp add: client_request_def http1_request_def parts defs) (rule exI, rule exI, rule exI, rule refl)
  then obtain connection platform cs1 where c:
    "client_request hr_win32 counting_wh list_http Some willing its_client small_request its_state =
      (case http1_exchange hr_win32 list_http Some willing small_request None (Exact 2) platform \<lparr>sk_calls = 0, sk_wire = []\<rparr> of
         (r, s) \<Rightarrow> finish_request connection platform (Some r, s) cs1)" by blast
  from small_exchange [of None platform] show ?thesis unfolding c by (auto simp: finish_request_def)
qed

theorem client_request_accounts_witness:
  "\<exists>response cs'. client_request hr_win32 counting_wh list_http Some willing its_client small_request its_state = (Some (Inr response), cs') \<and>
     wh_prog_ok (one_session\<lparr>wp_requests := hp_request response # wp_requests one_session, wp_world := cs_world cs'\<rparr>)"
proof -
  from small_request_answered obtain response cs' where
    r: "client_request hr_win32 counting_wh list_http Some willing its_client small_request its_state = (Some (Inr response), cs')" by blast
  have "cl_session its_client \<in> set (wp_sessions one_session)" "cs_world its_state = wp_world one_session"
    by (simp_all add: its_client_def one_session_ok its_state_def)
  from client_request_accounts [OF counting_wh_fresh one_session_ok(1) this r] r show ?thesis by auto
qed

theorem http1_request_end_to_end_witness:
  "\<exists>response cs'. client_request hr_win32 counting_wh list_http Some willing its_client small_request its_state = (Some (Inr response), cs') \<and>
     sk_wire (cs_sink cs') = [7, 8]"
proof -
  from small_request_answered obtain response cs' where
    r: "client_request hr_win32 counting_wh list_http Some willing its_client small_request its_state = (Some (Inr response), cs')" by blast
  have "\<not> cl_http2 its_client" by (simp add: its_client_def)
  from http1_request_end_to_end [OF this r] r show ?thesis by (auto simp: small_request_def its_state_def)
qed

end
