(* ===== verification/Block_On.thy ===== *)
theory Block_On
  imports Proactor
begin

text \<open>
  \<^verbatim>\<open>Proactor::block_on\<close> of \<^verbatim>\<open>iocp/proactor.rs\<close>: a future is polled, and while it is pending the reactor is turned, with a
  wait of fifty milliseconds. The future is an argument: a step on its own state and on the reactor's, since it may
  submit operations and polls those it awaits. The loop may run forever and has fuel, which counts its turns.
\<close>

section \<open>The loop\<close>

type_synonym ('f, 'a, 't, 'w) reactor_future =
  "'f \<Rightarrow> ('t, 'w) Proactor \<Rightarrow> ('a poll \<times> 'f \<times> ('t, 'w) Proactor) may_panic"

fun block_on ::
  "nat \<Rightarrow> (u32 \<Rightarrow> hresult) \<Rightarrow> (u32 \<Rightarrow> u32) \<Rightarrow> 't OpCode \<Rightarrow> (nat \<Rightarrow> u32 \<Rightarrow> hresult + OVERLAPPED_ENTRY list) \<Rightarrow>
   ('f, 'a, 't, 'w) reactor_future \<Rightarrow> nat \<Rightarrow> 'f \<Rightarrow> ('t, 'w) Proactor \<Rightarrow> ('a option \<times> 'f \<times> ('t, 'w) Proactor) may_panic" where
  "block_on 0 hr rtl C Gqcs fut i f P = Some (None, f, P)"
| "block_on (Suc fuel) hr rtl C Gqcs fut i f P =
     Option.bind (fut f P) (\<lambda>(r, f1, P1).
       case r of
         Ready out \<Rightarrow> Some (Some out, f1, P1)
       | Pending \<Rightarrow>
           Option.bind (proactor_poll hr rtl C (Gqcs i) (Some 50) P1) (\<lambda>(turn, P2).
             case turn of
               Inr _ \<Rightarrow> block_on fuel hr rtl C Gqcs fut (Suc i) f1 P2
             | Inl _ \<Rightarrow>
                 Option.bind (fut f1 P2) (\<lambda>(r, f2, P3).
                   case r of
                     Ready out \<Rightarrow> Some (Some out, f2, P3)
                   | Pending \<Rightarrow> block_on fuel hr rtl C Gqcs fut (Suc i) f2 P3)))"

text \<open>The future of one operation: \<^verbatim>\<open>Submit\<close>, with the waker of \<^verbatim>\<open>block_on\<close>.\<close>

definition await_submit :: "'w \<Rightarrow> nat \<Rightarrow> (Submit, io_result \<times> 't, 't, 'w) reactor_future" where
  "await_submit w a s P =
     (case heap P a of
        None \<Rightarrow> None
      | Some k \<Rightarrow> map_option (\<lambda>(r, s', k'). (r, s', P\<lparr>heap := (heap P)(a \<mapsto> k')\<rparr>)) (submit_poll w s k))"

section \<open>It returns\<close>

text \<open>A poll before the packet leaves the operation awaited.\<close>

lemma await_pending:
  assumes "awaited ext a t P"
  shows "\<exists>P1. await_submit w a submit_pending P = Some (Pending, submit_pending, P1) \<and> awaited ext a t P1"
proof -
  from assms obtain k where P: "proactor_ok ext P" "0 < ext a" "a \<in> live_set P" "heap P a = Some k" "state k = Submitted" "op k = Some t"
    by (auto simp: awaited_def)
  have k: "strong k = refs ext P a" "op_ok True k" using P(1-4) by (auto simp: proactor_ok_def cell_ok_def refs_def dest!: spec [of _ a])
  let ?k = "k\<lparr>waker := Some w\<rparr>" let ?P = "P\<lparr>heap := (heap P)(a \<mapsto> ?k)\<rparr>"
  have "strong k \<noteq> 0" using k(1) P(2) by (simp add: refs_def)
  then have "submit_poll w submit_pending k = Some (Pending, submit_pending, ?k)"
    using P(5) by (simp add: submit_poll_def submit_pending_def set_waker_alive take_completion_def compare_exchange_def)
  moreover have "cell_ok ext ?P b" if "cell_ok ext P b" for b
    using that P(3,4) by (cases "b = a") (auto simp: cell_ok_def refs_def op_ok_def)
  then have "awaited ext a t ?P" using P by (simp add: awaited_def proactor_ok_def)
  ultimately show ?thesis using P(4) by (auto simp: await_submit_def)
qed

text \<open>The packet names the operation in this wait, and does not in that one; a wait that fails names none.\<close>

definition wait_completes :: "(u32 \<Rightarrow> hresult) \<Rightarrow> nat \<Rightarrow> OVERLAPPED_ENTRY \<Rightarrow> (u32 \<Rightarrow> hresult + OVERLAPPED_ENTRY list) \<Rightarrow> bool" where
  "wait_completes hr a e G \<longleftrightarrow>
     (\<exists>xs ys. port_poll hr G (Some 50) = Inr (xs @ e # ys) \<and> lpOverlapped e = a \<and> lpCompletionKey e = KEY_OPERATION \<and>
        a \<notin> set (map lpOverlapped (op_entries xs)))"

lemma block_on_awaited:
  assumes "awaited ext a t P" "wait_completes hr a e (Gqcs (i + m))" "\<forall>j < m. a \<notin> wait_names hr (Gqcs (i + j))"
  shows "\<exists>f P'. block_on (m + 2) hr rtl C Gqcs (await_submit w a) i submit_pending P =
    Some (Some (entry_result hr rtl e, oc_on_complete_with C t (entry_result hr rtl e) (entry_transferred e)), f, P')"
  using assms
proof (induction m arbitrary: i P)
  case 0
  from await_pending [OF 0(1)] obtain P1 where 1: "await_submit w a submit_pending P = Some (Pending, submit_pending, P1)" "awaited ext a t P1"
    by blast
  from 0(2) obtain xs ys where e: "port_poll hr (Gqcs i) (Some 50) = Inr (xs @ e # ys)" "lpOverlapped e = a"
    "lpCompletionKey e = KEY_OPERATION" "a \<notin> set (map lpOverlapped (op_entries xs))" by (auto simp: wait_completes_def)
  from awaited_packet [OF 1(2) e, of rtl C w] 1(1) show ?case by (auto simp: numeral_2_eq_2 await_submit_def)
next
  case (Suc m)
  from await_pending [OF Suc.prems(1)] obtain P1 where
    1: "await_submit w a submit_pending P = Some (Pending, submit_pending, P1)" "awaited ext a t P1" by blast
  have later: "\<exists>f P'. block_on (m + 2) hr rtl C Gqcs (await_submit w a) (Suc i) submit_pending P2 =
      Some (Some (entry_result hr rtl e, oc_on_complete_with C t (entry_result hr rtl e) (entry_transferred e)), f, P')"
    if "awaited ext a t P2" for P2
    using Suc.prems(2,3) by (intro Suc.IH [OF that]) (auto dest: spec [of _ "Suc _"])
  have none: "a \<notin> wait_names hr (Gqcs i)" using Suc.prems(3) by (auto dest: spec [of _ 0])
  show ?case
  proof (cases "port_poll hr (Gqcs i) (Some 50)")
    case (Inl err)
    then have "proactor_poll hr rtl C (Gqcs i) (Some 50) P1 = Some (Inl err, P1)" by (simp add: proactor_poll_def)
    moreover from await_pending [OF 1(2), of w] obtain P2 where
      "await_submit w a submit_pending P1 = Some (Pending, submit_pending, P2)" "awaited ext a t P2" by blast
    ultimately show ?thesis using 1(1) later by simp
  next
    case (Inr es)
    with none have "a \<notin> set (map lpOverlapped (op_entries es))" by (simp add: wait_names_def)
    from awaited_other [OF 1(2) Inr this, of rtl C] obtain n P2 where
      "proactor_poll hr rtl C (Gqcs i) (Some 50) P1 = Some (Inr n, P2)" "awaited ext a t P2" by blast
    then show ?thesis using 1(1) later by simp
  qed
qed

text \<open>
  Property C34. Blocking on an operation returns: an operation that its platform call left pending, waited for with
  \<^verbatim>\<open>block_on\<close>, is returned with the result of its packet and as its completion left it, one turn after the wait that
  brings the packet, whatever other packets arrive before and with it and however many waits fail before it; no turn
  faults. The reactor needs no waker for that: the loop polls again after each turn.
\<close>

theorem block_on_returns:
  assumes "proactor_ok ext P" "refs ext P a = 0" "a \<noteq> 0" "oc_operate C t = (Pending, t')"
    and "wait_completes hr a e (Gqcs m)" "\<forall>j < m. a \<notin> wait_names hr (Gqcs j)"
  shows "\<exists>sub P0 f P'. proactor_submit C a t P = Some (sub, P0) \<and>
    block_on (m + 2) hr rtl C Gqcs (await_submit w a) 0 sub P0 =
      Some (Some (entry_result hr rtl e, oc_on_complete_with C t' (entry_result hr rtl e) (entry_transferred e)), f, P')"
  using submit_awaited [OF assms(1-4)] block_on_awaited [of _ a t' _ hr e Gqcs 0 m] assms(5,6) by fastforce

text \<open>The first wait fails, the second times out, the third brings the packet.\<close>

theorem block_on_returns_witness:
  "\<exists>sub P0 f P'. proactor_submit idle_op 5 0 (proactor_new {}) = Some (sub, P0) \<and>
    block_on 4 hr_win32 id idle_op
      (\<lambda>i _. if i = 0 then Inl 5 else if i = 1 then Inl (hr_win32 WAIT_TIMEOUT_CODE) else Inr [packet_for 5])
      (await_submit () 5) 0 sub P0 = Some (Some (Inr 3, 3), f, P')"
proof -
  let ?G = "\<lambda>i (_ :: u32). if i = 0 then Inl 5 else if i = (1::nat) then Inl (hr_win32 WAIT_TIMEOUT_CODE) else Inr [packet_for 5]"
  have refs: "refs (\<lambda>_. 0) (proactor_new {} :: (nat, unit) Proactor) 5 = 0" by (simp add: refs_def proactor_new_def)
  have op: "oc_operate idle_op 0 = (Pending, 0)" by (simp add: idle_op_def)
  have e: "wait_completes hr_win32 5 (packet_for 5) (?G 2)"
    by (auto simp: wait_completes_def port_poll_def packet_for_def op_entries_def intro!: exI [of _ "[]"])
  have before: "\<forall>j < 2. 5 \<notin> wait_names hr_win32 (?G j)"
    by (auto simp: wait_names_def port_poll_def op_entries_def less_2_cases_iff)
  have r: "entry_result hr_win32 id (packet_for 5) = Inr 3" "entry_transferred (packet_for 5) = 3"
    "oc_on_complete_with idle_op 0 (Inr 3) 3 = 3"
    by (simp_all add: entry_result_def entry_transferred_def packet_for_def idle_op_def)
  show ?thesis
    using block_on_returns [where Gqcs = ?G and rtl = id and w = "()", OF proactor_new_ok refs _ op e before] by (simp add: r)
qed

end
