(* ===== verification/Httpsys_Server.thy ===== *)
theory Httpsys_Server
  imports Resource_Log Http_Errors Httpsys_Queue
begin

text \<open>
  The life of a server: \<^verbatim>\<open>httpsys/init.rs\<close>, \<^verbatim>\<open>httpsys/session.rs\<close>, the opening, binding and closing of a queue in
  \<^verbatim>\<open>httpsys/queue.rs\<close>, and the builder, the session and the shutdown of util \<^verbatim>\<open>server/mod.rs\<close>. Every call is an event of
  the log; the platform's answers are arguments.

  A queue is shared by the server, its shutdown handles and the requests in progress, and closed by any of them. An
  operation takes a clone of the queue's handle in one access to the lock and is submitted in another, so a close may
  come between the two; both accesses are steps of the program below.
\<close>

section \<open>Calls and resources\<close>

datatype hs_ev =
    ApiInitialized nat | ApiTerminated nat
  | SessionCreated nat | SessionClosed nat
  | GroupCall nat | GroupCreated nat | GroupClosed nat | UrlAdded nat "u16 list" | BindingSet nat
  | QueueCreated nat | QueueClosed nat | QueueRegistered nat | QueueBound nat | QueueCancelled nat | QueueCall nat

text \<open>The four kinds of resources in one numbering.\<close>

definition api_key :: "nat \<Rightarrow> nat" where "api_key k = 4 * k"
definition session_key :: "nat \<Rightarrow> nat" where "session_key s = 4 * s + 1"
definition group_key :: "nat \<Rightarrow> nat" where "group_key g = 4 * g + 2"
definition queue_key :: "nat \<Rightarrow> nat" where "queue_key q = 4 * q + 3"

lemmas key_defs = api_key_def session_key_def group_key_def queue_key_def

definition INVALID_QUEUE :: "nat \<Rightarrow> bool" where
  "INVALID_QUEUE q \<longleftrightarrow> q = 0 \<or> q = 2 ^ 64 - 1"

definition invalid_key :: "nat \<Rightarrow> bool" where
  "invalid_key h \<longleftrightarrow> h mod 4 = 3 \<and> INVALID_QUEUE (h div 4)"

fun hs_opens :: "hs_ev \<Rightarrow> nat option" where
  "hs_opens (ApiInitialized k) = Some (api_key k)"
| "hs_opens (SessionCreated s) = Some (session_key s)"
| "hs_opens (GroupCreated g) = Some (group_key g)"
| "hs_opens (QueueCreated q) = Some (queue_key q)"
| "hs_opens _ = None"

fun hs_closes :: "hs_ev \<Rightarrow> nat option" where
  "hs_closes (ApiTerminated k) = Some (api_key k)"
| "hs_closes (SessionClosed s) = Some (session_key s)"
| "hs_closes (GroupClosed g) = Some (group_key g)"
| "hs_closes (QueueClosed q) = Some (queue_key q)"
| "hs_closes _ = None"

fun hs_uses :: "hs_ev \<Rightarrow> nat option" where
  "hs_uses (GroupCall s) = Some (session_key s)"
| "hs_uses (UrlAdded g _) = Some (group_key g)"
| "hs_uses (BindingSet g) = Some (group_key g)"
| "hs_uses (QueueRegistered q) = Some (queue_key q)"
| "hs_uses (QueueBound q) = Some (queue_key q)"
| "hs_uses (QueueCancelled q) = Some (queue_key q)"
| "hs_uses (QueueCall q) = Some (queue_key q)"
| "hs_uses _ = None"

definition hs_close :: "nat \<Rightarrow> hs_ev" where
  "hs_close h =
     (if h mod 4 = 0 then ApiTerminated (h div 4)
      else if h mod 4 = 1 then SessionClosed (h div 4)
      else if h mod 4 = 2 then GroupClosed (h div 4)
      else QueueClosed (h div 4))"

interpretation hsl: handle_use_log hs_opens hs_closes hs_close invalid_key hs_uses
proof unfold_locales
  fix h :: nat
  have "api_key (h div 4) = h" if "h mod 4 = 0" using that unfolding api_key_def by presburger
  moreover have "session_key (h div 4) = h" if "h mod 4 = 1" using that unfolding session_key_def by presburger
  moreover have "group_key (h div 4) = h" if "h mod 4 = 2" using that unfolding group_key_def by presburger
  moreover have "queue_key (h div 4) = h" if "h mod 4 \<noteq> 0" "h mod 4 \<noteq> 1" "h mod 4 \<noteq> 2"
    using that unfolding queue_key_def by presburger
  ultimately show "hs_closes (hs_close h) = Some h" by (simp add: hs_close_def)
  show "hs_opens e = Some h \<Longrightarrow> hs_uses e = None" for e by (cases e) simp_all
qed (simp_all add: hs_close_def)

abbreviation hs_drop :: "nat \<Rightarrow> hs_ev world \<Rightarrow> hs_ev world" where
  "hs_drop \<equiv> handle_drop invalid_key hs_close"

record hs_api =
  ha_init :: "hs_ev list \<Rightarrow> u32 \<times> nat"
  ha_session :: "hs_ev list \<Rightarrow> u32 \<times> nat"
  ha_group :: "hs_ev list \<Rightarrow> nat \<Rightarrow> u32 \<times> nat"
  ha_add_url :: "hs_ev list \<Rightarrow> nat \<Rightarrow> u16 list \<Rightarrow> u32"
  ha_queue :: "hs_ev list \<Rightarrow> u32 \<times> nat"
  ha_register :: "hs_ev list \<Rightarrow> nat \<Rightarrow> RegistrationError + unit"
  ha_bind :: "hs_ev list \<Rightarrow> nat \<Rightarrow> nat \<Rightarrow> u32"
  ha_close :: "hs_ev list \<Rightarrow> nat \<Rightarrow> u32"
  ha_trailers :: bool

section \<open>Initialisation, sessions, groups\<close>

text \<open>A call that creates a resource: its code, and on success the number of the resource.\<close>

definition created :: "(u32 \<Rightarrow> hresult) \<Rightarrow> u32 \<times> nat \<Rightarrow> (nat \<Rightarrow> hs_ev) \<Rightarrow> (nat \<Rightarrow> nat) \<Rightarrow> hs_ev world \<Rightarrow> (hresult + nat) \<times> hs_ev world" where
  "created hr answer event key w =
     (case check hr (fst answer) of
        Inl e \<Rightarrow> (Inl e, w)
      | Inr _ \<Rightarrow> (Inr (snd answer), handle_from_raw (key (snd answer)) (emit (event (snd answer)) w)))"

definition initializer_new :: "(u32 \<Rightarrow> hresult) \<Rightarrow> hs_api \<Rightarrow> hs_ev world \<Rightarrow> (hresult + nat) \<times> hs_ev world" where
  "initializer_new hr api w = created hr (ha_init api (w_log w)) ApiInitialized api_key w"

definition initializer_drop :: "nat \<Rightarrow> hs_ev world \<Rightarrow> hs_ev world" where
  "initializer_drop k w = hs_drop (api_key k) w"

definition platform_session_new :: "(u32 \<Rightarrow> hresult) \<Rightarrow> hs_api \<Rightarrow> hs_ev world \<Rightarrow> (hresult + nat) \<times> hs_ev world" where
  "platform_session_new hr api w = created hr (ha_session api (w_log w)) SessionCreated session_key w"

definition platform_session_drop :: "nat \<Rightarrow> hs_ev world \<Rightarrow> hs_ev world" where
  "platform_session_drop s w = hs_drop (session_key s) w"

definition url_group_new :: "(u32 \<Rightarrow> hresult) \<Rightarrow> hs_api \<Rightarrow> nat \<Rightarrow> hs_ev world \<Rightarrow> (hresult + nat) \<times> hs_ev world" where
  "url_group_new hr api s w =
     (let w = emit (GroupCall s) w in created hr (ha_group api (w_log w) s) GroupCreated group_key w)"

definition add_url :: "(u32 \<Rightarrow> hresult) \<Rightarrow> hs_api \<Rightarrow> nat \<Rightarrow> u16 list \<Rightarrow> hs_ev world \<Rightarrow> (hresult + unit) \<times> hs_ev world" where
  "add_url hr api g url w = (check hr (ha_add_url api (w_log w) g url), emit (UrlAdded g url) w)"

definition url_group_drop :: "nat \<Rightarrow> hs_ev world \<Rightarrow> hs_ev world" where
  "url_group_drop g w = hs_drop (group_key g) w"

text \<open>The server's session: its fields are dropped in order, the session before the initialisation.\<close>

record ServerSession =
  ss_inner :: nat
  ss_initializer :: nat

definition server_session_new :: "(u32 \<Rightarrow> hresult) \<Rightarrow> hs_api \<Rightarrow> hs_ev world \<Rightarrow> (PlatformError + ServerSession) \<times> hs_ev world" where
  "server_session_new hr api w =
     try_or (initializer_new hr api w) (\<lambda>e w. (Inl (PlatformError OpInitialize e), w)) (\<lambda>k w.
     try_or (platform_session_new hr api w) (\<lambda>e w. (Inl (PlatformError OpCreateSession e), initializer_drop k w)) (\<lambda>s w.
       (Inr \<lparr>ss_inner = s, ss_initializer = k\<rparr>, w)))"

definition server_session_drop :: "ServerSession \<Rightarrow> hs_ev world \<Rightarrow> hs_ev world" where
  "server_session_drop s w = initializer_drop (ss_initializer s) (platform_session_drop (ss_inner s) w)"

section \<open>Queues\<close>

text \<open>\<^verbatim>\<open>RequestQueue\<close> in its \<^verbatim>\<open>Arc\<close>: the handle, whether it is still there, and how many hold the queue.\<close>

record RequestQueue =
  qu_raw :: nat
  qu_open :: bool
  qu_holders :: nat

definition queue_with_config :: "(u32 \<Rightarrow> hresult) \<Rightarrow> hs_api \<Rightarrow> hs_ev world \<Rightarrow> (hresult + RequestQueue) \<times> hs_ev world" where
  "queue_with_config hr api w =
     try_or (created hr (ha_queue api (w_log w)) QueueCreated queue_key w) (\<lambda>e w. (Inl e, w)) (\<lambda>q w.
       case ha_register api (w_log w) q of
         Inl e \<Rightarrow> (Inl (as_error e), hs_drop (queue_key q) (emit (QueueRegistered q) w))
       | Inr _ \<Rightarrow> (Inr \<lparr>qu_raw = q, qu_open = True, qu_holders = 1\<rparr>, emit (QueueRegistered q) w))"

text \<open>
  \<^verbatim>\<open>close\<close> takes the open handle out of the lock, cancels what is in flight, and gives the handle up: it is closed then,
  or by the last operation that still has a clone.
\<close>

definition release_clone :: "(u32 \<Rightarrow> hresult) \<Rightarrow> hs_api \<Rightarrow> nat \<Rightarrow> hs_ev world \<Rightarrow> (hresult + unit) \<times> hs_ev world" where
  "release_clone hr api h w =
     (if w_refs w (queue_key h) \<le> 1 \<and> \<not> INVALID_QUEUE h then check hr (ha_close api (w_log w) h) else Inr (),
      hs_drop (queue_key h) w)"

definition queue_close ::
  "(u32 \<Rightarrow> hresult) \<Rightarrow> hs_api \<Rightarrow> RequestQueue \<Rightarrow> hs_ev world \<Rightarrow> (hresult + unit) \<times> RequestQueue \<times> hs_ev world" where
  "queue_close hr api q w =
     (if qu_open q
      then case release_clone hr api (qu_raw q) (emit (QueueCancelled (qu_raw q)) w) of
          (r, w) \<Rightarrow> (r, q\<lparr>qu_open := False\<rparr>, w)
      else (Inr (), q, w))"

definition server_shutdown ::
  "(u32 \<Rightarrow> hresult) \<Rightarrow> hs_api \<Rightarrow> RequestQueue \<Rightarrow> hs_ev world \<Rightarrow> (PlatformError + unit) \<times> RequestQueue \<times> hs_ev world" where
  "server_shutdown hr api q w =
     (case queue_close hr api q w of (r, qw) \<Rightarrow> (map_sum (PlatformError OpShutdown) id r, qw))"

text \<open>Dropping one holder; the last one drops the queue, which closes it and ignores the result.\<close>

definition queue_arc_drop :: "(u32 \<Rightarrow> hresult) \<Rightarrow> hs_api \<Rightarrow> RequestQueue \<Rightarrow> hs_ev world \<Rightarrow> RequestQueue \<times> hs_ev world" where
  "queue_arc_drop hr api q w =
     (let q1 = q\<lparr>qu_holders := qu_holders q - 1\<rparr>
      in if qu_holders q = 1 then snd (queue_close hr api q1 w) else (q1, w))"

definition queue_arc_clone :: "RequestQueue \<Rightarrow> RequestQueue" where
  "queue_arc_clone q = q\<lparr>qu_holders := qu_holders q + 1\<rparr>"

definition with_open :: "(u32 \<Rightarrow> hresult) \<Rightarrow> RequestQueue \<Rightarrow> hs_ev world \<Rightarrow> (hresult + nat) \<times> hs_ev world" where
  "with_open hr q w =
     (if qu_open q then (Inr (qu_raw q), handle_clone (queue_key (qu_raw q)) w) else (Inl (E_CLOSED hr), w))"

text \<open>\<^verbatim>\<open>submit\<close> with an operation that owns a clone: the platform call, or the operation back, here dropped by its caller.\<close>

definition queue_submit :: "(u32 \<Rightarrow> hresult) \<Rightarrow> RequestQueue \<Rightarrow> nat \<Rightarrow> hs_ev world \<Rightarrow> (hresult + nat) \<times> hs_ev world" where
  "queue_submit hr q h w =
     (if qu_open q then (Inr h, emit (QueueCall h) w) else (Inl (E_CLOSED hr), hs_drop (queue_key h) w))"

text \<open>One call that names the queue and the group: an event for each.\<close>

definition bind_url_group :: "(u32 \<Rightarrow> hresult) \<Rightarrow> hs_api \<Rightarrow> RequestQueue \<Rightarrow> nat \<Rightarrow> hs_ev world \<Rightarrow> (hresult + unit) \<times> hs_ev world" where
  "bind_url_group hr api q g w =
     try_or (with_open hr q w) (\<lambda>e w. (Inl e, w)) (\<lambda>h w.
       (check hr (ha_bind api (w_log w) g h), hs_drop (queue_key h) (emit (BindingSet g) (emit (QueueBound h) w))))"

section \<open>Servers\<close>

record Server =
  sv_group :: nat
  sv_session :: ServerSession
  sv_queue :: nat
  sv_trailers :: bool

fun add_urls :: "(u32 \<Rightarrow> hresult) \<Rightarrow> hs_api \<Rightarrow> nat \<Rightarrow> u16 list list \<Rightarrow> hs_ev world \<Rightarrow> (hresult + unit) \<times> hs_ev world" where
  "add_urls hr api g [] w = (Inr (), w)"
| "add_urls hr api g (url # urls) w = try_or (add_url hr api g url w) (\<lambda>e w. (Inl e, w)) (\<lambda>_ w. add_urls hr api g urls w)"

text \<open>\<^verbatim>\<open>build\<close>, with the drops of each early return; the queue is the result beside the group.\<close>

definition server_build ::
  "(u32 \<Rightarrow> hresult) \<Rightarrow> hs_api \<Rightarrow> ServerSession \<Rightarrow> u16 list list \<Rightarrow> hs_ev world \<Rightarrow>
   (PlatformError + nat \<times> RequestQueue) \<times> hs_ev world" where
  "server_build hr api s urls w =
     try_or (url_group_new hr api (ss_inner s) w) (\<lambda>e w. (Inl (PlatformError OpCreateUrlGroup e), w)) (\<lambda>g w.
     try_or (add_urls hr api g urls w) (\<lambda>e w. (Inl (PlatformError OpAddUrl e), url_group_drop g w)) (\<lambda>_ w.
     try_or (queue_with_config hr api w) (\<lambda>e w. (Inl (PlatformError OpCreateQueue e), url_group_drop g w)) (\<lambda>q w.
     try_or (bind_url_group hr api q g w)
       (\<lambda>e w. (Inl (PlatformError OpBindUrlGroup e), url_group_drop g (snd (snd (queue_close hr api q w))))) (\<lambda>_ w.
       (Inr (g, q), w)))))"

section \<open>Programs\<close>

text \<open>
  What a program holds: sessions, servers, the queues ever created, the shutdown handles and requests that hold one of
  them (by its index), the handles taken for an operation that is not yet submitted, with their queue, and those of
  operations in flight.
\<close>

record hs_prog =
  hp_sessions :: "ServerSession list"
  hp_servers :: "Server list"
  hp_queues :: "RequestQueue list"
  hp_holds :: "nat list"
  hp_taken :: "(nat \<times> nat) list"
  hp_flight :: "nat list"
  hp_world :: "hs_ev world"

datatype hs_act =
    OpenSession | BuildServer nat "u16 list list" | HoldQueue nat | ReleaseQueue nat | Shutdown nat
  | TakeHandle nat | SubmitTaken nat | OpDone nat | DropServer nat | DropServerSession nat

definition queue_held :: "hs_prog \<Rightarrow> nat \<Rightarrow> bool" where
  "queue_held p i \<longleftrightarrow> i < length (hp_queues p) \<and> 0 < qu_holders (hp_queues p ! i)"

definition set_queue :: "nat \<Rightarrow> RequestQueue \<times> hs_ev world \<Rightarrow> hs_prog \<Rightarrow> hs_prog" where
  "set_queue i qw p = p\<lparr>hp_queues := (hp_queues p)[i := fst qw], hp_world := snd qw\<rparr>"

text \<open>A queue is used by someone who holds it, and a session is dropped when no server borrows it any more.\<close>

fun hs_do :: "(u32 \<Rightarrow> hresult) \<Rightarrow> hs_api \<Rightarrow> hs_act \<Rightarrow> hs_prog \<Rightarrow> hs_prog" where
  "hs_do hr api OpenSession p =
     (case server_session_new hr api (hp_world p) of
        (Inl _, w) \<Rightarrow> p\<lparr>hp_world := w\<rparr>
      | (Inr s, w) \<Rightarrow> p\<lparr>hp_sessions := s # hp_sessions p, hp_world := w\<rparr>)"
| "hs_do hr api (BuildServer i urls) p =
     (if i < length (hp_sessions p)
      then case server_build hr api (hp_sessions p ! i) urls (hp_world p) of
          (Inl _, w) \<Rightarrow> p\<lparr>hp_world := w\<rparr>
        | (Inr (g, q), w) \<Rightarrow>
            p\<lparr>hp_servers := \<lparr>sv_group = g, sv_session = hp_sessions p ! i, sv_queue = length (hp_queues p),
                sv_trailers = ha_trailers api\<rparr> # hp_servers p,
              hp_queues := hp_queues p @ [q], hp_world := w\<rparr>
      else p)"
| "hs_do hr api (HoldQueue i) p =
     (if queue_held p i
      then set_queue i (queue_arc_clone (hp_queues p ! i), hp_world p) (p\<lparr>hp_holds := i # hp_holds p\<rparr>) else p)"
| "hs_do hr api (ReleaseQueue j) p =
     (if j < length (hp_holds p)
      then set_queue (hp_holds p ! j) (queue_arc_drop hr api (hp_queues p ! (hp_holds p ! j)) (hp_world p))
             (p\<lparr>hp_holds := remove_at j (hp_holds p)\<rparr>)
      else p)"
| "hs_do hr api (Shutdown i) p =
     (if queue_held p i then set_queue i (snd (server_shutdown hr api (hp_queues p ! i) (hp_world p))) p else p)"
| "hs_do hr api (TakeHandle i) p =
     (if queue_held p i
      then case with_open hr (hp_queues p ! i) (hp_world p) of
          (Inl _, w) \<Rightarrow> p\<lparr>hp_world := w\<rparr>
        | (Inr h, w) \<Rightarrow> p\<lparr>hp_taken := (i, h) # hp_taken p, hp_world := w\<rparr>
      else p)"
| "hs_do hr api (SubmitTaken j) p =
     (if j < length (hp_taken p)
      then case queue_submit hr (hp_queues p ! fst (hp_taken p ! j)) (snd (hp_taken p ! j)) (hp_world p) of
          (Inl _, w) \<Rightarrow> p\<lparr>hp_taken := remove_at j (hp_taken p), hp_world := w\<rparr>
        | (Inr h, w) \<Rightarrow> p\<lparr>hp_taken := remove_at j (hp_taken p), hp_flight := h # hp_flight p, hp_world := w\<rparr>
      else p)"
| "hs_do hr api (OpDone j) p =
     (if j < length (hp_flight p)
      then p\<lparr>hp_flight := remove_at j (hp_flight p), hp_world := hs_drop (queue_key (hp_flight p ! j)) (hp_world p)\<rparr> else p)"
| "hs_do hr api (DropServer i) p =
     (if i < length (hp_servers p)
      then let sv = hp_servers p ! i in
        set_queue (sv_queue sv) (queue_arc_drop hr api (hp_queues p ! sv_queue sv) (url_group_drop (sv_group sv) (hp_world p)))
          (p\<lparr>hp_servers := remove_at i (hp_servers p)\<rparr>)
      else p)"
| "hs_do hr api (DropServerSession i) p =
     (if i < length (hp_sessions p) \<and> (\<forall>sv \<in> set (hp_servers p). sv_session sv \<noteq> hp_sessions p ! i)
      then p\<lparr>hp_sessions := remove_at i (hp_sessions p), hp_world := server_session_drop (hp_sessions p ! i) (hp_world p)\<rparr> else p)"

definition hs_run :: "(u32 \<Rightarrow> hresult) \<Rightarrow> hs_api \<Rightarrow> hs_act list \<Rightarrow> hs_prog \<Rightarrow> hs_prog" where
  "hs_run hr api acts p = fold (hs_do hr api) acts p"

definition hs_start :: hs_prog where
  "hs_start = \<lparr>hp_sessions = [], hp_servers = [], hp_queues = [], hp_holds = [], hp_taken = [], hp_flight = [],
     hp_world = \<lparr>w_log = [], w_refs = (\<lambda>_. 0)\<rparr>\<rparr>"

section \<open>Who owns what\<close>

definition session_keys :: "ServerSession \<Rightarrow> nat multiset" where
  "session_keys s = {#session_key (ss_inner s), api_key (ss_initializer s)#}"

definition open_key :: "RequestQueue \<Rightarrow> nat multiset" where
  "open_key q = (if qu_open q then {#queue_key (qu_raw q)#} else {#})"

definition hs_owners :: "hs_prog \<Rightarrow> nat multiset" where
  "hs_owners p =
     sum_list (map session_keys (hp_sessions p)) + mset (map (group_key \<circ> sv_group) (hp_servers p))
     + sum_list (map open_key (hp_queues p)) + mset (map (queue_key \<circ> snd) (hp_taken p)) + mset (map queue_key (hp_flight p))"

text \<open>
  What the platform promises: a call that succeeds creates a resource that is not open already, and a queue's handle is
  not one of the invalid values.
\<close>

definition fresh_httpsys :: "hs_api \<Rightarrow> bool" where
  "fresh_httpsys api \<longleftrightarrow>
     (\<forall>log H. open_after hs_opens hs_closes log = Some H \<longrightarrow>
        (fst (ha_init api log) = 0 \<longrightarrow> api_key (snd (ha_init api log)) \<notin> H)
        \<and> (fst (ha_session api log) = 0 \<longrightarrow> session_key (snd (ha_session api log)) \<notin> H)
        \<and> (\<forall>s. fst (ha_group api log s) = 0 \<longrightarrow> group_key (snd (ha_group api log s)) \<notin> H)
        \<and> (fst (ha_queue api log) = 0 \<longrightarrow>
             queue_key (snd (ha_queue api log)) \<notin> H \<and> \<not> INVALID_QUEUE (snd (ha_queue api log))))"

definition holders_ok :: "hs_prog \<Rightarrow> bool" where
  "holders_ok p \<longleftrightarrow>
     (\<forall>sv \<in> set (hp_servers p). sv_session sv \<in> set (hp_sessions p))
     \<and> (\<forall>i \<in> set (map sv_queue (hp_servers p) @ hp_holds p @ map fst (hp_taken p)). i < length (hp_queues p))
     \<and> (\<forall>i < length (hp_queues p).
          qu_holders (hp_queues p ! i) = count_list (map sv_queue (hp_servers p) @ hp_holds p) i
          \<and> (qu_open (hp_queues p ! i) \<longrightarrow> 0 < qu_holders (hp_queues p ! i)))"

definition hs_ok :: "hs_prog \<Rightarrow> bool" where
  "hs_ok p \<longleftrightarrow> hsl.owns (hp_world p) (hs_owners p) \<and> holders_ok p"

lemma keys_valid [simp]:
  "\<not> invalid_key (api_key k)" "\<not> invalid_key (session_key s)" "\<not> invalid_key (group_key g)"
  "invalid_key (queue_key q) = INVALID_QUEUE q"
  by (simp_all add: invalid_key_def key_defs) (presburger | simp)+

lemma created_grants:
  assumes w: "hsl.owns w M" and ev: "\<And>h. hs_opens (event h) = Some (key h)"
    and fresh: "fst answer = 0 \<Longrightarrow> key (snd answer) \<notin># M \<and> \<not> invalid_key (key (snd answer))"
  shows "hsl.grants M (created hr answer event key w) (\<lambda>h. {#key h#})"
  using assms hsl.owns_open [OF w ev] by (auto simp: created_def check_def)

lemma fresh_owned:
  assumes "fresh_httpsys api" "hsl.owns w M"
  shows "fst (ha_init api (w_log w)) = 0 \<Longrightarrow> api_key (snd (ha_init api (w_log w))) \<notin># M"
    "fst (ha_session api (w_log w)) = 0 \<Longrightarrow> session_key (snd (ha_session api (w_log w))) \<notin># M"
    "fst (ha_group api (w_log w) s) = 0 \<Longrightarrow> group_key (snd (ha_group api (w_log w) s)) \<notin># M"
    "fst (ha_queue api (w_log w)) = 0 \<Longrightarrow>
       queue_key (snd (ha_queue api (w_log w))) \<notin># M \<and> \<not> INVALID_QUEUE (snd (ha_queue api (w_log w)))"
  using assms(1) hsl.owns_opened [OF assms(2)] unfolding fresh_httpsys_def by blast+

section \<open>The operations keep the account\<close>

lemma initializer_grants:
  "fresh_httpsys api \<Longrightarrow> hsl.owns w M \<Longrightarrow> hsl.grants M (initializer_new hr api w) (\<lambda>k. {#api_key k#})"
  unfolding initializer_new_def by (rule created_grants) (auto dest: fresh_owned)

lemma platform_session_grants:
  "fresh_httpsys api \<Longrightarrow> hsl.owns w M \<Longrightarrow> hsl.grants M (platform_session_new hr api w) (\<lambda>s. {#session_key s#})"
  unfolding platform_session_new_def by (rule created_grants) (auto dest: fresh_owned)

lemma url_group_grants:
  assumes "fresh_httpsys api" "hsl.owns w M" "session_key s \<in># M"
  shows "hsl.grants M (url_group_new hr api s w) (\<lambda>g. {#group_key g#})"
proof -
  have "hsl.owns (emit (GroupCall s) w) M" using assms by (intro hsl.owns_use) auto
  then show ?thesis
    unfolding url_group_new_def Let_def using assms(1) by (intro created_grants) (auto dest: fresh_owned)
qed

lemma server_session_grants:
  assumes "fresh_httpsys api" "hsl.owns w M"
  shows "hsl.grants M (server_session_new hr api w) session_keys"
  unfolding server_session_new_def
proof (rule hsl.grants_try_or [OF initializer_grants [OF assms]])
  fix k and v :: "hs_ev world" assume v: "hsl.owns v ({#api_key k#} + M)"
  show "hsl.grants M (try_or (platform_session_new hr api v)
      (\<lambda>e w. (Inl (PlatformError OpCreateSession e), initializer_drop k w))
      (\<lambda>s w. (Inr \<lparr>ss_inner = s, ss_initializer = k\<rparr>, w))) session_keys"
    by (rule hsl.grants_try_or [OF platform_session_grants [OF assms(1) v]])
       (auto simp: initializer_drop_def session_keys_def add_mset_commute intro: hsl.owns_drop)
qed simp

lemma server_session_drop_owns:
  "hsl.owns w (session_keys s + M) \<Longrightarrow> hsl.owns (server_session_drop s w) M"
  by (auto simp: server_session_drop_def initializer_drop_def platform_session_drop_def session_keys_def
      intro!: hsl.owns_drop)

lemma queue_grants:
  assumes "fresh_httpsys api" "hsl.owns w M"
  shows "hsl.grants M (queue_with_config hr api w) open_key"
  unfolding queue_with_config_def
proof (rule hsl.grants_try_or [where M = M and f = "\<lambda>q. {#queue_key q#}"])
  show "hsl.grants M (created hr (ha_queue api (w_log w)) QueueCreated queue_key w) (\<lambda>q. {#queue_key q#})"
    using assms by (intro created_grants) (auto dest: fresh_owned)
  fix q and v :: "hs_ev world" assume "hsl.owns v ({#queue_key q#} + M)"
  then have "hsl.owns (emit (QueueRegistered q) v) (add_mset (queue_key q) M)" by (intro hsl.owns_use) auto
  then show "hsl.grants M (case ha_register api (w_log v) q of
      Inl e \<Rightarrow> (Inl (as_error e), hs_drop (queue_key q) (emit (QueueRegistered q) v))
    | Inr _ \<Rightarrow> (Inr \<lparr>qu_raw = q, qu_open = True, qu_holders = 1\<rparr>, emit (QueueRegistered q) v)) open_key"
    by (auto simp: open_key_def intro: hsl.owns_drop split: sum.splits)
qed simp

lemma queue_with_config_new:
  "queue_with_config hr api w = (Inr q, w') \<Longrightarrow> qu_open q \<and> qu_holders q = 1"
  by (auto simp: queue_with_config_def try_or_def split: prod.splits sum.splits)

lemma queue_close_owns:
  assumes "queue_close hr api q w = (r, q', w')" "hsl.owns w (open_key q + M)"
  shows "hsl.owns w' M" "\<not> qu_open q'" "qu_holders q' = qu_holders q" "open_key q' = {#}"
proof -
  have "hsl.owns w' M \<and> \<not> qu_open q' \<and> qu_holders q' = qu_holders q"
  proof (cases "qu_open q")
    case True
    with assms(2) have "hsl.owns (emit (QueueCancelled (qu_raw q)) w) (add_mset (queue_key (qu_raw q)) M)"
      by (intro hsl.owns_use) (auto simp: open_key_def)
    from hsl.owns_drop [OF this] True assms(1) show ?thesis by (auto simp: queue_close_def release_clone_def)
  qed (use assms in \<open>auto simp: queue_close_def open_key_def\<close>)
  then show "hsl.owns w' M" "\<not> qu_open q'" "qu_holders q' = qu_holders q" "open_key q' = {#}"
    by (simp_all add: open_key_def)
qed

lemma queue_arc_drop_owns:
  assumes "queue_arc_drop hr api q w = (q', w')" "hsl.owns w (open_key q + M)"
  shows "hsl.owns w' (open_key q' + M)" "qu_holders q' = qu_holders q - 1"
    "qu_open q' \<Longrightarrow> qu_open q \<and> qu_holders q \<noteq> 1"
proof -
  let ?q = "q\<lparr>qu_holders := qu_holders q - 1\<rparr>"
  have key: "open_key ?q = open_key q" by (simp add: open_key_def)
  have "hsl.owns w' (open_key q' + M) \<and> qu_holders q' = qu_holders q - 1 \<and> (qu_open q' \<longrightarrow> qu_open q \<and> qu_holders q \<noteq> 1)"
  proof (cases "qu_holders q = 1")
    case True
    obtain r a b where c: "queue_close hr api ?q w = (r, a, b)" by (metis prod_cases3)
    from queue_close_owns [OF c, of M] assms True c key show ?thesis by (auto simp: queue_arc_drop_def Let_def)
  qed (use assms key in \<open>auto simp: queue_arc_drop_def Let_def\<close>)
  then show "hsl.owns w' (open_key q' + M)" "qu_holders q' = qu_holders q - 1"
    "qu_open q' \<Longrightarrow> qu_open q \<and> qu_holders q \<noteq> 1" by auto
qed

lemma with_open_grants:
  "hsl.owns w M \<Longrightarrow> open_key q \<subseteq># M \<Longrightarrow> hsl.grants M (with_open hr q w) (\<lambda>h. {#queue_key h#})"
  by (auto simp: with_open_def open_key_def intro: hsl.owns_clone)

lemma queue_submit_grants:
  "hsl.owns w (add_mset (queue_key h) M) \<Longrightarrow> hsl.grants M (queue_submit hr q h w) (\<lambda>h. {#queue_key h#})"
  by (auto simp: queue_submit_def intro: hsl.owns_drop hsl.owns_use)

lemma bind_url_group_grants:
  assumes "hsl.owns w M" "open_key q \<subseteq># M" "group_key g \<in># M"
  shows "hsl.grants M (bind_url_group hr api q g w) (\<lambda>_. {#})"
  unfolding bind_url_group_def
proof (rule hsl.grants_try_or [OF with_open_grants [OF assms(1,2)]])
  fix h and v :: "hs_ev world" assume "hsl.owns v ({#queue_key h#} + M)"
  with assms(3) have "hsl.owns (emit (BindingSet g) (emit (QueueBound h) v)) (add_mset (queue_key h) M)"
    by (auto intro!: hsl.owns_use)
  from hsl.owns_drop [OF this]
  show "hsl.grants M (check hr (ha_bind api (w_log v) g h),
      hs_drop (queue_key h) (emit (BindingSet g) (emit (QueueBound h) v))) (\<lambda>_. {#})"
    by (simp add: check_def)
qed simp

lemma add_urls_grants:
  "hsl.owns w M \<Longrightarrow> group_key g \<in># M \<Longrightarrow> hsl.grants M (add_urls hr api g urls w) (\<lambda>_. {#})"
proof (induction urls arbitrary: w)
  case (Cons url urls)
  then have "hsl.owns (emit (UrlAdded g url) w) M" by (auto intro!: hsl.owns_use)
  then have "hsl.grants M (add_url hr api g url w) (\<lambda>_. {#})" by (simp add: add_url_def check_def)
  then show ?case unfolding add_urls.simps by (rule hsl.grants_try_or) (use Cons in simp_all)
qed simp

lemma url_group_drop_owns: "hsl.owns w (add_mset (group_key g) M) \<Longrightarrow> hsl.owns (url_group_drop g w) M"
  by (simp add: url_group_drop_def hsl.owns_drop)

lemma server_build_grants:
  assumes "fresh_httpsys api" "hsl.owns w M" "session_key (ss_inner s) \<in># M"
  shows "hsl.grants M (server_build hr api s urls w) (\<lambda>(g, q). add_mset (group_key g) (open_key q))"
  unfolding server_build_def
proof (intro hsl.grants_try_or [OF url_group_grants [OF assms]])
  fix g and v :: "hs_ev world" assume v: "hsl.owns v ({#group_key g#} + M)"
  let ?M = "add_mset (group_key g) M"
  from v have urls: "hsl.grants ?M (add_urls hr api g urls v) (\<lambda>_. {#})" by (simp add: add_urls_grants)
  show "hsl.grants M
     (try_or (add_urls hr api g urls v) (\<lambda>e w. (Inl (PlatformError OpAddUrl e), url_group_drop g w)) (\<lambda>_ w.
      try_or (queue_with_config hr api w) (\<lambda>e w. (Inl (PlatformError OpCreateQueue e), url_group_drop g w)) (\<lambda>q w.
      try_or (bind_url_group hr api q g w)
       (\<lambda>e w. (Inl (PlatformError OpBindUrlGroup e), url_group_drop g (snd (snd (queue_close hr api q w))))) (\<lambda>_ w.
       (Inr (g, q), w))))) (\<lambda>(g, q). add_mset (group_key g) (open_key q))"
  proof (rule hsl.grants_try_or [OF urls])
    fix u :: unit and v :: "hs_ev world" assume "hsl.owns v ({#} + ?M)"
    then have queue: "hsl.grants ?M (queue_with_config hr api v) open_key" by (simp add: queue_grants assms(1))
    show "hsl.grants M
       (try_or (queue_with_config hr api v) (\<lambda>e w. (Inl (PlatformError OpCreateQueue e), url_group_drop g w)) (\<lambda>q w.
        try_or (bind_url_group hr api q g w)
         (\<lambda>e w. (Inl (PlatformError OpBindUrlGroup e), url_group_drop g (snd (snd (queue_close hr api q w))))) (\<lambda>_ w.
         (Inr (g, q), w)))) (\<lambda>(g, q). add_mset (group_key g) (open_key q))"
    proof (rule hsl.grants_try_or [OF queue])
      fix q and v :: "hs_ev world" assume "hsl.owns v (open_key q + ?M)"
      then have bind: "hsl.grants (open_key q + ?M) (bind_url_group hr api q g v) (\<lambda>_. {#})"
        by (rule bind_url_group_grants) simp_all
      have fail: "hsl.owns (url_group_drop g (snd (snd (queue_close hr api q v)))) M" if "hsl.owns v (open_key q + ?M)" for v
        using queue_close_owns(1) [OF _ that] url_group_drop_owns by (cases "queue_close hr api q v") auto
      show "hsl.grants M
         (try_or (bind_url_group hr api q g v)
           (\<lambda>e w. (Inl (PlatformError OpBindUrlGroup e), url_group_drop g (snd (snd (queue_close hr api q w))))) (\<lambda>_ w.
           (Inr (g, q), w))) (\<lambda>(g, q). add_mset (group_key g) (open_key q))"
        by (rule hsl.grants_try_or [OF bind]) (auto simp: fail)
    qed (simp add: url_group_drop_owns)
  qed (simp add: url_group_drop_owns)
qed simp

lemma server_build_new:
  assumes "server_build hr api s urls w = (Inr (g, q), w')"
  shows "qu_open q" "qu_holders q = 1"
  using assms queue_with_config_new [of hr api _ q]
  by (auto simp: server_build_def try_or_def split: prod.splits sum.splits)

section \<open>Every program keeps the account\<close>

lemma count_list_mset: "count_list xs a = count (mset xs) a"
  by (induction xs) auto

lemma sum_list_mset_map: "sum_list (map f xs) = sum_mset (image_mset f (mset xs))" for f :: "'a \<Rightarrow> 'b multiset"
  by (induction xs) auto

lemma sum_list_update:
  "i < length xs \<Longrightarrow> f (xs ! i) + sum_list (map f (xs[i := x])) = f x + sum_list (map f xs)" for f :: "'a \<Rightarrow> 'b multiset"
  by (induction xs arbitrary: i) (auto simp: nth_Cons union_ac split: nat.splits)

text \<open>The owners without those of one queue, of one handle taken or in flight, of one server or session.\<close>

lemma owners_queue:
  assumes "i < length (hp_queues p)"
  obtains R where "hs_owners p = open_key (hp_queues p ! i) + R"
    "\<And>q w. hs_owners (set_queue i (q, w) p) = open_key q + R"
proof
  let ?rest = "\<lambda>p. sum_list (map session_keys (hp_sessions p)) + mset (map (group_key \<circ> sv_group) (hp_servers p))
     + mset (map (queue_key \<circ> snd) (hp_taken p)) + mset (map queue_key (hp_flight p))"
  define K where "K = sum_list (map open_key ((hp_queues p)[i := (hp_queues p ! i)\<lparr>qu_open := False\<rparr>]))"
  have K: "sum_list (map open_key ((hp_queues p)[i := q])) = open_key q + K" for q
    using assms sum_list_update [of i "(hp_queues p)[i := (hp_queues p ! i)\<lparr>qu_open := False\<rparr>]" open_key q]
    unfolding K_def by (simp add: open_key_def)
  from K [of "hp_queues p ! i"] show "hs_owners p = open_key (hp_queues p ! i) + (K + ?rest p)"
    by (simp add: hs_owners_def union_ac)
  show "hs_owners (set_queue i (q, w) p) = open_key q + (K + ?rest p)" for q w
    by (simp add: hs_owners_def set_queue_def K union_ac)
qed

lemma open_key_owned: "i < length (hp_queues p) \<Longrightarrow> open_key (hp_queues p ! i) \<subseteq># hs_owners p"
  by (metis owners_queue mset_subset_eq_add_left)

lemma owners_world [simp]: "hs_owners (p\<lparr>hp_world := w\<rparr>) = hs_owners p"
  by (simp add: hs_owners_def)

lemma owners_holds [simp]: "hs_owners (p\<lparr>hp_holds := w\<rparr>) = hs_owners p"
  by (simp add: hs_owners_def)

lemma owners_remove:
  "j < length (hp_taken p) \<Longrightarrow>
     hs_owners p = add_mset (queue_key (snd (hp_taken p ! j))) (hs_owners (p\<lparr>hp_taken := remove_at j (hp_taken p)\<rparr>))"
  "j < length (hp_flight p) \<Longrightarrow>
     hs_owners p = add_mset (queue_key (hp_flight p ! j)) (hs_owners (p\<lparr>hp_flight := remove_at j (hp_flight p)\<rparr>))"
  "j < length (hp_servers p) \<Longrightarrow>
     hs_owners p = add_mset (group_key (sv_group (hp_servers p ! j))) (hs_owners (p\<lparr>hp_servers := remove_at j (hp_servers p)\<rparr>))"
  "j < length (hp_sessions p) \<Longrightarrow>
     hs_owners p = session_keys (hp_sessions p ! j) + hs_owners (p\<lparr>hp_sessions := remove_at j (hp_sessions p)\<rparr>)"
  by (simp_all add: hs_owners_def sum_list_mset_map mset_remove_at [of j] union_ac)

lemma holders_world [simp]: "holders_ok (p\<lparr>hp_world := w\<rparr>) = holders_ok p"
  by (simp add: holders_ok_def)

lemma set_queue_simps [simp]:
  "hp_world (set_queue i qw p) = snd qw" "hp_queues (set_queue i qw p) = (hp_queues p)[i := fst qw]"
  "hp_sessions (set_queue i qw p) = hp_sessions p" "hp_servers (set_queue i qw p) = hp_servers p"
  "hp_holds (set_queue i qw p) = hp_holds p" "hp_taken (set_queue i qw p) = hp_taken p"
  by (simp_all add: set_queue_def)

lemma open_session_ok:
  assumes "fresh_httpsys api" "hs_ok p"
  shows "hs_ok (hs_do hr api OpenSession p)"
  using server_session_grants [of api "hp_world p" "hs_owners p" hr] assms
  by (cases "server_session_new hr api (hp_world p)"; cases "fst (server_session_new hr api (hp_world p))")
     (auto simp: hs_ok_def holders_ok_def hs_owners_def union_ac)

lemma build_server_ok:
  assumes fresh: "fresh_httpsys api" and p: "hs_ok p"
  shows "hs_ok (hs_do hr api (BuildServer i urls) p)"
proof (cases "i < length (hp_sessions p)")
  case True
  let ?s = "hp_sessions p ! i" and ?x = "server_build hr api (hp_sessions p ! i) urls (hp_world p)"
  from owners_remove(4) [OF True] have "session_key (ss_inner ?s) \<in># hs_owners p"
    by (simp add: session_keys_def)
  with server_build_grants [OF fresh] p
  have g: "hsl.grants (hs_owners p) ?x (\<lambda>(g, q). add_mset (group_key g) (open_key q))" by (simp add: hs_ok_def)
  show ?thesis
  proof (cases "fst ?x")
    case (Inl e)
    with g p True show ?thesis by (cases ?x) (auto simp: hs_ok_def)
  next
    case (Inr gq)
    then obtain g q w where x: "?x = (Inr (g, q), w)" by (cases ?x; cases gq) auto
    from p have "count_list (map sv_queue (hp_servers p) @ hp_holds p) (length (hp_queues p)) = 0"
      by (auto simp: hs_ok_def holders_ok_def count_list_0_iff simp del: count_list_append)
    with x g p True server_build_new [OF x] show ?thesis
      by (auto simp: hs_ok_def holders_ok_def hs_owners_def nth_append less_Suc_eq union_ac)
  qed
qed (use p in simp)

text \<open>A holder gone, its queue is told: \<open>p\<close> is the program without the holder, \<open>w\<close> the world the drop starts from.\<close>

lemma release_ok:
  assumes i: "i < length (hp_queues p)" and w: "hsl.owns w (hs_owners p)"
    and sessions: "\<forall>sv \<in> set (hp_servers p). sv_session sv \<in> set (hp_sessions p)"
    and range: "\<forall>i \<in> set (map sv_queue (hp_servers p) @ hp_holds p @ map fst (hp_taken p)). i < length (hp_queues p)"
    and holders: "\<And>k. k < length (hp_queues p) \<Longrightarrow> qu_holders (hp_queues p ! k) =
          count_list (map sv_queue (hp_servers p) @ hp_holds p) k + (if k = i then 1 else 0)
        \<and> (qu_open (hp_queues p ! k) \<longrightarrow> 0 < qu_holders (hp_queues p ! k))"
  shows "hs_ok (set_queue i (queue_arc_drop hr api (hp_queues p ! i) w) p)"
proof -
  obtain q' w' where d: "queue_arc_drop hr api (hp_queues p ! i) w = (q', w')" by fastforce
  obtain R where R: "hs_owners p = open_key (hp_queues p ! i) + R"
    "\<And>q w. hs_owners (set_queue i (q, w) p) = open_key q + R" using owners_queue [OF i] by blast
  from queue_arc_drop_owns [OF d] w R(1)
  have q': "hsl.owns w' (open_key q' + R)" "qu_holders q' = qu_holders (hp_queues p ! i) - 1"
    "qu_open q' \<Longrightarrow> qu_holders (hp_queues p ! i) \<noteq> 1" by auto
  have k: "qu_holders ((hp_queues p)[i := q'] ! k) = count_list (map sv_queue (hp_servers p) @ hp_holds p) k
      \<and> (qu_open ((hp_queues p)[i := q'] ! k) \<longrightarrow> 0 < qu_holders ((hp_queues p)[i := q'] ! k))"
    if "k < length (hp_queues p)" for k
    using holders [OF that] q' i that by (cases "k = i") auto
  have "holders_ok (set_queue i (q', w') p)"
    unfolding holders_ok_def set_queue_simps fst_conv length_list_update using sessions range k by blast
  with q'(1) R(2) d show ?thesis by (simp add: hs_ok_def)
qed

lemma hold_queue_ok: "hs_ok p \<Longrightarrow> hs_ok (hs_do hr api (HoldQueue i) p)"
proof (cases "queue_held p i")
  case True
  assume p: "hs_ok p"
  let ?q = "queue_arc_clone (hp_queues p ! i)"
  from True have i: "i < length (hp_queues p)" by (simp add: queue_held_def)
  have "open_key ?q = open_key (hp_queues p ! i)" by (simp add: open_key_def queue_arc_clone_def)
  then have "hs_owners (set_queue i (?q, hp_world p) (p\<lparr>hp_holds := i # hp_holds p\<rparr>)) = hs_owners p"
    using owners_queue [of i "p\<lparr>hp_holds := i # hp_holds p\<rparr>"] i by (metis (no_types, lifting) owners_holds hs_prog.select_convs(3) hs_prog.surjective hs_prog.update_convs(4))
  moreover from p i have "holders_ok (set_queue i (?q, hp_world p) (p\<lparr>hp_holds := i # hp_holds p\<rparr>))"
    by (auto simp: hs_ok_def holders_ok_def nth_list_update queue_arc_clone_def)
  ultimately show ?thesis using True p by (simp add: hs_ok_def)
qed simp

lemma release_queue_ok:
  assumes "hs_ok p"
  shows "hs_ok (hs_do hr api (ReleaseQueue j) p)"
proof (cases "j < length (hp_holds p)")
  case True
  let ?p = "p\<lparr>hp_holds := remove_at j (hp_holds p)\<rparr>"
  from True assms have i: "hp_holds p ! j < length (hp_queues p)" by (simp add: hs_ok_def holders_ok_def)
  have "hs_ok (set_queue (hp_holds p ! j) (queue_arc_drop hr api (hp_queues ?p ! (hp_holds p ! j)) (hp_world p)) ?p)"
  proof (rule release_ok)
    show "\<forall>i \<in> set (map sv_queue (hp_servers ?p) @ hp_holds ?p @ map fst (hp_taken ?p)). i < length (hp_queues ?p)"
      using assms set_remove_at [of j "hp_holds p"] by (auto simp: hs_ok_def holders_ok_def)
    show "qu_holders (hp_queues ?p ! k) =
        count_list (map sv_queue (hp_servers ?p) @ hp_holds ?p) k + (if k = hp_holds p ! j then 1 else 0)
        \<and> (qu_open (hp_queues ?p ! k) \<longrightarrow> 0 < qu_holders (hp_queues ?p ! k))" if "k < length (hp_queues ?p)" for k
      using assms that mset_remove_at [OF True]
      by (auto simp: hs_ok_def holders_ok_def count_list_mset)
  qed (use assms i in \<open>auto simp: hs_ok_def holders_ok_def\<close>)
  with True show ?thesis by simp
qed (use assms in simp)

lemma drop_server_ok:
  assumes "hs_ok p"
  shows "hs_ok (hs_do hr api (DropServer j) p)"
proof (cases "j < length (hp_servers p)")
  case True
  let ?sv = "hp_servers p ! j" and ?p = "p\<lparr>hp_servers := remove_at j (hp_servers p)\<rparr>"
  from True assms have i: "sv_queue ?sv < length (hp_queues p)" by (simp add: hs_ok_def holders_ok_def)
  have m: "mset (map sv_queue (hp_servers p)) = add_mset (sv_queue ?sv) (mset (map sv_queue (remove_at j (hp_servers p))))"
    using mset_remove_at [OF True] by simp
  have "hs_ok (set_queue (sv_queue ?sv)
      (queue_arc_drop hr api (hp_queues ?p ! sv_queue ?sv) (url_group_drop (sv_group ?sv) (hp_world p))) ?p)"
  proof (rule release_ok)
    show "hsl.owns (url_group_drop (sv_group ?sv) (hp_world p)) (hs_owners ?p)"
      using assms owners_remove(3) [OF True] by (intro url_group_drop_owns) (simp add: hs_ok_def)
    show "\<forall>i \<in> set (map sv_queue (hp_servers ?p) @ hp_holds ?p @ map fst (hp_taken ?p)). i < length (hp_queues ?p)"
      using assms set_remove_at [of j "hp_servers p"] by (auto simp: hs_ok_def holders_ok_def)
    show "qu_holders (hp_queues ?p ! k) =
        count_list (map sv_queue (hp_servers ?p) @ hp_holds ?p) k + (if k = sv_queue ?sv then 1 else 0)
        \<and> (qu_open (hp_queues ?p ! k) \<longrightarrow> 0 < qu_holders (hp_queues ?p ! k))" if "k < length (hp_queues ?p)" for k
      using assms that m by (auto simp: hs_ok_def holders_ok_def count_list_mset)
  qed (use assms i set_remove_at [of j "hp_servers p"] in \<open>auto simp: hs_ok_def holders_ok_def\<close>)
  with True show ?thesis by (simp add: Let_def)
qed (use assms in simp)

lemma shutdown_ok:
  assumes "hs_ok p"
  shows "hs_ok (hs_do hr api (Shutdown i) p)"
proof (cases "queue_held p i")
  case True
  then have i: "i < length (hp_queues p)" by (simp add: queue_held_def)
  obtain r q' w' where c: "queue_close hr api (hp_queues p ! i) (hp_world p) = (r, q', w')" by (metis prod_cases3)
  obtain R where R: "hs_owners p = open_key (hp_queues p ! i) + R"
    "\<And>q w. hs_owners (set_queue i (q, w) p) = open_key q + R" using owners_queue [OF i] by blast
  from queue_close_owns [OF c] assms R(1)
  have q': "hsl.owns w' R" "\<not> qu_open q'" "qu_holders q' = qu_holders (hp_queues p ! i)" "open_key q' = {#}"
    by (auto simp: hs_ok_def)
  have "holders_ok (set_queue i (q', w') p)"
    using assms q' i by (auto simp: hs_ok_def holders_ok_def nth_list_update)
  with q' R(2) c True show ?thesis by (simp add: server_shutdown_def hs_ok_def)
qed (use assms in simp)

lemma take_handle_ok:
  assumes "hs_ok p"
  shows "hs_ok (hs_do hr api (TakeHandle i) p)"
proof (cases "queue_held p i")
  case True
  then have i: "i < length (hp_queues p)" by (simp add: queue_held_def)
  with with_open_grants open_key_owned assms
  have "hsl.grants (hs_owners p) (with_open hr (hp_queues p ! i) (hp_world p)) (\<lambda>h. {#queue_key h#})"
    by (simp add: hs_ok_def)
  with assms True i show ?thesis
    by (cases "with_open hr (hp_queues p ! i) (hp_world p)"; cases "fst (with_open hr (hp_queues p ! i) (hp_world p))")
       (auto simp: hs_ok_def holders_ok_def hs_owners_def union_ac)
qed (use assms in simp)

lemma submit_taken_ok:
  assumes "hs_ok p"
  shows "hs_ok (hs_do hr api (SubmitTaken j) p)"
proof (cases "j < length (hp_taken p)")
  case True
  let ?p = "p\<lparr>hp_taken := remove_at j (hp_taken p)\<rparr>"
  let ?x = "queue_submit hr (hp_queues p ! fst (hp_taken p ! j)) (snd (hp_taken p ! j)) (hp_world p)"
  from queue_submit_grants assms owners_remove(1) [OF True]
  have g: "hsl.grants (hs_owners ?p) ?x (\<lambda>h. {#queue_key h#})" by (simp add: hs_ok_def)
  from assms set_remove_at [of j "hp_taken p"] have h: "holders_ok ?p" by (auto simp: hs_ok_def holders_ok_def)
  show ?thesis
  proof (cases "fst ?x")
    case (Inl e)
    with g h True show ?thesis by (cases ?x) (auto simp: hs_ok_def)
  next
    case (Inr a)
    with g h True show ?thesis by (cases ?x) (auto simp: hs_ok_def holders_ok_def hs_owners_def)
  qed
qed (use assms in simp)

lemma op_done_ok:
  assumes "hs_ok p"
  shows "hs_ok (hs_do hr api (OpDone j) p)"
proof (cases "j < length (hp_flight p)")
  case True
  with assms owners_remove(2) [OF True] hsl.owns_drop show ?thesis by (auto simp: hs_ok_def holders_ok_def)
qed (use assms in simp)

lemma drop_session_ok:
  assumes "hs_ok p"
  shows "hs_ok (hs_do hr api (DropServerSession j) p)"
proof (cases "j < length (hp_sessions p) \<and> (\<forall>sv \<in> set (hp_servers p). sv_session sv \<noteq> hp_sessions p ! j)")
  case True
  let ?p = "p\<lparr>hp_sessions := remove_at j (hp_sessions p)\<rparr>"
  from True have "set (hp_sessions p) = insert (hp_sessions p ! j) (set (remove_at j (hp_sessions p)))"
    using mset_remove_at [of j "hp_sessions p"] by (metis set_mset_add_mset_insert set_mset_mset)
  with assms True have "holders_ok ?p" by (auto simp: hs_ok_def holders_ok_def)
  moreover from server_session_drop_owns assms owners_remove(4) [of j p] True
  have "hsl.owns (server_session_drop (hp_sessions p ! j) (hp_world p)) (hs_owners ?p)" by (simp add: hs_ok_def)
  ultimately show ?thesis using True by (simp add: hs_ok_def)
qed (use assms in auto)

lemmas hs_do_ok = open_session_ok build_server_ok hold_queue_ok release_queue_ok drop_server_ok shutdown_ok take_handle_ok
  submit_taken_ok op_done_ok drop_session_ok

lemma hs_do_keeps: "fresh_httpsys api \<Longrightarrow> hs_ok p \<Longrightarrow> hs_ok (hs_do hr api a p)"
  by (cases a) (simp_all only: hs_do_ok)

lemma hs_run_keeps: "fresh_httpsys api \<Longrightarrow> hs_ok p \<Longrightarrow> hs_ok (hs_run hr api acts p)"
  unfolding hs_run_def by (induction acts arbitrary: p) (auto simp: hs_do_keeps)

lemma hs_start_ok: "hs_ok hs_start"
  by (auto simp: hs_ok_def hs_start_def holders_ok_def hs_owners_def hsl.owns_def world_safe_def world_ok_def fun_eq_iff)

section \<open>A queue shut down\<close>

text \<open>It stays shut whatever the program does next, so that no operation is submitted to it any more.\<close>

lemma queue_arc_drop_closed: "\<not> qu_open q \<Longrightarrow> \<not> qu_open (fst (queue_arc_drop hr api q w))"
  by (simp add: queue_arc_drop_def Let_def queue_close_def)

lemma server_shutdown_closed: "\<not> qu_open (fst (snd (server_shutdown hr api q w)))"
  by (auto simp: server_shutdown_def queue_close_def split: prod.splits)

definition queue_shut :: "nat \<Rightarrow> hs_prog \<Rightarrow> bool" where
  "queue_shut i p \<longleftrightarrow> i < length (hp_queues p) \<and> \<not> qu_open (hp_queues p ! i)"

lemma shut_set_queue:
  "queue_shut i p \<Longrightarrow> (\<not> qu_open (hp_queues p ! k) \<Longrightarrow> \<not> qu_open (fst qw)) \<Longrightarrow> queue_shut i (set_queue k qw p)"
  by (cases "k = i") (auto simp: queue_shut_def)

lemma shut_other:
  "queue_shut i (p\<lparr>hp_holds := h\<rparr>) = queue_shut i p" "queue_shut i (p\<lparr>hp_world := w\<rparr>) = queue_shut i p"
  "queue_shut i (p\<lparr>hp_taken := t\<rparr>) = queue_shut i p" "queue_shut i (p\<lparr>hp_flight := f\<rparr>) = queue_shut i p"
  "queue_shut i (p\<lparr>hp_servers := v\<rparr>) = queue_shut i p" "queue_shut i (p\<lparr>hp_sessions := s\<rparr>) = queue_shut i p"
  by (simp_all add: queue_shut_def)

lemma shut_do: "queue_shut i p \<Longrightarrow> queue_shut i (hs_do hr api a p)"
proof (cases a)
  case (BuildServer k urls)
  then show "queue_shut i p \<Longrightarrow> ?thesis"
    by (auto simp: queue_shut_def nth_append split: prod.splits sum.splits)
qed (auto simp: shut_other Let_def queue_arc_clone_def server_shutdown_closed queue_arc_drop_closed
    intro!: shut_set_queue split: prod.splits sum.splits)

lemma shut_run: "queue_shut i p \<Longrightarrow> queue_shut i (hs_run hr api acts p)"
  unfolding hs_run_def by (induction acts arbitrary: p) (auto simp: shut_do)

section \<open>Properties\<close>

text \<open>
  Property C35. Whatever a program does with sessions, servers, shutdown handles and operations, in any order and with a
  shutdown at any point between taking the queue's handle and submitting with it: the platform resources open are
  exactly those some object or operation still owns, so none is closed twice or early; every call names resources that
  are open; a queue without a holder is closed; and once every object is dropped and every operation is done, nothing is
  left open.
\<close>

theorem servers_accounted:
  assumes "fresh_httpsys api" and "p = hs_run hr api acts hs_start"
  shows "open_after hs_opens hs_closes (w_log (hp_world p)) = Some (set_mset (hs_owners p))
    \<and> used_open hs_opens hs_closes hs_uses (w_log (hp_world p))
    \<and> (\<forall>q \<in> set (hp_queues p). qu_holders q = 0 \<longrightarrow> \<not> qu_open q)
    \<and> (hp_sessions p = [] \<and> hp_servers p = [] \<and> hp_holds p = [] \<and> hp_taken p = [] \<and> hp_flight p = [] \<longrightarrow>
         open_after hs_opens hs_closes (w_log (hp_world p)) = Some {})"
proof -
  from hs_run_keeps [OF assms(1) hs_start_ok] assms(2) have ok: "hs_ok p" by simp
  then have "hsl.owns (hp_world p) (hs_owners p)" by (simp add: hs_ok_def)
  note opened = hsl.owns_opened [OF this]
  have shut: "\<not> qu_open q" if "q \<in> set (hp_queues p)" "qu_holders q = 0" for q
    using ok that by (auto simp: hs_ok_def holders_ok_def in_set_conv_nth)
  have "hs_owners p = {#}"
    if gone: "hp_sessions p = []" "hp_servers p = []" "hp_holds p = []" "hp_taken p = []" "hp_flight p = []"
  proof -
    have "open_key q = {#}" if "q \<in> set (hp_queues p)" for q
      using shut [OF that] ok that gone by (force simp: hs_ok_def holders_ok_def in_set_conv_nth open_key_def)
    then have "map open_key (hp_queues p) = map (\<lambda>_. {#}) (hp_queues p)" by simp
    then have "sum_list (map open_key (hp_queues p)) = {#}" by (simp only: sum_list_0)
    with gone show ?thesis by (simp add: hs_owners_def)
  qed
  with opened shut show ?thesis by simp
qed

text \<open>
  Property C36. A shutdown is final: whatever the program does afterwards, taking the queue's handle and submitting with a
  handle taken before both answer the same closed-handle error, the handle taken is given back, and no call is made on
  the queue by either.
\<close>

theorem shutdown_is_final:
  assumes "queue_held p i" and "p' = hs_run hr api acts (hs_do hr api (Shutdown i) p)"
  shows "with_open hr (hp_queues p' ! i) w = (Inl (E_CLOSED hr), w)
    \<and> queue_submit hr (hp_queues p' ! i) h w = (Inl (E_CLOSED hr), hs_drop (queue_key h) w)
    \<and> queue_close hr api (hp_queues p' ! i) w = (Inr (), hp_queues p' ! i, w)"
proof -
  have "queue_shut i (hs_do hr api (Shutdown i) p)"
    using assms(1) by (simp add: queue_shut_def queue_held_def server_shutdown_closed)
  from shut_run [OF this] assms(2) have "\<not> qu_open (hp_queues p' ! i)" by (simp add: queue_shut_def)
  then show ?thesis by (simp add: with_open_def queue_submit_def queue_close_def)
qed

section \<open>Witnesses\<close>

text \<open>A platform that numbers its resources upwards and never fails.\<close>

definition next_resource :: "hs_ev list \<Rightarrow> nat" where
  "next_resource log =
     (let n = Suc (sum_list (map (\<lambda>e. case hs_opens e of Some h \<Rightarrow> h | None \<Rightarrow> 0) log)) in if n = 2 ^ 64 - 1 then 2 ^ 64 else n)"

definition counting_hs :: hs_api where
  "counting_hs =
     \<lparr>ha_init = (\<lambda>log. (0, next_resource log)), ha_session = (\<lambda>log. (0, next_resource log)),
      ha_group = (\<lambda>log _. (0, next_resource log)), ha_add_url = (\<lambda>_ _ _. 0), ha_queue = (\<lambda>log. (0, next_resource log)),
      ha_register = (\<lambda>_ _. Inr ()), ha_bind = (\<lambda>_ _ _. 0), ha_close = (\<lambda>_ _. 0), ha_trailers = True\<rparr>"

lemma counting_hs_fresh: "fresh_httpsys counting_hs"
proof -
  have less: "h < next_resource log" if "e \<in> set log" "hs_opens e = Some h" for h e log
    using member_le_sum_list [of h "map (\<lambda>e. case hs_opens e of Some s \<Rightarrow> s | None \<Rightarrow> 0) log"] that
    by (force simp: next_resource_def Let_def less_Suc_eq_le image_iff)
  have bound: "h < next_resource log" if "open_after hs_opens hs_closes log = Some H" "h \<in> H" for log H h
    using open_after_opened [OF that] less by blast
  have "\<not> INVALID_QUEUE (next_resource log)" for log by (simp add: next_resource_def INVALID_QUEUE_def Let_def)
  with bound show ?thesis by (fastforce simp: fresh_httpsys_def counting_hs_def key_defs)
qed

abbreviation closing_program :: "hs_act list" where
  "closing_program \<equiv> [OpenSession, BuildServer 0 [[104]], TakeHandle 0, Shutdown 0, SubmitTaken 0, DropServer 0]"

lemmas counting_run_simps = hs_run_def hs_start_def counting_hs_def next_resource_def server_session_new_def
  initializer_new_def platform_session_new_def created_def check_def server_build_def url_group_new_def add_url_def
  queue_with_config_def bind_url_group_def with_open_def queue_held_def set_queue_def server_shutdown_def queue_close_def
  release_clone_def queue_submit_def remove_at_def queue_arc_drop_def url_group_drop_def hs_owners_def session_keys_def
  open_key_def Let_def key_defs

theorem servers_accounted_witness:
  "fresh_httpsys counting_hs \<and>
   (let p = hs_run hr_win32 counting_hs closing_program hs_start
    in hs_owners p = {#session_key 5, api_key 1#}
       \<and> open_after hs_opens hs_closes (w_log (hp_world p)) = Some {session_key 5, api_key 1})"
proof -
  let ?p = "hs_run hr_win32 counting_hs closing_program hs_start"
  have "hs_owners ?p = {#session_key 5, api_key 1#}"
    by (simp add: counting_run_simps)
  with servers_accounted [OF counting_hs_fresh refl, of hr_win32 closing_program] counting_hs_fresh
  show ?thesis by (simp add: Let_def insert_commute)
qed

theorem shutdown_is_final_witness:
  "let p = hs_run hr_win32 counting_hs [OpenSession, BuildServer 0 [[104]]] hs_start;
       p' = hs_run hr_win32 counting_hs [OpenSession, TakeHandle 0] (hs_do hr_win32 counting_hs (Shutdown 0) p)
   in queue_held p 0 \<and> fst (with_open hr_win32 (hp_queues p' ! 0) (hp_world p')) = Inl (E_CLOSED hr_win32)"
proof -
  let ?p = "hs_run hr_win32 counting_hs [OpenSession, BuildServer 0 [[104]]] hs_start"
  have held: "queue_held ?p 0" by (simp add: counting_run_simps)
  from shutdown_is_final [OF held refl] held show ?thesis by (simp only: Let_def fst_conv simp_thms)
qed

end
