(* ===== verification/Httpsys_Ssl.thy ===== *)
theory Httpsys_Ssl
  imports Resource_Log Net_Addr Utf Errors
begin

text \<open>
  Certificates of the HTTP Server API: \<^verbatim>\<open>httpsys/ssl.rs\<close>. The machine's table of certificates is the platform's, an
  argument with a state of its own; \<open>rows\<close> reads it. It has at most one row per \<^verbatim>\<open>ip:port\<close>: a call hands over the
  image of the endpoint's \<^verbatim>\<open>sockaddr\<close>, of which the platform takes the family, the address and the port. A pointer is
  what it points to, and \<open>sizeof_set\<close> is the size of \<^verbatim>\<open>HTTP_SERVICE_CONFIG_SSL_SET\<close>.
\<close>

section \<open>Errors\<close>

datatype SslBindError = RequiresElevation | AlreadyBound | SslPlatform hresult

definition ERROR_ACCESS_DENIED_SSL :: u32 where "ERROR_ACCESS_DENIED_SSL = 5"
definition ERROR_ALREADY_EXISTS_SSL :: u32 where "ERROR_ALREADY_EXISTS_SSL = 183"
definition ERROR_FILE_NOT_FOUND_SSL :: u32 where "ERROR_FILE_NOT_FOUND_SSL = 2"
definition ERROR_NOT_FOUND_SSL :: u32 where "ERROR_NOT_FOUND_SSL = 1168"
definition ERROR_INSUFFICIENT_BUFFER_SSL :: u32 where "ERROR_INSUFFICIENT_BUFFER_SSL = 122"

lemmas ssl_codes = ERROR_ACCESS_DENIED_SSL_def ERROR_ALREADY_EXISTS_SSL_def ERROR_FILE_NOT_FOUND_SSL_def
  ERROR_NOT_FOUND_SSL_def ERROR_INSUFFICIENT_BUFFER_SSL_def

definition ssl_from_win32 :: "hresult \<Rightarrow> SslBindError" where
  "ssl_from_win32 err =
     (case win32_code err of
        Some code \<Rightarrow>
          if code = ERROR_ACCESS_DENIED_SSL then RequiresElevation
          else if code = ERROR_ALREADY_EXISTS_SSL then AlreadyBound
          else SslPlatform err
      | None \<Rightarrow> SslPlatform err)"

definition ssl_check :: "(u32 \<Rightarrow> hresult) \<Rightarrow> u32 \<Rightarrow> SslBindError + unit" where
  "ssl_check hr code = (if code = 0 then Inr () else Inl (ssl_from_win32 (hr code)))"

section \<open>The calls\<close>

definition THUMBPRINT_LEN :: nat where "THUMBPRINT_LEN = 20"

definition ip_port_new :: "SocketAddr \<Rightarrow> u8 list" where
  "ip_port_new addr =
     (let zero = replicate sizeof_storage 0 in
      case addr of
        V4 ip port \<Rightarrow> overwrite zero 0 (sockaddr_in ip port)
      | V6 ip port flowinfo scope_id \<Rightarrow> overwrite zero 0 (sockaddr_in6 ip port flowinfo scope_id))"

record ssl_param =
  SslHashLength :: u32
  pSslHash :: "u8 list option"
  AppId :: nat
  pSslCertStoreName :: "u16 list"

record 's ssl_api =
  sa_set :: "'s \<Rightarrow> u8 list \<Rightarrow> ssl_param \<Rightarrow> u32 \<times> 's"
  sa_delete :: "'s \<Rightarrow> u8 list \<Rightarrow> u32 \<times> 's"
  sa_query :: "'s \<Rightarrow> u8 list \<Rightarrow> u32 \<Rightarrow> u32 \<times> u32 \<times> ssl_param"

record SslCertBinding =
  sb_endpoint :: SocketAddr
  sb_released :: bool

definition bind_ssl_certificate ::
  "(u32 \<Rightarrow> hresult) \<Rightarrow> 's ssl_api \<Rightarrow> SocketAddr \<Rightarrow> u8 list \<Rightarrow> nat list \<Rightarrow> nat \<Rightarrow> 's \<Rightarrow> (SslBindError + SslCertBinding) \<times> 's" where
  "bind_ssl_certificate hr api endpoint thumbprint store_name app_id s =
     (case sa_set api s (ip_port_new endpoint)
         \<lparr>SslHashLength = of_nat (length thumbprint), pSslHash = Some thumbprint, AppId = app_id,
          pSslCertStoreName = utf16 store_name @ [0]\<rparr> of
        (code, s1) \<Rightarrow> (map_sum id (\<lambda>_. \<lparr>sb_endpoint = endpoint, sb_released = False\<rparr>) (ssl_check hr code), s1))"

definition delete_binding :: "(u32 \<Rightarrow> hresult) \<Rightarrow> 's ssl_api \<Rightarrow> SocketAddr \<Rightarrow> 's \<Rightarrow> (SslBindError + unit) \<times> 's" where
  "delete_binding hr api endpoint s =
     (case sa_delete api s (ip_port_new endpoint) of (code, s1) \<Rightarrow> (ssl_check hr code, s1))"

text \<open>The buffer of the second query, in bytes: \<open>needed\<close> rounded up to eight-byte words, at least one.\<close>

definition query_buffer :: "u32 \<Rightarrow> nat" where
  "query_buffer needed = 8 * max 1 ((unat needed + 7) div 8)"

definition read_thumbprint :: "ssl_param \<Rightarrow> u8 list option" where
  "read_thumbprint p =
     (let hash_len = unat (SslHashLength p) in
      case pSslHash p of
        None \<Rightarrow> None
      | Some hash \<Rightarrow>
          if hash_len = 0 then None
          else let n = min hash_len THUMBPRINT_LEN in Some (overwrite (replicate THUMBPRINT_LEN 0) 0 (take n hash)))"

text \<open>
  The table may change between the two queries, so each has its own state. \<open>None\<close> outside: the structure would be read
  past the end of the buffer.
\<close>

definition query_ssl_binding ::
  "nat \<Rightarrow> (u32 \<Rightarrow> hresult) \<Rightarrow> 's ssl_api \<Rightarrow> SocketAddr \<Rightarrow> 's \<Rightarrow> 's \<Rightarrow> (SslBindError + u8 list option) option" where
  "query_ssl_binding sizeof_set hr api endpoint s1 s2 =
     (let key = ip_port_new endpoint in
      case sa_query api s1 key 0 of
        (code, needed, _) \<Rightarrow>
          if code = ERROR_FILE_NOT_FOUND_SSL \<or> code = ERROR_NOT_FOUND_SSL \<or> code = 0 then Some (Inr None)
          else if code \<noteq> ERROR_INSUFFICIENT_BUFFER_SSL then Some (Inl (ssl_from_win32 (hr code)))
          else
            case sa_query api s2 key needed of
              (code, _, p) \<Rightarrow>
                if code = ERROR_FILE_NOT_FOUND_SSL \<or> code = ERROR_NOT_FOUND_SSL then Some (Inr None)
                else if code \<noteq> 0 then Some (Inl (ssl_from_win32 (hr code)))
                else if query_buffer needed < sizeof_set then None
                else Some (Inr (read_thumbprint p)))"

definition binding_drop :: "(u32 \<Rightarrow> hresult) \<Rightarrow> 's ssl_api \<Rightarrow> SslCertBinding \<Rightarrow> 's \<Rightarrow> 's" where
  "binding_drop hr api b s = (if sb_released b then s else snd (delete_binding hr api (sb_endpoint b) s))"

text \<open>\<^verbatim>\<open>unbind\<close> consumes the guard: it is dropped at the end, released.\<close>

definition unbind :: "(u32 \<Rightarrow> hresult) \<Rightarrow> 's ssl_api \<Rightarrow> SslCertBinding \<Rightarrow> 's \<Rightarrow> (SslBindError + unit) \<times> 's" where
  "unbind hr api b s =
     (case delete_binding hr api (sb_endpoint b) s of
        (result, s1) \<Rightarrow> (result, binding_drop hr api (b\<lparr>sb_released := True\<rparr>) s1))"

section \<open>Programs\<close>

text \<open>
  \<open>sp_left\<close> is a history: the endpoints whose guard went with a delete that failed, which the drop does not report
  and \<^verbatim>\<open>unbind\<close> reports once.
\<close>

record 's ssl_prog =
  sp_guards :: "SslCertBinding list"
  sp_table :: 's
  sp_left :: "SocketAddr list"

datatype ssl_act = BindCert SocketAddr "u8 list" "nat list" nat | Unbind nat | DropGuard nat

fun ssl_do :: "(u32 \<Rightarrow> hresult) \<Rightarrow> 's ssl_api \<Rightarrow> ssl_act \<Rightarrow> 's ssl_prog \<Rightarrow> 's ssl_prog" where
  "ssl_do hr api (BindCert endpoint thumbprint store_name app_id) p =
     (case bind_ssl_certificate hr api endpoint thumbprint store_name app_id (sp_table p) of
        (Inl _, s) \<Rightarrow> p\<lparr>sp_table := s\<rparr>
      | (Inr b, s) \<Rightarrow> p\<lparr>sp_guards := b # sp_guards p, sp_table := s\<rparr>)"
| "ssl_do hr api (Unbind j) p =
     (if j < length (sp_guards p)
      then let b = sp_guards p ! j in
        case unbind hr api b (sp_table p) of
          (result, s) \<Rightarrow> \<lparr>sp_guards = remove_at j (sp_guards p), sp_table = s,
            sp_left = (if isl result then sb_endpoint b # sp_left p else sp_left p)\<rparr>
      else p)"
| "ssl_do hr api (DropGuard j) p =
     (if j < length (sp_guards p)
      then let b = sp_guards p ! j in
        \<lparr>sp_guards = remove_at j (sp_guards p), sp_table = binding_drop hr api b (sp_table p),
          sp_left = (if \<not> sb_released b \<and> isl (fst (delete_binding hr api (sb_endpoint b) (sp_table p)))
            then sb_endpoint b # sp_left p else sp_left p)\<rparr>
      else p)"

definition ssl_run :: "(u32 \<Rightarrow> hresult) \<Rightarrow> 's ssl_api \<Rightarrow> ssl_act list \<Rightarrow> 's ssl_prog \<Rightarrow> 's ssl_prog" where
  "ssl_run hr api acts p = fold (ssl_do hr api) acts p"

section \<open>The documented table\<close>

text \<open>
  What identifies a row: the family, the address and the port of the endpoint a call names; the flow information and
  the scope of an IPv6 endpoint are in the image it hands over, but not in the key.
\<close>

type_synonym ssl_key = "u16 \<times> u8 list \<times> u16"

definition endpoint_of :: "SocketAddr \<Rightarrow> ssl_key" where
  "endpoint_of a = (family_of a, case a of V4 ip port \<Rightarrow> (ip, port) | V6 ip port _ _ \<Rightarrow> (ip, port))"

definition ip_port_key :: "u8 list \<Rightarrow> ssl_key option" where
  "ip_port_key img = map_option endpoint_of (to_socket_addr \<lparr>storage = img, salen = int sizeof_storage\<rparr>)"

abbreviation row_key :: "SocketAddr \<Rightarrow> ssl_key option" where
  "row_key a \<equiv> ip_port_key (ip_port_new a)"

text \<open>
  A set adds a row where there is none, and a delete removes one that is there; a call that fails changes nothing. A
  query of a missing row says so; of a row, it gives it when the buffer has room, and otherwise the room needed, which
  is at least the fixed part. \<open>room\<close> is what a row takes. A set or a delete may fail for any other reason.
\<close>

type_synonym 's ssl_rows = "'s \<Rightarrow> ssl_key option \<rightharpoonup> ssl_param"

definition ssl_documented :: "nat \<Rightarrow> 's ssl_api \<Rightarrow> 's ssl_rows \<Rightarrow> (ssl_param \<Rightarrow> u32) \<Rightarrow> bool" where
  "ssl_documented sizeof_set api rows room \<longleftrightarrow>
     (\<forall>s img p. rows (snd (sa_set api s img p)) =
        (if fst (sa_set api s img p) = 0 then (rows s)(ip_port_key img \<mapsto> p) else rows s))
     \<and> (\<forall>s img p. rows s (ip_port_key img) \<noteq> None \<longrightarrow> fst (sa_set api s img p) \<noteq> 0)
     \<and> (\<forall>s img. rows (snd (sa_delete api s img)) =
          (if fst (sa_delete api s img) = 0 then (rows s)(ip_port_key img := None) else rows s))
     \<and> (\<forall>s img n. rows s (ip_port_key img) = None \<longrightarrow>
          fst (sa_query api s img n) \<in> {ERROR_FILE_NOT_FOUND_SSL, ERROR_NOT_FOUND_SSL})
     \<and> (\<forall>s img n p. rows s (ip_port_key img) = Some p \<longrightarrow>
          (if room p \<le> n then fst (sa_query api s img n) = 0 \<and> snd (snd (sa_query api s img n)) = p
           else fst (sa_query api s img n) = ERROR_INSUFFICIENT_BUFFER_SSL \<and> fst (snd (sa_query api s img n)) = room p))
     \<and> (\<forall>p. sizeof_set \<le> unat (room p) \<and> 0 < room p)"

section \<open>Keys\<close>

lemma ip_port_image: "ip_port_new a = storage (from_socket_addr a)"
  by (cases a) (simp_all add: ip_port_new_def from_socket_addr_def Let_def)

text \<open>The image is the one the sockets use, so the key of an endpoint is its own: nothing of the encoding is confused.\<close>

lemma row_key: "wf_addr a \<Longrightarrow> row_key a = Some (endpoint_of a)"
proof -
  assume "wf_addr a"
  then have "to_socket_addr (from_socket_addr a) = Some a" by (rule inet_image_decodes)
  then have "to_socket_addr \<lparr>storage = ip_port_new a, salen = int sizeof_storage\<rparr> = Some a"
    by (simp add: ip_port_image to_socket_addr_def)
  then show ?thesis by (simp add: ip_port_key_def)
qed

lemma query_buffer_room: "unat needed \<le> query_buffer needed" "query_buffer needed \<le> unat needed + 8"
proof -
  have "m \<le> 8 * max 1 ((m + 7) div 8) \<and> 8 * max 1 ((m + 7) div 8) \<le> m + 8" for m :: nat by (simp add: max_def) presburger
  then show "unat needed \<le> query_buffer needed" "query_buffer needed \<le> unat needed + 8" by (simp_all add: query_buffer_def)
qed

section \<open>What a query answers\<close>

lemma documented_query:
  assumes "ssl_documented sizeof_set api rows room"
  shows "query_ssl_binding sizeof_set hr api endpoint s s = Some (Inr (Option.bind (rows s (row_key endpoint)) read_thumbprint))"
proof (cases "rows s (row_key endpoint)")
  case None
  with assms have "fst (sa_query api s (ip_port_new endpoint) 0) \<in> {ERROR_FILE_NOT_FOUND_SSL, ERROR_NOT_FOUND_SSL}"
    unfolding ssl_documented_def by blast
  with None show ?thesis by (auto simp: query_ssl_binding_def Let_def split: prod.splits)
next
  case (Some p)
  let ?q = "sa_query api s (ip_port_new endpoint)"
  have room: "\<not> room p \<le> 0" "sizeof_set \<le> unat (room p)" using assms unfolding ssl_documented_def not_le by blast+
  have q: "if room p \<le> n then fst (?q n) = 0 \<and> snd (snd (?q n)) = p
       else fst (?q n) = ERROR_INSUFFICIENT_BUFFER_SSL \<and> fst (snd (?q n)) = room p" for n
    using assms Some unfolding ssl_documented_def by blast
  with room(1) obtain p1 x where "?q 0 = (ERROR_INSUFFICIENT_BUFFER_SSL, room p, p1)" "?q (room p) = (0, x, p)"
    using q [of 0] q [of "room p"] by (metis order_refl prod.collapse)
  moreover have "\<not> query_buffer (room p) < sizeof_set"
    using query_buffer_room(1) [of "room p"] room(2) by simp
  ultimately show ?thesis using Some by (simp add: query_ssl_binding_def Let_def ssl_codes)
qed

lemma thumbprint_read:
  assumes "length thumbprint = THUMBPRINT_LEN" "SslHashLength p = of_nat (length thumbprint)" "pSslHash p = Some thumbprint"
  shows "read_thumbprint p = Some thumbprint"
  using assms by (simp add: read_thumbprint_def Let_def THUMBPRINT_LEN_def overwrite_def unat_of_nat)

lemma bind_rows:
  assumes "ssl_documented sizeof_set api rows room" "bind_ssl_certificate hr api endpoint thumbprint store app s = (r, s')"
  shows "case r of
      Inl _ \<Rightarrow> rows s' = rows s
    | Inr b \<Rightarrow> b = \<lparr>sb_endpoint = endpoint, sb_released = False\<rparr> \<and> rows s (row_key endpoint) = None \<and>
        rows s' = (rows s)(row_key endpoint \<mapsto>
          \<lparr>SslHashLength = of_nat (length thumbprint), pSslHash = Some thumbprint, AppId = app,
           pSslCertStoreName = utf16 store @ [0]\<rparr>)"
proof -
  let ?p = "\<lparr>SslHashLength = of_nat (length thumbprint), pSslHash = Some thumbprint, AppId = app,
    pSslCertStoreName = utf16 store @ [0]\<rparr>"
  let ?x = "sa_set api s (ip_port_new endpoint) ?p"
  have "rows (snd ?x) = (if fst ?x = 0 then (rows s)(row_key endpoint \<mapsto> ?p) else rows s)"
    and "fst ?x = 0 \<Longrightarrow> rows s (row_key endpoint) = None"
    using assms(1) unfolding ssl_documented_def by blast+
  with assms(2) show ?thesis by (cases ?x) (auto simp: bind_ssl_certificate_def ssl_check_def split: if_splits)
qed

lemma delete_rows:
  assumes "ssl_documented sizeof_set api rows room" "delete_binding hr api endpoint s = (r, s')"
  shows "rows s' = (case r of Inl _ \<Rightarrow> rows s | Inr _ \<Rightarrow> (rows s)(row_key endpoint := None))"
proof -
  let ?x = "sa_delete api s (ip_port_new endpoint)"
  have "rows (snd ?x) = (if fst ?x = 0 then (rows s)(row_key endpoint := None) else rows s)"
    using assms(1) unfolding ssl_documented_def by blast
  with assms(2) show ?thesis by (cases ?x) (auto simp: delete_binding_def ssl_check_def split: if_splits)
qed

text \<open>\<^verbatim>\<open>unbind\<close> deletes once, as a drop does, and reports the result.\<close>

lemma unbind_deletes_once: "unbind hr api b s = delete_binding hr api (sb_endpoint b) s"
  by (simp add: unbind_def binding_drop_def split: prod.splits)

section \<open>Programs leave the table as it was\<close>

definition added_keys :: "'s ssl_prog \<Rightarrow> ssl_key option list" where
  "added_keys p = map row_key (map sb_endpoint (sp_guards p) @ sp_left p)"

definition table_ok :: "'s ssl_rows \<Rightarrow> (ssl_key option \<rightharpoonup> ssl_param) \<Rightarrow> 's ssl_prog \<Rightarrow> bool" where
  "table_ok rows before p \<longleftrightarrow>
     distinct (added_keys p) \<and> (\<forall>b \<in> set (sp_guards p). \<not> sb_released b)
     \<and> (\<forall>key. if key \<in> set (added_keys p)
          then before key = None \<and> rows (sp_table p) key \<noteq> None else rows (sp_table p) key = before key)"

lemma added_keys_remove:
  assumes "j < length (sp_guards p)"
  shows "mset (added_keys p) =
    add_mset (row_key (sb_endpoint (sp_guards p ! j))) (mset (added_keys (p\<lparr>sp_guards := remove_at j (sp_guards p)\<rparr>)))"
  by (simp add: added_keys_def mset_remove_at [OF assms])

text \<open>The guard goes, and its row with it, or its endpoint is left with its row, however the guard went.\<close>

definition guard_gone :: "(u32 \<Rightarrow> hresult) \<Rightarrow> 's ssl_api \<Rightarrow> nat \<Rightarrow> 's ssl_prog \<Rightarrow> 's ssl_prog" where
  "guard_gone hr api j p =
     (let b = sp_guards p ! j in
      case delete_binding hr api (sb_endpoint b) (sp_table p) of
        (result, s) \<Rightarrow> \<lparr>sp_guards = remove_at j (sp_guards p), sp_table = s,
          sp_left = (if isl result then sb_endpoint b # sp_left p else sp_left p)\<rparr>)"

lemma guard_gone_ok:
  assumes "ssl_documented sizeof_set api rows room" "table_ok rows before p" "j < length (sp_guards p)"
  shows "table_ok rows before (guard_gone hr api j p)"
proof -
  let ?b = "sp_guards p ! j" let ?k = "row_key (sb_endpoint (sp_guards p ! j))"
  let ?rest = "added_keys (p\<lparr>sp_guards := remove_at j (sp_guards p)\<rparr>)"
  obtain result s where d: "delete_binding hr api (sb_endpoint ?b) (sp_table p) = (result, s)" by fastforce
  have ok: "distinct (added_keys p)" "\<forall>b \<in> set (sp_guards p). \<not> sb_released b"
    "\<And>key. if key \<in> set (added_keys p) then before key = None \<and> rows (sp_table p) key \<noteq> None
      else rows (sp_table p) key = before key"
    using assms(2) by (simp_all add: table_ok_def)
  have m: "mset (added_keys p) = mset (?k # ?rest)" using added_keys_remove [OF assms(3)] by simp
  then have keys: "distinct (?k # ?rest)" "set (added_keys p) = set (?k # ?rest)"
    using ok(1) mset_eq_imp_distinct_iff [OF m] mset_eq_setD [OF m] by simp_all
  have rel: "\<forall>b \<in> set (remove_at j (sp_guards p)). \<not> sb_released b" using ok(2) set_remove_at [of j "sp_guards p"] by blast
  show ?thesis
  proof (cases result)
    case (Inl e)
    have g: "guard_gone hr api j p = \<lparr>sp_guards = remove_at j (sp_guards p), sp_table = s, sp_left = sb_endpoint ?b # sp_left p\<rparr>"
      using d Inl by (simp add: guard_gone_def)
    have "mset (added_keys (guard_gone hr api j p)) = mset (?k # ?rest)" by (simp add: g added_keys_def)
    then have "distinct (added_keys (guard_gone hr api j p))" "set (added_keys (guard_gone hr api j p)) = set (added_keys p)"
      using keys by (metis mset_eq_imp_distinct_iff, metis mset_eq_setD)
    moreover have "rows s = rows (sp_table p)" using delete_rows [OF assms(1) d] Inl by simp
    ultimately show ?thesis using ok(3) rel unfolding table_ok_def by (simp add: g)
  next
    case (Inr u)
    have g: "guard_gone hr api j p = \<lparr>sp_guards = remove_at j (sp_guards p), sp_table = s, sp_left = sp_left p\<rparr>"
      using d Inr by (simp add: guard_gone_def)
    have "added_keys (guard_gone hr api j p) = ?rest" "sp_guards (guard_gone hr api j p) = remove_at j (sp_guards p)"
      by (simp_all add: g added_keys_def)
    moreover have "rows (sp_table (guard_gone hr api j p)) = (rows (sp_table p))(?k := None)"
      using delete_rows [OF assms(1) d] Inr g by simp
    moreover have "if key \<in> set ?rest then before key = None \<and> ((rows (sp_table p))(?k := None)) key \<noteq> None
        else ((rows (sp_table p))(?k := None)) key = before key" for key
      using ok(3) [of key] keys by (cases "key = ?k") auto
    moreover have "distinct ?rest" using keys(1) by simp
    ultimately show ?thesis using rel unfolding table_ok_def by (intro conjI allI) (simp_all only:)
  qed
qed

lemma guard_goes:
  assumes "table_ok rows before p" "j < length (sp_guards p)"
  shows "ssl_do hr api (Unbind j) p = guard_gone hr api j p" "ssl_do hr api (DropGuard j) p = guard_gone hr api j p"
proof -
  have "\<not> sb_released (sp_guards p ! j)" using assms by (simp add: table_ok_def)
  then show "ssl_do hr api (Unbind j) p = guard_gone hr api j p" "ssl_do hr api (DropGuard j) p = guard_gone hr api j p"
    using assms(2) by (simp_all add: guard_gone_def unbind_deletes_once binding_drop_def Let_def split: prod.split)
qed

lemma ssl_do_ok:
  assumes "ssl_documented sizeof_set api rows room" "table_ok rows before p"
  shows "table_ok rows before (ssl_do hr api a p)"
proof (cases a)
  case (BindCert endpoint thumbprint store app)
  obtain r s' where b: "bind_ssl_certificate hr api endpoint thumbprint store app (sp_table p) = (r, s')" by fastforce
  show ?thesis
  proof (cases r)
    case (Inl e)
    with bind_rows [OF assms(1) b] assms(2) b BindCert show ?thesis by (simp add: table_ok_def added_keys_def)
  next
    case (Inr g)
    with bind_rows [OF assms(1) b] assms(2) have "row_key endpoint \<notin> set (added_keys p)" "before (row_key endpoint) = None"
      by (auto simp: table_ok_def split: if_splits dest: spec [of _ "row_key endpoint"])
    with bind_rows [OF assms(1) b] assms(2) b BindCert Inr show ?thesis by (auto simp: table_ok_def added_keys_def)
  qed
next
  case (Unbind j)
  then show ?thesis using guard_gone_ok [OF assms] guard_goes(1) [OF assms(2)] assms(2)
    by (cases "j < length (sp_guards p)") simp_all
next
  case (DropGuard j)
  then show ?thesis using guard_gone_ok [OF assms] guard_goes(2) [OF assms(2)] assms(2)
    by (cases "j < length (sp_guards p)") simp_all
qed

lemma ssl_run_ok:
  assumes "ssl_documented sizeof_set api rows room" "table_ok rows before p"
  shows "table_ok rows before (ssl_run hr api acts p)"
  unfolding ssl_run_def using assms(2) by (induction acts arbitrary: p) (auto simp: ssl_do_ok [OF assms(1)])

text \<open>Where the process may delete every row that is there, nothing is left.\<close>

definition deletes_granted :: "'s ssl_api \<Rightarrow> 's ssl_rows \<Rightarrow> bool" where
  "deletes_granted api rows \<longleftrightarrow> (\<forall>s img. rows s (ip_port_key img) \<noteq> None \<longrightarrow> fst (sa_delete api s img) = 0)"

lemma nothing_left:
  assumes "ssl_documented sizeof_set api rows room" "deletes_granted api rows" "table_ok rows before p" "sp_left p = []"
  shows "sp_left (ssl_do hr api a p) = []"
proof -
  have gone: "sp_left (guard_gone hr api j p) = []" if j: "j < length (sp_guards p)" for j
  proof -
    let ?e = "sb_endpoint (sp_guards p ! j)"
    have "row_key ?e \<in> set (added_keys p)" using j by (auto simp: added_keys_def)
    then have "rows (sp_table p) (row_key ?e) \<noteq> None" using assms(3) unfolding table_ok_def by meson
    then have "fst (sa_delete api (sp_table p) (ip_port_new ?e)) = 0" using assms(2) unfolding deletes_granted_def by blast
    then obtain s where "sa_delete api (sp_table p) (ip_port_new ?e) = (0, s)" by (metis prod.collapse)
    then show ?thesis using assms(4) by (simp add: guard_gone_def delete_binding_def ssl_check_def)
  qed
  show ?thesis
  proof (cases a)
    case (BindCert endpoint thumbprint store app)
    with assms(4) show ?thesis by (auto split: prod.split sum.split)
  next
    case (Unbind j)
    then show ?thesis using gone guard_goes(1) [OF assms(3)] assms(4) by (cases "j < length (sp_guards p)") simp_all
  next
    case (DropGuard j)
    then show ?thesis using gone guard_goes(2) [OF assms(3)] assms(4) by (cases "j < length (sp_guards p)") simp_all
  qed
qed

lemma ssl_run_nothing_left:
  assumes "ssl_documented sizeof_set api rows room" "deletes_granted api rows" "table_ok rows before p" "sp_left p = []"
  shows "sp_left (ssl_run hr api acts p) = []"
  unfolding ssl_run_def using assms(3,4)
  by (induction acts arbitrary: p) (simp_all add: ssl_do_ok [OF assms(1)] nothing_left [OF assms(1,2)])

section \<open>Properties\<close>

text \<open>
  Property C37. A certificate bound is the certificate found: after a bind that succeeded, the query of the endpoint, and
  of any other with the same address and port, whatever its flow information and scope, gives back its thumbprint; the
  query of every other address or port answers what it did before; the address and port cannot be bound again; and an
  \<^verbatim>\<open>unbind\<close> that succeeded leaves the table as it was before the bind.
\<close>

theorem ssl_binding_round_trip:
  assumes "ssl_documented sizeof_set api rows room"
    and "wf_addr endpoint" "length thumbprint = THUMBPRINT_LEN"
    and "bind_ssl_certificate hr api endpoint thumbprint store app s = (Inr b, s')"
  shows "(\<forall>same. wf_addr same \<and> endpoint_of same = endpoint_of endpoint \<longrightarrow>
         query_ssl_binding sizeof_set hr api same s' s' = Some (Inr (Some thumbprint)) \<and>
         (\<exists>e. fst (bind_ssl_certificate hr api same thumbprint' store' app' s') = Inl e))
    \<and> (\<forall>other. wf_addr other \<and> endpoint_of other \<noteq> endpoint_of endpoint \<longrightarrow>
         query_ssl_binding sizeof_set hr api other s' s' = query_ssl_binding sizeof_set hr api other s s)
    \<and> (\<forall>s''. unbind hr api b s' = (Inr (), s'') \<longrightarrow> rows s'' = rows s)"
proof -
  let ?k = "row_key endpoint"
  from bind_rows [OF assms(1,4)] obtain p where b: "sb_endpoint b = endpoint" "rows s ?k = None" "rows s' = (rows s)(?k \<mapsto> p)"
    and p: "read_thumbprint p = Some thumbprint" using thumbprint_read [OF assms(3)] by auto
  note q = documented_query [OF assms(1)]
  have "\<exists>e. fst (bind_ssl_certificate hr api same thumbprint' store' app' s') = Inl e" if "row_key same = ?k" for same
    using bind_rows [OF assms(1), of hr same thumbprint' store' app' s'] b(3) that
    by (cases "bind_ssl_certificate hr api same thumbprint' store' app' s'") (auto split: sum.splits)
  moreover have "rows s'' = rows s" if "unbind hr api b s' = (Inr (), s'')" for s''
    using delete_rows [OF assms(1)] that b by (fastforce simp: unbind_deletes_once)
  ultimately show ?thesis using b(3) p row_key assms(2) by (simp add: q)
qed

text \<open>
  Property C38. Guards clean up after themselves: whatever certificates a program binds, unbinds and drops the guards of,
  in any order, and whichever of the calls fail, the rows it added are, one each, those of the guards it still holds and
  those whose guard went with a delete that failed; every other row is as it was before the program started. So a program
  that has given up its guards, and none of them with a failed delete, leaves the machine's table unchanged; and where
  the process may delete the rows that are there, no delete fails.
\<close>

theorem ssl_table_restored:
  assumes "ssl_documented sizeof_set api rows room"
    and "p = ssl_run hr api acts \<lparr>sp_guards = [], sp_table = s, sp_left = []\<rparr>"
  shows "distinct (added_keys p)
    \<and> (\<forall>key. if key \<in> set (added_keys p)
         then rows s key = None \<and> rows (sp_table p) key \<noteq> None else rows (sp_table p) key = rows s key)
    \<and> (sp_guards p = [] \<and> sp_left p = [] \<longrightarrow> rows (sp_table p) = rows s)
    \<and> (deletes_granted api rows \<longrightarrow> sp_left p = [])"
proof -
  have start: "table_ok rows (rows s) \<lparr>sp_guards = [], sp_table = s, sp_left = []\<rparr>" by (simp add: table_ok_def added_keys_def)
  from ssl_run_ok [OF assms(1) start] assms(2) have "table_ok rows (rows s) p" by simp
  moreover have "sp_left p = []" if "deletes_granted api rows"
    using ssl_run_nothing_left [OF assms(1) that start] assms(2) by simp
  ultimately show ?thesis by (auto simp: table_ok_def added_keys_def)
qed

section \<open>Witnesses\<close>

text \<open>A table as an association from keys to rows, each of which takes a hundred bytes.\<close>

definition plain_table :: "(ssl_key option \<rightharpoonup> ssl_param) ssl_api" where
  "plain_table =
     \<lparr>sa_set = (\<lambda>s img p. let k = ip_port_key img in
        if s k = None then (0, s(k \<mapsto> p)) else (ERROR_ALREADY_EXISTS_SSL, s)),
      sa_delete = (\<lambda>s img. let k = ip_port_key img in
        if s k = None then (ERROR_FILE_NOT_FOUND_SSL, s) else (0, s(k := None))),
      sa_query = (\<lambda>s img n. case s (ip_port_key img) of
          None \<Rightarrow> (ERROR_FILE_NOT_FOUND_SSL, 0, \<lparr>SslHashLength = 0, pSslHash = None, AppId = 0, pSslCertStoreName = []\<rparr>)
        | Some p \<Rightarrow> if 100 \<le> n then (0, 100, p) else (ERROR_INSUFFICIENT_BUFFER_SSL, 100, p))\<rparr>"

lemma plain_table_documented: "ssl_documented 88 plain_table id (\<lambda>_. 100)" "deletes_granted plain_table id"
  by (auto simp: ssl_documented_def deletes_granted_def plain_table_def ssl_codes Let_def)

text \<open>The same, with every delete refused for lack of rights.\<close>

definition refusing_table :: "(ssl_key option \<rightharpoonup> ssl_param) ssl_api" where
  "refusing_table = plain_table\<lparr>sa_delete := (\<lambda>s img. (ERROR_ACCESS_DENIED_SSL, s))\<rparr>"

lemma refusing_table_documented: "ssl_documented 88 refusing_table id (\<lambda>_. 100)"
  by (auto simp: ssl_documented_def refusing_table_def plain_table_def ssl_codes Let_def)

text \<open>Bound without a scope, found with one.\<close>

theorem ssl_binding_round_trip_witness:
  "\<exists>b s'. bind_ssl_certificate hr_win32 plain_table (V6 (replicate 16 0) 443 0 0) (replicate 20 7) [77, 89] 1 Map.empty = (Inr b, s')
     \<and> query_ssl_binding 88 hr_win32 plain_table (V6 (replicate 16 0) 443 1 2) s' s' = Some (Inr (Some (replicate 20 7)))"
proof -
  let ?e = "V6 (replicate 16 0) 443 0 0"
  obtain b s' where b: "bind_ssl_certificate hr_win32 plain_table ?e (replicate 20 7) [77, 89] 1 Map.empty = (Inr b, s')"
    by (simp add: bind_ssl_certificate_def plain_table_def ssl_check_def Let_def)
  have wf: "wf_addr (V6 (replicate 16 0) 443 x y)" "endpoint_of (V6 (replicate 16 0) 443 x y) = endpoint_of ?e" for x y
    by (simp_all add: wf_addr_def endpoint_of_def family_of_def)
  have "length (replicate 20 (7 :: u8)) = THUMBPRINT_LEN" by (simp add: THUMBPRINT_LEN_def)
  from ssl_binding_round_trip [OF plain_table_documented(1) wf(1) this b, THEN conjunct1, rule_format, OF conjI [OF wf], of 1 2] b
  show ?thesis by blast
qed

theorem ssl_table_restored_witness:
  "let acts = [BindCert (V4 [0, 0, 0, 0] 443) (replicate 20 7) [77, 89] 1, BindCert (V4 [0, 0, 0, 0] 443) (replicate 20 8) [77, 89] 1, DropGuard 0];
     p = ssl_run hr_win32 plain_table acts \<lparr>sp_guards = [], sp_table = Map.empty, sp_left = []\<rparr>;
     q = ssl_run hr_win32 refusing_table acts \<lparr>sp_guards = [], sp_table = Map.empty, sp_left = []\<rparr>
   in sp_guards p = [] \<and> sp_table p = Map.empty \<and>
     sp_guards q = [] \<and> sp_left q = [V4 [0, 0, 0, 0] 443] \<and> sp_table q (row_key (V4 [0, 0, 0, 0] 443)) \<noteq> None"
proof -
  let ?acts = "[BindCert (V4 [0, 0, 0, 0] 443) (replicate 20 7) [77, 89] 1,
    BindCert (V4 [0, 0, 0, 0] 443) (replicate 20 8) [77, 89] 1, DropGuard 0]"
  let ?start = "\<lparr>sp_guards = [], sp_table = Map.empty, sp_left = []\<rparr>"
  let ?p = "ssl_run hr_win32 plain_table ?acts ?start" let ?q = "ssl_run hr_win32 refusing_table ?acts ?start"
  have p: "sp_guards ?p = []"
    by (simp add: ssl_run_def bind_ssl_certificate_def plain_table_def ssl_check_def remove_at_def binding_drop_def ssl_codes Let_def)
  have q: "sp_guards ?q = []" "sp_left ?q = [V4 [0, 0, 0, 0] 443]"
    by (simp_all add: ssl_run_def bind_ssl_certificate_def refusing_table_def plain_table_def ssl_check_def remove_at_def
        binding_drop_def delete_binding_def ssl_codes Let_def)
  from ssl_table_restored [OF plain_table_documented(1) refl, of hr_win32 ?acts Map.empty] p plain_table_documented(2)
  have "sp_table ?p = Map.empty" by simp
  moreover have "sp_table ?q (row_key (V4 [0, 0, 0, 0] 443)) \<noteq> None"
    using ssl_table_restored [OF refusing_table_documented refl, of hr_win32 ?acts Map.empty, THEN conjunct2, THEN conjunct1,
        THEN spec, of "row_key (V4 [0, 0, 0, 0] 443)"] q
    by (simp add: added_keys_def)
  ultimately show ?thesis using p q by (simp add: Let_def)
qed

end
