(* ===== verification/Tonic_Channel.thy ===== *)
theory Tonic_Channel
  imports Client
begin

text \<open>
  The transport of gRPC clients: \<^verbatim>\<open>crates/winasio-tonic/src/channel.rs\<close>. Taking a \<^verbatim>\<open>Uri\<close> apart and putting one together
  are the \<^verbatim>\<open>http\<close> crate's; the first gives its scheme, authority and path, the second is an argument.
\<close>

section \<open>Channels\<close>

type_synonym uri_parts = "str option \<times> str option \<times> str option"

definition into_parts :: "uri \<Rightarrow> uri_parts" where
  "into_parts u = (uri_scheme u, uri_authority u, uri_path_and_query u)"

definition root_path :: str where "root_path = [47]"

definition origin_of :: "(uri_parts \<Rightarrow> uri option) \<Rightarrow> uri \<Rightarrow> uri" where
  "origin_of from_parts u =
     (case into_parts u of (scheme, authority, _) \<Rightarrow>
        case from_parts (scheme, authority, Some root_path) of Some v \<Rightarrow> v | None \<Rightarrow> u)"

definition with_origin :: "(uri_parts \<Rightarrow> uri option) \<Rightarrow> uri \<Rightarrow> ('e, 'm) http_request \<Rightarrow> ('e, 'm) http_request" where
  "with_origin from_parts origin q =
     (let path_and_query = (case uri_path_and_query (hq_uri q) of Some t \<Rightarrow> t | None \<Rightarrow> root_path) in
      case into_parts origin of (scheme, authority, _) \<Rightarrow>
        case from_parts (scheme, authority, Some path_and_query) of Some u \<Rightarrow> q\<lparr>hq_uri := u\<rparr> | None \<Rightarrow> q)"

record WinHttpChannel =
  ch_client :: Client
  ch_origin :: uri

definition channel_from_client :: "(uri_parts \<Rightarrow> uri option) \<Rightarrow> Client \<Rightarrow> uri \<Rightarrow> WinHttpChannel" where
  "channel_from_client from_parts client origin = \<lparr>ch_client = client, ch_origin = origin_of from_parts origin\<rparr>"

text \<open>The second component of a client is the cache of its probe, which every clone shares.\<close>

definition channel_with_relaxations ::
  "wh_api \<Rightarrow> (uri_parts \<Rightarrow> uri option) \<Rightarrow> uri \<Rightarrow> str \<Rightarrow> CertificateRelaxations \<Rightarrow> wh_world \<Rightarrow>
   (ClientConfigError + WinHttpChannel \<times> u8) \<times> wh_world" where
  "channel_with_relaxations api from_parts origin agent relaxations w =
     try_or (client_build api ((client_builder agent)\<lparr>cb_http2 := True, cb_relaxations := relaxations\<rparr>) w)
       (\<lambda>e w. (Inl e, w)) (\<lambda>(client, cache) w. (Inr (channel_from_client from_parts client origin, cache), w))"

definition channel_new ::
  "wh_api \<Rightarrow> (uri_parts \<Rightarrow> uri option) \<Rightarrow> uri \<Rightarrow> str \<Rightarrow> wh_world \<Rightarrow> (ClientConfigError + WinHttpChannel \<times> u8) \<times> wh_world" where
  "channel_new api from_parts origin agent w =
     try_or (client_build api ((client_builder agent)\<lparr>cb_http2 := True\<rparr>) w)
       (\<lambda>e w. (Inl e, w)) (\<lambda>(client, cache) w. (Inr (channel_from_client from_parts client origin, cache), w))"

definition channel_poll_ready :: "WinHttpChannel \<Rightarrow> ('e RequestError + unit) poll" where
  "channel_poll_ready ch = Ready (Inr ())"

definition channel_call ::
  "(u32 \<Rightarrow> hresult) \<Rightarrow> wh_api \<Rightarrow> ('m, 'z) http_scheme \<Rightarrow> (nat \<Rightarrow> nat option) \<Rightarrow> (uri_parts \<Rightarrow> uri option) \<Rightarrow> client_io \<Rightarrow> WinHttpChannel \<Rightarrow>
   ('e, 'm) http_request \<Rightarrow> client_state \<Rightarrow> ('e RequestError + ('e, 'm) http_response) option \<times> client_state" where
  "channel_call hr api H status_from_u16 from_parts io ch q cs =
     client_request hr api H status_from_u16 io (ch_client ch) (with_origin from_parts (ch_origin ch) q) cs"

section \<open>Where a request goes\<close>

text \<open>A call that names a target names this one.\<close>

fun goes_to :: "Target \<Rightarrow> wh_ev \<Rightarrow> bool" where
  "goes_to t (ConnectionOpened _ _ host port) \<longleftrightarrow> host = target_host t \<and> port = target_port t"
| "goes_to t (RequestOpened _ _ _ object _ flags) \<longleftrightarrow>
     object = target_object t \<and> (flags AND WINHTTP_FLAG_SECURE \<noteq> 0 \<longleftrightarrow> target_secure t)"
| "goes_to t _ \<longleftrightarrow> True"

definition calls_only :: "(wh_ev \<Rightarrow> bool) \<Rightarrow> wh_world \<Rightarrow> wh_world \<Rightarrow> bool" where
  "calls_only good w w' \<longleftrightarrow> (\<exists>new. w_log w' = w_log w @ new \<and> list_all good new)"

lemma calls_refl [simp]: "calls_only good w w"
  by (simp add: calls_only_def)

lemma calls_trans: "calls_only good u v \<Longrightarrow> calls_only good v w \<Longrightarrow> calls_only good u w"
  by (auto simp: calls_only_def)

lemma calls_emit: "calls_only good u v \<Longrightarrow> good e \<Longrightarrow> calls_only good u (emit e v)"
  by (auto simp: calls_only_def)

lemma calls_fields [simp]:
  "calls_only good u (w\<lparr>wx_armed := a\<rparr>) = calls_only good u w" "calls_only good u (w\<lparr>wx_next := n\<rparr>) = calls_only good u w"
  "calls_only good u (w\<lparr>wx_strong := s\<rparr>) = calls_only good u w"
  by (simp_all add: calls_only_def)

lemma calls_drop: "calls_only (goes_to t) u w \<Longrightarrow> calls_only (goes_to t) u (wh_drop h w)"
  by (auto simp: calls_only_def wh_drop_def Let_def log_drop split: option.splits)

lemma calls_context [simp]:
  "calls_only good u (context_drop c w) = calls_only good u w" "calls_only good u (context_clone c w) = calls_only good u w"
  "calls_only good u (handle_clone h w) = calls_only good u w" "calls_only good u (handle_from_raw h w) = calls_only good u w"
  by (simp_all add: calls_only_def context_drop_def context_clone_def)

lemma calls_drops:
  "calls_only (goes_to t) u w \<Longrightarrow> calls_only (goes_to t) u (connection_drop c w)"
  "calls_only (goes_to t) u w \<Longrightarrow> calls_only (goes_to t) u (request_drop r w)"
  by (simp_all add: connection_drop_def request_drop_def calls_drop)

lemma calls_arm: "calls_only (goes_to t) u w \<Longrightarrow> calls_only (goes_to t) u (snd (arm api h s w))"
  by (auto simp: arm_def context_alloc_def wh_call_def try_or_def Let_def intro!: calls_drop calls_emit split: option.splits)

lemma calls_connect: "calls_only (goes_to t) u w \<Longrightarrow> calls_only (goes_to t) u (snd (session_connect api s (target_host t) (target_port t) w))"
  by (simp add: session_connect_def Let_def calls_emit)

lemma calls_open:
  "calls_only (goes_to t) u w \<Longrightarrow>
   calls_only (goes_to t) u (snd (open_request_with api c verb (target_object t) accepts (target_secure t) flags w))"
  by (auto simp: open_request_with_def Let_def intro!: calls_arm calls_emit)

lemma calls_option:
  "calls_only (goes_to t) u w \<Longrightarrow> calls_only (goes_to t) u (snd (relax_if_asked api r relaxations w))"
  "calls_only (goes_to t) u w \<Longrightarrow> calls_only (goes_to t) u (snd (enable_http2 api r w))"
  by (simp_all add: relax_if_asked_def relax_certificate_validation_def enable_http2_def wh_call_def calls_emit)

lemma calls_probe:
  assumes "calls_only (goes_to t) u (cs_world cs)"
  shows "calls_only (goes_to t) u (cs_world (snd (probe_if_needed hr api c t exact cs)))"
  using calls_open [OF assms, of api c "map of_nat [71, 69, 84]" "[]" "\<lparr>automatic_chunking = True\<rparr>"] assms
  by (auto simp: probe_if_needed_def in_world_def supports_automatic_chunking_def intro: calls_drops split: prod.splits sum.splits)

text \<open>Requests are made of attempts: the calls of one are those of its step, of its drops and of what follows it.\<close>

lemma calls_attempt:
  assumes "calls_only good u (snd (f (cs_world cs)))" "\<And>w. calls_only good u w \<Longrightarrow> calls_only good u (drops w)"
    and "\<And>a cs. calls_only good u (cs_world cs) \<Longrightarrow> calls_only good u (cs_world (snd (k a cs)))"
  shows "calls_only good u (cs_world (snd (attempt stage f drops k cs)))"
proof (cases "f (cs_world cs)")
  case (Pair r w)
  with assms(1) have "calls_only good u w" by simp
  with Pair assms(2) [OF this] assms(3) [of "cs\<lparr>cs_world := w\<rparr>"] show ?thesis
    by (cases r) (simp_all add: attempt_def in_world_def)
qed

lemma calls_finish:
  "calls_only (goes_to t) u (cs_world cs) \<Longrightarrow> calls_only (goes_to t) u (cs_world (snd (finish_request c r out cs)))"
  by (auto simp: finish_request_def intro!: calls_drops split: prod.splits option.splits sum.splits)

lemma calls_h2_send:
  "calls_only (goes_to t) u (cs_world cs) \<Longrightarrow>
   calls_only (goes_to t) u (cs_world (snd (h2_send hr api H sf io c q connection t block framing cs)))"
  unfolding h2_send_def by (intro calls_attempt calls_open calls_option calls_drops calls_finish) assumption+

lemma calls_request:
  assumes "decompose (hq_uri q) = (Inr t :: 'e RequestError + Target)"
  shows "calls_only (goes_to t) (cs_world cs) (cs_world (snd (client_request hr api H sf io c (q :: ('e, 'm) http_request) cs)))"
proof -
  have "calls_only (goes_to t) (cs_world cs) (cs_world (snd (http1_request hr api H sf io c q cs)))"
    unfolding http1_request_def assms sum.case open_request_def [abs_def]
    by (auto intro!: calls_attempt calls_connect calls_open calls_option calls_drops calls_finish split: sum.split prod.split)
  moreover have "calls_only (goes_to t) (cs_world cs) (cs_world (snd (h2_request hr api H sf io c q cs)))"
    unfolding h2_request_def assms sum.case
    by (auto intro!: calls_attempt calls_connect calls_drops calls_h2_send split: sum.split prod.split)
       (metis calls_probe snd_conv)+
  ultimately show ?thesis by (simp add: client_request_def)
qed

section \<open>The origin\<close>

text \<open>
  What the \<^verbatim>\<open>http\<close> crate documents: the parts come back as they were given, the host and the port are read off the
  authority, and a scheme, an authority and a path make a \<^verbatim>\<open>Uri\<close>, while a scheme without an authority does not.
\<close>

definition uri_crate :: "(uri_parts \<Rightarrow> uri option) \<Rightarrow> bool" where
  "uri_crate from_parts \<longleftrightarrow>
     (\<forall>parts u. from_parts parts = Some u \<longrightarrow> into_parts u = parts)
     \<and> (\<forall>s s' a p p' u v. from_parts (s, a, p) = Some u \<and> from_parts (s', a, p') = Some v \<longrightarrow>
          uri_host u = uri_host v \<and> uri_port u = uri_port v)
     \<and> (\<forall>s a p. from_parts (Some s, Some a, Some p) \<noteq> None)
     \<and> (\<forall>s p. from_parts (Some s, None, p) = None)"

definition at_object :: "Target \<Rightarrow> str option \<Rightarrow> Target" where
  "at_object t path = t\<lparr>target_object := encode_utf16 (case path of Some p \<Rightarrow> if p = [] then root_path else p | None \<Rightarrow> root_path)\<rparr>"

text \<open>The same authority and scheme with another path.\<close>

lemma decompose_path:
  assumes "decompose u = (Inr t :: 'e RequestError + Target)" "uri_scheme v = uri_scheme u" "uri_authority v = uri_authority u"
    "uri_host v = uri_host u" "uri_port v = uri_port u"
  shows "decompose v = (Inr (at_object t (uri_path_and_query v)) :: 'e RequestError + Target)"
  using assms by (auto simp: decompose_def at_object_def root_path_def Let_def split: option.splits if_splits)

lemma replaced_path:
  assumes "uri_crate from_parts" "from_parts (into_parts u) = Some u" "uri_scheme u = Some s"
  obtains v where "from_parts (uri_scheme u, uri_authority u, Some path) = Some v" "from_parts (into_parts v) = Some v"
    "uri_scheme v = uri_scheme u" "uri_authority v = uri_authority u" "uri_host v = uri_host u" "uri_port v = uri_port u"
    "uri_path_and_query v = Some path"
proof -
  obtain a where a: "uri_authority u = Some a"
    using assms unfolding uri_crate_def into_parts_def by (metis option.exhaust option.distinct(1))
  then obtain v where v: "from_parts (uri_scheme u, uri_authority u, Some path) = Some v"
    using assms(1,3) unfolding uri_crate_def by (metis not_None_eq)
  then have "into_parts v = (uri_scheme u, uri_authority u, Some path)" using assms(1) unfolding uri_crate_def by blast
  moreover have "uri_host v = uri_host u \<and> uri_port v = uri_port u"
    using assms(1,2) v unfolding uri_crate_def into_parts_def by blast
  ultimately show thesis using v by (intro that [of v]) (simp_all add: into_parts_def)
qed

lemma with_origin_target:
  assumes "uri_crate from_parts" "from_parts (into_parts origin) = Some origin"
    and "decompose origin = (Inr t :: 'e RequestError + Target)"
  shows "decompose (hq_uri (with_origin from_parts (origin_of from_parts origin) q)) =
    (Inr (at_object t (uri_path_and_query (hq_uri q))) :: 'e RequestError + Target)"
proof -
  let ?path = "case uri_path_and_query (hq_uri q) of Some t \<Rightarrow> t | None \<Rightarrow> root_path"
  from assms(3) obtain s where s: "uri_scheme origin = Some s" by (auto simp: decompose_def split: option.splits)
  obtain o1 where o1: "from_parts (uri_scheme origin, uri_authority origin, Some root_path) = Some o1"
    "from_parts (into_parts o1) = Some o1" "uri_scheme o1 = uri_scheme origin" "uri_authority o1 = uri_authority origin"
    "uri_host o1 = uri_host origin" "uri_port o1 = uri_port origin"
    by (rule replaced_path [OF assms(1,2) s])
  have origin: "origin_of from_parts origin = o1" using o1(1) by (simp add: origin_of_def into_parts_def)
  have "uri_scheme o1 = Some s" using o1(3) s by simp
  from replaced_path [OF assms(1) o1(2) this] obtain v where
    v: "from_parts (uri_scheme o1, uri_authority o1, Some ?path) = Some v" "uri_scheme v = uri_scheme o1"
    "uri_authority v = uri_authority o1" "uri_host v = uri_host o1" "uri_port v = uri_port o1" "uri_path_and_query v = Some ?path"
    by metis
  have moved: "hq_uri (with_origin from_parts o1 q) = v" using v(1) by (simp add: with_origin_def into_parts_def Let_def)
  have "decompose v = (Inr (at_object t (uri_path_and_query v)) :: 'e RequestError + Target)"
    by (rule decompose_path [OF assms(3)]) (simp_all add: v o1)
  with v(6) moved origin show ?thesis by (simp add: at_object_def root_path_def split: option.splits)
qed

section \<open>Properties\<close>

text \<open>
  Property C39. A call on a channel goes to its origin and nowhere else: whatever scheme and authority the request
  itself names, every connection opened is to the host and port of the origin, and every request on it, the probe for
  chunking included, is for the request's own path, secure exactly when the origin is, on every path through the
  client, with a response, with an error and when the call is dropped. A channel made by \<^verbatim>\<open>new\<close> speaks HTTP/2.
\<close>

theorem channel_reaches_its_origin:
  fixes q :: "('e, 'm) http_request"
  assumes "uri_crate from_parts" "from_parts (into_parts origin) = Some origin"
    and "decompose origin = (Inr t :: 'e RequestError + Target)"
    and "ch = channel_from_client from_parts client origin"
  shows "calls_only (goes_to (at_object t (uri_path_and_query (hq_uri q)))) (cs_world cs)
      (cs_world (snd (channel_call hr api H sf from_parts io ch q cs)))
    \<and> (\<forall>ch' cache w w'. channel_new api from_parts origin agent w = (Inr (ch', cache), w') \<longrightarrow>
         cl_http2 (ch_client ch') \<and> ch_origin ch' = ch_origin ch)"
proof -
  have "ch_origin ch = origin_of from_parts origin" using assms(4) by (simp add: channel_from_client_def)
  then have "calls_only (goes_to (at_object t (uri_path_and_query (hq_uri q)))) (cs_world cs)
      (cs_world (snd (channel_call hr api H sf from_parts io ch q cs)))"
    unfolding channel_call_def using with_origin_target [OF assms(1-3)] by (intro calls_request) simp
  moreover have "cl_http2 (ch_client ch') \<and> ch_origin ch' = ch_origin ch"
    if "channel_new api from_parts origin agent w = (Inr (ch', cache), w')" for ch' cache w w'
    using that assms(4)
    by (auto simp: channel_new_def channel_from_client_def client_build_def try_or_def split: prod.splits sum.splits)
  ultimately show ?thesis by blast
qed

text \<open>Authorities that are bare hosts.\<close>

definition host_uri :: "uri_parts \<Rightarrow> uri option" where
  "host_uri parts =
     (case parts of (scheme, authority, p) \<Rightarrow>
        if scheme \<noteq> None \<and> (authority = None \<or> p = None) then None
        else Some \<lparr>uri_scheme = scheme, uri_host = authority, uri_authority = authority, uri_port = None, uri_path_and_query = p\<rparr>)"

theorem channel_reaches_its_origin_witness:
  "\<exists>origin t. host_uri (Some (chars ''https''), Some (chars ''h''), Some root_path) = Some origin
     \<and> decompose origin = (Inr t :: unit RequestError + Target) \<and> target_port t = 443
     \<and> calls_only (goes_to (at_object t None)) (cs_world its_state)
         (cs_world (snd (channel_call hr_win32 counting_wh list_http Some host_uri willing
            (channel_from_client host_uri its_client origin) small_request its_state)))"
proof -
  have crate: "uri_crate host_uri" by (auto simp: uri_crate_def host_uri_def into_parts_def split: prod.splits if_splits)
  obtain origin t where made: "host_uri (Some (chars ''https''), Some (chars ''h''), Some root_path) = Some origin"
    and parts: "host_uri (into_parts origin) = Some origin"
    and t: "decompose origin = (Inr t :: unit RequestError + Target)" "target_port t = 443"
    by (simp add: host_uri_def into_parts_def decompose_def chars_def)
  have "uri_path_and_query (hq_uri small_request) = None" by (simp add: small_request_def)
  with channel_reaches_its_origin [OF crate parts t(1) refl, of small_request its_state hr_win32 counting_wh list_http Some willing]
    made t show ?thesis by auto
qed

end
