(* ===== verification/Threadpool_Life.thy ===== *)
theory Threadpool_Life
  imports Resource_Log Wait_Event
begin

text \<open>
  The registration of a handle with the thread pool: \<^verbatim>\<open>ThreadPoolIo\<close> of \<^verbatim>\<open>iocp/threadpool.rs\<close>, an \<^verbatim>\<open>Arc\<close> around the pool's I/O
  object. The pool must be told before an operation starts, and told again when no callback will come; the object is
  closed when its last clone goes, after the callbacks still due have run. What \<^verbatim>\<open>submit\<close> does to the operation itself is
  \<open>threadpool_submit\<close> of \<open>Wait_Event\<close>; here are its calls to the pool, also when the operation panics.
\<close>

datatype tp_ev =
  TpCreated nat nat | TpStarted nat | TpStartCancelled nat | TpCallback nat | TpIoCancelled nat | TpWaited nat | TpClosed nat

fun tp_opens :: "tp_ev \<Rightarrow> nat option" where
  "tp_opens (TpCreated io _) = Some io"
| "tp_opens _ = None"

fun tp_closes :: "tp_ev \<Rightarrow> nat option" where
  "tp_closes (TpClosed io) = Some io"
| "tp_closes _ = None"

fun tp_uses :: "tp_ev \<Rightarrow> nat option" where
  "tp_uses (TpStarted io) = Some io"
| "tp_uses (TpStartCancelled io) = Some io"
| "tp_uses (TpCallback io) = Some io"
| "tp_uses (TpWaited io) = Some io"
| "tp_uses _ = None"

interpretation tpl: handle_use_log tp_opens tp_closes TpClosed "\<lambda>_. False" tp_uses
proof unfold_locales
  show "tp_opens e = Some h \<Longrightarrow> tp_uses e = None" for e h by (cases e) simp_all
qed simp_all

abbreviation tp_drop :: "nat \<Rightarrow> tp_ev world \<Rightarrow> tp_ev world" where
  "tp_drop \<equiv> handle_drop (\<lambda>_. False) TpClosed"

section \<open>The registration\<close>

text \<open>How the start of an operation ends; a panic leaves through the guard.\<close>

datatype tp_outcome = OpPending | OpInline | OpRefused | OpPanicked

definition start_guard_drop :: "bool \<Rightarrow> nat \<Rightarrow> tp_ev world \<Rightarrow> tp_ev world" where
  "start_guard_drop armed io w = (if armed then emit (TpStartCancelled io) w else w)"

definition pool_submit :: "tp_outcome \<Rightarrow> nat \<Rightarrow> tp_ev world \<Rightarrow> tp_ev world" where
  "pool_submit outcome io w =
     (let w = emit (TpStarted io) w in
      case outcome of
        OpPanicked \<Rightarrow> start_guard_drop True io w
      | OpPending \<Rightarrow> start_guard_drop False io w
      | OpRefused \<Rightarrow> start_guard_drop False io (emit (TpStartCancelled io) w)
      | OpInline \<Rightarrow> start_guard_drop False io (emit (TpStartCancelled io) w))"

text \<open>
  \<^verbatim>\<open>Drop\<close>: the last clone cancels the operations of the handle, waits for the callbacks and closes. \<open>due\<close> is the number of
  callbacks the pool still runs, which the wait is documented to see done.
\<close>

definition registration_drop :: "nat \<Rightarrow> nat \<Rightarrow> nat \<Rightarrow> tp_ev world \<Rightarrow> tp_ev world" where
  "registration_drop handle due io w =
     (if w_refs w io \<le> 1
      then tp_drop io (emit (TpWaited io) ((emit (TpCallback io) ^^ due) (emit (TpIoCancelled handle) w)))
      else tp_drop io w)"

definition threadpool_io_new ::
  "(u32 \<Rightarrow> hresult) \<Rightarrow> (tp_ev list \<Rightarrow> nat \<Rightarrow> hresult + nat) \<Rightarrow> (nat \<Rightarrow> 8 word \<Rightarrow> hresult + unit) \<Rightarrow> nat \<Rightarrow> tp_ev world \<Rightarrow>
   (RegistrationError + nat) \<times> tp_ev world" where
  "threadpool_io_new hr Create SetModes handle w =
     (case Create (w_log w) handle of
        Inl e \<Rightarrow> (Inl (from_association hr e), w)
      | Inr io \<Rightarrow>
          let w = handle_from_raw io (emit (TpCreated io handle) w) in
          (case skip_notification_on_inline_success SetModes handle of
             Inl e \<Rightarrow> (Inl e, registration_drop handle 0 io w)
           | Inr _ \<Rightarrow> (Inr io, w)))"

section \<open>Programs\<close>

text \<open>The clones a program holds, by their object, with the handle; the callbacks due.\<close>

record tp_prog =
  tp_holders :: "(nat \<times> nat) list"
  tp_due :: "nat \<Rightarrow> nat"
  tp_world :: "tp_ev world"

datatype tp_act = TpNew nat | TpClone nat | TpSubmit nat tp_outcome | TpComplete nat | TpDrop nat

fun tp_do ::
  "(u32 \<Rightarrow> hresult) \<Rightarrow> (tp_ev list \<Rightarrow> nat \<Rightarrow> hresult + nat) \<Rightarrow> (nat \<Rightarrow> 8 word \<Rightarrow> hresult + unit) \<Rightarrow> tp_act \<Rightarrow> tp_prog \<Rightarrow> tp_prog" where
  "tp_do hr Create SetModes (TpNew handle) p =
     (case threadpool_io_new hr Create SetModes handle (tp_world p) of
        (Inl _, w) \<Rightarrow> p\<lparr>tp_world := w\<rparr>
      | (Inr io, w) \<Rightarrow> p\<lparr>tp_holders := (io, handle) # tp_holders p, tp_due := (tp_due p)(io := 0), tp_world := w\<rparr>)"
| "tp_do hr Create SetModes (TpClone j) p =
     (if j < length (tp_holders p)
      then p\<lparr>tp_holders := tp_holders p ! j # tp_holders p, tp_world := handle_clone (fst (tp_holders p ! j)) (tp_world p)\<rparr> else p)"
| "tp_do hr Create SetModes (TpSubmit j outcome) p =
     (if j < length (tp_holders p)
      then let io = fst (tp_holders p ! j) in
        p\<lparr>tp_due := (if outcome = OpPending then (tp_due p)(io := tp_due p io + 1) else tp_due p),
          tp_world := pool_submit outcome io (tp_world p)\<rparr>
      else p)"
| "tp_do hr Create SetModes (TpComplete io) p =
     (if 0 < tp_due p io then p\<lparr>tp_due := (tp_due p)(io := tp_due p io - 1), tp_world := emit (TpCallback io) (tp_world p)\<rparr> else p)"
| "tp_do hr Create SetModes (TpDrop j) p =
     (if j < length (tp_holders p)
      then case tp_holders p ! j of (io, handle) \<Rightarrow>
        p\<lparr>tp_holders := remove_at j (tp_holders p),
          tp_due := (if w_refs (tp_world p) io \<le> 1 then (tp_due p)(io := 0) else tp_due p),
          tp_world := registration_drop handle (tp_due p io) io (tp_world p)\<rparr>
      else p)"

definition tp_run ::
  "(u32 \<Rightarrow> hresult) \<Rightarrow> (tp_ev list \<Rightarrow> nat \<Rightarrow> hresult + nat) \<Rightarrow> (nat \<Rightarrow> 8 word \<Rightarrow> hresult + unit) \<Rightarrow> tp_act list \<Rightarrow> tp_prog \<Rightarrow> tp_prog" where
  "tp_run hr Create SetModes acts p = fold (tp_do hr Create SetModes) acts p"

definition tp_start :: tp_prog where
  "tp_start = \<lparr>tp_holders = [], tp_due = (\<lambda>_. 0), tp_world = \<lparr>w_log = [], w_refs = (\<lambda>_. 0)\<rparr>\<rparr>"

definition fresh_pool :: "(tp_ev list \<Rightarrow> nat \<Rightarrow> hresult + nat) \<Rightarrow> bool" where
  "fresh_pool Create \<longleftrightarrow> (\<forall>log H handle io. open_after tp_opens tp_closes log = Some H \<and> Create log handle = Inr io \<longrightarrow> io \<notin> H)"

text \<open>The pool's books: starts, against starts cancelled, callbacks run and callbacks due.\<close>

definition starts_balanced :: "tp_prog \<Rightarrow> bool" where
  "starts_balanced p \<longleftrightarrow>
     (\<forall>io. count_list (w_log (tp_world p)) (TpStarted io) =
        count_list (w_log (tp_world p)) (TpStartCancelled io) + count_list (w_log (tp_world p)) (TpCallback io) + tp_due p io)"

definition tp_ok :: "tp_prog \<Rightarrow> bool" where
  "tp_ok p \<longleftrightarrow>
     tpl.owns (tp_world p) (mset (map fst (tp_holders p))) \<and> starts_balanced p
     \<and> (\<forall>io. 0 < tp_due p io \<longrightarrow> io \<in> set (map fst (tp_holders p)))"

section \<open>The account\<close>

lemma pool_submit_owns:
  "tpl.owns w M \<Longrightarrow> io \<in># M \<Longrightarrow> tpl.owns (pool_submit outcome io w) M"
  by (cases outcome) (auto simp: pool_submit_def start_guard_drop_def Let_def intro!: tpl.owns_use)

lemma pool_submit_log:
  "w_log (pool_submit outcome io w) = w_log w @ TpStarted io # (if outcome = OpPending then [] else [TpStartCancelled io])"
  by (cases outcome) (simp_all add: pool_submit_def start_guard_drop_def Let_def)

lemma callbacks_owns: "tpl.owns w M \<Longrightarrow> io \<in># M \<Longrightarrow> tpl.owns ((emit (TpCallback io) ^^ n) w) M"
  by (induction n) (auto intro!: tpl.owns_use)

lemma callbacks_simps [simp]:
  "w_refs ((emit (TpCallback io) ^^ n) w) = w_refs w"
  "w_log ((emit (TpCallback io) ^^ n) w) = w_log w @ replicate n (TpCallback io)"
  by (induction n) (simp_all add: replicate_append_same)

lemma registration_drop_owns:
  assumes "tpl.owns w (add_mset io M)"
  shows "tpl.owns (registration_drop handle due io w) M"
proof -
  have "tpl.owns (emit (TpWaited io) ((emit (TpCallback io) ^^ due) (emit (TpIoCancelled handle) w))) (add_mset io M)"
    by (intro tpl.owns_use callbacks_owns assms) auto
  with assms show ?thesis by (auto simp: registration_drop_def intro: tpl.owns_drop)
qed

lemma registration_drop_log:
  "w_log (registration_drop handle due io w) =
     w_log w @ (if w_refs w io \<le> 1 then TpIoCancelled handle # replicate due (TpCallback io) @ [TpWaited io, TpClosed io] else [])"
  by (simp add: registration_drop_def log_drop)

lemma count_replicate_ev: "count_list (replicate n a) b = (if a = b then n else 0)"
  by (induction n) auto

lemma tp_new_grants:
  assumes "fresh_pool Create" "tpl.owns w M"
  shows "tpl.grants M (threadpool_io_new hr Create SetModes handle w) (\<lambda>io. {#io#})"
proof (cases "Create (w_log w) handle")
  case (Inr io)
  have "io \<notin># M" using assms(1) Inr tpl.owns_opened [OF assms(2)] unfolding fresh_pool_def by blast
  then have "tpl.owns (handle_from_raw io (emit (TpCreated io handle) w)) (add_mset io M)"
    using assms(2) by (intro tpl.owns_open) auto
  with Inr show ?thesis
    by (auto simp: threadpool_io_new_def Let_def intro: registration_drop_owns split: sum.splits)
qed (use assms in \<open>simp add: threadpool_io_new_def\<close>)

lemma tp_new_log:
  assumes "threadpool_io_new hr Create SetModes handle w = (r, w')"
  shows "count_list (w_log w') e = count_list (w_log w) e \<or> \<not> (\<exists>io. e \<in> {TpStarted io, TpStartCancelled io, TpCallback io})"
proof -
  have "\<exists>new. w_log w' = w_log w @ new \<and> list_all (\<lambda>e. \<not> (\<exists>io. e \<in> {TpStarted io, TpStartCancelled io, TpCallback io})) new"
    using assms by (auto simp: threadpool_io_new_def registration_drop_log Let_def split: sum.splits)
  then show ?thesis by (auto simp: list_all_iff count_list_0_iff)
qed

lemma tp_new_ok:
  assumes "fresh_pool Create" "tp_ok p"
  shows "tp_ok (tp_do hr Create SetModes (TpNew handle) p)"
proof -
  obtain r w' where n: "threadpool_io_new hr Create SetModes handle (tp_world p) = (r, w')" by fastforce
  have logs: "count_list (w_log w') (TpStarted io) = count_list (w_log (tp_world p)) (TpStarted io)"
    "count_list (w_log w') (TpStartCancelled io) = count_list (w_log (tp_world p)) (TpStartCancelled io)"
    "count_list (w_log w') (TpCallback io) = count_list (w_log (tp_world p)) (TpCallback io)" for io
    using tp_new_log [OF n] by blast+
  have g: "tpl.grants (mset (map fst (tp_holders p))) (r, w') (\<lambda>io. {#io#})"
    using tp_new_grants [OF assms(1), of "tp_world p" _ hr SetModes handle] assms(2) n by (simp add: tp_ok_def)
  show ?thesis
  proof (cases r)
    case (Inl e)
    with n g assms(2) logs show ?thesis by (simp add: tp_ok_def starts_balanced_def)
  next
    case (Inr io)
    have "io \<notin> set (map fst (tp_holders p))"
      using n Inr assms tpl.owns_opened [of "tp_world p" "mset (map fst (tp_holders p))"]
      by (fastforce simp: threadpool_io_new_def fresh_pool_def tp_ok_def Let_def split: sum.splits)
    then have "tp_due p io = 0" using assms(2) by (auto simp: tp_ok_def)
    then have "(tp_due p)(io := 0) = tp_due p" by auto
    with Inr n g assms(2) logs show ?thesis by (auto simp: tp_ok_def starts_balanced_def)
  qed
qed

lemma tp_submit_ok:
  assumes "tp_ok p"
  shows "tp_ok (tp_do hr Create SetModes (TpSubmit j outcome) p)"
proof (cases "j < length (tp_holders p)")
  case True
  let ?io = "fst (tp_holders p ! j)"
  have io: "?io \<in> set (map fst (tp_holders p))" using True by simp
  then have "tpl.owns (pool_submit outcome ?io (tp_world p)) (mset (map fst (tp_holders p)))"
    using assms by (intro pool_submit_owns) (auto simp: tp_ok_def)
  with True assms io show ?thesis by (auto simp: tp_ok_def starts_balanced_def pool_submit_log Let_def)
qed (use assms in simp)

lemma tp_drop_ok:
  assumes "tp_ok p"
  shows "tp_ok (tp_do hr Create SetModes (TpDrop j) p)"
proof (cases "j < length (tp_holders p)")
  case True
  obtain io handle where h: "tp_holders p ! j = (io, handle)" by fastforce
  let ?rest = "mset (map fst (remove_at j (tp_holders p)))"
  have m: "mset (map fst (tp_holders p)) = add_mset io ?rest" using mset_remove_at [OF True] h by simp
  then have owns: "tpl.owns (tp_world p) (add_mset io ?rest)" using assms by (simp add: tp_ok_def)
  then have refs: "w_refs (tp_world p) io = Suc (count ?rest io)" by (simp add: tpl.owns_def)
  have rest: "k \<in> set (map fst (remove_at j (tp_holders p)))" if "k \<in> set (map fst (tp_holders p))" "k \<noteq> io" for k
    using that arg_cong [OF m, of set_mset] by auto
  have still: "io \<in> set (map fst (remove_at j (tp_holders p)))" if "\<not> w_refs (tp_world p) io \<le> 1"
    using that refs by (metis Suc_le_mono count_eq_zero_iff le_zero_eq not_less_eq_eq numeral_nat(7) set_mset_mset)
  have "starts_balanced (p\<lparr>tp_holders := remove_at j (tp_holders p),
      tp_due := (if w_refs (tp_world p) io \<le> 1 then (tp_due p)(io := 0) else tp_due p),
      tp_world := registration_drop handle (tp_due p io) io (tp_world p)\<rparr>)"
    using assms by (auto simp: tp_ok_def starts_balanced_def registration_drop_log count_replicate_ev)
  moreover note registration_drop_owns [OF owns, of handle "tp_due p io"]
  moreover have "k \<in> set (map fst (remove_at j (tp_holders p)))"
    if "0 < (if w_refs (tp_world p) io \<le> 1 then (tp_due p)(io := 0) else tp_due p) k" for k
    using that assms rest still unfolding tp_ok_def by (cases "k = io") (auto split: if_splits)
  ultimately show ?thesis using True h by (simp add: tp_ok_def)
qed (use assms in simp)

lemma tp_other_ok:
  assumes "tp_ok p"
  shows "tp_ok (tp_do hr Create SetModes (TpClone j) p)" "tp_ok (tp_do hr Create SetModes (TpComplete io) p)"
proof -
  show "tp_ok (tp_do hr Create SetModes (TpClone j) p)"
    using assms tpl.owns_clone [of "tp_world p" "mset (map fst (tp_holders p))" "fst (tp_holders p ! j)"]
    by (auto simp: tp_ok_def starts_balanced_def)
  show "tp_ok (tp_do hr Create SetModes (TpComplete io) p)"
    using assms by (auto simp: tp_ok_def starts_balanced_def intro!: tpl.owns_use)
qed

lemma tp_do_ok: "fresh_pool Create \<Longrightarrow> tp_ok p \<Longrightarrow> tp_ok (tp_do hr Create SetModes a p)"
  by (cases a) (simp_all only: tp_new_ok tp_submit_ok tp_drop_ok tp_other_ok)

lemma tp_run_ok: "fresh_pool Create \<Longrightarrow> tp_ok p \<Longrightarrow> tp_ok (tp_run hr Create SetModes acts p)"
  unfolding tp_run_def by (induction acts arbitrary: p) (auto simp: tp_do_ok)

lemma tp_start_ok: "tp_ok tp_start"
  by (simp add: tp_ok_def tp_start_def starts_balanced_def tpl.owns_def world_safe_def world_ok_def fun_eq_iff)

text \<open>
  Property C40. The thread pool is told the truth. Whatever a program does with registrations, their clones and
  operations that stay pending, complete at once, are refused or panic: an I/O object is open exactly while a clone of
  it is held, a registration that could not be completed included; every call and every callback finds it open; the
  starts announced are the starts taken back, the callbacks run and those due; and no callback is due for an object
  that was closed.
\<close>

theorem pool_registrations_balanced:
  assumes "fresh_pool Create" and "p = tp_run hr Create SetModes acts tp_start"
  shows "open_after tp_opens tp_closes (w_log (tp_world p)) = Some (set (map fst (tp_holders p)))
    \<and> used_open tp_opens tp_closes tp_uses (w_log (tp_world p))
    \<and> (\<forall>io. count_list (w_log (tp_world p)) (TpStarted io) =
          count_list (w_log (tp_world p)) (TpStartCancelled io) + count_list (w_log (tp_world p)) (TpCallback io) + tp_due p io)
    \<and> (\<forall>io. io \<notin> set (map fst (tp_holders p)) \<longrightarrow> tp_due p io = 0)"
proof -
  from tp_run_ok [OF assms(1) tp_start_ok] assms(2) have "tp_ok p" by simp
  then show ?thesis using tpl.owns_opened [of "tp_world p" "mset (map fst (tp_holders p))"]
    by (auto simp: tp_ok_def starts_balanced_def)
qed

text \<open>A pool that numbers its objects upwards; an operation is pending when the registration is dropped.\<close>

definition next_io :: "tp_ev list \<Rightarrow> nat" where
  "next_io log = Suc (sum_list (map (\<lambda>e. case tp_opens e of Some h \<Rightarrow> h | None \<Rightarrow> 0) log))"

lemma counting_pool_fresh: "fresh_pool (\<lambda>log _. Inr (next_io log))"
proof -
  have "h < next_io log" if "e \<in> set log" "tp_opens e = Some h" for h e log
    using member_le_sum_list [of h "map (\<lambda>e. case tp_opens e of Some s \<Rightarrow> s | None \<Rightarrow> 0) log"] that
    by (force simp: next_io_def less_Suc_eq_le image_iff)
  then have "next_io log \<notin> H" if "open_after tp_opens tp_closes log = Some H" for log H
    using open_after_opened [OF that] by blast
  then show ?thesis by (simp add: fresh_pool_def)
qed

theorem pool_registrations_balanced_witness:
  "let p = tp_run hr_win32 (\<lambda>log _. Inr (next_io log)) (\<lambda>_ _. Inr ()) [TpNew 9, TpSubmit 0 OpPending, TpSubmit 0 OpPanicked, TpDrop 0] tp_start
   in tp_holders p = [] \<and> open_after tp_opens tp_closes (w_log (tp_world p)) = Some {} \<and> tp_due p 1 = 0"
proof -
  let ?acts = "[TpNew 9, TpSubmit 0 OpPending, TpSubmit 0 OpPanicked, TpDrop 0]"
  have "tp_holders (tp_run hr_win32 (\<lambda>log _. Inr (next_io log)) (\<lambda>_ _. Inr ()) ?acts tp_start) = []"
    by (simp add: tp_run_def tp_start_def threadpool_io_new_def skip_notification_on_inline_success_def next_io_def remove_at_def Let_def)
  with pool_registrations_balanced [OF counting_pool_fresh refl, of hr_win32 "\<lambda>_ _. Inr ()" ?acts] show ?thesis by (simp add: Let_def)
qed

end
