(* ===== verification/Httpsys_Ops.thy ===== *)
theory Httpsys_Ops
  imports Httpsys_Queue Stream_Ops Net_Addr Utf
begin

text \<open>
  The operations of the queue that give something back: \<^verbatim>\<open>ReceiveRequest\<close>, \<^verbatim>\<open>ReceiveBody\<close>, \<^verbatim>\<open>CancelRequest\<close> and the sends of
  \<^verbatim>\<open>httpsys/ops\<close> as the methods of \<^verbatim>\<open>RequestQueue\<close> (\<^verbatim>\<open>httpsys/queue.rs\<close>) run them, and the views of a received request
  (\<^verbatim>\<open>httpsys/request.rs\<close>) that \<open>Httpsys_Queue\<close> leaves out. As there, \<open>open1\<close> and \<open>open2\<close> say whether the queue is found open
  when the handle is taken and when the operation is submitted; an operation that stays pending completes with the
  result and the memory the call's record has for it.
\<close>

section \<open>Views of a request\<close>

record HTTP_COOKED_URL =
  pFullUrl :: "u16 list option"
  FullUrlLength :: u16
  pHost :: "u16 list option"
  HostLength :: u16
  pAbsPath :: "u16 list option"
  AbsPathLength :: u16
  pQueryString :: "u16 list option"
  QueryStringLength :: u16

definition slice_u16 :: "u16 list option \<Rightarrow> nat \<Rightarrow> u16 list" where
  "slice_u16 ptr len = (case ptr of None \<Rightarrow> [] | Some units \<Rightarrow> if len = 0 then [] else take len units)"

text \<open>The platform's lengths are in bytes.\<close>

definition full_url_wide :: "HTTP_COOKED_URL \<Rightarrow> u16 list" where
  "full_url_wide c = slice_u16 (pFullUrl c) (unat (FullUrlLength c) div 2)"

definition host_wide :: "HTTP_COOKED_URL \<Rightarrow> u16 list" where
  "host_wide c = slice_u16 (pHost c) (unat (HostLength c) div 2)"

definition path_wide :: "HTTP_COOKED_URL \<Rightarrow> u16 list" where
  "path_wide c = slice_u16 (pAbsPath c) (unat (AbsPathLength c) div 2)"

definition query_wide :: "HTTP_COOKED_URL \<Rightarrow> u16 list" where
  "query_wide c = slice_u16 (pQueryString c) (unat (QueryStringLength c) div 2)"

definition full_url_lossy :: "HTTP_COOKED_URL \<Rightarrow> nat list" where
  "full_url_lossy c = from_utf16_lossy (full_url_wide c)"

definition host_lossy :: "HTTP_COOKED_URL \<Rightarrow> nat list" where
  "host_lossy c = from_utf16_lossy (host_wide c)"

definition path_lossy :: "HTTP_COOKED_URL \<Rightarrow> nat list" where
  "path_lossy c = from_utf16_lossy (path_wide c)"

definition query_lossy :: "HTTP_COOKED_URL \<Rightarrow> nat list" where
  "query_lossy c = from_utf16_lossy (query_wide c)"

text \<open>\<^verbatim>\<open>pRemoteAddress\<close>: null, or the bytes of the address. The flow information and the scope are not taken over.\<close>

definition peer_address :: "u8 list option \<Rightarrow> SocketAddr option" where
  "peer_address ptr =
     (case ptr of
        None \<Rightarrow> None
      | Some bytes \<Rightarrow>
          let family = from_le16 (take 2 bytes); port = to_be16 (from_le16 (take 2 (drop 2 bytes))) in
          if family = AF_INET then Some (V4 (take 4 (drop 4 bytes)) port)
          else if family = AF_INET6 then Some (V6 (take 16 (drop 8 bytes)) port 0 0)
          else None)"

definition without_scope :: "SocketAddr \<Rightarrow> SocketAddr" where
  "without_scope a = (case a of V4 ip port \<Rightarrow> V4 ip port | V6 ip port _ _ \<Rightarrow> V6 ip port 0 0)"

section \<open>Receiving\<close>

text \<open>The capacity is told to the platform as a \<^verbatim>\<open>u32\<close>, cut off.\<close>

definition receive_request_operate ::
  "(u32 \<Rightarrow> hresult) \<Rightarrow> (u64 \<Rightarrow> u32 \<Rightarrow> u32 \<times> nat) \<Rightarrow> u64 \<Rightarrow> nat \<Rightarrow> (hresult + nat) poll" where
  "receive_request_operate hr Call rid capacity =
     (case Call rid (of_nat capacity) of (code, n) \<Rightarrow> poll_from_code hr code n)"

definition cancel_request_operate :: "(u32 \<Rightarrow> hresult) \<Rightarrow> (u64 \<Rightarrow> u32 \<times> nat) \<Rightarrow> u64 \<Rightarrow> (hresult + nat) poll" where
  "cancel_request_operate hr Call rid = (case Call rid of (code, n) \<Rightarrow> poll_from_code hr code n)"

text \<open>\<^verbatim>\<open>HttpReceiveRequestEntityBody\<close>: its code and what else it left, by the request, the address and the length.\<close>

type_synonym body_call = "u64 \<Rightarrow> nat \<Rightarrow> u32 \<Rightarrow> mem \<Rightarrow> u32 \<times> kcall"

definition receive_body_operate ::
  "(u32 \<Rightarrow> hresult) \<Rightarrow> 'b IoBufMut \<Rightarrow> body_call \<Rightarrow> u64 \<Rightarrow> 'b \<Rightarrow> mem \<Rightarrow> ((hresult + nat) poll \<times> kcall option) may_panic" where
  "receive_body_operate hr D Call rid buffer m =
     (case as_uninit D buffer of
        None \<Rightarrow> None
      | Some uninit \<Rightarrow>
          (case checked_u32_len hr (us_len uninit) of
             Inl e \<Rightarrow> Some (Ready (Inl e), None)
           | Inr len \<Rightarrow> (case Call rid (us_ptr uninit) len m of (code, k) \<Rightarrow> Some (poll_from_code hr code (k_high k), Some k))))"

text \<open>A count beyond the buffer is a failed assertion where those are compiled in, and not published otherwise.\<close>

definition receive_body_on_complete :: "bool \<Rightarrow> 'b IoBufMut \<Rightarrow> 'b \<Rightarrow> hresult + nat \<Rightarrow> 'b may_panic" where
  "receive_body_on_complete debug_assertions D buffer result =
     (case result of
        Inl _ \<Rightarrow> Some buffer
      | Inr transferred \<Rightarrow>
          (case bytes_total D buffer of
             None \<Rightarrow> None
           | Some capacity \<Rightarrow>
               if transferred \<le> capacity then set_init D buffer transferred
               else if debug_assertions then None else Some buffer))"

definition submit_receive_body ::
  "bool \<Rightarrow> (u32 \<Rightarrow> hresult) \<Rightarrow> 'b IoBufMut \<Rightarrow> body_call \<Rightarrow> u64 \<Rightarrow> 'b \<Rightarrow> mem \<Rightarrow> ((hresult + nat) \<times> 'b \<times> mem) may_panic" where
  "submit_receive_body debug_assertions hr D Call rid buffer m =
     (case receive_body_operate hr D Call rid buffer m of
        None \<Rightarrow> None
      | Some (Ready r, k) \<Rightarrow>
          map_option (\<lambda>b. (r, b, case k of None \<Rightarrow> m | Some kc \<Rightarrow> k_mem kc)) (receive_body_on_complete debug_assertions D buffer r)
      | Some (Pending, None) \<Rightarrow> None
      | Some (Pending, Some kc) \<Rightarrow>
          map_option (\<lambda>b. (k_result kc, b, k_done_mem kc)) (receive_body_on_complete debug_assertions D buffer (k_result kc)))"

definition read_body ::
  "bool \<Rightarrow> (u32 \<Rightarrow> hresult) \<Rightarrow> 'b IoBufMut \<Rightarrow> body_call \<Rightarrow> bool \<Rightarrow> bool \<Rightarrow> u64 \<Rightarrow> 'b \<Rightarrow> mem \<Rightarrow> ((hresult + nat) \<times> 'b \<times> mem) may_panic" where
  "read_body debug_assertions hr D Call open1 open2 rid buffer m =
     (if \<not> open1 then Some (Inl (E_CLOSED hr), buffer, m)
      else if \<not> open2 then Some (Inl (E_CLOSED hr), buffer, m)
      else map_option (\<lambda>(r, b, m'). ((case r of Inl e \<Rightarrow> if is_eof e then Inr 0 else Inl e | Inr n \<Rightarrow> Inr n), b, m'))
             (submit_receive_body debug_assertions hr D Call rid buffer m))"

text \<open>Util \<^verbatim>\<open>server/backend.rs\<close>: both backends start a read alike, and give the buffer first.\<close>

definition backend_read_body ::
  "bool \<Rightarrow> (u32 \<Rightarrow> hresult) \<Rightarrow> body_call \<Rightarrow> bool \<Rightarrow> bool \<Rightarrow> u64 \<Rightarrow> vec \<Rightarrow> mem \<Rightarrow> ((vec \<times> (hresult + nat)) \<times> mem) may_panic" where
  "backend_read_body debug_assertions hr Call open1 open2 rid buffer m =
     map_option (\<lambda>(result, b, m'). ((b, result), m')) (read_body debug_assertions hr vec_IoBufMut Call open1 open2 rid buffer m)"

section \<open>Sending\<close>

text \<open>\<^verbatim>\<open>into_inner\<close> of \<^verbatim>\<open>SendResponse\<close> clears the pointers the build left in the response.\<close>

definition send_response_into_inner :: "Response \<Rightarrow> Response" where
  "send_response_into_inner r = invalidate r"

definition send_with ::
  "(u32 \<Rightarrow> hresult) \<Rightarrow> (u32 \<Rightarrow> HTTP_RESPONSE \<Rightarrow> u32 \<times> nat) \<Rightarrow> hresult + nat \<Rightarrow> bool \<Rightarrow> bool \<Rightarrow> Response \<Rightarrow> bool \<Rightarrow>
   (hresult + nat) \<times> Response" where
  "send_with hr Call completed open1 open2 response more_data =
     (if \<not> open1 then (Inl (E_CLOSED hr), response)
      else if \<not> open2 then (Inl (E_CLOSED hr), send_response_into_inner response)
      else case send_response_operate hr Call more_data response of
          (Ready r, response1) \<Rightarrow> (r, send_response_into_inner response1)
        | (Pending, response1) \<Rightarrow> (completed, send_response_into_inner response1))"

definition queue_send_whole ::
  "(u32 \<Rightarrow> hresult) \<Rightarrow> (u32 \<Rightarrow> HTTP_RESPONSE \<Rightarrow> u32 \<times> nat) \<Rightarrow> hresult + nat \<Rightarrow> bool \<Rightarrow> bool \<Rightarrow> Response \<Rightarrow> (hresult + nat) \<times> Response" where
  "queue_send_whole hr Call completed open1 open2 response = send_with hr Call completed open1 open2 response False"

definition send_partial ::
  "(u32 \<Rightarrow> hresult) \<Rightarrow> (u32 \<Rightarrow> HTTP_RESPONSE \<Rightarrow> u32 \<times> nat) \<Rightarrow> hresult + nat \<Rightarrow> bool \<Rightarrow> bool \<Rightarrow> Response \<Rightarrow> (hresult + nat) \<times> Response" where
  "send_partial hr Call completed open1 open2 response = send_with hr Call completed open1 open2 response True"

definition queue_send_body ::
  "(u32 \<Rightarrow> hresult) \<Rightarrow> (u32 \<Rightarrow> u32 \<times> bytes \<Rightarrow> u32 \<times> nat) \<Rightarrow> hresult + nat \<Rightarrow> bool \<Rightarrow> bool \<Rightarrow> bytes \<Rightarrow> bool \<Rightarrow> (hresult + nat) \<times> bytes" where
  "queue_send_body hr Call completed open1 open2 buffer is_last =
     (if \<not> open1 then (Inl (E_CLOSED hr), buffer)
      else if \<not> open2 then (Inl (E_CLOSED hr), buffer)
      else case send_body_operate hr Call is_last buffer of
          Ready r \<Rightarrow> (r, buffer)
        | Pending \<Rightarrow> (completed, buffer))"

definition queue_send_trailers ::
  "(u32 \<Rightarrow> hresult) \<Rightarrow> (u32 \<Rightarrow> u16 \<times> unknown_header list \<Rightarrow> u32 \<times> nat) \<Rightarrow> hresult + nat \<Rightarrow> bool \<Rightarrow> bool \<Rightarrow> (bytes \<times> bytes) list \<Rightarrow>
   hresult + nat" where
  "queue_send_trailers hr Call completed open1 open2 trailers =
     (if \<not> open1 then Inl (E_CLOSED hr)
      else if \<not> open2 then Inl (E_CLOSED hr)
      else case send_trailers_operate hr Call trailers of Ready r \<Rightarrow> r | Pending \<Rightarrow> completed)"

section \<open>Lemmas\<close>

lemma peer_of_image:
  assumes "wf_addr a"
  shows "peer_address (Some (storage (from_socket_addr a) @ rest)) = Some (without_scope a)"
  using assms
  by (cases a) (simp_all add: peer_address_def without_scope_def from_socket_addr_def overwrite_zero sockaddr_in_def sockaddr_in6_def
      wf_addr_def Let_def)

text \<open>The capacity told is never more_data than the buffer has, and it is the buffer's own up to four gibibytes.\<close>

lemma receive_capacity_told:
  "unat (of_nat capacity :: u32) \<le> capacity" "capacity < 2 ^ 32 \<Longrightarrow> unat (of_nat capacity :: u32) = capacity"
  by (simp_all add: unat_of_nat)

definition same_reply :: "Response \<Rightarrow> Response \<Rightarrow> bool" where
  "same_reply r r' \<longleftrightarrow> rs_status r' = rs_status r \<and> rs_reason r' = rs_reason r \<and> rs_known r' = rs_known r
     \<and> rs_unknown r' = rs_unknown r \<and> rs_chunks r' = rs_chunks r"

lemma and_then_same:
  "same_reply r (snd x) \<Longrightarrow> (\<And>s. same_reply r s \<Longrightarrow> same_reply r (snd (f s))) \<Longrightarrow> same_reply r (snd (and_then x f))"
  by (cases x; cases "fst x") (auto simp: and_then_def)

lemma build_parts_same:
  "same_reply r (snd (build_reason hr r))"
  "same_reply r s \<Longrightarrow> same_reply r (snd (build_known hr s))"
  "same_reply r s \<Longrightarrow> same_reply r (snd (build_unknown hr s))"
  "same_reply r s \<Longrightarrow> same_reply r (snd (build_chunks hr s))"
  by (auto simp: same_reply_def build_reason_def build_known_def build_unknown_def build_chunks_def Let_def
      split: sum.split prod.split)

lemma build_same: "same_reply r (snd (build hr r))"
  unfolding build_def by (intro and_then_same build_parts_same)

lemma same_reply_invalidate [simp]: "same_reply r (invalidate s) = same_reply r s"
  by (simp add: same_reply_def invalidate_def)

lemma operate_same: "same_reply r (snd (send_response_operate hr Call more_data r))"
  using build_same [of r hr] by (auto simp: send_response_operate_def split: prod.splits sum.splits)

text \<open>
  Whatever becomes of a send, the caller gets the reply back as it was: with a closed queue, a reply that does not fit, a
  refusal or a completion. Once an operation had it, no pointer into the operation is left in it, so that a second
  send starts from the same reply and shows the platform the same structure.
\<close>

theorem send_gives_reply_back:
  "snd (send_with hr Call completed open1 open2 response more_data) = (if open1 then invalidate response else response)"
proof -
  have "invalidate s = invalidate response" if "same_reply response s" for s
    using that by (simp add: same_reply_def invalidate_def)
  with operate_same [of response hr Call more_data] show ?thesis
    by (auto simp: send_with_def send_response_into_inner_def split: prod.splits poll.splits)
qed

text \<open>A send that succeeded showed the platform the reply that was built, with the flag for more data exactly as asked.\<close>

theorem send_success_was_built:
  assumes "fst (send_with hr Call completed open1 open2 response more_data) = Inr n"
  shows "open1 \<and> open2 \<and> fst (build hr response) = Inr () \<and>
    (case Call (if more_data then MORE_DATA else 0) (rs_raw (snd (build hr response))) of
       (code, k) \<Rightarrow> code = 0 \<and> n = k \<or> code = ERROR_IO_PENDING \<and> completed = Inr n)"
  using assms
  by (auto simp: send_with_def send_response_operate_def send_response_flags_def poll_from_code_def check_def
      split: if_splits prod.splits sum.splits poll.splits)

text \<open>
  Reading a body into a vector: it keeps its memory and its capacity on every path; on success its length is the count
  reported, and its bytes are what the call left in memory, unless the count is beyond the capacity or the end of the
  body was reached, when the vector is as it was. Only a count beyond the capacity can panic, and only where debug
  assertions are compiled in.
\<close>

theorem read_body_publishes_reported:
  "case read_body debug_assertions hr vec_IoBufMut Call open1 open2 rid v m of
     None \<Rightarrow> debug_assertions \<and> open1 \<and> open2
   | Some (r, v', m') \<Rightarrow>
       vptr v' = vptr v \<and> vcap v' = vcap v \<and>
       (case r of
          Inl _ \<Rightarrow> v' = v
        | Inr n \<Rightarrow> vlen v' = n \<and> n \<le> vcap v \<or> v' = v \<and> (n = 0 \<or> vcap v < n \<and> \<not> debug_assertions))"
  by (auto simp: read_body_def submit_receive_body_def receive_body_operate_def receive_body_on_complete_def vec_IoBufMut_def
      bytes_total_def poll_from_code_def check_def split: option.splits sum.splits prod.splits poll.splits if_splits)

end
