(* ===== verification/Manual_Event.thy ===== *)
theory Manual_Event
  imports Resource_Log
begin

text \<open>
  \<^verbatim>\<open>ManualResetEvent\<close> of \<^verbatim>\<open>sys/event.rs\<close>, an owned event handle that can be given away and taken over. A method whose assertion
  fails panics, which is \<open>None\<close>.
\<close>

datatype ev_call = EvCreated nat | EvSet nat | EvReset nat | EvClosed nat

fun ev_opens :: "ev_call \<Rightarrow> nat option" where
  "ev_opens (EvCreated h) = Some h"
| "ev_opens _ = None"

fun ev_closes :: "ev_call \<Rightarrow> nat option" where
  "ev_closes (EvClosed h) = Some h"
| "ev_closes _ = None"

fun ev_uses :: "ev_call \<Rightarrow> nat option" where
  "ev_uses (EvSet h) = Some h"
| "ev_uses (EvReset h) = Some h"
| "ev_uses _ = None"

definition handle_is_invalid :: "nat \<Rightarrow> bool" where
  "handle_is_invalid h \<longleftrightarrow> h = 0 \<or> h = 2 ^ 64 - 1"

interpretation evl: handle_use_log ev_opens ev_closes EvClosed handle_is_invalid ev_uses
proof unfold_locales
  show "ev_opens e = Some h \<Longrightarrow> ev_uses e = None" for e h by (cases e) simp_all
qed simp_all

section \<open>The methods\<close>

record ManualResetEvent =
  me_h :: nat

definition event_default :: ManualResetEvent where
  "event_default = \<lparr>me_h = 0\<rparr>"

definition event_new :: "(ev_call list \<Rightarrow> hresult + nat) \<Rightarrow> ev_call world \<Rightarrow> (ManualResetEvent \<times> ev_call world) may_panic" where
  "event_new Create w =
     (case Create (w_log w) of Inl _ \<Rightarrow> None | Inr h \<Rightarrow> Some (\<lparr>me_h = h\<rparr>, handle_from_raw h (emit (EvCreated h) w)))"

definition event_assign :: "nat \<Rightarrow> ManualResetEvent \<Rightarrow> ManualResetEvent may_panic" where
  "event_assign h e = (if handle_is_invalid (me_h e) then Some (e\<lparr>me_h := h\<rparr>) else None)"

definition event_set ::
  "(ev_call list \<Rightarrow> nat \<Rightarrow> hresult + unit) \<Rightarrow> ManualResetEvent \<Rightarrow> ev_call world \<Rightarrow> ((hresult + unit) \<times> ev_call world) may_panic" where
  "event_set Call e w = (if handle_is_invalid (me_h e) then None else Some (Call (w_log w) (me_h e), emit (EvSet (me_h e)) w))"

definition event_reset ::
  "(ev_call list \<Rightarrow> nat \<Rightarrow> hresult + unit) \<Rightarrow> ManualResetEvent \<Rightarrow> ev_call world \<Rightarrow> ((hresult + unit) \<times> ev_call world) may_panic" where
  "event_reset Call e w = (if handle_is_invalid (me_h e) then None else Some (Call (w_log w) (me_h e), emit (EvReset (me_h e)) w))"

definition event_release :: "ManualResetEvent \<Rightarrow> (nat \<times> ManualResetEvent) may_panic" where
  "event_release e = (if handle_is_invalid (me_h e) then None else Some (me_h e, e\<lparr>me_h := 0\<rparr>))"

definition event_drop :: "ManualResetEvent \<Rightarrow> ev_call world \<Rightarrow> ev_call world" where
  "event_drop e w = (if handle_is_invalid (me_h e) then w else handle_drop handle_is_invalid EvClosed (me_h e) w)"

section \<open>Programs\<close>

text \<open>The events of a program, and the handles released to it; a panic leaves everything as it was.\<close>

record ev_prog =
  ep_events :: "ManualResetEvent list"
  ep_raw :: "nat list"
  ep_world :: "ev_call world"

datatype ev_act = MakeEvent | MakeDefault | AssignRaw nat nat | SetEvent nat | ResetEvent nat | ReleaseEvent nat | DropEvent nat

fun ev_do ::
  "(ev_call list \<Rightarrow> hresult + nat) \<Rightarrow> (ev_call list \<Rightarrow> nat \<Rightarrow> hresult + unit) \<Rightarrow> ev_act \<Rightarrow> ev_prog \<Rightarrow> ev_prog" where
  "ev_do Create Call MakeEvent p =
     (case event_new Create (ep_world p) of
        None \<Rightarrow> p
      | Some (e, w) \<Rightarrow> p\<lparr>ep_events := e # ep_events p, ep_world := w\<rparr>)"
| "ev_do Create Call MakeDefault p = p\<lparr>ep_events := event_default # ep_events p\<rparr>"
| "ev_do Create Call (AssignRaw j k) p =
     (if j < length (ep_events p) \<and> k < length (ep_raw p)
      then case event_assign (ep_raw p ! k) (ep_events p ! j) of
          None \<Rightarrow> p
        | Some e \<Rightarrow> p\<lparr>ep_events := e # remove_at j (ep_events p), ep_raw := remove_at k (ep_raw p)\<rparr>
      else p)"
| "ev_do Create Call (SetEvent j) p =
     (if j < length (ep_events p)
      then case event_set Call (ep_events p ! j) (ep_world p) of None \<Rightarrow> p | Some (_, w) \<Rightarrow> p\<lparr>ep_world := w\<rparr>
      else p)"
| "ev_do Create Call (ResetEvent j) p =
     (if j < length (ep_events p)
      then case event_reset Call (ep_events p ! j) (ep_world p) of None \<Rightarrow> p | Some (_, w) \<Rightarrow> p\<lparr>ep_world := w\<rparr>
      else p)"
| "ev_do Create Call (ReleaseEvent j) p =
     (if j < length (ep_events p)
      then case event_release (ep_events p ! j) of
          None \<Rightarrow> p
        | Some (h, e) \<Rightarrow> p\<lparr>ep_events := e # remove_at j (ep_events p), ep_raw := h # ep_raw p\<rparr>
      else p)"
| "ev_do Create Call (DropEvent j) p =
     (if j < length (ep_events p)
      then p\<lparr>ep_events := remove_at j (ep_events p), ep_world := event_drop (ep_events p ! j) (ep_world p)\<rparr> else p)"

definition ev_run ::
  "(ev_call list \<Rightarrow> hresult + nat) \<Rightarrow> (ev_call list \<Rightarrow> nat \<Rightarrow> hresult + unit) \<Rightarrow> ev_act list \<Rightarrow> ev_prog \<Rightarrow> ev_prog" where
  "ev_run Create Call acts p = fold (ev_do Create Call) acts p"

definition ev_start :: ev_prog where
  "ev_start = \<lparr>ep_events = [], ep_raw = [], ep_world = \<lparr>w_log = [], w_refs = (\<lambda>_. 0)\<rparr>\<rparr>"

definition event_keys :: "ManualResetEvent \<Rightarrow> nat multiset" where
  "event_keys e = (if handle_is_invalid (me_h e) then {#} else {#me_h e#})"

definition ev_owners :: "ev_prog \<Rightarrow> nat multiset" where
  "ev_owners p = (\<Sum>e \<in># mset (ep_events p). event_keys e) + mset (ep_raw p)"

definition fresh_events :: "(ev_call list \<Rightarrow> hresult + nat) \<Rightarrow> bool" where
  "fresh_events Create \<longleftrightarrow>
     (\<forall>log H h. open_after ev_opens ev_closes log = Some H \<and> Create log = Inr h \<longrightarrow> h \<notin> H \<and> \<not> handle_is_invalid h)"

section \<open>The account\<close>

lemma owners_of_event:
  assumes "j < length (ep_events p)"
  shows "ev_owners p = event_keys (ep_events p ! j) + ev_owners (p\<lparr>ep_events := remove_at j (ep_events p)\<rparr>)"
  using mset_remove_at [OF assms] by (simp add: ev_owners_def)

lemma ev_do_owns:
  assumes "fresh_events Create" and w: "evl.owns (ep_world p) (ev_owners p)"
  shows "evl.owns (ep_world (ev_do Create Call a p)) (ev_owners (ev_do Create Call a p))"
proof (cases a)
  case MakeEvent
  show ?thesis
  proof (cases "Create (w_log (ep_world p))")
    case (Inr h)
    have "h \<notin># ev_owners p \<and> \<not> handle_is_invalid h"
      using assms(1) evl.owns_opened [OF w] Inr unfolding fresh_events_def by blast
    with evl.owns_open [OF w, of "EvCreated h" h] Inr MakeEvent show ?thesis
      by (simp add: event_new_def ev_owners_def event_keys_def)
  qed (use w MakeEvent in \<open>simp add: event_new_def\<close>)
next
  case (AssignRaw j k)
  have valid: "\<not> handle_is_invalid (ep_raw p ! k)" if "k < length (ep_raw p)"
    using w that by (auto simp: evl.owns_def ev_owners_def)
  show ?thesis
  proof (cases "j < length (ep_events p) \<and> k < length (ep_raw p) \<and> handle_is_invalid (me_h (ep_events p ! j))")
    case True
    then have "ev_owners (ev_do Create Call a p) = ev_owners p"
      using AssignRaw owners_of_event [of j p] mset_remove_at [of k "ep_raw p"] valid
      by (simp add: event_assign_def ev_owners_def event_keys_def)
    with True w AssignRaw show ?thesis by (simp add: event_assign_def)
  qed (use w AssignRaw in \<open>auto simp: event_assign_def\<close>)
next
  case (ReleaseEvent j)
  show ?thesis
  proof (cases "j < length (ep_events p) \<and> \<not> handle_is_invalid (me_h (ep_events p ! j))")
    case True
    then have "ev_owners (ev_do Create Call a p) = ev_owners p"
      using ReleaseEvent owners_of_event [of j p] by (simp add: event_release_def ev_owners_def event_keys_def handle_is_invalid_def)
    with True w ReleaseEvent show ?thesis by (simp add: event_release_def)
  qed (use w ReleaseEvent in \<open>auto simp: event_release_def\<close>)
next
  case (DropEvent j)
  show ?thesis
  proof (cases "j < length (ep_events p)")
    case True
    with w owners_of_event [OF True] DropEvent evl.owns_drop show ?thesis
      by (auto simp: event_drop_def event_keys_def ev_owners_def)
  qed (use w DropEvent in simp)
next
  case (SetEvent j)
  with w owners_of_event [of j p] show ?thesis
    by (auto simp: event_set_def event_keys_def ev_owners_def split: if_splits intro!: evl.owns_use)
next
  case (ResetEvent j)
  with w owners_of_event [of j p] show ?thesis
    by (auto simp: event_reset_def event_keys_def ev_owners_def split: if_splits intro!: evl.owns_use)
qed (use w in \<open>simp add: ev_owners_def event_keys_def event_default_def handle_is_invalid_def\<close>)

text \<open>
  Whatever a program does with events, the handles open are exactly those an event or the program owns, none is closed
  twice, and every call on one finds it open; a handle released is closed only by the event it is assigned to.
\<close>

theorem events_accounted:
  assumes "fresh_events Create" and "p = ev_run Create Call acts ev_start"
  shows "open_after ev_opens ev_closes (w_log (ep_world p)) = Some (set_mset (ev_owners p))
    \<and> used_open ev_opens ev_closes ev_uses (w_log (ep_world p))"
proof -
  have "evl.owns (ep_world (ev_run Create Call acts q)) (ev_owners (ev_run Create Call acts q))"
    if "evl.owns (ep_world q) (ev_owners q)" for q
    unfolding ev_run_def using that by (induction acts arbitrary: q) (auto simp: ev_do_owns [OF assms(1)])
  moreover have "evl.owns (ep_world ev_start) (ev_owners ev_start)"
    by (simp add: ev_start_def ev_owners_def evl.owns_def world_safe_def world_ok_def fun_eq_iff)
  ultimately show ?thesis using assms(2) evl.owns_opened by blast
qed

end
