(* ===== verification/Spec2Isabelle.thy ===== *)
theory Spec2Isabelle
  imports Prelude Net_Addr Buf Errors Stream_Ops Payload Raw_Op_Steps Proactor Wait_Event Winhttp_Context
    Http_Errors Client_Body Http_Headers H2_Duplex Http_Body Httpsys_Response Httpsys_Queue Server_Head Server_Send
    Net_Socket File_Pipe Winhttp_Request Server_Serve Client Block_On Httpsys_Server
    Httpsys_Ssl Tonic_Channel Threadpool_Life Httpsys_Ops Manual_Event
begin

text \<open>
  winasio-rs: a verification of its core.

  \<^bold>\<open>The program.\<close> The crate \<^verbatim>\<open>winasio\<close> drives Windows asynchronous I/O from Rust futures: operations own their
  buffers, are leaked to the kernel while they are in flight and come back through a completion port
  (\<^verbatim>\<open>iocp\<close>). On top of it stand files and pipes (\<^verbatim>\<open>fs\<close>, \<^verbatim>\<open>pipe\<close>), sockets (\<^verbatim>\<open>net\<close>), whole-payload helpers
  (\<^verbatim>\<open>io.rs\<close>), the HTTP Server API (\<^verbatim>\<open>httpsys\<close>) and WinHTTP (\<^verbatim>\<open>winhttp\<close>), which has its own callbacks. The crate
  \<^verbatim>\<open>winasio-util\<close> speaks the \<^verbatim>\<open>http\<close> crate's types over both: a client with an HTTP/1.1 and an HTTP/2 path, and
  a server; the crates \<^verbatim>\<open>winasio-axum\<close> and \<^verbatim>\<open>winasio-tonic\<close> run axum services on the server and give gRPC
  clients a channel. Paths below are relative to \<^verbatim>\<open>crates/winasio/src\<close> and, after ``util'', to
  \<^verbatim>\<open>crates/winasio-util/src\<close>.

  \<^bold>\<open>Conventions.\<close> A \<^verbatim>\<open>Result\<close> is a sum with the error on the left; an error of the platform is its
  \<^verbatim>\<open>HRESULT\<close>. A panic or a use of memory that is gone is \<open>None\<close> of an option. What is not under \<^verbatim>\<open>src\<close> is an
  argument: the platform's answers to the calls made, the allocator, the \<^verbatim>\<open>http\<close> crate; theorems state what
  they rely on as named hypotheses. Fixed-width integers are words where a conversion can wrap, and naturals
  with the bound written out otherwise. Concurrency is an interleaving of atomic steps, each step one access
  to shared state.

  \<^bold>\<open>The theories.\<close>

  \<^item> \<open>Prelude\<close>: words, sizes, byte images, list lemmas.
  \<^item> \<open>Net_Addr\<close> (\<^verbatim>\<open>net/unix_addr.rs\<close>, \<^verbatim>\<open>net/addr.rs\<close>): AF_UNIX addresses and the SOCKADDR images of all
    families. Every address decodes from its image; whatever the kernel stores decodes to a well-formed
    address; the families are not confused. The locale \<open>sockaddr_codec\<close> is interpreted for both codecs.
  \<^item> \<open>Buf\<close> (\<^verbatim>\<open>iocp/buf.rs\<close>): the buffer traits over a memory with uninitialised bytes; the locale
    \<open>io_buf_mut\<close> states their contract and is interpreted for \<^verbatim>\<open>Vec\<close>, boxed slices and the tails the helpers use.
  \<^item> \<open>Errors\<close> (\<^verbatim>\<open>fs/error.rs\<close>, \<^verbatim>\<open>fs/outcome.rs\<close>, \<^verbatim>\<open>net/error.rs\<close>, \<^verbatim>\<open>net/outcome.rs\<close>, \<^verbatim>\<open>winhttp/error.rs\<close>,
    \<^verbatim>\<open>httpsys/error.rs\<close>): the classification of platform codes.
  \<^item> \<open>Stream_Ops\<close> (\<^verbatim>\<open>iocp/ops/stream.rs\<close>, \<^verbatim>\<open>iocp/ops/file.rs\<close>, \<^verbatim>\<open>net/ops/io.rs\<close>, \<^verbatim>\<open>iocp/ops/sys.rs\<close>): reads and
    writes; a read publishes the bytes the kernel delivered, and offsets and lengths are not truncated.
  \<^item> \<open>Payload\<close> (\<^verbatim>\<open>io.rs\<close>): \<^verbatim>\<open>write_all\<close>, \<^verbatim>\<open>read_exact\<close>, \<^verbatim>\<open>read_to_end\<close>. What was sent is a prefix of the payload and all
    of it on success; a filled buffer holds what was read, and no byte nobody wrote. \<^verbatim>\<open>read_exact\<close> may retry empty
    reads forever, so it has fuel; \<open>Running\<close> is the loop not ended, and for sockets enough fuel is proved to end it.
  \<^item> \<open>Raw_Op\<close>, \<open>Raw_Op_Steps\<close> (\<^verbatim>\<open>iocp/raw.rs\<close>, \<^verbatim>\<open>iocp/future.rs\<close>): the operation allocation with its reference
    count, its state word and the live set; the functions whole and cut into atomic steps. Under every interleaving
    of submitter, future, dispatchers and cancellation: no use after free, no double delivery, no lost wakeup, the
    buffer pinned while the kernel has it, the count that of the parties that still hold the memory.
  \<^item> \<open>Proactor\<close>, \<open>Wait_Event\<close>, \<open>Block_On\<close> (\<^verbatim>\<open>iocp/port.rs\<close>, \<^verbatim>\<open>iocp/proactor.rs\<close>, \<^verbatim>\<open>iocp/threadpool.rs\<close>, \<^verbatim>\<open>iocp/ops/event.rs\<close>):
    submission, polling and shutdown over a heap of operations; the thread pool; waiting for a handle; \<^verbatim>\<open>block_on\<close>.
    Shutdown loops until the cancelled operations are drained; its fuel counts the waits, and a platform that returns
    the packets within it is proved enough. \<^verbatim>\<open>block_on\<close> has fuel for its turns, and over an operation whose packet
    arrives in some wait two more turns than the waits before it are proved enough to return the result.
  \<^item> \<open>Resource_Log\<close>: handles with shared owners, as a log of the calls that open, use and close them. The locale
    \<open>handle_log\<close> and its extension \<open>handle_use_log\<close> prove once, for any vocabulary of calls, that no handle is closed
    twice or used closed; they are interpreted for sockets, files and pipes, WinHTTP, the HTTP Server API, the
    thread pool and events.
  \<^item> \<open>Threadpool_Life\<close> (\<^verbatim>\<open>iocp/threadpool.rs\<close>): registrations with the thread pool, their clones and the starts announced to
    it. The pool's object is closed after its last callback, and no start is left unanswered.
  \<^item> \<open>Manual_Event\<close> (\<^verbatim>\<open>sys/event.rs\<close>): events, whose handles may be given away and taken over.
  \<^item> \<open>Utf\<close>: UTF-8 and UTF-16 of the strings the calls take.
  \<^item> \<open>Net_Socket\<close> (\<^verbatim>\<open>net/socket.rs\<close>, \<^verbatim>\<open>net/ext.rs\<close>, \<^verbatim>\<open>net/listener.rs\<close>, \<^verbatim>\<open>net/stream.rs\<close>, \<^verbatim>\<open>net/unix_listener.rs\<close>,
    \<^verbatim>\<open>net/unix_stream.rs\<close>, \<^verbatim>\<open>net/ops\<close>): creating sockets, the extension functions, accepting and connecting with their
    completion hooks, listeners and streams. Every socket open has its owners; a stream is handed out only after the
    calls that make it ready succeeded, in order.
  \<^item> \<open>File_Pipe\<close> (\<^verbatim>\<open>iocp/handle.rs\<close>, \<^verbatim>\<open>fs\<close>, \<^verbatim>\<open>pipe\<close>): opening files and pipes, their options and names, and programs over
    them with operations in flight. A handle is never used after it was closed; the open options mean what they say; a
    pipe name cannot leave the local pipe namespace.
  \<^item> \<open>Winhttp_Context\<close> (\<^verbatim>\<open>winhttp/context.rs\<close>, \<^verbatim>\<open>winhttp/ops.rs\<close>): the two operation slots of a request, the
    status callback and the five futures. A buffer WinHTTP may still touch is alive, also after its future was
    dropped, held by the future or retired; the body of a send, which WinHTTP may read until the response is received,
    is kept in the retention instead; a completion reaches the future it belongs to.
  \<^item> \<open>Winhttp_Request\<close> (\<^verbatim>\<open>winhttp/mod.rs\<close>): sessions, connections, requests and the queries of a response head. The
    handles are accounted for; of the context of a request, with its reference count and every interleaving of callbacks
    with the drop, it is shown who could touch it once it is freed: only a callback the closing notification overtook
    before it took its clone, which nothing documented excludes (\<open>undrained_callback_faults\<close>).
  \<^item> \<open>Http_Errors\<close>, \<open>Http_Headers\<close>, \<open>Client_Body\<close>, \<open>H2_Duplex\<close>, \<open>Http_Body\<close> (util \<^verbatim>\<open>error.rs\<close>, \<^verbatim>\<open>headers.rs\<close>, \<^verbatim>\<open>uri.rs\<close>,
    \<^verbatim>\<open>client.rs\<close>, \<^verbatim>\<open>h2.rs\<close>, \<^verbatim>\<open>body.rs\<close>, \<^verbatim>\<open>server/incoming.rs\<close>): header blocks are read back as written, but for blanks around the values; a request body is
    on the wire exactly, or chunked so that it decodes to itself; a response body ends cleanly only at its declared
    length. On the HTTP/2 path the theorems say exactly what may be missing: the end of one frame at the moment the
    response head arrives; \<open>h2_frame_dropped_at_head\<close> shows that any frame can be lost whole that way.
  \<^item> \<open>Httpsys_Response\<close>, \<open>Httpsys_Queue\<close>, \<open>Httpsys_Ops\<close> (\<^verbatim>\<open>httpsys/header.rs\<close>, \<^verbatim>\<open>httpsys/response.rs\<close>, \<^verbatim>\<open>httpsys/request.rs\<close>,
    \<^verbatim>\<open>httpsys/queue.rs\<close>, \<^verbatim>\<open>httpsys/ops\<close>): the reply the platform reads is the reply that was set; the locale
    \<open>growing_seq\<close> is the contract of the inline-or-spilled slots. Receiving retries within bounds, the shared
    handle is closed once, and every operation gives back what it was given.
  \<^item> \<open>Server_Head\<close>, \<open>Server_Send\<close> (util \<^verbatim>\<open>server/head.rs\<close>, \<^verbatim>\<open>server/mod.rs\<close>): requests and responses between the
    platform and the \<^verbatim>\<open>http\<close> crate; a response is terminated exactly when it is reported as sent.
  \<^item> \<open>Server_Serve\<close> (util \<^verbatim>\<open>server/mod.rs\<close>, \<^verbatim>\<open>winasio-axum\<close>): dispatching a request to a service, sequentially and in the
    concurrent loop, the executors, and the waker of the crate's \<^verbatim>\<open>block_on\<close> as a step relation.
  \<^item> \<open>Httpsys_Server\<close> (\<^verbatim>\<open>httpsys/init.rs\<close>, \<^verbatim>\<open>httpsys/session.rs\<close>, \<^verbatim>\<open>httpsys/queue.rs\<close>, util \<^verbatim>\<open>server/mod.rs\<close>): initialisation,
    sessions, URL groups, queues and servers, and programs over them in which a shutdown comes at any point. The
    resources open are those with an owner, and a shutdown is final.
  \<^item> \<open>Httpsys_Ssl\<close> (\<^verbatim>\<open>httpsys/ssl.rs\<close>): the machine's table of certificates, one row per address and port. A certificate
    bound is found, and guards leave the table as it was, but for the rows whose delete failed.
  \<^item> \<open>Client\<close>, \<open>Tonic_Channel\<close> (util \<^verbatim>\<open>client.rs\<close>, \<^verbatim>\<open>h2.rs\<close>, \<^verbatim>\<open>winasio-tonic/src/channel.rs\<close>): a whole request over the
    models of its parts. No path loses a handle; over HTTP/1.1 a response means the target was asked with the head and
    the body given; a call on a channel goes to its origin only.
  \<^item> This theory: a read submitted to the reactor refines the sequential read of \<open>Stream_Ops\<close>, on which
    \<open>Payload\<close> builds.

  \<^bold>\<open>Not modelled.\<close> \<^verbatim>\<open>Debug\<close>, \<^verbatim>\<open>Display\<close> and \<^verbatim>\<open>source\<close> of errors; counters kept for the tests. The traits of
  \<^verbatim>\<open>iocp/backend.rs\<close>, which have no code. What lies on the other side of an interface: the kernel, WinHTTP and HTTP.sys,
  the \<^verbatim>\<open>http\<close>, \<^verbatim>\<open>futures-util\<close>, axum and tonic crates, and the caller's own futures, handlers and bodies, which are
  arguments. The memory model is sequentially consistent: the orderings of the atomics are not distinguished.
\<close>

section \<open>Reads through the reactor\<close>

text \<open>
  A positioned read as an operation of the reactor: \<^verbatim>\<open>OpCode for ReadHandleAt\<close>, where the memory at the time of
  the submission and the platform's \<^verbatim>\<open>ReadFile\<close> and \<^verbatim>\<open>CancelIoEx\<close> are arguments. An operation that panicked is \<open>None\<close>.
\<close>

definition read_opcode ::
  "(u32 \<Rightarrow> hresult) \<Rightarrow> 'b IoBufMut \<Rightarrow> read_call \<Rightarrow> (nat \<Rightarrow> hresult + unit) \<Rightarrow> mem \<Rightarrow>
   'b ReadHandleAt may_panic OpCode" where
  "read_opcode hr D ReadFile CancelIoEx m =
     \<lparr>oc_operate = (\<lambda>t.
        case Option.bind t (\<lambda>t. read_operate hr D ReadFile t \<lparr>Offset = 0, OffsetHigh = 0\<rparr> m) of
          None \<Rightarrow> (Pending, None)
        | Some (started, t', _) \<Rightarrow> (started, Some t')),
      oc_cancel = (\<lambda>t. (case t of None \<Rightarrow> Inr () | Some t \<Rightarrow> CancelIoEx (rh_handle t), t)),
      oc_on_complete_with = (\<lambda>t r n. Option.bind t (\<lambda>t. record_completion D t r n))\<rparr>"

text \<open>
  The packet that completes a pending read: it is among those of the wait, the first for its address, and it
  carries the status and the count the kernel completed the call with.
\<close>

definition delivers ::
  "(u32 \<Rightarrow> hresult) \<Rightarrow> (u32 \<Rightarrow> u32) \<Rightarrow> OVERLAPPED_ENTRY list \<Rightarrow> nat \<Rightarrow> kcall \<Rightarrow> bool" where
  "delivers hr rtl es a kc =
     (case dropWhile (\<lambda>e. lpOverlapped e \<noteq> a \<or> lpCompletionKey e \<noteq> KEY_OPERATION) es of
        [] \<Rightarrow> False
      | e # _ \<Rightarrow> entry_result hr rtl e = k_result kc \<and> entry_transferred e = k_transferred kc)"

lemma delivers_split:
  assumes "delivers hr rtl es a kc"
  shows "\<exists>xs e ys. es = xs @ e # ys \<and> lpOverlapped e = a \<and> lpCompletionKey e = KEY_OPERATION \<and>
    a \<notin> set (map lpOverlapped (op_entries xs)) \<and> entry_result hr rtl e = k_result kc \<and>
    entry_transferred e = k_transferred kc"
proof -
  let ?p = "\<lambda>e. lpOverlapped e \<noteq> a \<or> lpCompletionKey e \<noteq> KEY_OPERATION"
  from assms obtain e ys where d: "dropWhile ?p es = e # ys"
    and r: "entry_result hr rtl e = k_result kc" "entry_transferred e = k_transferred kc"
    by (auto simp: delivers_def split: list.splits)
  have "\<not> ?p e" using hd_dropWhile [of ?p es] unfolding d by auto
  moreover have "a \<notin> set (map lpOverlapped (op_entries (takeWhile ?p es)))"
    by (auto simp: op_entries_def dest: set_takeWhileD)
  moreover have "es = takeWhile ?p es @ e # ys" using takeWhile_dropWhile_id [of ?p es] unfolding d by (rule sym)
  ultimately show ?thesis using r by blast
qed

text \<open>
  Property C11. The reactor implements a read: submitting a positioned read, running the turn that returns its
  packet where the read is pending, and polling the future gives exactly the outcome and the buffer of the
  sequential read, whether the kernel completes it at once, refuses it or leaves it pending. So what is proved of
  the sequential read, and of the whole-payload helpers over it, is true of the read through the reactor.
\<close>

theorem read_through_reactor:
  assumes seq: "submit_read hr D RF t m = Some (r, b, m')"
    and ok: "proactor_ok ext P" "refs ext P a = 0" "a \<noteq> 0"
    and packet: "\<And>t' kc. read_operate hr D RF t \<lparr>Offset = 0, OffsetHigh = 0\<rparr> m = Some (Pending, t', Some kc) \<Longrightarrow>
      \<exists>es. port_poll hr Gqcs timeout = Inr es \<and> delivers hr rtl es a kc"
  shows "\<exists>sub P1 P2 k res t2 s k'. proactor_submit (read_opcode hr D RF CI m) a (Some t) P = Some (sub, P1) \<and>
    (if is_ready sub then P2 = P1
     else \<exists>n. proactor_poll hr rtl (read_opcode hr D RF CI m) Gqcs timeout P1 = Some (Inr n, P2)) \<and>
    heap P2 a = Some k \<and> submit_poll w sub k = Some (Ready (res, Some t2), s, k') \<and> finish t2 res = (r, b)"
proof -
  let ?C = "read_opcode hr D RF CI m"
  from seq obtain started t' kc where op: "read_operate hr D RF t \<lparr>Offset = 0, OffsetHigh = 0\<rparr> m = Some (started, t', kc)"
    by (auto simp: submit_read_def split: option.splits)
  then have C: "oc_operate ?C (Some t) = (started, Some t')" by (simp add: read_opcode_def)
  show ?thesis
  proof (cases started)
    case (Ready res)
    obtain t2 where "(case res of Inl _ \<Rightarrow> Some t' | Inr n \<Rightarrow> oc_on_complete_with ?C (Some t') res n) = Some t2"
      "finish t2 res = (r, b)"
      using seq op Ready by (cases res) (auto simp: submit_read_def read_opcode_def prod_eq_iff split: option.splits)
    with inline_submit_completes [OF C [unfolded Ready], of a P w] show ?thesis
      by (fastforce simp: is_ready_def submit_ready_def)
  next
    case pending: Pending
    with seq op obtain kc' t2 where k: "kc = Some kc'" "record_completion D t' (k_result kc') (k_transferred kc') = Some t2"
      "finish t2 (k_result kc') = (r, b)"
      by (auto simp: submit_read_def prod_eq_iff split: option.splits)
    from packet [OF op [unfolded pending k(1)]] delivers_split obtain xs e ys where
      e: "port_poll hr Gqcs timeout = Inr (xs @ e # ys)" "lpOverlapped e = a" "lpCompletionKey e = KEY_OPERATION"
        "a \<notin> set (map lpOverlapped (op_entries xs))" "entry_result hr rtl e = k_result kc'"
        "entry_transferred e = k_transferred kc'" by metis
    from pending_submit_completes [OF ok C [unfolded pending] e(1-4), of rtl w] k(2,3) e(5,6) show ?thesis
      by (fastforce simp: is_ready_def submit_pending_def read_opcode_def)
  qed
qed

text \<open>A read of two bytes that stays pending until a wait returns its packet.\<close>

definition late_read :: read_call where
  "late_read h p n ov m = \<lparr>k_ok = False, k_high = 0, k_err = hr_win32 ERROR_IO_PENDING, k_mem = m, k_result = Inr 2,
     k_transferred = 2, k_done_mem = mem_write m p [7, 8]\<rparr>"

definition late_packet :: OVERLAPPED_ENTRY where
  "late_packet = \<lparr>lpCompletionKey = KEY_OPERATION, lpOverlapped = 5, Internal = 0, dwNumberOfBytesTransferred = 2\<rparr>"

definition late_opcode :: "vec ReadHandleAt may_panic OpCode" where
  "late_opcode = read_opcode hr_win32 vec_IoBufMut late_read (\<lambda>_. Inr ()) (\<lambda>_. None)"

theorem read_through_reactor_witness:
  "\<exists>sub P1 P2 k res t2 s k'. proactor_submit late_opcode 5
       (Some (read_handle_at_new 1 0 \<lparr>vptr = 100, vcap = 4, vlen = 0\<rparr>)) (proactor_new {}) = Some (sub, P1) \<and>
     (if is_ready sub then P2 = P1
      else \<exists>n. proactor_poll hr_win32 id late_opcode (\<lambda>_. Inr [late_packet]) None P1 = Some (Inr n, P2)) \<and>
     heap P2 5 = Some k \<and> submit_poll (9::nat) sub k = Some (Ready (res, Some t2), s, k') \<and>
     finish t2 res = (Inr (Bytes 2), \<lparr>vptr = 100, vcap = 4, vlen = 2\<rparr>)"
proof -
  let ?t = "read_handle_at_new 1 0 (\<lparr>vptr = 100, vcap = 4, vlen = 0\<rparr> :: vec)"
  have op: "read_operate hr_win32 vec_IoBufMut late_read ?t \<lparr>Offset = 0, OffsetHigh = 0\<rparr> (\<lambda>_. None) =
      Some (Pending, ?t, Some (late_read 1 100 4 (set_offset \<lparr>Offset = 0, OffsetHigh = 0\<rparr> 0) (\<lambda>_. None)))"
    by (simp add: read_operate_def late_read_def read_handle_at_new_def vec_IoBufMut_def checked_u32_len_def win32_result_def)
  then have seq: "submit_read hr_win32 vec_IoBufMut late_read ?t (\<lambda>_. None) =
      Some (Inr (Bytes 2), \<lparr>vptr = 100, vcap = 4, vlen = 2\<rparr>, mem_write (\<lambda>_. None) 100 [7, 8])"
    by (simp add: submit_read_def late_read_def read_handle_at_new_def record_completion_def vec_IoBufMut_def
        classify_read_def bytes_total_def finish_def)
  have new: "refs (\<lambda>_. 0) (proactor_new {}) 5 = 0" "5 \<noteq> (0::nat)" by (simp_all add: refs_def proactor_new_def)
  have packet: "\<exists>es. port_poll hr_win32 (\<lambda>_. Inr [late_packet]) None = Inr es \<and> delivers hr_win32 id es 5 kc"
    if "read_operate hr_win32 vec_IoBufMut late_read ?t \<lparr>Offset = 0, OffsetHigh = 0\<rparr> (\<lambda>_. None) = Some (Pending, t', Some kc)"
    for t' kc
    using that unfolding op
    by (auto simp: port_poll_def delivers_def entry_result_def entry_transferred_def late_packet_def late_read_def)
  show ?thesis
    unfolding late_opcode_def
    by (rule read_through_reactor [OF seq proactor_new_ok new packet])
qed

end
